(* ===== verification/C_Base.thy ===== *)
theory C_Base
  imports Main "HOL-Library.Word" "HOL-Library.Monad_Syntax"
begin

text \<open>
  The shared base of the development: how C values, memory and library calls are represented.

  \<^item> Machine integers are HOL integers; every C conversion or assignment that can change a value is
    written out with the conversion function of the target type (64-bit Linux: \<open>int\<close> has 32 bits,
    \<open>long\<close>, \<open>long long\<close> and \<open>size_t\<close> have 64). Signed overflow, which C leaves undefined, wraps.
  \<^item> A byte is a \<open>char\<close> of HOL; \<open>of_char\<close> reads it as an unsigned number.
  \<^item> An object in memory is the list of its bytes. Every read and write goes through
    \<open>mem_read\<close>, \<open>mem_write\<close> or \<open>byte_at\<close>, which give \<open>None\<close> outside the object. In the whole
    development \<open>None\<close> as the result of an operation means that the C program went wrong there:
    an access outside its object, a \<open>NULL\<close> dereference or a failed \<open>assert\<close>.
  \<^item> A nullable pointer is \<open>NULL\<close> or \<open>Ptr x\<close>.
  \<^item> The allocator is the environment record \<open>cenv\<close>: which request sizes are granted, and what
    the fresh bytes contain.
\<close>

section \<open>Automation shared by the components\<close>

named_theorems c_int_simps "conversions that leave a value in range unchanged"
named_theorems mem_simps "reads and writes inside an object"

section \<open>Machine integers\<close>

definition to_int :: "int \<Rightarrow> int" where
  "to_int x = signed_take_bit 31 x"

definition to_uint :: "int \<Rightarrow> int" where
  "to_uint x = take_bit 32 x"

definition to_ll :: "int \<Rightarrow> int" where
  "to_ll x = signed_take_bit 63 x"

definition to_size :: "int \<Rightarrow> int" where
  "to_size x = take_bit 64 x"

abbreviation INT_MAX :: int where
  "INT_MAX \<equiv> 2147483647"

abbreviation LONG_MAX :: int where
  "LONG_MAX \<equiv> 9223372036854775807"

lemma to_int_id [c_int_simps, simp]: "- 2147483648 \<le> x \<Longrightarrow> x \<le> INT_MAX \<Longrightarrow> to_int x = x"
  by (simp add: to_int_def signed_take_bit_int_eq_self)

lemma to_uint_id [c_int_simps, simp]: "0 \<le> x \<Longrightarrow> x < 4294967296 \<Longrightarrow> to_uint x = x"
  by (simp add: to_uint_def take_bit_int_eq_self)

lemma to_ll_id [c_int_simps, simp]:
  "- 9223372036854775808 \<le> x \<Longrightarrow> x \<le> LONG_MAX \<Longrightarrow> to_ll x = x"
  by (simp add: to_ll_def signed_take_bit_int_eq_self)

lemma to_size_id [c_int_simps, simp]: "0 \<le> x \<Longrightarrow> x < 18446744073709551616 \<Longrightarrow> to_size x = x"
  by (simp add: to_size_def take_bit_int_eq_self)

lemma to_int_range: "- 2147483648 \<le> to_int x" "to_int x \<le> INT_MAX"
  using signed_take_bit_int_greater_eq_minus_exp [of 31 x] signed_take_bit_int_less_exp [of 31 x]
  by (simp_all add: to_int_def)

lemma to_ll_range: "- 9223372036854775808 \<le> to_ll x" "to_ll x \<le> LONG_MAX"
  using signed_take_bit_int_greater_eq_minus_exp [of 63 x] signed_take_bit_int_less_exp [of 63 x]
  by (simp_all add: to_ll_def)

lemma to_size_range: "0 \<le> to_size x" "to_size x < 18446744073709551616"
  using take_bit_int_less_exp [of 64 x] by (simp_all add: to_size_def)

text \<open>The signed conversion of an unsigned 64-bit difference is the conversion of the difference.\<close>

lemma to_int_to_size [simp]: "to_int (to_size x) = to_int x"
  by (simp add: to_int_def to_size_def signed_take_bit_take_bit)

lemma to_size_to_size_add [simp]: "to_size (to_size x + y) = to_size (x + y)"
  by (simp add: to_size_def take_bit_eq_mod mod_simps)

section \<open>Pointers, bytes and the allocator\<close>

datatype 'a ptr = NULL | Ptr (deref: 'a)

type_synonym bytes = "char list"

abbreviation NUL :: char where "NUL \<equiv> CHR 0x00"
abbreviation CR :: char where "CR \<equiv> CHR 0x0D"
abbreviation LF :: char where "LF \<equiv> CHR 0x0A"

record cenv =
  granted :: "int \<Rightarrow> bool" \<comment> \<open>whether a request of this many bytes succeeds\<close>
  junk :: "nat \<Rightarrow> char"     \<comment> \<open>the content of fresh memory, by offset\<close>

text \<open>An environment in which every request is granted.\<close>

definition plenty :: "cenv \<Rightarrow> bool" where
  "plenty e \<longleftrightarrow> (\<forall>n. granted e n)"

definition fresh :: "cenv \<Rightarrow> int \<Rightarrow> bytes" where
  "fresh e n = map (junk e) [0..<nat n]"

definition regrow :: "cenv \<Rightarrow> bytes \<Rightarrow> int \<Rightarrow> bytes" where
  "regrow e b n = take (nat n) b @ map (junk e) [length b..<nat n]"

definition zeros :: "int \<Rightarrow> bytes" where
  "zeros n = replicate (nat n) NUL"

lemma length_fresh [simp]: "length (fresh e n) = nat n"
  by (simp add: fresh_def)

lemma length_regrow [simp]: "length (regrow e b n) = nat n"
  by (simp add: regrow_def)

lemma length_zeros [simp]: "length (zeros n) = nat n"
  by (simp add: zeros_def)

lemma take_regrow [simp]: "k \<le> length b \<Longrightarrow> k \<le> nat n \<Longrightarrow> take k (regrow e b n) = take k b"
  by (simp add: regrow_def min_def)

lemma nth_regrow [simp]: "k < length b \<Longrightarrow> k < nat n \<Longrightarrow> regrow e b n ! k = b ! k"
  by (simp add: regrow_def nth_append)

section \<open>Reads and writes\<close>

definition mem_read :: "bytes \<Rightarrow> int \<Rightarrow> int \<Rightarrow> bytes option" where
  "mem_read b off n =
     (if 0 \<le> off \<and> 0 \<le> n \<and> off + n \<le> int (length b)
      then Some (take (nat n) (drop (nat off) b)) else None)"

definition mem_write :: "bytes \<Rightarrow> int \<Rightarrow> bytes \<Rightarrow> bytes option" where
  "mem_write b off src =
     (if 0 \<le> off \<and> off + int (length src) \<le> int (length b)
      then Some (take (nat off) b @ src @ drop (nat off + length src) b) else None)"

definition byte_at :: "bytes \<Rightarrow> int \<Rightarrow> char option" where
  "byte_at b i = (if 0 \<le> i \<and> i < int (length b) then Some (b ! nat i) else None)"

definition c_strlen :: "bytes \<Rightarrow> int option" where
  "c_strlen b = (if NUL \<in> set b then Some (int (length (takeWhile (\<lambda>c. c \<noteq> NUL) b))) else None)"

definition cstr :: "bytes \<Rightarrow> bytes" where
  "cstr s = s @ [NUL]"

definition c_assert :: "bool \<Rightarrow> unit option" where
  "c_assert p = (if p then Some () else None)"

lemma c_assert_simps [simp]: "c_assert True = Some ()" "c_assert False = None"
  by (simp_all add: c_assert_def)

lemma mem_read_in [mem_simps]:
  "0 \<le> off \<Longrightarrow> 0 \<le> n \<Longrightarrow> off + n \<le> int (length b) \<Longrightarrow>
   mem_read b off n = Some (take (nat n) (drop (nat off) b))"
  by (simp add: mem_read_def)

lemma mem_read_all [simp]: "mem_read b 0 (int (length b)) = Some b"
  by (simp add: mem_read_def)

lemma mem_write_in [mem_simps]:
  "0 \<le> off \<Longrightarrow> off + int (length src) \<le> int (length b) \<Longrightarrow>
   mem_write b off src = Some (take (nat off) b @ src @ drop (nat off + length src) b)"
  by (simp add: mem_write_def)

lemma mem_write_block:
  "length old = length src \<Longrightarrow> off = int (length xs) \<Longrightarrow>
   mem_write (xs @ old @ ys) off src = Some (xs @ src @ ys)"
  by (simp add: mem_write_def)

lemma mem_write_byte: "off = int (length xs) \<Longrightarrow> mem_write (xs @ y # ys) off [z] = Some (xs @ z # ys)"
  using mem_write_block [of "[y]" "[z]" off xs ys] by simp

lemma mem_write_length: "mem_write b off src = Some b' \<Longrightarrow> length b' = length b"
  by (auto simp: mem_write_def split: if_splits)

lemma byte_at_in [mem_simps]: "0 \<le> i \<Longrightarrow> i < int (length b) \<Longrightarrow> byte_at b i = Some (b ! nat i)"
  by (simp add: byte_at_def)

lemma takeWhile_no_NUL [simp]: "NUL \<notin> set s \<Longrightarrow> takeWhile (\<lambda>c. c \<noteq> NUL) s = s"
  by (auto simp: takeWhile_eq_all_conv)

lemma byte_at_append: "i = int (length xs) \<Longrightarrow> byte_at (xs @ y # ys) i = Some y"
  by (simp add: byte_at_def nth_append)

lemma c_strlen_cstr [simp]: "NUL \<notin> set s \<Longrightarrow> c_strlen (cstr s) = Some (int (length s))"
  by (simp add: c_strlen_def cstr_def takeWhile_tail)

lemma c_strlen_bound: "c_strlen b = Some n \<Longrightarrow> 0 \<le> n \<and> n < int (length b)"
proof -
  assume "c_strlen b = Some n"
  then have nul: "NUL \<in> set b" and n: "n = int (length (takeWhile (\<lambda>c. c \<noteq> NUL) b))"
    by (auto simp: c_strlen_def split: if_splits)
  from nul have "length (takeWhile (\<lambda>c. c \<noteq> NUL) b) < length b"
    by (induction b) auto
  with n show ?thesis by simp
qed

section \<open>Character classes of the C locale\<close>

definition c_isprint :: "char \<Rightarrow> bool" where
  "c_isprint c \<longleftrightarrow> 32 \<le> (of_char c :: nat) \<and> (of_char c :: nat) \<le> 126"

definition c_isspace :: "char \<Rightarrow> bool" where
  "c_isspace c \<longleftrightarrow> c = CHR '' '' \<or> (9 \<le> (of_char c :: nat) \<and> (of_char c :: nat) \<le> 13)"

definition c_isdigit :: "char \<Rightarrow> bool" where
  "c_isdigit c \<longleftrightarrow> 48 \<le> (of_char c :: nat) \<and> (of_char c :: nat) \<le> 57"

definition c_tolower :: "char \<Rightarrow> char" where
  "c_tolower c = (if 65 \<le> (of_char c :: nat) \<and> (of_char c :: nat) \<le> 90
                  then char_of (of_char c + 32 :: nat) else c)"

definition c_toupper :: "char \<Rightarrow> char" where
  "c_toupper c = (if 97 \<le> (of_char c :: nat) \<and> (of_char c :: nat) \<le> 122
                  then char_of (of_char c - 32 :: nat) else c)"

section \<open>Decimal notation\<close>

text \<open>The reference for every routine that prints a number: the decimal digits, most significant first.\<close>

definition digit_char :: "nat \<Rightarrow> char" where
  "digit_char d = char_of (48 + d)"

fun dec_string :: "nat \<Rightarrow> string" where
  "dec_string n = (if n < 10 then [digit_char n] else dec_string (n div 10) @ [digit_char (n mod 10)])"

declare dec_string.simps [simp del]

definition dec_int :: "int \<Rightarrow> string" where
  "dec_int i = (if i < 0 then CHR ''-'' # dec_string (nat (- i)) else dec_string (nat i))"

lemma of_char_digit_char [simp]: "d < 10 \<Longrightarrow> (of_char (digit_char d) :: nat) = 48 + d"
  by (simp add: digit_char_def)

lemma dec_string_nonempty [simp]: "dec_string n \<noteq> []"
  by (subst dec_string.simps) simp

lemma dec_string_small: "n < 10 \<Longrightarrow> dec_string n = [digit_char n]"
  by (subst dec_string.simps) simp

lemma dec_string_big: "\<not> n < 10 \<Longrightarrow> dec_string n = dec_string (n div 10) @ [digit_char (n mod 10)]"
  by (subst dec_string.simps) simp

lemma dec_string_digits: "c \<in> set (dec_string n) \<Longrightarrow> \<exists>d < 10. c = digit_char d"
proof (induction n rule: dec_string.induct)
  case (1 n)
  show ?case
  proof (cases "n < 10")
    case True
    with "1.prems" show ?thesis by (auto simp: dec_string_small)
  next
    case False
    with "1.prems" consider "c \<in> set (dec_string (n div 10))" | "c = digit_char (n mod 10)"
      by (auto simp: dec_string_big)
    then show ?thesis
    proof cases
      case 1
      with "1.IH" False show ?thesis by blast
    next
      case 2
      then show ?thesis by (intro exI [of _ "n mod 10"]) simp
    qed
  qed
qed

lemma dec_string_isdigit: "c \<in> set (dec_string n) \<Longrightarrow> c_isdigit c"
  by (auto dest!: dec_string_digits simp: c_isdigit_def)

lemma dec_string_length_le: "n < 10 ^ k \<Longrightarrow> 0 < k \<Longrightarrow> length (dec_string n) \<le> k"
proof (induction n arbitrary: k rule: dec_string.induct)
  case (1 n)
  show ?case
  proof (cases "n < 10")
    case True
    with "1.prems" show ?thesis by (simp add: dec_string_small)
  next
    case False
    from "1.prems" obtain j where k: "k = Suc j" by (cases k) auto
    with "1.prems" False have j: "0 < j" by (cases j) auto
    from "1.prems" k have "n div 10 < 10 ^ j" by (simp add: less_mult_imp_div_less)
    with "1.IH" [OF False] j have "length (dec_string (n div 10)) \<le> j" by blast
    with False k show ?thesis by (simp add: dec_string_big)
  qed
qed

end
