(* ===== verification/Ltram.thy ===== *)
theory Ltram
  imports C_Base
begin

text \<open>
  The write-fault handler of the kernel module, \<open>ltram_module/ltram.c\<close>: the statistics
  counters and \<open>ltram_page_mkwrite\<close>, which moves a page that a process writes to out of the
  LtRAM zone.

  The kernel is not part of the repository (it is a submodule), so its calls are the fields of the
  record \<open>kernel_ops\<close>, over an arbitrary kernel state: \<open>page_folio\<close>, \<open>folio_zonenum\<close>,
  \<open>ltram_migrate_from\<close> and the number of the zone, \<open>ZONE_LTRAM\<close>. The text that
  \<open>pr_warn_ratelimited\<close> logs is not modelled. What the handler relies on
  (\<open>ltram_migrate_from\<close> returns 0 only when the page was moved) is a named hypothesis,
  \<open>migrate_moves\<close>.
\<close>

section \<open>State and kernel interface\<close>

record ltram_stats =
  nr_repat :: "64 word"
  nr_repat_fail :: "64 word"
  nr_warn_wrong_zone :: "64 word"

datatype vm_fault_t = VM_FAULT_NONE | VM_FAULT_RETRY | VM_FAULT_NOPAGE

record ('k, 'page, 'folio) kernel_ops =
  page_folio :: "'k \<Rightarrow> 'page \<Rightarrow> 'folio"
  folio_zonenum :: "'k \<Rightarrow> 'folio \<Rightarrow> int"
  ltram_migrate_from :: "'k \<Rightarrow> 'folio \<Rightarrow> int \<times> 'k"
  ZONE_LTRAM :: int

definition init_stats :: ltram_stats where
  "init_stats = \<lparr>nr_repat = 0, nr_repat_fail = 0, nr_warn_wrong_zone = 0\<rparr>"

section \<open>The handler\<close>

definition ltram_page_mkwrite ::
  "('k, 'page, 'folio) kernel_ops \<Rightarrow> 'page \<Rightarrow> ltram_stats \<times> 'k \<Rightarrow> vm_fault_t \<times> ltram_stats \<times> 'k" where
  "ltram_page_mkwrite ops page = (\<lambda>(st, k).
     let folio = page_folio ops k page in
     if folio_zonenum ops k folio \<noteq> ZONE_LTRAM ops
     then (VM_FAULT_NONE, st\<lparr>nr_warn_wrong_zone := nr_warn_wrong_zone st + 1\<rparr>, k)
     else (let (err, k') = ltram_migrate_from ops k folio in
       if err \<noteq> 0
       then (VM_FAULT_RETRY, st\<lparr>nr_repat_fail := nr_repat_fail st + 1\<rparr>, k')
       else (VM_FAULT_NOPAGE, st\<lparr>nr_repat := nr_repat st + 1\<rparr>, k')))"

text \<open>The handler run on a sequence of faults, the way the kernel delivers them.\<close>

fun mkwrite_run ::
  "('k, 'page, 'folio) kernel_ops \<Rightarrow> 'page list \<Rightarrow> ltram_stats \<times> 'k \<Rightarrow> vm_fault_t list \<times> ltram_stats \<times> 'k" where
  "mkwrite_run ops [] s = ([], s)"
| "mkwrite_run ops (p # ps) s =
     (let (v, s') = ltram_page_mkwrite ops p s; (vs, s'') = mkwrite_run ops ps s' in (v # vs, s''))"

definition in_ltram :: "('k, 'page, 'folio) kernel_ops \<Rightarrow> 'k \<Rightarrow> 'page \<Rightarrow> bool" where
  "in_ltram ops k p \<longleftrightarrow> folio_zonenum ops k (page_folio ops k p) = ZONE_LTRAM ops"

text \<open>
  What the comment of the handler says of \<open>ltram_migrate_from\<close>: when it reports success, the
  page that mapped the source folio now maps a folio outside the LtRAM zone.
\<close>

definition migrate_moves :: "('k, 'page, 'folio) kernel_ops \<Rightarrow> bool" where
  "migrate_moves ops \<longleftrightarrow> (\<forall>k p k'. in_ltram ops k p \<longrightarrow>
     ltram_migrate_from ops k (page_folio ops k p) = (0, k') \<longrightarrow> \<not> in_ltram ops k' p)"

section \<open>Lemmas\<close>

definition events :: "ltram_stats \<Rightarrow> 64 word" where
  "events st = nr_repat st + nr_repat_fail st + nr_warn_wrong_zone st"

definition count_faults :: "vm_fault_t \<Rightarrow> vm_fault_t list \<Rightarrow> 64 word" where
  "count_faults v vs = of_nat (length (filter (\<lambda>x. x = v) vs))"

lemma count_faults_simps [simp]:
  "count_faults v [] = 0"
  "count_faults v (x # xs) = (if x = v then 1 else 0) + count_faults v xs"
  by (simp_all add: count_faults_def)

text \<open>Each call counts exactly one event, the one its return value names.\<close>

lemma mkwrite_counts_one:
  assumes "ltram_page_mkwrite ops p (st, k) = (v, st', k')"
  shows "nr_repat st' = nr_repat st + (if v = VM_FAULT_NOPAGE then 1 else 0)"
    and "nr_repat_fail st' = nr_repat_fail st + (if v = VM_FAULT_RETRY then 1 else 0)"
    and "nr_warn_wrong_zone st' = nr_warn_wrong_zone st + (if v = VM_FAULT_NONE then 1 else 0)"
  using assms by (auto simp: ltram_page_mkwrite_def Let_def split: if_splits prod.splits)

lemma mkwrite_result_iff:
  "fst (ltram_page_mkwrite ops p (st, k)) =
     (if \<not> in_ltram ops k p then VM_FAULT_NONE
      else if fst (ltram_migrate_from ops k (page_folio ops k p)) = 0 then VM_FAULT_NOPAGE
      else VM_FAULT_RETRY)"
  by (auto simp: ltram_page_mkwrite_def in_ltram_def Let_def split: prod.splits)

lemma mkwrite_run_length: "length (fst (mkwrite_run ops ps s)) = length ps"
  by (induction ps arbitrary: s) (simp_all add: Let_def case_prod_beta)

lemma mkwrite_run_counters:
  assumes "mkwrite_run ops ps (st, k) = (vs, st', k')"
  shows "nr_repat st' = nr_repat st + count_faults VM_FAULT_NOPAGE vs \<and>
    nr_repat_fail st' = nr_repat_fail st + count_faults VM_FAULT_RETRY vs \<and>
    nr_warn_wrong_zone st' = nr_warn_wrong_zone st + count_faults VM_FAULT_NONE vs"
  using assms
proof (induction ps arbitrary: st k vs)
  case Nil
  then show ?case by simp
next
  case (Cons p ps)
  from Cons.prems obtain v st1 k1 vs1 where step: "ltram_page_mkwrite ops p (st, k) = (v, st1, k1)"
    and run: "mkwrite_run ops ps (st1, k1) = (vs1, st', k')" and vs: "vs = v # vs1"
    by (auto simp: Let_def split: prod.splits)
  from Cons.IH [OF run] show ?case
    by (simp add: vs mkwrite_counts_one [OF step] add.assoc)
qed

text \<open>What each result of the handler says about the page before and after the call.\<close>

lemma mkwrite_outcome:
  assumes contract: "migrate_moves ops"
    and run: "ltram_page_mkwrite ops p (st, k) = (v, st', k')"
  shows "(v = VM_FAULT_NONE \<longrightarrow> \<not> in_ltram ops k p \<and> k' = k) \<and>
    (v = VM_FAULT_NOPAGE \<longrightarrow> in_ltram ops k p \<and> \<not> in_ltram ops k' p) \<and>
    (v = VM_FAULT_RETRY \<longrightarrow> in_ltram ops k p)"
proof -
  obtain err k1 where mig: "ltram_migrate_from ops k (page_folio ops k p) = (err, k1)"
    by (cases "ltram_migrate_from ops k (page_folio ops k p)")
  show ?thesis
  proof (cases "in_ltram ops k p")
    case False
    with run show ?thesis
      by (auto simp: ltram_page_mkwrite_def in_ltram_def Let_def)
  next
    case True
    with run mig have "k' = k1" and "v = (if err = 0 then VM_FAULT_NOPAGE else VM_FAULT_RETRY)"
      by (auto simp: ltram_page_mkwrite_def in_ltram_def Let_def split: if_splits)
    with True mig contract show ?thesis
      by (auto simp: migrate_moves_def)
  qed
qed

section \<open>Properties\<close>

text \<open>
  C1. Writes never go through to LtRAM: when \<open>ltram_page_mkwrite\<close> lets the store proceed on the
  current mapping (it returns 0), the page is not in the LtRAM zone and the kernel state is
  untouched; when it asks the kernel to retry the store after a migration
  (\<open>VM_FAULT_NOPAGE\<close>) the page was in LtRAM and has left it.
\<close>

theorem mkwrite_never_writes_ltram:
  assumes "migrate_moves ops" "ltram_page_mkwrite ops p (st, k) = (v, st', k')"
  shows "(v = VM_FAULT_NONE \<longrightarrow> \<not> in_ltram ops k p \<and> k' = k) \<and>
    (v = VM_FAULT_NOPAGE \<longrightarrow> in_ltram ops k p \<and> \<not> in_ltram ops k' p) \<and>
    (v = VM_FAULT_RETRY \<longrightarrow> in_ltram ops k p)"
  by (rule mkwrite_outcome [OF assms])

text \<open>A concrete kernel of two zones: each page number maps a folio, migration moves it to zone 2.\<close>

definition demo_kernel :: "(nat \<Rightarrow> int, nat, nat) kernel_ops" where
  "demo_kernel = \<lparr>page_folio = (\<lambda>k p. p), folio_zonenum = (\<lambda>k f. k f),
     ltram_migrate_from = (\<lambda>k f. (0, k(f := 2))), ZONE_LTRAM = 4\<rparr>"

lemma demo_kernel_moves: "migrate_moves demo_kernel"
  by (auto simp: migrate_moves_def demo_kernel_def in_ltram_def)

lemma demo_mkwrite:
  "ltram_page_mkwrite demo_kernel 7 (init_stats, \<lambda>_. 4) =
     (VM_FAULT_NOPAGE, init_stats\<lparr>nr_repat := 1\<rparr>, (\<lambda>_. 4)(7 := 2))"
  by (simp add: ltram_page_mkwrite_def demo_kernel_def init_stats_def)

theorem mkwrite_never_writes_ltram_witness:
  "in_ltram demo_kernel (\<lambda>_. 4) 7 \<and> \<not> in_ltram demo_kernel ((\<lambda>_. 4)(7 := 2)) 7"
  using mkwrite_never_writes_ltram [OF demo_kernel_moves demo_mkwrite] by simp

text \<open>
  The counters account for every fault: over any sequence of write faults each of the three
  counters grows (modulo the width of \<open>atomic_long_t\<close>) by the number of faults with the matching
  return value, and together they grow by the number of faults.
\<close>

theorem mkwrite_run_accounting:
  assumes "mkwrite_run ops ps (st, k) = (vs, st', k')"
  shows "nr_repat st' = nr_repat st + count_faults VM_FAULT_NOPAGE vs \<and>
    nr_repat_fail st' = nr_repat_fail st + count_faults VM_FAULT_RETRY vs \<and>
    nr_warn_wrong_zone st' = nr_warn_wrong_zone st + count_faults VM_FAULT_NONE vs \<and>
    events st' = events st + of_nat (length ps)"
proof -
  have len: "length vs = length ps"
    using mkwrite_run_length [of ops ps "(st, k)"] assms by simp
  have "count_faults VM_FAULT_NOPAGE vs + count_faults VM_FAULT_RETRY vs
      + count_faults VM_FAULT_NONE vs = of_nat (length vs)"
  proof (induction vs)
    case (Cons v vs)
    then show ?case by (cases v) (simp_all add: ac_simps)
  qed simp
  with mkwrite_run_counters [OF assms] len show ?thesis
    by (simp add: events_def algebra_simps)
qed

theorem mkwrite_run_accounting_witness:
  "events (fst (snd (mkwrite_run demo_kernel [7, 7, 3] (init_stats, \<lambda>_. 4)))) = 3"
proof -
  obtain vs st' k' where run: "mkwrite_run demo_kernel [7, 7, 3] (init_stats, \<lambda>_. 4) = (vs, st', k')"
    by (cases "mkwrite_run demo_kernel [7, 7, 3] (init_stats, \<lambda>_. 4)")
  have "events init_stats = 0" by (simp add: events_def init_stats_def)
  with mkwrite_run_accounting [OF run] run show ?thesis by simp
qed

end
