(* ===== verification/Stress.thy ===== *)
theory Stress
  imports Ltram
begin

text \<open>
  The stress load, \<open>workloads/rwstress/ltram_rw_stress.c\<close>: the pages of a file are first only read, so that the kernel
  places them in the long-term memory zone, then made writable and written.

  The results of the system calls are a function of the calls so far, a parameter. What the calls mean for the process is kept in the
  state: the open descriptors, the size of the file, the mapping with its protection. An access that the mapping does not
  allow, or behind the end of the file, is \<open>None\<close>, as is the release of something the process does not hold. A
  store that faults runs the handler of \<open>Ltram\<close> by the protocol that \<open>ltram.c\<close> states in its comments: a fault that
  ends with \<open>VM_FAULT_RETRY\<close> is raised again, otherwise the store goes through. The log notes the zone it goes to.
  The messages of the program are not modelled.
\<close>

section \<open>The process and its system calls\<close>

datatype rw_event =
    Open bytes
  | Ftruncate int "64 word"
  | Mmap "64 word" int
  | Load "64 word"
  | Mprotect "64 word" "64 word"
  | Store "64 word" "8 word" int      \<comment> \<open>address, byte, and the zone of the page\<close>
  | Msync "64 word" "64 word"
  | Munmap "64 word" "64 word"
  | Close int
  | Unlink bytes

record 'k rw_state =
  rw_log :: "rw_event list"
  rw_fds :: "int set"
  rw_fsize :: nat
  rw_map :: "(64 word \<times> 64 word \<times> bool) option"   \<comment> \<open>start, length, and whether stores are allowed\<close>
  rw_mem :: "ltram_stats \<times> 'k"

record ('k, 'page, 'folio) rw_env =
  e_ops :: "('k, 'page, 'folio) kernel_ops"
  e_page :: "64 word \<Rightarrow> 'page"
  e_faults :: "'k \<Rightarrow> 64 word \<Rightarrow> bool"
  e_result :: "rw_event list \<Rightarrow> rw_event \<Rightarrow> int"

definition sys_call :: "('k, 'page, 'folio) rw_env \<Rightarrow> rw_event \<Rightarrow> 'k rw_state \<Rightarrow> int \<times> 'k rw_state" where
  "sys_call env ev st = (e_result env (rw_log st) ev, st\<lparr>rw_log := rw_log st @ [ev]\<rparr>)"

definition sys_open :: "('k, 'page, 'folio) rw_env \<Rightarrow> bytes \<Rightarrow> 'k rw_state \<Rightarrow> int \<times> 'k rw_state" where
  "sys_open env path st = (case sys_call env (Open path) st of (fd, st1) \<Rightarrow>
     if fd < 0 then (fd, st1) else (fd, st1\<lparr>rw_fds := insert fd (rw_fds st1), rw_fsize := 0\<rparr>))"

definition sys_ftruncate :: "('k, 'page, 'folio) rw_env \<Rightarrow> int \<Rightarrow> 64 word \<Rightarrow> 'k rw_state \<Rightarrow> int \<times> 'k rw_state" where
  "sys_ftruncate env fd len st = (case sys_call env (Ftruncate fd len) st of (rc, st1) \<Rightarrow>
     if rc < 0 then (rc, st1) else (rc, st1\<lparr>rw_fsize := unat len\<rparr>))"

definition MAP_FAILED :: "64 word" where "MAP_FAILED = - 1"

definition sys_mmap :: "('k, 'page, 'folio) rw_env \<Rightarrow> 64 word \<Rightarrow> int \<Rightarrow> 'k rw_state \<Rightarrow> 64 word \<times> 'k rw_state" where
  "sys_mmap env len fd st = (case sys_call env (Mmap len fd) st of (r, st1) \<Rightarrow> let p = word_of_int r in
     if p = MAP_FAILED then (p, st1) else (p, st1\<lparr>rw_map := Some (p, len, False)\<rparr>))"

definition sys_mprotect :: "('k, 'page, 'folio) rw_env \<Rightarrow> 64 word \<Rightarrow> 64 word \<Rightarrow> 'k rw_state \<Rightarrow> int \<times> 'k rw_state" where
  "sys_mprotect env p len st = (case sys_call env (Mprotect p len) st of (rc, st1) \<Rightarrow>
     if rc < 0 then (rc, st1) else (rc, st1\<lparr>rw_map := map_option (\<lambda>(q, l, w). (q, l, q = p \<and> l = len \<or> w)) (rw_map st1)\<rparr>))"

definition sys_munmap :: "('k, 'page, 'folio) rw_env \<Rightarrow> 64 word \<Rightarrow> 64 word \<Rightarrow> 'k rw_state \<Rightarrow> 'k rw_state option" where
  "sys_munmap env p len st = (case rw_map st of None \<Rightarrow> None | Some (q, l, w) \<Rightarrow>
     if q = p \<and> l = len then Some ((snd (sys_call env (Munmap p len) st))\<lparr>rw_map := None\<rparr>) else None)"

definition sys_close :: "('k, 'page, 'folio) rw_env \<Rightarrow> int \<Rightarrow> 'k rw_state \<Rightarrow> 'k rw_state option" where
  "sys_close env fd st = (if fd \<in> rw_fds st then Some ((snd (sys_call env (Close fd) st))\<lparr>rw_fds := rw_fds st - {fd}\<rparr>) else None)"

section \<open>Memory\<close>

definition accessible :: "bool \<Rightarrow> 64 word \<Rightarrow> 'k rw_state \<Rightarrow> bool" where
  "accessible wr a st \<longleftrightarrow> (case rw_map st of None \<Rightarrow> False
     | Some (p, len, w) \<Rightarrow> a - p < len \<and> unat (a - p) < rw_fsize st \<and> (wr \<longrightarrow> w))"

partial_function (option) write_fault :: "('k, 'page, 'folio) kernel_ops \<Rightarrow> 'page \<Rightarrow> ltram_stats \<times> 'k \<Rightarrow> (ltram_stats \<times> 'k) option" where
  "write_fault ops page s = (case ltram_page_mkwrite ops page s of (v, s') \<Rightarrow>
     if v = VM_FAULT_RETRY then write_fault ops page s' else Some s')"

declare write_fault.simps [code]

definition rw_load :: "('k, 'page, 'folio) rw_env \<Rightarrow> 64 word \<Rightarrow> 'k rw_state \<Rightarrow> (int \<times> 'k rw_state) option" where
  "rw_load env a st = (if accessible False a st then Some (sys_call env (Load a) st) else None)"

definition rw_store :: "('k, 'page, 'folio) rw_env \<Rightarrow> 64 word \<Rightarrow> 8 word \<Rightarrow> 'k rw_state \<Rightarrow> 'k rw_state option" where
  "rw_store env a v st = (if accessible True a st then do {
     mem \<leftarrow> (if e_faults env (snd (rw_mem st)) a then write_fault (e_ops env) (e_page env a) (rw_mem st) else Some (rw_mem st));
     let zone = folio_zonenum (e_ops env) (snd mem) (page_folio (e_ops env) (snd mem) (e_page env a));
     Some (st\<lparr>rw_mem := mem, rw_log := rw_log st @ [Store a v zone]\<rparr>) } else None)"

section \<open>The program\<close>

definition PGSZ :: "64 word" where "PGSZ = 4096"

text \<open>\<open>strtol\<close> in base ten, which stops at the ends of the range of \<open>long\<close>.\<close>

definition arg_strtol :: "bytes \<Rightarrow> int" where
  "arg_strtol str = (let s = dropWhile c_isspace str;
       neg = (s \<noteq> [] \<and> hd s = CHR ''-'');
       u = (if s \<noteq> [] \<and> hd s \<in> {CHR ''-'', CHR ''+''} then tl s else s);
       n = foldl (\<lambda>n c. 10 * n + int (of_char c - 48)) 0 (takeWhile c_isdigit u)
     in max (- 9223372036854775808) (min LONG_MAX (if neg then - n else n)))"

text \<open>The counting loops over the first bytes of the pages.\<close>

partial_function (option) page_loop :: "(64 word \<Rightarrow> 's \<Rightarrow> 's option) \<Rightarrow> 64 word \<Rightarrow> 64 word \<Rightarrow> 's \<Rightarrow> 's option" where
  "page_loop f i len s = (if i < len then (case f i s of None \<Rightarrow> None | Some s' \<Rightarrow> page_loop f (i + PGSZ) len s') else Some s)"

declare page_loop.simps [code]

definition read_page :: "('k, 'page, 'folio) rw_env \<Rightarrow> 64 word \<Rightarrow> 64 word \<Rightarrow> 64 word \<times> 'k rw_state \<Rightarrow> (64 word \<times> 'k rw_state) option" where
  "read_page env p i = (\<lambda>(sink, st). do { (v, st1) \<leftarrow> rw_load env (p + i) st; Some (sink + word_of_int (signed_take_bit 7 v), st1) })"

definition write_page :: "('k, 'page, 'folio) rw_env \<Rightarrow> 64 word \<Rightarrow> 64 word \<Rightarrow> 'k rw_state \<Rightarrow> 'k rw_state option" where
  "write_page env p i st = rw_store env (p + i) 0x5a st"

text \<open>The arguments are those after the name of the program.\<close>

definition rw_stress :: "('k, 'page, 'folio) rw_env \<Rightarrow> bytes list \<Rightarrow> 'k rw_state \<Rightarrow> (int \<times> 'k rw_state) option" where
  "rw_stress env args st = (
     let npages = (if args \<noteq> [] then arg_strtol (args ! 0) else 256);
         path = (if length args > 1 then args ! 1 else ''/root/.ltram_rw_stress.dat'');
         len = word_of_int npages * PGSZ;
         (fd, st1) = sys_open env path st
     in if fd < 0 then Some (1, st1) else
     let (rc, st2) = sys_ftruncate env fd len st1
     in if rc < 0 then do { s \<leftarrow> sys_close env fd st2; Some (1, s) } else
     let (p, st3) = sys_mmap env len fd st2
     in if p = MAP_FAILED then do { s \<leftarrow> sys_close env fd st3; Some (1, s) } else do {
       (sink, st4) \<leftarrow> page_loop (read_page env p) 0 len (0, st3);
       let (rc2, st5) = sys_mprotect env p len st4;
       if rc2 < 0 then do { s \<leftarrow> sys_munmap env p len st5; s' \<leftarrow> sys_close env fd s; Some (1, s') }
       else do {
         st6 \<leftarrow> page_loop (write_page env p) 0 len st5;
         let (_, st7) = sys_call env (Msync p len) st6;
         st8 \<leftarrow> sys_munmap env p len st7;
         st9 \<leftarrow> sys_close env fd st8;
         Some (0, snd (sys_call env (Unlink path) st9)) } })"

section \<open>Loops and faults\<close>

definition page_at :: "nat \<Rightarrow> 64 word" where
  "page_at j = word_of_nat (4096 * j)"

lemma page_at_simps [simp]: "page_at 0 = 0" "page_at j + PGSZ = page_at (Suc j)"
  by (simp_all add: page_at_def PGSZ_def algebra_simps)

lemma unat_page_at: "4096 * j < 2 ^ 64 \<Longrightarrow> unat (page_at j) = 4096 * j"
  unfolding page_at_def by (simp add: unsigned_of_nat take_bit_nat_eq_self del: of_nat_mult)

lemma page_at_less: "4096 * n < 2 ^ 64 \<Longrightarrow> j < n \<Longrightarrow> page_at j < page_at n"
  using unat_page_at [of j] unat_page_at [of n] by (simp add: word_less_nat_alt)

lemma page_loop_inv:
  assumes "4096 * n < 2 ^ 64" "P j s" "j \<le> n"
    "\<And>j s. j < n \<Longrightarrow> P j s \<Longrightarrow> \<exists>s'. f (page_at j) s = Some s' \<and> P (Suc j) s'"
  shows "\<exists>s'. page_loop f (page_at j) (page_at n) s = Some s' \<and> P n s'"
  using assms(2,3)
proof (induction "n - j" arbitrary: j s)
  case 0
  then show ?case by (subst page_loop.simps) simp
next
  case (Suc d)
  then have j: "j < n" by simp
  obtain s1 where s1: "f (page_at j) s = Some s1" "P (Suc j) s1" using assms(4) [OF j Suc.prems(1)] by blast
  then show ?case
    using Suc.hyps(1) [of "Suc j" s1] Suc.hyps(2) s1 page_at_less [OF assms(1) j] by (subst page_loop.simps) simp
qed

text \<open>Every failed migration brings the kernel closer to one that succeeds.\<close>

definition migration_ends :: "('k, 'page, 'folio) kernel_ops \<Rightarrow> ('k \<Rightarrow> nat) \<Rightarrow> bool" where
  "migration_ends ops m \<longleftrightarrow> (\<forall>k p err k'. in_ltram ops k p \<longrightarrow> ltram_migrate_from ops k (page_folio ops k p) = (err, k') \<longrightarrow>
     err \<noteq> 0 \<longrightarrow> m k' < m k)"

lemma write_fault_leaves:
  assumes "migrate_moves ops" "migration_ends ops m"
  shows "\<exists>s'. write_fault ops page s = Some s' \<and> \<not> in_ltram ops (snd s') page"
proof (induction "m (snd s)" arbitrary: s rule: less_induct)
  case less
  obtain st k where s: "s = (st, k)" by fastforce
  obtain v st' k' where r: "ltram_page_mkwrite ops page (st, k) = (v, st', k')" by (metis prod_cases3)
  show ?case
  proof (cases "v = VM_FAULT_RETRY")
    case True
    then have "m k' < m k" using r assms(2)
      by (auto simp: ltram_page_mkwrite_def Let_def migration_ends_def in_ltram_def split: if_splits prod.splits)
    then show ?thesis using less.hyps [of "(st', k')"] True r s by (subst write_fault.simps) simp
  next
    case False
    then show ?thesis using mkwrite_outcome [OF assms(1) r] r s by (subst write_fault.simps) (cases v, auto)
  qed
qed

section \<open>The two phases\<close>

text \<open>The addresses that are touched: the first byte of each page.\<close>

abbreviation first_bytes :: "64 word \<Rightarrow> nat \<Rightarrow> 64 word list" where
  "first_bytes p n \<equiv> map (\<lambda>j. p + page_at j) [0..<n]"

lemma page_accessible:
  assumes "j < n" "4096 * n < 2 ^ 64" "rw_map st = Some (p, page_at n, w)" "rw_fsize st = 4096 * n" "wr \<longrightarrow> w"
  shows "accessible wr (p + page_at j) st"
  using assms unat_page_at [of j] page_at_less [OF assms(2,1)] by (auto simp: accessible_def)

lemma read_phase:
  assumes "4096 * n < 2 ^ 64" "rw_map st = Some (p, page_at n, w)" "rw_fsize st = 4096 * n"
  shows "\<exists>sink. page_loop (read_page env p) 0 (page_at n) (0, st) =
    Some (sink, st\<lparr>rw_log := rw_log st @ map Load (first_bytes p n)\<rparr>)"
proof -
  let ?P = "\<lambda>j (sink :: 64 word, s). s = st\<lparr>rw_log := rw_log st @ map Load (first_bytes p j)\<rparr>"
  have "\<exists>s'. page_loop (read_page env p) (page_at 0) (page_at n) (0, st) = Some s' \<and> ?P n s'"
  proof (rule page_loop_inv [OF assms(1), where P = ?P])
    fix j and ss :: "64 word \<times> 'a rw_state"
    assume j: "j < n" and s: "?P j ss"
    have acc: "accessible False (p + page_at j) (snd ss)"
      using s assms(2,3) by (intro page_accessible [OF j assms(1), where w = w]) auto
    show "\<exists>s'. read_page env p (page_at j) ss = Some s' \<and> ?P (Suc j) s'"
      using s acc by (auto simp: read_page_def rw_load_def sys_call_def)
  qed auto
  then show ?thesis by auto
qed

text \<open>Pages in the zone are mapped without write permission, so that a store to one faults.\<close>

definition ltram_protected :: "('k, 'page, 'folio) rw_env \<Rightarrow> bool" where
  "ltram_protected env \<longleftrightarrow> (\<forall>k a. in_ltram (e_ops env) k (e_page env a) \<longrightarrow> e_faults env k a)"

lemma rw_store_outside:
  assumes "migrate_moves (e_ops env)" "migration_ends (e_ops env) m" "ltram_protected env" "accessible True a st"
  shows "\<exists>mem z. rw_store env a v st = Some (st\<lparr>rw_mem := mem, rw_log := rw_log st @ [Store a v z]\<rparr>) \<and> z \<noteq> ZONE_LTRAM (e_ops env)"
proof -
  obtain mem where mem: "(if e_faults env (snd (rw_mem st)) a then write_fault (e_ops env) (e_page env a) (rw_mem st) else Some (rw_mem st)) = Some mem"
      "\<not> in_ltram (e_ops env) (snd mem) (e_page env a)"
    using write_fault_leaves [OF assms(1,2), of "e_page env a" "rw_mem st"] assms(3) unfolding ltram_protected_def by metis
  let ?z = "folio_zonenum (e_ops env) (snd mem) (page_folio (e_ops env) (snd mem) (e_page env a))"
  have "rw_store env a v st = Some (st\<lparr>rw_mem := mem, rw_log := rw_log st @ [Store a v ?z]\<rparr>)"
    using assms(4) unfolding rw_store_def mem(1) by (simp add: Let_def)
  moreover have "?z \<noteq> ZONE_LTRAM (e_ops env)" using mem(2) by (simp add: in_ltram_def)
  ultimately show ?thesis by blast
qed

definition stores :: "64 word list \<Rightarrow> int list \<Rightarrow> rw_event list" where
  "stores as zs = map2 (\<lambda>a z. Store a 0x5a z) as zs"

lemma write_phase:
  assumes "migrate_moves (e_ops env)" "migration_ends (e_ops env) m" "ltram_protected env"
    "4096 * n < 2 ^ 64" "rw_map st = Some (p, page_at n, True)" "rw_fsize st = 4096 * n"
  shows "\<exists>mem zs. page_loop (write_page env p) 0 (page_at n) st =
      Some (st\<lparr>rw_mem := mem, rw_log := rw_log st @ stores (first_bytes p n) zs\<rparr>) \<and> length zs = n \<and> ZONE_LTRAM (e_ops env) \<notin> set zs"
proof -
  let ?P = "\<lambda>j s. \<exists>mem zs. s = st\<lparr>rw_mem := mem, rw_log := rw_log st @ stores (first_bytes p j) zs\<rparr> \<and> length zs = j \<and> ZONE_LTRAM (e_ops env) \<notin> set zs"
  have "\<exists>s'. page_loop (write_page env p) (page_at 0) (page_at n) st = Some s' \<and> ?P n s'"
  proof (rule page_loop_inv [OF assms(4), where P = ?P])
    show "?P 0 st" by (intro exI [of _ "rw_mem st"] exI [of _ "[]"]) (simp add: stores_def)
  next
    fix j and s :: "'a rw_state"
    assume j: "j < n" and s: "?P j s"
    then obtain mem zs where s: "s = st\<lparr>rw_mem := mem, rw_log := rw_log st @ stores (first_bytes p j) zs\<rparr>" "length zs = j" "ZONE_LTRAM (e_ops env) \<notin> set zs"
      by blast
    have "accessible True (p + page_at j) s"
      using s(1) assms(5,6) by (intro page_accessible [OF j assms(4), where w = True]) auto
    then obtain mem' z where st: "write_page env p (page_at j) s =
        Some (s\<lparr>rw_mem := mem', rw_log := rw_log s @ [Store (p + page_at j) 0x5a z]\<rparr>)" "z \<noteq> ZONE_LTRAM (e_ops env)"
      using rw_store_outside [OF assms(1-3)] unfolding write_page_def by blast
    have "stores (first_bytes p (Suc j)) (zs @ [z]) = stores (first_bytes p j) zs @ [Store (p + page_at j) 0x5a z]"
      using s(2) by (simp add: stores_def)
    then have "?P (Suc j) (s\<lparr>rw_mem := mem', rw_log := rw_log s @ [Store (p + page_at j) 0x5a z]\<rparr>)"
      using s st(2) by (intro exI [of _ mem'] exI [of _ "zs @ [z]"]) simp
    then show "\<exists>s'. write_page env p (page_at j) s = Some s' \<and> ?P (Suc j) s'" using st(1) by blast
  qed simp
  then show ?thesis unfolding page_at_simps(1) by blast
qed

section \<open>The whole run\<close>

text \<open>An open does not return a descriptor that is in use.\<close>

definition new_descriptors :: "('k, 'page, 'folio) rw_env \<Rightarrow> int set \<Rightarrow> bool" where
  "new_descriptors env fds \<longleftrightarrow> (\<forall>log path. e_result env log (Open path) \<notin> fds)"

lemma whole_pages: "\<exists>n. word_of_int k * PGSZ = page_at n \<and> 4096 * n < 2 ^ 64"
proof -
  let ?w = "word_of_int k * PGSZ"
  have "unat ?w = unat (word_of_int k :: 64 word) * 4096 mod 2 ^ 64" by (simp add: unat_word_ariths PGSZ_def)
  then have "4096 dvd unat ?w" by (simp add: dvd_mod)
  then obtain n where n: "unat ?w = 4096 * n" by blast
  have "unat ?w < 2 ^ LENGTH(64)" by (rule unsigned_less)
  then have "4096 * n < 2 ^ 64" using n by simp
  moreover have "page_at n = ?w" unfolding page_at_def n [symmetric] by simp
  ultimately show ?thesis by metis
qed

lemma bind_pair: "do { s \<leftarrow> x; Some (r, s) } = map_option (Pair r) x"
  by (cases x) auto

text \<open>The work between the mapping and the end, from the point where the file is mapped.\<close>

definition rw_work :: "('k, 'page, 'folio) rw_env \<Rightarrow> bytes \<Rightarrow> int \<Rightarrow> 64 word \<Rightarrow> 64 word \<Rightarrow> 'k rw_state \<Rightarrow> (int \<times> 'k rw_state) option" where
  "rw_work env path fd p len st3 = do {
     (sink, st4) \<leftarrow> page_loop (read_page env p) 0 len (0, st3);
     let (rc2, st5) = sys_mprotect env p len st4;
     if rc2 < 0 then do { s \<leftarrow> sys_munmap env p len st5; s' \<leftarrow> sys_close env fd s; Some (1, s') }
     else do {
       st6 \<leftarrow> page_loop (write_page env p) 0 len st5;
       let (_, st7) = sys_call env (Msync p len) st6;
       st8 \<leftarrow> sys_munmap env p len st7;
       st9 \<leftarrow> sys_close env fd st8;
       Some (0, snd (sys_call env (Unlink path) st9)) } }"

lemma rw_work_result:
  assumes "migrate_moves (e_ops env)" "migration_ends (e_ops env) m" "ltram_protected env"
    "4096 * n < 2 ^ 64" "rw_map st = Some (p, page_at n, False)" "rw_fsize st = 4096 * n" "fd \<in> rw_fds st"
  shows "\<exists>rc st' evs. rw_work env path fd p (page_at n) st = Some (rc, st') \<and> rw_map st' = None \<and> rw_fds st' = rw_fds st - {fd} \<and>
    rw_log st' = rw_log st @ map Load (first_bytes p n) @ Mprotect p (page_at n) # evs \<and>
    (rc = 1 \<and> evs = [Munmap p (page_at n), Close fd] \<or>
     rc = 0 \<and> (\<exists>zs. length zs = n \<and> ZONE_LTRAM (e_ops env) \<notin> set zs \<and>
       evs = stores (first_bytes p n) zs @ [Msync p (page_at n), Munmap p (page_at n), Close fd, Unlink path]))"
proof -
  define log4 where "log4 = rw_log st @ map Load (first_bytes p n)"
  obtain sink where r: "page_loop (read_page env p) 0 (page_at n) (0, st) = Some (sink, st\<lparr>rw_log := log4\<rparr>)"
    using read_phase [OF assms(4-6)] unfolding log4_def by blast
  let ?rc = "e_result env log4 (Mprotect p (page_at n))"
  show ?thesis
  proof (cases "?rc < 0")
    case True
    then show ?thesis using r assms(5,7)
      by (simp add: rw_work_def sys_mprotect_def sys_call_def sys_munmap_def sys_close_def) (simp add: log4_def)
  next
    case False
    define st5 where "st5 = st\<lparr>rw_log := log4 @ [Mprotect p (page_at n)], rw_map := Some (p, page_at n, True)\<rparr>"
    have st5: "rw_map st5 = Some (p, page_at n, True)" "rw_fsize st5 = 4096 * n" "rw_fds st5 = rw_fds st" using assms(6) by (simp_all add: st5_def)
    obtain mem zs where w: "page_loop (write_page env p) 0 (page_at n) st5 =
        Some (st5\<lparr>rw_mem := mem, rw_log := rw_log st5 @ stores (first_bytes p n) zs\<rparr>)" "length zs = n" "ZONE_LTRAM (e_ops env) \<notin> set zs"
      using write_phase [OF assms(1-4) st5(1,2)] by blast
    have "sys_mprotect env p (page_at n) (st\<lparr>rw_log := log4\<rparr>) = (?rc, st5)"
      using False assms(5) by (simp add: sys_mprotect_def sys_call_def st5_def)
    then have "rw_work env path fd p (page_at n) st = Some (0, st5\<lparr>rw_mem := mem, rw_map := None, rw_fds := rw_fds st - {fd},
        rw_log := rw_log st5 @ stores (first_bytes p n) zs @ [Msync p (page_at n), Munmap p (page_at n), Close fd, Unlink path]\<rparr>)"
      using r w(1) False assms(7) st5(1,3) by (simp add: rw_work_def sys_call_def sys_munmap_def sys_close_def)
    then show ?thesis using w(2,3) by (auto simp: st5_def log4_def)
  qed
qed

definition is_store :: "rw_event \<Rightarrow> bool" where
  "is_store ev \<longleftrightarrow> (case ev of Store a v z \<Rightarrow> True | _ \<Rightarrow> False)"

lemma is_store_simps [simp]:
  "filter is_store (stores as zs) = stores as zs" "filter is_store (map Load as) = []"
  by (auto simp: is_store_def stores_def filter_id_conv filter_empty_conv)

text \<open>The beginning: an early end, or the file is mapped.\<close>

abbreviation rw_path :: "bytes list \<Rightarrow> bytes" where
  "rw_path args \<equiv> (if length args > 1 then args ! 1 else ''/root/.ltram_rw_stress.dat'')"

lemma rw_stress_start:
  assumes "new_descriptors env (rw_fds st)" "rw_map st = None" "rw_log st = []"
    "page_at n = word_of_int (if args = [] then 256 else arg_strtol (args ! 0)) * PGSZ" "4096 * n < 2 ^ 64"
  shows "(\<exists>st'. rw_stress env args st = Some (1, st') \<and> rw_map st' = None \<and> rw_fds st' = rw_fds st \<and>
      filter is_store (rw_log st') = [] \<and> (\<forall>path. Unlink path \<notin> set (rw_log st'))) \<or>
    (\<exists>fd p st3. rw_stress env args st = rw_work env (rw_path args) fd p (page_at n) st3 \<and> rw_map st3 = Some (p, page_at n, False) \<and>
      rw_fsize st3 = 4096 * n \<and> rw_fds st3 = insert fd (rw_fds st) \<and> fd \<notin> rw_fds st \<and>
      filter is_store (rw_log st3) = [] \<and> (\<forall>path. Unlink path \<notin> set (rw_log st3)))"
proof -
  define path where "path = (if length args > 1 then args ! 1 else ''/root/.ltram_rw_stress.dat'')"
  define k where "k = (if args = [] then 256 else arg_strtol (args ! 0))"
  have n: "word_of_int k * PGSZ = page_at n" "4096 * n < 2 ^ 64" using assms(4,5) by (simp_all add: k_def)
  define fd where "fd = e_result env [] (Open path)"
  define p :: "64 word" where "p = word_of_int (e_result env [Open path, Ftruncate fd (page_at n)] (Mmap (page_at n) fd))"
  have fd: "fd \<notin> rw_fds st" using assms(1) by (simp add: new_descriptors_def fd_def)
  define st1 where "st1 = st\<lparr>rw_log := [Open path], rw_fds := insert fd (rw_fds st), rw_fsize := 0\<rparr>"
  define st2 where "st2 = st1\<lparr>rw_log := [Open path, Ftruncate fd (page_at n)], rw_fsize := 4096 * n\<rparr>"
  define st3 where "st3 = st2\<lparr>rw_log := [Open path, Ftruncate fd (page_at n), Mmap (page_at n) fd], rw_map := Some (p, page_at n, False)\<rparr>"
  let ?rc = "e_result env [Open path] (Ftruncate fd (page_at n))"
  have o: "sys_open env path st = (fd, if fd < 0 then st\<lparr>rw_log := [Open path]\<rparr> else st1)"
    using assms(3) by (simp add: sys_open_def sys_call_def st1_def flip: fd_def)
  have f: "sys_ftruncate env fd (page_at n) st1 = (?rc, if ?rc < 0 then st1\<lparr>rw_log := [Open path, Ftruncate fd (page_at n)]\<rparr> else st2)"
    using unat_page_at [OF n(2)] by (simp add: sys_ftruncate_def sys_call_def st1_def st2_def)
  have m: "sys_mmap env (page_at n) fd st2 =
      (p, if p = MAP_FAILED then st2\<lparr>rw_log := [Open path, Ftruncate fd (page_at n), Mmap (page_at n) fd]\<rparr> else st3)"
    by (simp add: sys_mmap_def sys_call_def Let_def st2_def st3_def p_def)
  have run: "rw_stress env args st = (if fd < 0 then Some (1, st\<lparr>rw_log := [Open path]\<rparr>)
      else if ?rc < 0 then map_option (Pair 1) (sys_close env fd (st1\<lparr>rw_log := [Open path, Ftruncate fd (page_at n)]\<rparr>))
      else if p = MAP_FAILED then map_option (Pair 1) (sys_close env fd (st2\<lparr>rw_log := [Open path, Ftruncate fd (page_at n), Mmap (page_at n) fd]\<rparr>))
      else rw_work env path fd p (page_at n) st3)"
  proof -
    have "(if args \<noteq> [] then arg_strtol (args ! 0) else 256) = k" by (simp add: k_def)
    then have "rw_stress env args st = (case sys_open env path st of (fd, st1) \<Rightarrow> if fd < 0 then Some (1, st1) else
       case sys_ftruncate env fd (page_at n) st1 of (rc, st2) \<Rightarrow> if rc < 0 then map_option (Pair 1) (sys_close env fd st2) else
       case sys_mmap env (page_at n) fd st2 of (p, st3) \<Rightarrow> if p = MAP_FAILED then map_option (Pair 1) (sys_close env fd st3) else
       rw_work env path fd p (page_at n) st3)"
      unfolding rw_stress_def rw_work_def Let_def bind_pair path_def [symmetric] by (simp only: n(1))
    then show ?thesis unfolding o prod.case by (simp add: f m)
  qed
  have closes: "sys_close env fd s = Some (s\<lparr>rw_log := rw_log s @ [Close fd], rw_fds := rw_fds s - {fd}\<rparr>)" if "fd \<in> rw_fds s" for s
    using that by (simp add: sys_close_def sys_call_def)
  have st: "rw_map st1 = None" "rw_map st2 = None" "rw_fds st1 = insert fd (rw_fds st)" "rw_fds st2 = insert fd (rw_fds st)"
    "rw_fds st3 = insert fd (rw_fds st)" "rw_map st3 = Some (p, page_at n, False)" "rw_fsize st3 = 4096 * n"
    using assms(2) by (simp_all add: st1_def st2_def st3_def)
  show ?thesis
  proof (cases "fd < 0 \<or> ?rc < 0 \<or> p = MAP_FAILED")
    case True
    then have "\<exists>st'. rw_stress env args st = Some (1, st') \<and> rw_map st' = None \<and> rw_fds st' = rw_fds st \<and>
      filter is_store (rw_log st') = [] \<and> (\<forall>path. Unlink path \<notin> set (rw_log st'))"
      unfolding run using fd st(1-4) assms(2) by (auto simp: closes is_store_def)
    then show ?thesis by blast
  next
    case False
    have "filter is_store (rw_log st3) = []" "\<forall>path. Unlink path \<notin> set (rw_log st3)" by (simp_all add: st3_def is_store_def)
    moreover have "rw_stress env args st = rw_work env path fd p (page_at n) st3" using run False by simp
    ultimately show ?thesis using st(5-7) fd unfolding path_def [symmetric] by blast
  qed
qed


text \<open>A kernel of two zones in which everything works, and a run over two pages.\<close>

definition demo_rw :: "(nat \<Rightarrow> int, nat, nat) rw_env" where
  "demo_rw = \<lparr>e_ops = demo_kernel, e_page = (\<lambda>a. unat a div 4096), e_faults = (\<lambda>k a. True),
     e_result = (\<lambda>log ev. case ev of Open path \<Rightarrow> 3 | Mmap len fd \<Rightarrow> 65536 | _ \<Rightarrow> 0)\<rparr>"

definition demo_process :: "(nat \<Rightarrow> int) rw_state" where
  "demo_process = \<lparr>rw_log = [], rw_fds = {0, 1, 2}, rw_fsize = 0, rw_map = None, rw_mem = (init_stats, \<lambda>_. 4)\<rparr>"


end
