(* ===== verification/Smoketest.thy ===== *)
theory Smoketest
  imports C_Base "HOL-Library.Multiset"
begin

unbundle bit_operations_syntax

text \<open>
  The in-kernel test suite \<open>ltram_module/ltram_smoketest.c\<close>: its six tests, the macro
  \<open>EXPECT\<close> (an early return of \<open>-EINVAL\<close>) and \<open>ltram_smoketest_init\<close>, which runs the tests once
  and publishes the counts.

  The kernel's allocator is the record \<open>mm_ops\<close> over an arbitrary kernel state. A test runs on a
  \<open>tstate\<close>: the kernel state, and the folios the module holds a reference to (\<open>held\<close>: one entry per
  \<open>folio_alloc\<close> that returned a folio and was not matched by a \<open>folio_put\<close>). \<open>held\<close> is
  bookkeeping of the model, never read by a test. The \<open>pr_info\<close> and \<open>pr_err\<close> texts are left out.
\<close>

section \<open>Kernel interface and state\<close>

record ('k, 'f) mm_ops =
  folio_alloc :: "'k \<Rightarrow> 32 word \<Rightarrow> nat \<Rightarrow> 'f option \<times> 'k"
  folio_put :: "'k \<Rightarrow> 'f \<Rightarrow> 'k"
  folio_nid :: "'k \<Rightarrow> 'f \<Rightarrow> int"
  folio_zonenum :: "'k \<Rightarrow> 'f \<Rightarrow> int"
  folio_address :: "'k \<Rightarrow> 'f \<Rightarrow> 64 word"
  kmalloc_array :: "'k \<Rightarrow> int \<Rightarrow> bool \<times> 'k"
  kfree_array :: "'k \<Rightarrow> 'k"
  store_u32 :: "'k \<Rightarrow> 64 word \<Rightarrow> 32 word \<Rightarrow> 'k"
  load_u32 :: "'k \<Rightarrow> 64 word \<Rightarrow> 32 word"
  memset_page :: "'k \<Rightarrow> 64 word \<Rightarrow> 8 word \<Rightarrow> 'k"
  ZONE_LTRAM :: int
  GFP_LTRAM :: "32 word"
  GFP_THISNODE :: "32 word"
  GFP_KERNEL :: "32 word"
  GFP_HIGHUSER :: "32 word"

record ('k, 'f) tstate =
  kern :: 'k
  held :: "'f list"

record module_params =
  bulk_count :: int
  last_pass_count :: int
  last_fail_count :: int

abbreviation EINVAL :: int where "EINVAL \<equiv> 22"

definition LTRAM_GFP :: "('k, 'f) mm_ops \<Rightarrow> 32 word" where
  "LTRAM_GFP ops = GFP_LTRAM ops OR GFP_THISNODE ops"

definition t_alloc :: "('k, 'f) mm_ops \<Rightarrow> 32 word \<Rightarrow> ('k, 'f) tstate \<Rightarrow> 'f option \<times> ('k, 'f) tstate" where
  "t_alloc ops flags s = (let (r, k) = folio_alloc ops (kern s) flags 0
     in (r, \<lparr>kern = k, held = (case r of None \<Rightarrow> held s | Some f \<Rightarrow> f # held s)\<rparr>))"

definition t_put :: "('k, 'f) mm_ops \<Rightarrow> 'f \<Rightarrow> ('k, 'f) tstate \<Rightarrow> ('k, 'f) tstate" where
  "t_put ops f s = \<lparr>kern = folio_put ops (kern s) f, held = remove1 f (held s)\<rparr>"

section \<open>The tests\<close>

definition test_single_page :: "('k, 'f) mm_ops \<Rightarrow> ('k, 'f) tstate \<Rightarrow> int \<times> ('k, 'f) tstate" where
  "test_single_page ops s =
     (case t_alloc ops (LTRAM_GFP ops) s of
        (None, s1) \<Rightarrow> (- EINVAL, s1)
      | (Some f, s1) \<Rightarrow>
          if folio_nid ops (kern s1) f \<noteq> 1 then (- EINVAL, s1)
          else if folio_zonenum ops (kern s1) f \<noteq> ZONE_LTRAM ops then (- EINVAL, s1)
          else (0, t_put ops f s1))"

text \<open>The allocation loop of test 2: the tracking array, the number allocated, the number misplaced.\<close>

fun bulk_alloc :: "('k, 'f) mm_ops \<Rightarrow> nat \<Rightarrow> 'f option list \<Rightarrow> int \<Rightarrow> int \<Rightarrow> ('k, 'f) tstate \<Rightarrow>
    'f option list \<times> int \<times> int \<times> ('k, 'f) tstate" where
  "bulk_alloc ops 0 folios allocated errors s = (folios, allocated, errors, s)"
| "bulk_alloc ops (Suc n) folios allocated errors s =
     (case t_alloc ops (LTRAM_GFP ops) s of
        (None, s1) \<Rightarrow> bulk_alloc ops n (folios @ [None]) allocated errors s1
      | (Some f, s1) \<Rightarrow>
          let e1 = (if folio_nid ops (kern s1) f \<noteq> 1 then errors + 1 else errors);
              e2 = (if folio_zonenum ops (kern s1) f \<noteq> ZONE_LTRAM ops then e1 + 1 else e1)
          in bulk_alloc ops n (folios @ [Some f]) (allocated + 1) e2 s1)"

fun bulk_free :: "('k, 'f) mm_ops \<Rightarrow> 'f option list \<Rightarrow> ('k, 'f) tstate \<Rightarrow> ('k, 'f) tstate" where
  "bulk_free ops [] s = s"
| "bulk_free ops (None # fs) s = bulk_free ops fs s"
| "bulk_free ops (Some f # fs) s = bulk_free ops fs (t_put ops f s)"

definition test_bulk_allocation ::
  "('k, 'f) mm_ops \<Rightarrow> int \<Rightarrow> ('k, 'f) tstate \<Rightarrow> int \<times> ('k, 'f) tstate" where
  "test_bulk_allocation ops bulk s =
     (let (ok, k) = kmalloc_array ops (kern s) bulk; s0 = s\<lparr>kern := k\<rparr> in
      if \<not> ok then (- EINVAL, s0)
      else let (folios, allocated, errors, s1) = bulk_alloc ops (nat bulk) [] 0 0 s0;
               s2 = bulk_free ops folios s1;
               s3 = s2\<lparr>kern := kfree_array ops (kern s2)\<rparr>
           in if allocated \<noteq> bulk then (- EINVAL, s3)
              else if errors \<noteq> 0 then (- EINVAL, s3)
              else (0, s3))"

definition pattern :: "32 word" where
  "pattern = 0xCAFEBABE"

definition test_write_then_read :: "('k, 'f) mm_ops \<Rightarrow> ('k, 'f) tstate \<Rightarrow> int \<times> ('k, 'f) tstate" where
  "test_write_then_read ops s =
     (case t_alloc ops (LTRAM_GFP ops) s of
        (None, s1) \<Rightarrow> (- EINVAL, s1)
      | (Some f, s1) \<Rightarrow>
          let kva = folio_address ops (kern s1) f in
          if kva = 0 then (- EINVAL, s1)
          else let s2 = s1\<lparr>kern := store_u32 ops (kern s1) kva pattern\<rparr> in
            if load_u32 ops (kern s2) kva \<noteq> pattern then (- EINVAL, s2)
            else (0, t_put ops f s2))"

definition test_kernel_alloc_avoids_ltram ::
  "('k, 'f) mm_ops \<Rightarrow> ('k, 'f) tstate \<Rightarrow> int \<times> ('k, 'f) tstate" where
  "test_kernel_alloc_avoids_ltram ops s =
     (case t_alloc ops (GFP_KERNEL ops) s of
        (None, s1) \<Rightarrow> (- EINVAL, s1)
      | (Some f, s1) \<Rightarrow>
          if folio_zonenum ops (kern s1) f = ZONE_LTRAM ops then (- EINVAL, s1)
          else if folio_nid ops (kern s1) f \<noteq> 0 then (- EINVAL, s1)
          else (0, t_put ops f s1))"

definition test_highuser_alloc_avoids_ltram ::
  "('k, 'f) mm_ops \<Rightarrow> ('k, 'f) tstate \<Rightarrow> int \<times> ('k, 'f) tstate" where
  "test_highuser_alloc_avoids_ltram ops s =
     (case t_alloc ops (GFP_HIGHUSER ops) s of
        (None, s1) \<Rightarrow> (- EINVAL, s1)
      | (Some f, s1) \<Rightarrow>
          if folio_zonenum ops (kern s1) f = ZONE_LTRAM ops then (- EINVAL, s1)
          else (0, t_put ops f s1))"

definition test_alloc_free_realloc ::
  "('k, 'f) mm_ops \<Rightarrow> ('k, 'f) tstate \<Rightarrow> int \<times> ('k, 'f) tstate" where
  "test_alloc_free_realloc ops s =
     (case t_alloc ops (LTRAM_GFP ops) s of
        (None, s1) \<Rightarrow> (- EINVAL, s1)
      | (Some f1, s1) \<Rightarrow>
          let kva = folio_address ops (kern s1) f1;
              s2 = s1\<lparr>kern := memset_page ops (kern s1) kva 0xAB\<rparr>;
              s3 = t_put ops f1 s2
          in (case t_alloc ops (LTRAM_GFP ops) s3 of
                (None, s4) \<Rightarrow> (- EINVAL, s4)
              | (Some f2, s4) \<Rightarrow>
                  if folio_nid ops (kern s4) f2 \<noteq> 1 then (- EINVAL, s4)
                  else (0, t_put ops f2 s4)))"

text \<open>One line of the init routine: run a test, count it as a pass or as a failure.\<close>

definition tally :: "(('k, 'f) tstate \<Rightarrow> int \<times> ('k, 'f) tstate) \<Rightarrow>
    int \<times> int \<times> ('k, 'f) tstate \<Rightarrow> int \<times> int \<times> ('k, 'f) tstate" where
  "tally test = (\<lambda>(passes, fails, s). let (r, s') = test s in
     if r = 0 then (passes + 1, fails, s') else (passes, fails + 1, s'))"

definition suite :: "('k, 'f) mm_ops \<Rightarrow> int \<Rightarrow> (('k, 'f) tstate \<Rightarrow> int \<times> ('k, 'f) tstate) list" where
  "suite ops bulk = [test_single_page ops, test_bulk_allocation ops bulk, test_write_then_read ops,
     test_kernel_alloc_avoids_ltram ops, test_highuser_alloc_avoids_ltram ops,
     test_alloc_free_realloc ops]"

definition ltram_smoketest_init ::
  "('k, 'f) mm_ops \<Rightarrow> module_params \<Rightarrow> ('k, 'f) tstate \<Rightarrow> int \<times> module_params \<times> ('k, 'f) tstate" where
  "ltram_smoketest_init ops m s =
     (let (passes, fails, s') = fold tally (suite ops (bulk_count m)) (0, 0, s)
      in (0, m\<lparr>last_pass_count := passes, last_fail_count := fails\<rparr>, s'))"

section \<open>Reference counting lemmas\<close>

lemma t_alloc_cases:
  obtains (fail) s1 where "t_alloc ops g s = (None, s1)" "held s1 = held s"
  | (ok) f s1 where "t_alloc ops g s = (Some f, s1)" "held s1 = f # held s"
  by (cases "folio_alloc ops (kern s) g 0"; cases "fst (folio_alloc ops (kern s) g 0)")
    (auto simp: t_alloc_def)

lemma held_t_put [simp]: "held (t_put ops f s) = remove1 f (held s)"
  by (simp add: t_put_def)

text \<open>
  A test is \<open>tidy\<close> when it leaks nothing on success and at most one folio on failure, and never
  gives back a folio it did not take.
\<close>

definition tidy :: "(('k, 'f) tstate \<Rightarrow> int \<times> ('k, 'f) tstate) \<Rightarrow> bool" where
  "tidy test \<longleftrightarrow> (\<forall>s r s'. test s = (r, s') \<longrightarrow>
     (r = 0 \<longrightarrow> mset (held s') = mset (held s)) \<and>
     mset (held s) \<subseteq># mset (held s') \<and> length (held s') \<le> length (held s) + 1)"

lemma tidyI:
  assumes "\<And>s r s'. test s = (r, s') \<Longrightarrow> held s' = held s \<or> (r \<noteq> 0 \<and> (\<exists>f. held s' = f # held s))"
  shows "tidy test"
  unfolding tidy_def using assms by fastforce

lemma tidy_single [intro]: "tidy (test_single_page ops)"
proof (rule tidyI)
  fix s r s' assume "test_single_page ops s = (r, s')"
  then show "held s' = held s \<or> (r \<noteq> 0 \<and> (\<exists>f. held s' = f # held s))"
    by (cases rule: t_alloc_cases [of ops "LTRAM_GFP ops" s])
      (auto simp: test_single_page_def split: if_splits)
qed

lemma tidy_write_read [intro]: "tidy (test_write_then_read ops)"
proof (rule tidyI)
  fix s r s' assume "test_write_then_read ops s = (r, s')"
  then show "held s' = held s \<or> (r \<noteq> 0 \<and> (\<exists>f. held s' = f # held s))"
    by (cases rule: t_alloc_cases [of ops "LTRAM_GFP ops" s])
      (auto simp: test_write_then_read_def Let_def split: if_splits)
qed

lemma tidy_kernel [intro]: "tidy (test_kernel_alloc_avoids_ltram ops)"
proof (rule tidyI)
  fix s r s' assume "test_kernel_alloc_avoids_ltram ops s = (r, s')"
  then show "held s' = held s \<or> (r \<noteq> 0 \<and> (\<exists>f. held s' = f # held s))"
    by (cases rule: t_alloc_cases [of ops "GFP_KERNEL ops" s])
      (auto simp: test_kernel_alloc_avoids_ltram_def split: if_splits)
qed

lemma tidy_highuser [intro]: "tidy (test_highuser_alloc_avoids_ltram ops)"
proof (rule tidyI)
  fix s r s' assume "test_highuser_alloc_avoids_ltram ops s = (r, s')"
  then show "held s' = held s \<or> (r \<noteq> 0 \<and> (\<exists>f. held s' = f # held s))"
    by (cases rule: t_alloc_cases [of ops "GFP_HIGHUSER ops" s])
      (auto simp: test_highuser_alloc_avoids_ltram_def split: if_splits)
qed

lemma tidy_realloc [intro]: "tidy (test_alloc_free_realloc ops)"
proof (rule tidyI)
  fix s r s' assume run: "test_alloc_free_realloc ops s = (r, s')"
  show "held s' = held s \<or> (r \<noteq> 0 \<and> (\<exists>f. held s' = f # held s))"
  proof (cases rule: t_alloc_cases [of ops "LTRAM_GFP ops" s])
    case (fail s1)
    with run show ?thesis by (simp add: test_alloc_free_realloc_def)
  next
    case (ok f s1)
    define s3 where "s3 = t_put ops f
      (s1\<lparr>kern := memset_page ops (kern s1) (folio_address ops (kern s1) f) 0xAB\<rparr>)"
    have "held s3 = held s" by (simp add: s3_def ok)
    with run ok show ?thesis
      by (cases rule: t_alloc_cases [of ops "LTRAM_GFP ops" s3])
        (auto simp: test_alloc_free_realloc_def Let_def s3_def split: if_splits)
  qed
qed

text \<open>The bulk test gives back every folio it got, whatever its verdict.\<close>

definition somes :: "'a option list \<Rightarrow> 'a list" where
  "somes xs = List.map_filter (\<lambda>x. x) xs"

lemma somes_simps [simp]:
  "somes [] = []" "somes (None # xs) = somes xs" "somes (Some x # xs) = x # somes xs"
  "somes (xs @ ys) = somes xs @ somes ys"
  by (simp_all add: somes_def map_filter_def)

lemma bulk_alloc_held:
  "bulk_alloc ops n fs a e s = (fs', a', e', s') \<Longrightarrow>
   mset (held s') + mset (somes fs) = mset (held s) + mset (somes fs')"
proof (induction n arbitrary: fs a e s)
  case 0
  then show ?case by simp
next
  case (Suc n)
  show ?case
  proof (cases rule: t_alloc_cases [of ops "LTRAM_GFP ops" s])
    case (fail s1)
    with Suc.prems Suc.IH [of "fs @ [None]" a e s1] show ?thesis by simp
  next
    case (ok f s1)
    with Suc.prems Suc.IH [of "fs @ [Some f]" "a + 1" _ s1] show ?thesis
      by (fastforce simp: Let_def)
  qed
qed

lemma bulk_free_held: "mset (held (bulk_free ops fs s)) = mset (held s) - mset (somes fs)"
  by (induction ops fs s rule: bulk_free.induct) auto

lemma bulk_keeps_held:
  assumes "test_bulk_allocation ops bulk s = (r, s')"
  shows "mset (held s') = mset (held s)"
proof -
  obtain ok k where km: "kmalloc_array ops (kern s) bulk = (ok, k)"
    by (cases "kmalloc_array ops (kern s) bulk")
  obtain fs a e s1 where al: "bulk_alloc ops (nat bulk) [] 0 0 (s\<lparr>kern := k\<rparr>) = (fs, a, e, s1)"
    by (cases "bulk_alloc ops (nat bulk) [] 0 0 (s\<lparr>kern := k\<rparr>)") auto
  from bulk_alloc_held [OF al] have "mset (held s1) = mset (held s) + mset (somes fs)" by simp
  then have "mset (held (bulk_free ops fs s1)) = mset (held s)" by (simp add: bulk_free_held)
  with assms km al show ?thesis
    by (auto simp: test_bulk_allocation_def Let_def split: if_splits)
qed

lemma tidy_bulk [intro]: "tidy (test_bulk_allocation ops bulk)"
  unfolding tidy_def using bulk_keeps_held [THEN mset_eq_length] bulk_keeps_held by fastforce

lemma suite_tidy: "test \<in> set (suite ops bulk) \<Longrightarrow> tidy test"
  by (auto simp: suite_def)

lemma tally_tidy:
  assumes "tidy test" and "tally test (p, f, s) = (p', f', s')"
  shows "p' + f' = p + f + 1 \<and> f \<le> f' \<and> mset (held s) \<subseteq># mset (held s') \<and>
    int (length (held s')) \<le> int (length (held s)) + (f' - f)"
proof -
  obtain r s1 where t: "test s = (r, s1)" by (cases "test s")
  from assms(1) t have s1: "mset (held s) \<subseteq># mset (held s1)" "length (held s1) \<le> length (held s) + 1"
    "r = 0 \<Longrightarrow> mset (held s1) = mset (held s)"
    unfolding tidy_def by blast+
  from s1(3) have "r = 0 \<Longrightarrow> length (held s1) = length (held s)" by (metis mset_eq_length)
  with assms(2) t s1 show ?thesis by (auto simp: tally_def split: if_splits)
qed

lemma fold_tally_tidy:
  assumes "\<And>t. t \<in> set ts \<Longrightarrow> tidy t" and "fold tally ts (p, f, s) = (p', f', s')"
  shows "p' + f' = p + f + int (length ts) \<and> f \<le> f' \<and> mset (held s) \<subseteq># mset (held s') \<and>
    int (length (held s')) \<le> int (length (held s)) + (f' - f)"
  using assms
proof (induction ts arbitrary: p f s)
  case Nil
  then show ?case by simp
next
  case (Cons t ts)
  obtain p1 f1 s1 where t1: "tally t (p, f, s) = (p1, f1, s1)"
    by (cases "tally t (p, f, s)") auto
  have "tidy t" using Cons.prems(1) by simp
  note h = tally_tidy [OF this t1]
  have "fold tally ts (p1, f1, s1) = (p', f', s')" using Cons.prems(2) t1 by simp
  from Cons.IH [OF _ this] Cons.prems(1) h show ?case
    by (auto intro: subset_mset.order_trans)
qed

section \<open>The verdict of the bulk test\<close>

text \<open>The kernel states the allocation loop passes through, and the folios it gets.\<close>

fun alloc_trace :: "('k, 'f) mm_ops \<Rightarrow> nat \<Rightarrow> 'k \<Rightarrow> ('f option \<times> 'k) list" where
  "alloc_trace ops 0 k = []"
| "alloc_trace ops (Suc n) k =
     (let rk = folio_alloc ops k (LTRAM_GFP ops) 0 in rk # alloc_trace ops n (snd rk))"

definition well_placed :: "('k, 'f) mm_ops \<Rightarrow> 'f option \<times> 'k \<Rightarrow> bool" where
  "well_placed ops rk \<longleftrightarrow> (\<exists>f. fst rk = Some f \<and> folio_nid ops (snd rk) f = 1 \<and>
     folio_zonenum ops (snd rk) f = ZONE_LTRAM ops)"

lemma bulk_alloc_counts:
  assumes "bulk_alloc ops n fs a e s = (fs', a', e', s')"
  shows "a \<le> a' \<and> a' \<le> a + int n \<and> e \<le> e' \<and>
    (a' = a + int n \<and> e' = e \<longleftrightarrow> (\<forall>rk \<in> set (alloc_trace ops n (kern s)). well_placed ops rk))"
  using assms
proof (induction n arbitrary: fs a e s)
  case 0
  then show ?case by simp
next
  case (Suc n)
  show ?case
  proof (cases rule: t_alloc_cases [of ops "LTRAM_GFP ops" s])
    case (fail s1)
    then have k: "folio_alloc ops (kern s) (LTRAM_GFP ops) 0 = (None, kern s1)"
      by (auto simp: t_alloc_def Let_def split: prod.splits)
    from fail Suc.prems Suc.IH [of "fs @ [None]" a e s1] k show ?thesis
      by (auto simp: Let_def well_placed_def)
  next
    case (ok f s1)
    then have k: "folio_alloc ops (kern s) (LTRAM_GFP ops) 0 = (Some f, kern s1)"
      by (auto simp: t_alloc_def Let_def split: prod.splits)
    define e2 where "e2 = e + (if folio_nid ops (kern s1) f \<noteq> 1 then 1 else 0)
      + (if folio_zonenum ops (kern s1) f \<noteq> ZONE_LTRAM ops then 1 else 0)"
    have e2: "e \<le> e2" "e2 = e \<longleftrightarrow> well_placed ops (Some f, kern s1)"
      by (auto simp: e2_def well_placed_def)
    from ok Suc.prems have "bulk_alloc ops n (fs @ [Some f]) (a + 1) e2 s1 = (fs', a', e', s')"
      by (auto simp: Let_def e2_def split: if_splits)
    from Suc.IH [OF this] e2 k show ?thesis by (auto simp: Let_def)
  qed
qed

section \<open>Properties\<close>

text \<open>
  The smoke test reports what happened and leaks little: the init routine always returns 0, the
  two published counts sum to the six tests, the module still holds every folio it held before, and
  it leaks at most one folio per failed test, so none when all pass.
\<close>

theorem smoketest_init_accounting:
  assumes "ltram_smoketest_init ops m s = (r, m', s')"
  shows "r = 0 \<and> last_pass_count m' + last_fail_count m' = 6 \<and> bulk_count m' = bulk_count m \<and>
    mset (held s) \<subseteq># mset (held s') \<and>
    int (length (held s')) \<le> int (length (held s)) + last_fail_count m'"
proof -
  obtain p f s1 where fd: "fold tally (suite ops (bulk_count m)) (0, 0, s) = (p, f, s1)"
    by (cases "fold tally (suite ops (bulk_count m)) (0, 0, s)") auto
  with assms have "r = 0" "m' = m\<lparr>last_pass_count := p, last_fail_count := f\<rparr>" "s' = s1"
    by (simp_all add: ltram_smoketest_init_def)
  with fold_tally_tidy [OF suite_tidy fd] show ?thesis by (auto simp: suite_def)
qed

text \<open>
  A concrete two-node machine: \<open>kern\<close> counts the folios handed out; a folio is its number and its
  node, and node 1 is the LtRAM zone.
\<close>

definition demo_mm :: "(nat, nat \<times> int) mm_ops" where
  "demo_mm = \<lparr>folio_alloc = (\<lambda>k g n. (Some (k, if g = 3 then 1 else 0), k + 1)),
     folio_put = (\<lambda>k f. k), folio_nid = (\<lambda>k f. snd f),
     folio_zonenum = (\<lambda>k f. if snd f = 1 then 4 else 2),
     folio_address = (\<lambda>k f. 4096), kmalloc_array = (\<lambda>k n. (True, k)), kfree_array = (\<lambda>k. k),
     store_u32 = (\<lambda>k a v. k), load_u32 = (\<lambda>k a. 0xCAFEBABE), memset_page = (\<lambda>k a b. k),
     ZONE_LTRAM = 4, GFP_LTRAM = 1, GFP_THISNODE = 2, GFP_KERNEL = 8, GFP_HIGHUSER = 16\<rparr>"

theorem smoketest_init_accounting_witness:
  "last_pass_count (fst (snd (ltram_smoketest_init demo_mm \<lparr>bulk_count = 3, last_pass_count = 0,
      last_fail_count = 0\<rparr> \<lparr>kern = 0, held = []\<rparr>))) +
   last_fail_count (fst (snd (ltram_smoketest_init demo_mm \<lparr>bulk_count = 3, last_pass_count = 0,
      last_fail_count = 0\<rparr> \<lparr>kern = 0, held = []\<rparr>))) = 6"
proof -
  obtain r m' s' where run: "ltram_smoketest_init demo_mm \<lparr>bulk_count = 3, last_pass_count = 0,
      last_fail_count = 0\<rparr> \<lparr>kern = 0, held = []\<rparr> = (r, m', s')"
    by (metis prod_cases3)
  with smoketest_init_accounting [OF run] show ?thesis by simp
qed

text \<open>
  C3. The verdict of the bulk test is exact: once its tracking array is allocated, it returns 0
  precisely when \<open>bulk_count\<close> is not negative and every one of the \<open>bulk_count\<close> requests returned
  a folio on node 1 in the LtRAM zone; and it gives back every folio it got in every case.
\<close>

theorem bulk_test_verdict:
  assumes km: "kmalloc_array ops (kern s) bulk = (True, k)"
    and run: "test_bulk_allocation ops bulk s = (r, s')"
  shows "(r = 0 \<longleftrightarrow> 0 \<le> bulk \<and> (\<forall>rk \<in> set (alloc_trace ops (nat bulk) k). well_placed ops rk)) \<and>
    mset (held s') = mset (held s)"
proof -
  obtain fs a e s1 where al: "bulk_alloc ops (nat bulk) [] 0 0 (s\<lparr>kern := k\<rparr>) = (fs, a, e, s1)"
    by (cases "bulk_alloc ops (nat bulk) [] 0 0 (s\<lparr>kern := k\<rparr>)") auto
  with km run have "r = 0 \<longleftrightarrow> a = bulk \<and> e = 0"
    by (auto simp: test_bulk_allocation_def Let_def split: if_splits)
  with bulk_alloc_counts [OF al] bulk_keeps_held [OF run] show ?thesis by auto
qed

theorem bulk_test_verdict_witness:
  "fst (test_bulk_allocation demo_mm 2 \<lparr>kern = 0, held = []\<rparr>) = 0 \<and>
   list_all (well_placed demo_mm) (alloc_trace demo_mm 2 0)"
proof -
  define s0 where "s0 = \<lparr>kern = 0 :: nat, held = [] :: (nat \<times> int) list\<rparr>"
  obtain r s' where run: "test_bulk_allocation demo_mm 2 s0 = (r, s')"
    by (cases "test_bulk_allocation demo_mm 2 s0")
  have km: "kmalloc_array demo_mm (kern s0) 2 = (True, 0)" by (simp add: demo_mm_def s0_def)
  have "\<forall>rk \<in> set (alloc_trace demo_mm 2 0). well_placed demo_mm rk"
    by (simp add: numeral_2_eq_2 Let_def demo_mm_def well_placed_def LTRAM_GFP_def)
  with bulk_test_verdict [OF km run] run show ?thesis by (simp add: s0_def list_all_iff)
qed

end
