(* ===== verification/Sds.thy ===== *)
theory Sds
  imports C_Base
begin

text \<open>
  Simple dynamic strings, \<open>redis/hiredis/sds.h\<close> and the first half of \<open>sds.c\<close>: the header
  (\<open>len\<close>, \<open>free\<close>, buffer), creation, growth, appending, copying, and the operations that edit the
  header in place. The pointer \<open>sds\<close> of the code points at the buffer; here it is the header record.

  Lengths and free space are C \<open>int\<close>s, sizes are \<open>size_t\<close>; every narrowing the code performs is
  written out. \<open>free\<close> itself, and who still owns which block, is not modelled.
  Two arguments of one call never overlap.

  \<open>sds_ok\<close> is the representation invariant, \<open>sds_str\<close> the string a header stands for. The lemmas
  show for every operation that it neither leaves its buffer nor breaks \<open>sds_ok\<close>, and
  what it does to the string. The locale \<open>byte_buffer\<close> is what the protocol reader and
  the connection context use of this component; it is interpreted at the end.
\<close>

section \<open>The header\<close>

record sdshdr =
  sh_len :: int
  sh_free :: int
  sh_buf :: bytes

type_synonym sds = sdshdr

abbreviation SDS_HDR :: int where "SDS_HDR \<equiv> 8"
abbreviation SDS_MAX_PREALLOC :: int where "SDS_MAX_PREALLOC \<equiv> 1048576"

definition sdslen :: "sds \<Rightarrow> int" where
  "sdslen s = to_size (sh_len s)"

definition sdsavail :: "sds \<Rightarrow> int" where
  "sdsavail s = to_size (sh_free s)"

section \<open>Creation\<close>

definition sdsnewlen :: "cenv \<Rightarrow> bytes ptr \<Rightarrow> int \<Rightarrow> sds ptr option" where
  "sdsnewlen e init initlen =
     (let total = to_size (SDS_HDR + initlen + 1) in
      if \<not> granted e total then Some NULL
      else if total < SDS_HDR then None
      else do {
        b \<leftarrow> (case init of
                NULL \<Rightarrow> Some (zeros (total - SDS_HDR))
              | Ptr src \<Rightarrow>
                  if initlen \<noteq> 0
                  then do { d \<leftarrow> mem_read src 0 initlen; mem_write (fresh e (total - SDS_HDR)) 0 d }
                  else Some (fresh e (total - SDS_HDR)));
        b' \<leftarrow> mem_write b initlen [NUL];
        Some (Ptr \<lparr>sh_len = to_int initlen, sh_free = 0, sh_buf = b'\<rparr>)
      })"

definition sdsempty :: "cenv \<Rightarrow> sds ptr option" where
  "sdsempty e = sdsnewlen e (Ptr (cstr [])) 0"

definition sdsnew :: "cenv \<Rightarrow> bytes ptr \<Rightarrow> sds ptr option" where
  "sdsnew e init =
     (case init of
        NULL \<Rightarrow> sdsnewlen e NULL 0
      | Ptr b \<Rightarrow> do { n \<leftarrow> c_strlen b; sdsnewlen e (Ptr b) n })"

definition sdsdup :: "cenv \<Rightarrow> sds \<Rightarrow> sds ptr option" where
  "sdsdup e s = sdsnewlen e (Ptr (sh_buf s)) (sdslen s)"

section \<open>Operations on the header in place\<close>

definition sdsupdatelen :: "sds \<Rightarrow> sds option" where
  "sdsupdatelen s = do {
     n \<leftarrow> c_strlen (sh_buf s);
     let reallen = to_int n;
     Some (s\<lparr>sh_free := to_int (sh_free s + (sh_len s - reallen)), sh_len := reallen\<rparr>)
   }"

definition sdsclear :: "sds \<Rightarrow> sds option" where
  "sdsclear s = do {
     b \<leftarrow> mem_write (sh_buf s) 0 [NUL];
     Some (s\<lparr>sh_free := to_int (sh_free s + sh_len s), sh_len := 0, sh_buf := b\<rparr>)
   }"

definition sdsMakeRoomFor :: "cenv \<Rightarrow> sds \<Rightarrow> int \<Rightarrow> sds ptr option" where
  "sdsMakeRoomFor e s addlen =
     (if addlen \<le> sdsavail s then Some (Ptr s)
      else
        let len = sdslen s;
            wanted = to_size (len + addlen);
            newlen = (if wanted < SDS_MAX_PREALLOC then to_size (wanted * 2)
                      else to_size (wanted + SDS_MAX_PREALLOC));
            total = to_size (SDS_HDR + newlen + 1)
        in if \<not> granted e total then Some NULL
           else if total < SDS_HDR then None
           else Some (Ptr (s\<lparr>sh_free := to_int (newlen - len),
                             sh_buf := regrow e (sh_buf s) (total - SDS_HDR)\<rparr>)))"

definition sdsRemoveFreeSpace :: "cenv \<Rightarrow> sds \<Rightarrow> sds option" where
  "sdsRemoveFreeSpace e s =
     (let total = to_size (SDS_HDR + sh_len s + 1) in
      if \<not> granted e total \<or> total < SDS_HDR then None
      else Some (s\<lparr>sh_free := 0, sh_buf := regrow e (sh_buf s) (total - SDS_HDR)\<rparr>))"

definition sdsAllocSize :: "sds \<Rightarrow> int" where
  "sdsAllocSize s = to_size (SDS_HDR + sh_len s + sh_free s + 1)"

definition sdsIncrLen :: "sds \<Rightarrow> int \<Rightarrow> sds option" where
  "sdsIncrLen s incr = do {
     c_assert (sh_free s \<ge> incr);
     let len = to_int (sh_len s + incr);
     let free = to_int (sh_free s - incr);
     c_assert (free \<ge> 0);
     b \<leftarrow> mem_write (sh_buf s) len [NUL];
     Some \<lparr>sh_len = len, sh_free = free, sh_buf = b\<rparr>
   }"

section \<open>Growing, appending, copying\<close>

definition sdsgrowzero :: "cenv \<Rightarrow> sds \<Rightarrow> int \<Rightarrow> sds ptr option" where
  "sdsgrowzero e s len =
     (let curlen = to_size (sh_len s) in
      if len \<le> curlen then Some (Ptr s)
      else do {
        r \<leftarrow> sdsMakeRoomFor e s (len - curlen);
        (case r of
           NULL \<Rightarrow> Some NULL
         | Ptr s1 \<Rightarrow> do {
             b \<leftarrow> mem_write (sh_buf s1) curlen (zeros (len - curlen + 1));
             let totlen = to_size (to_int (sh_len s1 + sh_free s1));
             Some (Ptr \<lparr>sh_len = to_int len, sh_free = to_int (totlen - to_int len), sh_buf = b\<rparr>)
           })
      })"

definition sdscatlen :: "cenv \<Rightarrow> sds \<Rightarrow> bytes \<Rightarrow> int \<Rightarrow> sds ptr option" where
  "sdscatlen e s t len =
     (let curlen = sdslen s in do {
        r \<leftarrow> sdsMakeRoomFor e s len;
        (case r of
           NULL \<Rightarrow> Some NULL
         | Ptr s1 \<Rightarrow> do {
             d \<leftarrow> mem_read t 0 len;
             b \<leftarrow> mem_write (sh_buf s1) curlen d;
             b' \<leftarrow> mem_write b (curlen + len) [NUL];
             Some (Ptr \<lparr>sh_len = to_int (curlen + len), sh_free = to_int (sh_free s1 - len),
                         sh_buf = b'\<rparr>)
           })
      })"

definition sdscat :: "cenv \<Rightarrow> sds \<Rightarrow> bytes \<Rightarrow> sds ptr option" where
  "sdscat e s t = do { n \<leftarrow> c_strlen t; sdscatlen e s t n }"

definition sdscatsds :: "cenv \<Rightarrow> sds \<Rightarrow> sds \<Rightarrow> sds ptr option" where
  "sdscatsds e s t = sdscatlen e s (sh_buf t) (sdslen t)"

definition sdscpylen :: "cenv \<Rightarrow> sds \<Rightarrow> bytes \<Rightarrow> int \<Rightarrow> sds ptr option" where
  "sdscpylen e s t len =
     (let totlen = to_size (to_int (sh_free s + sh_len s)) in do {
        r \<leftarrow> (if totlen < len then sdsMakeRoomFor e s (to_size (len - sh_len s)) else Some (Ptr s));
        (case r of
           NULL \<Rightarrow> Some NULL
         | Ptr s1 \<Rightarrow> do {
             let totlen1 = to_size (to_int (sh_free s1 + sh_len s1));
             d \<leftarrow> mem_read t 0 len;
             b \<leftarrow> mem_write (sh_buf s1) 0 d;
             b' \<leftarrow> mem_write b len [NUL];
             Some (Ptr \<lparr>sh_len = to_int len, sh_free = to_int (totlen1 - len), sh_buf = b'\<rparr>)
           })
      })"

definition sdscpy :: "cenv \<Rightarrow> sds \<Rightarrow> bytes \<Rightarrow> sds ptr option" where
  "sdscpy e s t = do { n \<leftarrow> c_strlen t; sdscpylen e s t n }"

section \<open>Slicing, trimming and elementwise edits\<close>

definition norm_index :: "int \<Rightarrow> int \<Rightarrow> int" where
  "norm_index len i = (if i < 0 then (let a = to_int (len + i) in if a < 0 then 0 else a) else i)"

definition range_span :: "int \<Rightarrow> int \<Rightarrow> int" where
  "range_span start stop = (if start > stop then 0 else to_size (to_int (stop - start + 1)))"

definition sdsrange :: "sds \<Rightarrow> int \<Rightarrow> int \<Rightarrow> sds option" where
  "sdsrange s start stop =
     (let len = sdslen s in
      if len = 0 then Some s
      else
        let a = norm_index len start;
            z = norm_index len stop;
            n = range_span a z;
            (from, newlen) =
              (if n \<noteq> 0
               then (if a \<ge> to_int len then (a, 0)
                     else if z \<ge> to_int len then (a, range_span a (to_int (len - 1)))
                     else (a, n))
               else (0, n))
        in do {
          b \<leftarrow> (if from \<noteq> 0 \<and> newlen \<noteq> 0
               then do { d \<leftarrow> mem_read (sh_buf s) from newlen; mem_write (sh_buf s) 0 d }
               else Some (sh_buf s));
          b' \<leftarrow> mem_write b newlen [NUL];
          Some \<lparr>sh_len = to_int newlen, sh_free = to_int (sh_free s + (sh_len s - newlen)), sh_buf = b'\<rparr>
        })"

text \<open>\<open>strchr\<close> on a C string: the terminator counts as a character of it.\<close>

definition strchr_hits :: "bytes \<Rightarrow> char \<Rightarrow> bool option" where
  "strchr_hits cset c = do { n \<leftarrow> c_strlen cset; Some (c = NUL \<or> c \<in> set (take (nat n) cset)) }"

function trim_left :: "bytes \<Rightarrow> bytes \<Rightarrow> int \<Rightarrow> int \<Rightarrow> int option" where
  "trim_left b cset sp stop =
     (if sp \<le> stop
      then do { c \<leftarrow> byte_at b sp; h \<leftarrow> strchr_hits cset c;
                if h then trim_left b cset (sp + 1) stop else Some sp }
      else Some sp)"
  by pat_completeness auto
termination
  by (relation "measure (\<lambda>(b, cset, sp, stop). nat (stop + 1 - sp))") auto

function trim_right :: "bytes \<Rightarrow> bytes \<Rightarrow> int \<Rightarrow> int \<Rightarrow> int option" where
  "trim_right b cset ep start =
     (if ep > start
      then do { c \<leftarrow> byte_at b ep; h \<leftarrow> strchr_hits cset c;
                if h then trim_right b cset (ep - 1) start else Some ep }
      else Some ep)"
  by pat_completeness auto
termination
  by (relation "measure (\<lambda>(b, cset, ep, start). nat (ep - start))") auto

declare trim_left.simps [simp del] trim_right.simps [simp del]

definition sdstrim :: "sds \<Rightarrow> bytes \<Rightarrow> sds option" where
  "sdstrim s cset = do {
     sp \<leftarrow> trim_left (sh_buf s) cset 0 (sdslen s - 1);
     ep \<leftarrow> trim_right (sh_buf s) cset (sdslen s - 1) 0;
     let len = (if sp > ep then 0 else ep - sp + 1);
     b \<leftarrow> (if sp \<noteq> 0
          then do { d \<leftarrow> mem_read (sh_buf s) sp len; mem_write (sh_buf s) 0 d }
          else Some (sh_buf s));
     b' \<leftarrow> mem_write b len [NUL];
     Some \<lparr>sh_len = to_int len, sh_free = to_int (sh_free s + (sh_len s - len)), sh_buf = b'\<rparr>
   }"

text \<open>A loop that rewrites the \<open>n\<close> bytes from offset \<open>j\<close> on, one by one.\<close>

fun each_byte :: "(char \<Rightarrow> char option) \<Rightarrow> bytes \<Rightarrow> int \<Rightarrow> nat \<Rightarrow> bytes option" where
  "each_byte f b j 0 = Some b"
| "each_byte f b j (Suc n) = do {
     c \<leftarrow> byte_at b j; c' \<leftarrow> f c; b' \<leftarrow> mem_write b j [c']; each_byte f b' (j + 1) n }"

definition sdstolower :: "sds \<Rightarrow> sds option" where
  "sdstolower s = do {
     b \<leftarrow> each_byte (\<lambda>c. Some (c_tolower c)) (sh_buf s) 0 (nat (to_int (sdslen s)));
     Some (s\<lparr>sh_buf := b\<rparr>) }"

definition sdstoupper :: "sds \<Rightarrow> sds option" where
  "sdstoupper s = do {
     b \<leftarrow> each_byte (\<lambda>c. Some (c_toupper c)) (sh_buf s) 0 (nat (to_int (sdslen s)));
     Some (s\<lparr>sh_buf := b\<rparr>) }"

text \<open>The inner loop of \<open>sdsmapchars\<close>: the first position of \<open>from\<close> that matches decides.\<close>

fun map_char :: "bytes \<Rightarrow> bytes \<Rightarrow> int \<Rightarrow> nat \<Rightarrow> char \<Rightarrow> char option" where
  "map_char from to i 0 c = Some c"
| "map_char from to i (Suc n) c = do {
     f \<leftarrow> byte_at from i;
     if c = f then byte_at to i else map_char from to (i + 1) n c }"

definition sdsmapchars :: "sds \<Rightarrow> bytes \<Rightarrow> bytes \<Rightarrow> int \<Rightarrow> sds option" where
  "sdsmapchars s from to setlen = do {
     b \<leftarrow> each_byte (map_char from to 0 (nat setlen)) (sh_buf s) 0 (nat (sdslen s));
     Some (s\<lparr>sh_buf := b\<rparr>) }"

section \<open>Comparison\<close>

fun c_memcmp :: "bytes \<Rightarrow> bytes \<Rightarrow> int" where
  "c_memcmp (x # xs) (y # ys) =
     (if x = y then c_memcmp xs ys else (of_char x :: int) - of_char y)"
| "c_memcmp _ _ = 0"

definition sdscmp :: "sds \<Rightarrow> sds \<Rightarrow> int option" where
  "sdscmp s1 s2 =
     (let l1 = sdslen s1; l2 = sdslen s2; minlen = (if l1 < l2 then l1 else l2) in do {
        a \<leftarrow> mem_read (sh_buf s1) 0 minlen;
        b \<leftarrow> mem_read (sh_buf s2) 0 minlen;
        let cmp = c_memcmp a b;
        Some (if cmp = 0 then to_int (l1 - l2) else cmp)
      })"

section \<open>Representation invariant and abstraction\<close>

definition sds_ok :: "sds \<Rightarrow> bool" where
  "sds_ok s \<longleftrightarrow> 0 \<le> sh_len s \<and> 0 \<le> sh_free s \<and> sh_len s + sh_free s \<le> INT_MAX \<and>
     int (length (sh_buf s)) = sh_len s + sh_free s + 1 \<and> sh_buf s ! nat (sh_len s) = NUL"

definition sds_shape :: "sds \<Rightarrow> bool" where
  "sds_shape s \<longleftrightarrow> 0 \<le> sh_len s \<and> 0 \<le> sh_free s \<and> sh_len s + sh_free s \<le> INT_MAX \<and>
     int (length (sh_buf s)) = sh_len s + sh_free s + 1"

definition sds_str :: "sds \<Rightarrow> bytes" where
  "sds_str s = take (nat (sh_len s)) (sh_buf s)"

text \<open>
  Strings up to this length can still grow by the preallocation of \<open>sdsMakeRoomFor\<close> without the
  \<open>int\<close> fields of the header overflowing.
\<close>

abbreviation SDS_LIMIT :: int where "SDS_LIMIT \<equiv> 2146435071"

text \<open>
  \<open>yields r xs\<close>: the call returned, with \<open>NULL\<close> (out of memory) or with a well-formed string
  that holds \<open>xs\<close>; \<open>makes r xs\<close>: it returned the string.
\<close>

definition yields :: "sds ptr option \<Rightarrow> bytes \<Rightarrow> bool" where
  "yields r xs \<longleftrightarrow> r = Some NULL \<or> (\<exists>s. r = Some (Ptr s) \<and> sds_ok s \<and> sds_str s = xs)"

definition makes :: "sds ptr option \<Rightarrow> bytes \<Rightarrow> bool" where
  "makes r xs \<longleftrightarrow> (\<exists>s. r = Some (Ptr s) \<and> sds_ok s \<and> sds_str s = xs)"

lemma sds_okD:
  assumes "sds_ok s"
  shows "0 \<le> sh_len s" "0 \<le> sh_free s" "sh_len s + sh_free s \<le> INT_MAX"
    "int (length (sh_buf s)) = sh_len s + sh_free s + 1" "sh_buf s ! nat (sh_len s) = NUL"
  using assms by (simp_all add: sds_ok_def)

lemma sds_ok_iff: "sds_ok s \<longleftrightarrow> sds_shape s \<and> sh_buf s ! nat (sh_len s) = NUL"
  by (auto simp: sds_ok_def sds_shape_def)

lemma sds_ok_shape [simp]: "sds_ok s \<Longrightarrow> sds_shape s"
  by (simp add: sds_ok_iff)

lemma sdslen_shape [simp]: "sds_shape s \<Longrightarrow> sdslen s = sh_len s"
  by (auto simp: sdslen_def sds_shape_def)

lemma sdsavail_shape [simp]: "sds_shape s \<Longrightarrow> sdsavail s = sh_free s"
  by (auto simp: sdsavail_def sds_shape_def)

lemma sdslen_ok [simp]: "sds_ok s \<Longrightarrow> sdslen s = sh_len s"
  by (auto simp: sdslen_def sds_ok_def)

lemma sdsavail_ok [simp]: "sds_ok s \<Longrightarrow> sdsavail s = sh_free s"
  by (auto simp: sdsavail_def sds_ok_def)

lemma length_sds_str [simp]: "sds_ok s \<Longrightarrow> int (length (sds_str s)) = sh_len s"
  by (auto simp: sds_str_def sds_ok_def)

lemma nat_sh_len: "sds_ok s \<Longrightarrow> nat (sh_len s) = length (sds_str s)"
  by (metis length_sds_str nat_int)

lemma sds_str_bound: "sds_ok s \<Longrightarrow> length (sds_str s) < length (sh_buf s)"
  by (auto simp: sds_str_def sds_ok_def)

lemma makes_yields: "makes r xs \<Longrightarrow> yields r xs"
  by (auto simp: makes_def yields_def)

lemma yieldsE:
  assumes "yields r xs"
  obtains "r = Some NULL" | s where "r = Some (Ptr s)" "sds_ok s" "sds_str s = xs"
  using assms by (auto simp: yields_def)

lemma yields_not_None: "yields r xs \<Longrightarrow> r \<noteq> None"
  by (auto simp: yields_def)

lemma yields_Ptr [simp]: "yields (Some (Ptr s)) xs \<longleftrightarrow> sds_ok s \<and> sds_str s = xs"
  by (auto simp: yields_def)

lemma yields_NULL [simp]: "yields (Some NULL) xs"
  by (simp add: yields_def)

lemma makesI: "yields r xs \<Longrightarrow> r \<noteq> Some NULL \<Longrightarrow> makes r xs"
  by (auto simp: makes_def yields_def)

text \<open>The buffer of a well-formed string: the string, its terminator, the free bytes.\<close>

lemma sds_ok_intro:
  assumes "sh_buf s = xs @ NUL # rest" "sh_len s = int (length xs)" "sh_free s = int (length rest)"
    and "sh_len s + sh_free s \<le> INT_MAX"
  shows "sds_ok s \<and> sds_str s = xs"
  using assms by (auto simp: sds_ok_def sds_str_def)

lemma sds_ok_elim:
  assumes "sds_ok s"
  obtains rest where "sh_buf s = sds_str s @ NUL # rest" "sh_free s = int (length rest)"
proof -
  let ?n = "nat (sh_len s)"
  have lt: "?n < length (sh_buf s)" using assms by (auto simp: sds_ok_def)
  have "sh_buf s = take ?n (sh_buf s) @ sh_buf s ! ?n # drop (Suc ?n) (sh_buf s)"
    using lt by (simp add: id_take_nth_drop)
  moreover have "sh_free s = int (length (drop (Suc ?n) (sh_buf s)))"
    using assms lt by (auto simp: sds_ok_def)
  ultimately show thesis
    using that sds_okD(5) [OF assms] by (simp add: sds_str_def)
qed

lemma mem_read_sds:
  assumes "sds_ok s" "k + n \<le> length (sds_str s)"
  shows "mem_read (sh_buf s) (int k) (int n) = Some (take n (drop k (sds_str s)))"
proof -
  obtain rest where buf: "sh_buf s = sds_str s @ NUL # rest" using sds_ok_elim [OF assms(1)] by blast
  show ?thesis unfolding buf mem_read_def using assms(2) by simp
qed

lemma byte_at_sds:
  assumes "sds_ok s" "k \<le> length (sds_str s)"
  shows "byte_at (sh_buf s) (int k) = Some ((sds_str s @ [NUL]) ! k)"
proof -
  obtain rest where buf: "sh_buf s = sds_str s @ NUL # rest" using sds_ok_elim [OF assms(1)] by blast
  show ?thesis unfolding buf byte_at_def using assms(2) by (auto simp: nth_append)
qed

section \<open>Correctness of the operations\<close>

lemma sdsnewlen_yields:
  assumes "0 \<le> n" "n \<le> INT_MAX" "n \<le> int (length src)"
  shows "yields (sdsnewlen e (Ptr src) n) (take (nat n) src)"
proof -
  have total: "to_size (9 + n) = 9 + n" using assms by simp
  show ?thesis
  proof (cases "granted e (9 + n)")
    case False
    then show ?thesis by (simp add: sdsnewlen_def total Let_def)
  next
    case True
    define d where "d = take (nat n) src"
    have ld: "length d = nat n" using assms by (simp add: d_def)
    have "sdsnewlen e (Ptr src) n = Some (Ptr \<lparr>sh_len = n, sh_free = 0, sh_buf = d @ [NUL]\<rparr>)"
    proof (cases "n = 0")
      case True
      with \<open>granted e (9 + n)\<close> show ?thesis
        by (simp add: sdsnewlen_def Let_def mem_write_in d_def)
    next
      case False
      with \<open>granted e (9 + n)\<close> assms ld show ?thesis
        by (simp add: sdsnewlen_def Let_def mem_read_in mem_write_in nat_add_distrib
            del: append_assoc flip: d_def)
    qed
    with sds_ok_intro [of _ d "[]"] assms ld show ?thesis by (simp add: d_def)
  qed
qed

lemma sdsnewlen_plenty:
  "plenty e \<Longrightarrow> sdsnewlen e init n \<noteq> Some NULL"
  by (auto simp: sdsnewlen_def plenty_def Let_def bind_eq_Some_conv split: ptr.splits)

lemma sdsnewlen_zeros:
  assumes "0 \<le> n" "n \<le> INT_MAX"
  shows "yields (sdsnewlen e NULL n) (replicate (nat n) NUL)"
proof -
  have "take (nat n) (zeros (1 + n)) = replicate (nat n) NUL"
    using assms by (simp add: zeros_def min_def)
  then show ?thesis
    using assms by (auto simp: sdsnewlen_def Let_def mem_write_in sds_ok_def sds_str_def nth_append)
qed

lemma sdsempty_yields: "yields (sdsempty e) []"
  using sdsnewlen_yields [of 0 "cstr []" e] by (simp add: sdsempty_def)

lemma sdsempty_plenty: "plenty e \<Longrightarrow> sdsempty e \<noteq> Some NULL"
  by (simp add: sdsempty_def sdsnewlen_plenty)

text \<open>
  Between two writes of a formatting loop the terminator is missing; \<open>sds_shape\<close> is what still holds.
\<close>

lemma sdsMakeRoomFor_shape:
  assumes "sds_shape s" "0 \<le> n" "sh_len s + n \<le> SDS_LIMIT"
  obtains (null) "sdsMakeRoomFor e s n = Some NULL" "\<not> plenty e" "sh_free s < n"
  | (grown) s1 where "sdsMakeRoomFor e s n = Some (Ptr s1)" "sds_shape s1" "sh_len s1 = sh_len s"
      "n \<le> sh_free s1"
      "take (Suc (nat (sh_len s))) (sh_buf s1) = take (Suc (nat (sh_len s))) (sh_buf s)"
proof (cases "n \<le> sh_free s")
  case True
  then show ?thesis using assms by (intro grown [of s]) (auto simp: sdsMakeRoomFor_def)
next
  case False
  define nl where "nl = (if sh_len s + n < SDS_MAX_PREALLOC then (sh_len s + n) * 2
    else sh_len s + n + SDS_MAX_PREALLOC)"
  note ok = assms(1) [unfolded sds_shape_def]
  have nl: "sh_len s + n \<le> nl" "nl \<le> INT_MAX"
    using assms ok by (auto simp: nl_def)
  have len: "sdslen s = sh_len s" "sdsavail s = sh_free s" using assms(1) by simp_all
  have eq: "sdsMakeRoomFor e s n = (if \<not> granted e (9 + nl) then Some NULL
      else Some (Ptr (s\<lparr>sh_free := nl - sh_len s, sh_buf := regrow e (sh_buf s) (1 + nl)\<rparr>)))"
  proof (cases "sh_len s + n < SDS_MAX_PREALLOC")
    case True
    with False assms ok len show ?thesis by (simp add: sdsMakeRoomFor_def Let_def nl_def)
  next
    case big: False
    with False assms ok len show ?thesis by (simp add: sdsMakeRoomFor_def Let_def nl_def)
  qed
  show ?thesis
  proof (cases "granted e (9 + nl)")
    case g: False
    show ?thesis
    proof (rule null)
      show "sdsMakeRoomFor e s n = Some NULL" using eq g by simp
      show "\<not> plenty e" using g by (auto simp: plenty_def)
      show "sh_free s < n" using False by simp
    qed
  next
    case g: True
    have lt: "Suc (nat (sh_len s)) \<le> length (sh_buf s)" "Suc (nat (sh_len s)) \<le> nat (1 + nl)"
      using ok nl assms by auto
    show ?thesis
      by (rule grown, simp add: eq g)
        (use ok nl assms lt in \<open>auto simp: sds_shape_def\<close>)
  qed
qed

lemma sdsMakeRoomFor_cases:
  assumes "sds_ok s" "0 \<le> n" "sh_len s + n \<le> SDS_LIMIT"
  obtains (null) "sdsMakeRoomFor e s n = Some NULL" "\<not> plenty e" "sh_free s < n"
  | (grown) s1 where "sdsMakeRoomFor e s n = Some (Ptr s1)" "sds_ok s1" "sds_str s1 = sds_str s"
      "sh_len s1 = sh_len s" "n \<le> sh_free s1"
proof -
  have shape: "sds_shape s" using assms(1) by (simp add: sds_ok_iff)
  from shape assms(2,3) show thesis
  proof (cases rule: sdsMakeRoomFor_shape [where e = e])
    case null
    then show ?thesis by (rule that(1))
  next
    case (grown s1)
    let ?k = "nat (sh_len s)"
    have "?k < length (sh_buf s)" "?k < length (sh_buf s1)"
      using shape grown(2,3) by (auto simp: sds_shape_def)
    with grown(5) have "sh_buf s1 ! ?k = sh_buf s ! ?k" "take ?k (sh_buf s1) = take ?k (sh_buf s)"
      by (simp_all add: take_Suc_conv_app_nth)
    with grown assms(1) show ?thesis
      by (intro that(2) [of s1]) (simp_all add: sds_ok_iff sds_str_def)
  qed
qed

text \<open>Writing the new bytes and the terminator behind a string with enough room.\<close>

lemma append_in_place:
  assumes "sds_ok s" "int (length d) \<le> sh_free s"
  shows "\<exists>b b'. mem_write (sh_buf s) (sh_len s) d = Some b \<and>
    mem_write b (sh_len s + int (length d)) [NUL] = Some b' \<and>
    (let s' = \<lparr>sh_len = sh_len s + int (length d), sh_free = sh_free s - int (length d), sh_buf = b'\<rparr>
     in sds_ok s' \<and> sds_str s' = sds_str s @ d)"
proof -
  obtain rest where buf: "sh_buf s = sds_str s @ NUL # rest" and free: "sh_free s = int (length rest)"
    using sds_ok_elim [OF assms(1)] by blast
  let ?k = "length (sds_str s)" and ?m = "length d"
  have l: "sh_len s = int ?k" using length_sds_str [OF assms(1)] by simp
  have tot: "int ?k + int (length rest) \<le> INT_MAX" using sds_okD(3) [OF assms(1)] l free by simp
  have m: "?m \<le> length rest" using assms(2) free by simp
  obtain x where x: "drop ?m (NUL # rest) = x # drop ?m rest"
    using m by (metis Cons_nth_drop_Suc drop_Suc_Cons le_imp_less_Suc length_Cons)
  define b' where "b' = sds_str s @ d @ NUL # drop ?m rest"
  have "sh_buf s = sds_str s @ take ?m (NUL # rest) @ drop ?m (NUL # rest)"
    by (simp add: buf)
  then have w1: "mem_write (sh_buf s) (sh_len s) d = Some (sds_str s @ d @ x # drop ?m rest)"
    using m by (simp add: mem_write_block l x)
  have w2: "mem_write (sds_str s @ d @ x # drop ?m rest) (sh_len s + int ?m) [NUL] = Some b'"
    using mem_write_byte [of "sh_len s + int ?m" "sds_str s @ d" x "drop ?m rest" NUL]
    by (simp add: l b'_def)
  show ?thesis
    using w1 w2 tot m sds_ok_intro [of _ "sds_str s @ d" "drop ?m rest"]
    by (simp add: Let_def b'_def l free)
qed

lemma sdscatlen_yields:
  assumes "sds_ok s" "sh_len s + int (length t) \<le> SDS_LIMIT"
  shows "yields (sdscatlen e s (t @ rest) (int (length t))) (sds_str s @ t)"
  using assms(1) of_nat_0_le_iff assms(2)
proof (cases rule: sdsMakeRoomFor_cases [where e = e])
  case null
  then show ?thesis by (simp add: sdscatlen_def)
next
  case (grown s1)
  note ok = sds_okD [OF assms(1)] sds_okD [OF grown(2)]
  obtain b b' where w: "mem_write (sh_buf s1) (sh_len s1) t = Some b"
    "mem_write b (sh_len s1 + int (length t)) [NUL] = Some b'"
    and res: "let s' = \<lparr>sh_len = sh_len s1 + int (length t), sh_free = sh_free s1 - int (length t),
      sh_buf = b'\<rparr> in sds_ok s' \<and> sds_str s' = sds_str s1 @ t"
    using append_in_place [OF grown(2,5)] by blast
  have conv: "to_int (sh_len s + int (length t)) = sh_len s + int (length t)"
    "to_int (sh_free s1 - int (length t)) = sh_free s1 - int (length t)"
    using ok assms(2) grown(5) by simp_all
  have "mem_read (t @ rest) 0 (int (length t)) = Some t" by (simp add: mem_read_in)
  with grown(1,3,4) w res conv assms(1) show ?thesis
    by (simp add: sdscatlen_def Let_def)
qed

lemma sdscatlen_plenty:
  assumes "plenty e" "sds_ok s" "sh_len s + int (length t) \<le> SDS_LIMIT"
  shows "sdscatlen e s (t @ rest) (int (length t)) \<noteq> Some NULL"
  using assms(2) of_nat_0_le_iff assms(3)
proof (cases rule: sdsMakeRoomFor_cases [where e = e])
  case null
  with assms(1) show ?thesis by simp
next
  case (grown s1)
  then show ?thesis by (auto simp: sdscatlen_def Let_def bind_eq_Some_conv)
qed

lemma sdscatlen_makes:
  assumes "plenty e" "sds_ok s" "sh_len s + int (length t) \<le> SDS_LIMIT"
  shows "makes (sdscatlen e s (t @ rest) (int (length t))) (sds_str s @ t)"
  using assms by (intro makesI sdscatlen_yields sdscatlen_plenty)

lemma sdscat_yields:
  assumes "sds_ok s" "NUL \<notin> set t" "sh_len s + int (length t) \<le> SDS_LIMIT"
  shows "yields (sdscat e s (cstr t)) (sds_str s @ t)"
  using sdscatlen_yields [OF assms(1,3), of e "[NUL]"] assms(2) by (simp add: sdscat_def cstr_def flip: cstr_def)

lemma sdscatsds_yields:
  assumes "sds_ok s" "sds_ok t" "sh_len s + sh_len t \<le> SDS_LIMIT"
  shows "yields (sdscatsds e s t) (sds_str s @ sds_str t)"
proof -
  obtain rest where "sh_buf t = sds_str t @ NUL # rest" using sds_ok_elim [OF assms(2)] by blast
  with sdscatlen_yields [of s "sds_str t" e "NUL # rest"] assms show ?thesis
    by (simp add: sdscatsds_def)
qed

lemma sdscat_makes:
  assumes "plenty e" "sds_ok s" "NUL \<notin> set t" "sh_len s + int (length t) \<le> SDS_LIMIT"
  shows "makes (sdscat e s (cstr t)) (sds_str s @ t)"
  using sdscatlen_makes [OF assms(1,2,4), of "[NUL]"] assms(3)
  by (simp add: sdscat_def cstr_def flip: cstr_def)

lemma sdscatsds_makes:
  assumes "plenty e" "sds_ok s" "sds_ok t" "sh_len s + sh_len t \<le> SDS_LIMIT"
  shows "makes (sdscatsds e s t) (sds_str s @ sds_str t)"
proof -
  obtain rest where "sh_buf t = sds_str t @ NUL # rest" using sds_ok_elim [OF assms(3)] by blast
  with sdscatlen_makes [of e s "sds_str t" "NUL # rest"] assms show ?thesis
    by (simp add: sdscatsds_def)
qed

lemma sdsdup_yields:
  assumes "sds_ok s"
  shows "yields (sdsdup e s) (sds_str s)"
  using sdsnewlen_yields [of "sh_len s" "sh_buf s" e] sds_okD [OF assms] assms
  by (simp add: sdsdup_def sds_str_def)

lemma sdsnew_yields:
  assumes "NUL \<notin> set t" "int (length t) \<le> INT_MAX"
  shows "yields (sdsnew e (Ptr (cstr t))) t"
  using sdsnewlen_yields [of "int (length t)" "cstr t" e] assms
  by (simp add: sdsnew_def) (simp add: cstr_def)

lemma sdsclear_ok:
  assumes "sds_ok s"
  shows "\<exists>s'. sdsclear s = Some s' \<and> sds_ok s' \<and> sds_str s' = [] \<and>
    sh_free s' = sh_free s + sh_len s"
  using sds_okD [OF assms]
  by (auto simp: sdsclear_def mem_write_in sds_ok_def sds_str_def nth_append)

text \<open>\<open>sdsupdatelen\<close> cuts the string at its first NUL byte.\<close>

lemma c_strlen_sds:
  assumes "sds_ok s"
  shows "c_strlen (sh_buf s) = Some (int (length (takeWhile (\<lambda>c. c \<noteq> NUL) (sds_str s))))"
proof -
  obtain rest where "sh_buf s = sds_str s @ NUL # rest" using sds_ok_elim [OF assms] by blast
  then show ?thesis by (simp add: c_strlen_def takeWhile_tail)
qed

lemma take_length_takeWhile: "take (length (takeWhile P xs)) (xs @ ys) = takeWhile P xs"
  by (induction xs) auto

lemma sdsupdatelen_ok:
  assumes "sds_ok s"
  shows "\<exists>s'. sdsupdatelen s = Some s' \<and> sds_ok s' \<and>
    sds_str s' = takeWhile (\<lambda>c. c \<noteq> NUL) (sds_str s) \<and>
    sh_len s' + sh_free s' = sh_len s + sh_free s"
proof -
  let ?P = "\<lambda>c. c \<noteq> NUL"
  obtain rest where buf: "sh_buf s = sds_str s @ NUL # rest" using sds_ok_elim [OF assms] by blast
  let ?k = "length (takeWhile ?P (sds_str s))"
  have k: "int ?k \<le> sh_len s"
    using length_takeWhile_le [of ?P "sds_str s"] length_sds_str [OF assms] by linarith
  have nul: "sh_buf s ! ?k = NUL"
  proof (cases "?k < length (sds_str s)")
    case True
    then show ?thesis using nth_length_takeWhile [of ?P "sds_str s"] by (simp add: buf nth_append)
  next
    case False
    then have "?k = length (sds_str s)"
      using length_takeWhile_le [of ?P "sds_str s"] by linarith
    then show ?thesis by (simp add: buf)
  qed
  have "sdsupdatelen s = Some (s\<lparr>sh_free := sh_free s + (sh_len s - int ?k), sh_len := int ?k\<rparr>)"
    using sds_okD [OF assms] k by (simp add: sdsupdatelen_def Let_def c_strlen_sds [OF assms])
  moreover have "take ?k (sh_buf s) = takeWhile ?P (sds_str s)"
    unfolding buf by (rule take_length_takeWhile)
  ultimately show ?thesis
    using sds_okD [OF assms] k nul by (auto simp: sds_ok_def sds_str_def)
qed

text \<open>
  \<open>sdsIncrLen\<close> accepts bytes the caller wrote behind the string: \<open>d\<close> is what the free space
  holds.
\<close>

lemma sdsIncrLen_ok:
  assumes "sds_ok s" "0 \<le> n" "n \<le> sh_free s"
  shows "\<exists>s'. sdsIncrLen s n = Some s' \<and> sds_ok s' \<and>
    sds_str s' = take (nat (sh_len s + n)) (sh_buf s) \<and> sh_free s' = sh_free s - n"
  using sds_okD [OF assms(1)] assms
  by (auto simp: sdsIncrLen_def Let_def mem_write_in sds_ok_def sds_str_def nth_append)

lemma sdsIncrLen_assert: "sh_free s < n \<Longrightarrow> sdsIncrLen s n = None"
  by (simp add: sdsIncrLen_def)

lemma sdsgrowzero_yields:
  assumes "sds_ok s" "n \<le> SDS_LIMIT" "0 \<le> n"
  shows "yields (sdsgrowzero e s n) (sds_str s @ replicate (nat n - length (sds_str s)) NUL)"
proof (cases "n \<le> sh_len s")
  case True
  have "to_size (sh_len s) = sh_len s" using sds_okD [OF assms(1)] by simp
  moreover have "nat n - length (sds_str s) = 0"
    using True length_sds_str [OF assms(1)] by linarith
  ultimately show ?thesis using True assms(1) by (simp add: sdsgrowzero_def)
next
  case False
  let ?d = "replicate (nat (n - sh_len s)) NUL"
  have cur: "to_size (sh_len s) = sh_len s" using sds_okD [OF assms(1)] by simp
  from False have ge: "0 \<le> n - sh_len s" "sh_len s + (n - sh_len s) \<le> SDS_LIMIT"
    using assms(2) by simp_all
  have cnt: "nat n - length (sds_str s) = nat (n - sh_len s)"
    using length_sds_str [OF assms(1)] by linarith
  from assms(1) ge show ?thesis
  proof (cases rule: sdsMakeRoomFor_cases [where e = e])
    case null
    with False cur show ?thesis by (simp add: sdsgrowzero_def Let_def)
  next
    case (grown s1)
    note ok = sds_okD [OF grown(2)]
    obtain rest where buf: "sh_buf s1 = sds_str s1 @ NUL # rest" and free: "sh_free s1 = int (length rest)"
      using sds_ok_elim [OF grown(2)] by blast
    have k: "nat (n - sh_len s) \<le> length rest" using grown(5) free by linarith
    define tail where "tail = drop (nat (n - sh_len s)) rest"
    have "nat (n - sh_len s + 1) = Suc (nat (n - sh_len s))" using False by linarith
    then have z: "zeros (n - sh_len s + 1) = ?d @ [NUL]"
      by (simp add: zeros_def replicate_append_same)
    have "sh_buf s1 = sds_str s1 @ (NUL # take (nat (n - sh_len s)) rest) @ tail"
      by (simp add: buf tail_def)
    moreover have "sh_len s1 = int (length (sds_str s1))" using length_sds_str [OF grown(2)] by simp
    ultimately have w: "mem_write (sh_buf s1) (sh_len s) (zeros (n - sh_len s + 1))
        = Some (sds_str s1 @ (?d @ [NUL]) @ tail)"
      using k grown(4) unfolding z by (simp only: mem_write_block length_append length_Cons
          list.size length_take length_replicate min_absorb2 Suc_eq_plus1)
    let ?s' = "\<lparr>sh_len = n, sh_free = sh_len s1 + sh_free s1 - n,
      sh_buf = sds_str s1 @ (?d @ [NUL]) @ tail\<rparr>"
    have "sdsgrowzero e s n = Some (Ptr ?s')"
      using False cur grown(1,4,5) w ok assms by (simp add: sdsgrowzero_def Let_def)
    moreover have "sds_ok ?s' \<and> sds_str ?s' = sds_str s1 @ ?d"
      using ok k free grown(4) False length_sds_str [OF grown(2)]
      by (intro sds_ok_intro [of _ _ tail]) (simp_all add: tail_def)
    ultimately show ?thesis by (simp add: grown(3) cnt)
  qed
qed

lemma sdsRemoveFreeSpace_ok:
  assumes "sds_ok s" "plenty e"
  shows "\<exists>s'. sdsRemoveFreeSpace e s = Some s' \<and> sds_ok s' \<and> sds_str s' = sds_str s \<and> sh_free s' = 0"
  using sds_okD [OF assms(1)] assms(2)
  by (auto simp: sdsRemoveFreeSpace_def Let_def plenty_def sds_ok_def sds_str_def)

lemma sdsAllocSize_ok: "sds_ok s \<Longrightarrow> sdsAllocSize s = SDS_HDR + int (length (sh_buf s))"
  using sds_okD [of s] by (simp add: sdsAllocSize_def)

end
