(* ===== verification/Sds_Edit.thy ===== *)
theory Sds_Edit
  imports Sds
begin

text \<open>
  Correctness of the operations of \<open>sds.c\<close> that overwrite, slice, trim, map and compare strings
  (\<open>sdscpylen\<close>, \<open>sdsrange\<close>, \<open>sdstrim\<close>, \<open>sdstolower\<close>, \<open>sdstoupper\<close>,
  \<open>sdsmapchars\<close>, \<open>sdscmp\<close>), each against a reference on byte lists, and the interface
  \<open>byte_buffer\<close> that the reader and the connection use, with its interpretation.
\<close>

section \<open>Reference operations on byte lists\<close>

definition slice :: "bytes \<Rightarrow> int \<Rightarrow> int \<Rightarrow> bytes" where
  "slice xs start stop =
     (let n = int (length xs);
          a = (if start < 0 then max 0 (n + start) else start);
          z = (if stop < 0 then max 0 (n + stop) else stop)
      in take (nat (z - a + 1)) (drop (nat a) xs))"

definition strip :: "('a \<Rightarrow> bool) \<Rightarrow> 'a list \<Rightarrow> 'a list" where
  "strip P xs = rev (dropWhile P (rev (dropWhile P xs)))"

definition byte_less :: "bytes \<Rightarrow> bytes \<Rightarrow> bool" where
  "byte_less xs ys \<longleftrightarrow> ord_class.lexordp (map of_char xs :: nat list) (map of_char ys)"

section \<open>Copying\<close>

lemma write_front:
  assumes "sds_ok s" "int (length t) \<le> sh_len s + sh_free s"
  shows "\<exists>b b'. mem_write (sh_buf s) 0 t = Some b \<and> mem_write b (int (length t)) [NUL] = Some b' \<and>
    (let s' = \<lparr>sh_len = int (length t), sh_free = sh_len s + sh_free s - int (length t), sh_buf = b'\<rparr>
     in sds_ok s' \<and> sds_str s' = t)"
proof -
  let ?m = "length t"
  have lb: "int (length (sh_buf s)) = sh_len s + sh_free s + 1" using sds_okD [OF assms(1)] by simp
  then have lt: "?m < length (sh_buf s)" using assms(2) by linarith
  obtain x where x: "drop ?m (sh_buf s) = x # drop (Suc ?m) (sh_buf s)"
    using lt by (metis Cons_nth_drop_Suc)
  have w1: "mem_write (sh_buf s) 0 t = Some (t @ x # drop (Suc ?m) (sh_buf s))"
    using lt by (simp add: mem_write_in x)
  have w2: "mem_write (t @ x # drop (Suc ?m) (sh_buf s)) (int ?m) [NUL]
      = Some (t @ NUL # drop (Suc ?m) (sh_buf s))"
    by (rule mem_write_byte) simp
  have "int (length (drop (Suc ?m) (sh_buf s))) = sh_len s + sh_free s - int ?m"
    using lb lt by (simp add: of_nat_diff)
  then show ?thesis
    using w1 w2 sds_okD [OF assms(1)] sds_ok_intro [of _ t "drop (Suc ?m) (sh_buf s)"]
    by (simp add: Let_def)
qed

lemma sdscpylen_yields:
  assumes "sds_ok s" "int (length t) \<le> SDS_LIMIT"
  shows "yields (sdscpylen e s (t @ rest) (int (length t))) t"
proof -
  note ok = sds_okD [OF assms(1)]
  have rd: "mem_read (t @ rest) 0 (int (length t)) = Some t" by (simp add: mem_read_in)
  have copy: "yields (do {
        let totlen1 = to_size (to_int (sh_free s1 + sh_len s1));
        d \<leftarrow> mem_read (t @ rest) 0 (int (length t));
        b \<leftarrow> mem_write (sh_buf s1) 0 d;
        b' \<leftarrow> mem_write b (int (length t)) [NUL];
        Some (Ptr \<lparr>sh_len = to_int (int (length t)), sh_free = to_int (totlen1 - int (length t)),
          sh_buf = b'\<rparr>) }) t"
    if "sds_ok s1" "int (length t) \<le> sh_len s1 + sh_free s1" for s1
    using write_front [OF that] sds_okD [OF that(1)] that(2) assms(2)
    by (auto simp: rd Let_def add.commute)
  have tot: "to_size (to_int (sh_free s + sh_len s)) = sh_free s + sh_len s" using ok by simp
  show ?thesis
  proof (cases "sh_free s + sh_len s < int (length t)")
    case False
    then show ?thesis
      using copy [OF assms(1)] by (simp add: sdscpylen_def tot Let_def add.commute)
  next
    case True
    have n: "0 \<le> int (length t) - sh_len s" "sh_len s + (int (length t) - sh_len s) \<le> SDS_LIMIT"
      using True ok assms(2) by simp_all
    have sz: "to_size (int (length t) - sh_len s) = int (length t) - sh_len s"
      using n ok assms(2) by simp
    from assms(1) n show ?thesis
    proof (cases rule: sdsMakeRoomFor_cases [where e = e])
      case null
      with True show ?thesis by (simp add: sdscpylen_def tot sz)
    next
      case (grown s1)
      with True copy [of s1] show ?thesis by (simp add: sdscpylen_def tot sz)
    qed
  qed
qed

lemma sdscpy_yields:
  "sds_ok s \<Longrightarrow> NUL \<notin> set t \<Longrightarrow> int (length t) \<le> SDS_LIMIT \<Longrightarrow> yields (sdscpy e s (cstr t)) t"
  using sdscpylen_yields [of s t e "[NUL]"] by (simp add: sdscpy_def cstr_def flip: cstr_def)

section \<open>Moving a part of the string to the front\<close>

lemma move_front:
  assumes "sds_ok s" "0 \<le> f" "0 \<le> k" "f + k \<le> sh_len s"
    and mv: "\<not> move \<Longrightarrow> f = 0 \<or> k = 0"
  shows "\<exists>b b'. (if move then do { d \<leftarrow> mem_read (sh_buf s) f k; mem_write (sh_buf s) 0 d }
      else Some (sh_buf s)) = Some b \<and> mem_write b k [NUL] = Some b' \<and>
    (let s' = \<lparr>sh_len = k, sh_free = sh_free s + (sh_len s - k), sh_buf = b'\<rparr>
     in sds_ok s' \<and> sds_str s' = take (nat k) (drop (nat f) (sds_str s)))"
proof -
  note ok = sds_okD [OF assms(1)]
  define d where "d = take (nat k) (drop (nat f) (sds_str s))"
  have d: "d = take (nat k) (drop (nat f) (sh_buf s))"
    using assms(2-4) by (simp add: d_def sds_str_def drop_take min_def nat_diff_distrib nat_le_eq_zle)
  have ld: "int (length d) = k"
    using assms(2-4) length_sds_str [OF assms(1)] by (simp add: d_def of_nat_diff)
  have fits: "int (length d) \<le> sh_len s + sh_free s" using ld assms ok by linarith
  obtain b b' where w: "mem_write (sh_buf s) 0 d = Some b" "mem_write b (int (length d)) [NUL] = Some b'"
    and res: "let s' = \<lparr>sh_len = int (length d), sh_free = sh_len s + sh_free s - int (length d),
      sh_buf = b'\<rparr> in sds_ok s' \<and> sds_str s' = d"
    using write_front [OF assms(1) fits] by blast
  have rd: "mem_read (sh_buf s) f k = Some d"
    using assms(2-4) ok by (simp add: mem_read_in d)
  have "(if move then do { d \<leftarrow> mem_read (sh_buf s) f k; mem_write (sh_buf s) 0 d }
      else Some (sh_buf s)) = Some b"
  proof (cases move)
    case True
    then show ?thesis by (simp add: rd w)
  next
    case False
    with mv have "f = 0 \<or> k = 0" by simp
    then have "b = sh_buf s"
      using w(1) ld unfolding d by (auto simp: mem_write_def split: if_splits)
    with False show ?thesis by simp
  qed
  with w(2) res show ?thesis
    by (simp add: ld d_def [symmetric] algebra_simps Let_def)
qed

section \<open>Slicing\<close>

lemma norm_index_ok:
  assumes "0 \<le> n" "n \<le> INT_MAX" "- 2147483648 \<le> i" "i \<le> INT_MAX"
  shows "norm_index n i = (if i < 0 then max 0 (n + i) else i)"
  using assms by (auto simp: norm_index_def Let_def max_def)

lemma sdsrange_ok:
  assumes "sds_ok s" "- 2147483648 \<le> start" "start \<le> INT_MAX" "- 2147483648 \<le> stop" "stop \<le> INT_MAX"
  shows "\<exists>s'. sdsrange s start stop = Some s' \<and> sds_ok s' \<and> sds_str s' = slice (sds_str s) start stop \<and>
    sh_len s' + sh_free s' = sh_len s + sh_free s"
proof (cases "sh_len s = 0")
  case True
  then have "sds_str s = []" by (simp add: sds_str_def)
  with True assms(1) show ?thesis by (simp add: sdsrange_def slice_def)
next
  case False
  note ok = sds_okD [OF assms(1)]
  define n a z where "n = sh_len s" and "a = (if start < 0 then max 0 (n + start) else start)"
    and "z = (if stop < 0 then max 0 (n + stop) else stop)"
  have n: "0 < n" "n \<le> INT_MAX" using False ok by (simp_all add: n_def)
  have az: "0 \<le> a" "0 \<le> z" "a \<le> INT_MAX" "z \<le> INT_MAX"
    using n assms by (auto simp: a_def z_def)
  have na: "norm_index n start = a" "norm_index n stop = z"
    using n assms by (simp_all add: norm_index_ok a_def z_def)
  define k where "k = (if a > z \<or> a \<ge> n then 0 else min z (n - 1) - a + 1)"
  define f where "f = (if a > z then 0 else a)"
  have k: "0 \<le> k" "k \<noteq> 0 \<Longrightarrow> f + k \<le> n" "0 \<le> f" using n az by (auto simp: k_def f_def)
  have spec: "slice (sds_str s) start stop = take (nat k) (drop (nat (if k = 0 then 0 else f)) (sds_str s))"
  proof -
    have len: "int (length (sds_str s)) = n" using length_sds_str [OF assms(1)] by (simp add: n_def)
    have "slice (sds_str s) start stop = take (nat (z - a + 1)) (drop (nat a) (sds_str s))"
      by (simp add: slice_def len a_def z_def Let_def)
    also have "\<dots> = take (nat k) (drop (nat (if k = 0 then 0 else f)) (sds_str s))"
      using len az n by (auto simp: k_def f_def min_def)
    finally show ?thesis .
  qed
  have big: "to_size (to_int 2147483648) = 18446744071562067968"
    by (simp add: to_size_def to_int_def)
  have nz: "range_span a z \<noteq> 0" if "a \<le> z"
  proof (cases "z - a + 1 \<le> INT_MAX")
    case True
    with that az show ?thesis by (simp add: range_span_def)
  next
    case False
    with az have "z - a + 1 = 2147483648" by simp
    with that show ?thesis unfolding range_span_def by (simp add: big)
  qed
  have span: "range_span a z = z - a + 1" if "a \<le> z" "z < n"
    using that az n by (simp add: range_span_def)
  have last: "range_span a (to_int (n - 1)) = n - 1 - a + 1" if "a < n"
    using that az n by (simp add: range_span_def)
  define f0 where "f0 = (if k = 0 then 0 else f)"
  have pair: "(if range_span a z \<noteq> 0
      then (if a \<ge> to_int n then (a, 0)
            else if z \<ge> to_int n then (a, range_span a (to_int (n - 1))) else (a, range_span a z))
      else (0, range_span a z)) = (f, k)"
  proof (cases "a \<le> z")
    case True
    then show ?thesis using nz span last n az by (auto simp: k_def f_def min_def)
  next
    case False
    then show ?thesis by (simp add: range_span_def k_def f_def)
  qed
  have conv: "to_int k = k" "to_int (sh_free s + (sh_len s - k)) = sh_free s + (sh_len s - k)"
    using k n ok f0_def by (auto simp: n_def) (cases "k = 0"; simp add: n_def)+
  have "sdsrange s start stop = do {
      b \<leftarrow> (if f0 \<noteq> 0 then do { d \<leftarrow> mem_read (sh_buf s) f0 k; mem_write (sh_buf s) 0 d } else Some (sh_buf s));
      b' \<leftarrow> mem_write b k [NUL];
      Some \<lparr>sh_len = k, sh_free = sh_free s + (sh_len s - k), sh_buf = b'\<rparr> }"
    using assms(1) False pair na conv
    by (simp add: sdsrange_def Let_def f0_def flip: n_def)
  moreover have "0 \<le> f0" "f0 + k \<le> sh_len s" "0 \<le> k"
    using k n ok by (auto simp: f0_def n_def)
  moreover then obtain b b' where "(if f0 \<noteq> 0 then do { d \<leftarrow> mem_read (sh_buf s) f0 k; mem_write (sh_buf s) 0 d }
      else Some (sh_buf s)) = Some b" "mem_write b k [NUL] = Some b'"
    "let s' = \<lparr>sh_len = k, sh_free = sh_free s + (sh_len s - k), sh_buf = b'\<rparr>
     in sds_ok s' \<and> sds_str s' = take (nat k) (drop (nat f0) (sds_str s))"
    using move_front [OF assms(1), of f0 k "f0 \<noteq> 0"] by blast
  ultimately show ?thesis
    by (simp only: Option.bind.bind_lunit Let_def spec) (simp add: f0_def)
qed

text \<open>The use the reader and the connection make of \<open>sdsrange\<close>: drop a prefix.\<close>

lemma sdsrange_drop:
  assumes "sds_ok s" "0 \<le> k" "k \<le> sh_len s"
  shows "\<exists>s'. sdsrange s k (- 1) = Some s' \<and> sds_ok s' \<and> sds_str s' = drop (nat k) (sds_str s) \<and>
    sh_len s' + sh_free s' = sh_len s + sh_free s"
proof -
  have "slice (sds_str s) k (- 1) = drop (nat k) (sds_str s)"
    using assms(2,3) length_sds_str [OF assms(1)] by (cases "sds_str s") (auto simp: slice_def Let_def)
  then show ?thesis
    using sdsrange_ok [OF assms(1), of k "- 1"] assms sds_okD [OF assms(1)] by simp
qed

section \<open>Trimming\<close>

definition trimmed_by :: "bytes \<Rightarrow> char \<Rightarrow> bool" where
  "trimmed_by cs c \<longleftrightarrow> c = NUL \<or> c \<in> set cs"

lemma strchr_hits_cstr: "NUL \<notin> set cs \<Longrightarrow> strchr_hits (cstr cs) c = Some (trimmed_by cs c)"
  by (simp add: strchr_hits_def trimmed_by_def) (simp add: cstr_def)

lemma trim_left_eq:
  assumes "NUL \<notin> set cs" "b = xs @ ys"
  shows "0 \<le> sp \<Longrightarrow> sp \<le> int (length xs) \<Longrightarrow> trim_left b (cstr cs) sp (int (length xs) - 1) =
     Some (sp + int (length (takeWhile (trimmed_by cs) (drop (nat sp) xs))))"
proof (induction "nat (int (length xs) - sp)" arbitrary: sp)
  case 0
  then show ?case by (simp add: trim_left.simps [of b])
next
  case (Suc m)
  then have lt: "sp < int (length xs)" by linarith
  then have at: "byte_at b sp = Some (xs ! nat sp)"
    using Suc.prems assms(2) by (simp add: byte_at_def nth_append nat_less_iff)
  have drop: "drop (nat sp) xs = xs ! nat sp # drop (nat (sp + 1)) xs"
    using lt Suc.prems by (simp add: Cons_nth_drop_Suc nat_less_iff nat_add_distrib)
  show ?case
  proof (cases "trimmed_by cs (xs ! nat sp)")
    case True
    have "trim_left b (cstr cs) (sp + 1) (int (length xs) - 1) =
        Some (sp + 1 + int (length (takeWhile (trimmed_by cs) (drop (nat (sp + 1)) xs))))"
      using Suc lt by (intro Suc.hyps(1)) simp_all
    with True lt at show ?thesis
      by (simp add: trim_left.simps [of b _ sp] strchr_hits_cstr assms(1) drop)
  next
    case False
    with lt at show ?thesis
      by (simp add: trim_left.simps [of b _ sp] strchr_hits_cstr assms(1) drop)
  qed
qed

lemma trim_right_eq:
  assumes "NUL \<notin> set cs" "b = xs @ ys"
  shows "0 \<le> ep \<Longrightarrow> ep < int (length xs) \<Longrightarrow> trim_right b (cstr cs) ep 0 =
     Some (max 0 (ep - int (length (takeWhile (trimmed_by cs) (rev (take (nat (ep + 1)) xs))))))"
proof (induction "nat ep" arbitrary: ep)
  case 0
  then show ?case by (simp add: trim_right.simps [of b])
next
  case (Suc m)
  then have pos: "0 < ep" by linarith
  then have at: "byte_at b ep = Some (xs ! nat ep)"
    using Suc.prems assms(2) by (simp add: byte_at_def nth_append nat_less_iff)
  have "nat (ep + 1) = Suc (nat ep)" using pos by simp
  then have tk: "rev (take (nat (ep + 1)) xs) = xs ! nat ep # rev (take (nat (ep - 1 + 1)) xs)"
    using Suc.prems by (simp add: take_Suc_conv_app_nth nat_less_iff)
  show ?case
  proof (cases "trimmed_by cs (xs ! nat ep)")
    case True
    have "trim_right b (cstr cs) (ep - 1) 0 =
        Some (max 0 (ep - 1 - int (length (takeWhile (trimmed_by cs) (rev (take (nat (ep - 1 + 1)) xs))))))"
      using Suc pos by (intro Suc.hyps(1)) simp_all
    with True pos at show ?thesis
      unfolding tk by (simp add: trim_right.simps [of b _ ep] strchr_hits_cstr assms(1) algebra_simps)
  next
    case False
    with pos at show ?thesis
      unfolding tk by (simp add: trim_right.simps [of b _ ep] strchr_hits_cstr assms(1))
  qed
qed

text \<open>Trimming by counting from both ends is \<open>strip\<close>.\<close>

lemma strip_take_drop:
  assumes "\<exists>x \<in> set xs. \<not> P x"
  defines "i \<equiv> length (takeWhile P xs)" and "j \<equiv> length (takeWhile P (rev xs))"
  shows "i + j < length xs" and "strip P xs = take (length xs - i - j) (drop i xs)"
proof -
  have dw: "dropWhile P xs = drop i xs" by (simp add: i_def dropWhile_eq_drop)
  obtain x where x: "x \<in> set (dropWhile P xs)" "\<not> P x"
    using assms(1) by (metis dropWhile_eq_Nil_conv list.set_intros(1) hd_dropWhile list.collapse)
  have "rev xs = rev (dropWhile P xs) @ rev (takeWhile P xs)"
    by (metis rev_append takeWhile_dropWhile_id)
  then have tw: "takeWhile P (rev xs) = takeWhile P (rev (dropWhile P xs))"
    using x takeWhile_append1 [of x "rev (dropWhile P xs)" P] by simp
  have "takeWhile P (rev (dropWhile P xs)) \<noteq> rev (dropWhile P xs)"
    using x by (auto simp: takeWhile_eq_all_conv)
  then have "length (takeWhile P (rev (dropWhile P xs))) < length (rev (dropWhile P xs))"
    by (metis takeWhile_eq_take le_neq_implies_less length_takeWhile_le take_all_iff)
  then have lt: "j < length (drop i xs)" by (simp add: j_def tw dw)
  have jd: "j = length (takeWhile P (rev (drop i xs)))" by (simp add: j_def tw dw)
  from lt show "i + j < length xs" by simp
  have "dropWhile P (rev (drop i xs)) = drop j (rev (drop i xs))"
    using dropWhile_eq_drop [of P "rev (drop i xs)"] by (simp add: jd)
  then show "strip P xs = take (length xs - i - j) (drop i xs)"
    by (simp only: strip_def dw rev_drop [of j "rev (drop i xs)"] rev_rev_ident length_rev length_drop)
qed

lemma strip_all: "\<forall>x \<in> set xs. P x \<Longrightarrow> strip P xs = []"
  by (simp add: strip_def dropWhile_eq_Nil_conv [THEN iffD2])

lemma sdstrim_ok:
  assumes "sds_ok s" "NUL \<notin> set cs"
  shows "\<exists>s'. sdstrim s (cstr cs) = Some s' \<and> sds_ok s' \<and>
    sds_str s' = strip (trimmed_by cs) (sds_str s) \<and> sh_len s' + sh_free s' = sh_len s + sh_free s"
proof -
  let ?P = "trimmed_by cs" and ?xs = "sds_str s" and ?n = "length (sds_str s)"
  note ok = sds_okD [OF assms(1)]
  have n: "sh_len s = int ?n" using length_sds_str [OF assms(1)] by simp
  obtain rest where buf: "sh_buf s = ?xs @ NUL # rest" using sds_ok_elim [OF assms(1)] by blast
  define i j where "i = length (takeWhile ?P ?xs)" and "j = length (takeWhile ?P (rev ?xs))"
  have ij: "i \<le> ?n" "j \<le> ?n"
    using length_takeWhile_le [of ?P ?xs] length_takeWhile_le [of ?P "rev ?xs"]
    by (simp_all add: i_def j_def)
  have left: "trim_left (sh_buf s) (cstr cs) 0 (int ?n - 1) = Some (int i)"
    using trim_left_eq [OF assms(2) buf, of 0] by (simp add: i_def)
  have right: "trim_right (sh_buf s) (cstr cs) (int ?n - 1) 0 =
      Some (if ?n = 0 then -1 else max 0 (int ?n - 1 - int j))"
  proof (cases "?n = 0")
    case True
    then show ?thesis by (simp add: trim_right.simps [of "sh_buf s"])
  next
    case False
    then show ?thesis
      using trim_right_eq [OF assms(2) buf, of "int ?n - 1"] by (simp add: j_def)
  qed
  define k where "k = length (strip ?P ?xs)"
  have k: "i + k \<le> ?n" "take k (drop i ?xs) = strip ?P ?xs"
    "(let ep = (if ?n = 0 then -1 else max 0 (int ?n - 1 - int j)) in
      if int i > ep then 0 else ep - int i + 1) = int k"
  proof -
    consider "\<forall>x \<in> set ?xs. ?P x" | "\<exists>x \<in> set ?xs. \<not> ?P x" by blast
    then have "i + k \<le> ?n \<and> take k (drop i ?xs) = strip ?P ?xs \<and>
      (let ep = (if ?n = 0 then -1 else max 0 (int ?n - 1 - int j)) in
        if int i > ep then 0 else ep - int i + 1) = int k"
    proof cases
      case 1
      then have "i = ?n" "j = ?n" by (simp_all add: i_def j_def takeWhile_eq_all_conv [THEN iffD2])
      moreover have "k = 0" by (simp add: k_def strip_all [OF 1])
      ultimately show ?thesis by (auto simp: strip_all [OF 1])
    next
      case 2
      note st = strip_take_drop [OF 2, folded i_def j_def]
      have "k = ?n - i - j" using st by (simp add: k_def)
      with st show ?thesis by (auto simp: Let_def of_nat_diff max_def)
    qed
    then show "i + k \<le> ?n" "take k (drop i ?xs) = strip ?P ?xs"
      "(let ep = (if ?n = 0 then -1 else max 0 (int ?n - 1 - int j)) in
        if int i > ep then 0 else ep - int i + 1) = int k" by blast+
  qed
  have conv: "to_int (int k) = int k" "to_int (sh_free s + (sh_len s - int k)) = sh_free s + (sh_len s - int k)"
    using k(1) ok n by simp_all
  have fits: "0 \<le> int i" "0 \<le> int k" "int i + int k \<le> sh_len s" "\<not> int i \<noteq> 0 \<Longrightarrow> int i = 0 \<or> int k = 0"
    using k(1) n by simp_all
  have "sdstrim s (cstr cs) = do {
      b \<leftarrow> (if int i \<noteq> 0 then do { d \<leftarrow> mem_read (sh_buf s) (int i) (int k); mem_write (sh_buf s) 0 d }
           else Some (sh_buf s));
      b' \<leftarrow> mem_write b (int k) [NUL];
      Some \<lparr>sh_len = int k, sh_free = sh_free s + (sh_len s - int k), sh_buf = b'\<rparr> }"
    using left right k(3) conv assms(1) by (simp add: sdstrim_def n Let_def del: length_sds_str)
  moreover obtain b b' where "(if int i \<noteq> 0 then do { d \<leftarrow> mem_read (sh_buf s) (int i) (int k); mem_write (sh_buf s) 0 d }
      else Some (sh_buf s)) = Some b" "mem_write b (int k) [NUL] = Some b'"
    "let s' = \<lparr>sh_len = int k, sh_free = sh_free s + (sh_len s - int k), sh_buf = b'\<rparr>
     in sds_ok s' \<and> sds_str s' = take (nat (int k)) (drop (nat (int i)) ?xs)"
    using move_front [OF assms(1), of "int i" "int k" "int i \<noteq> 0"] fits by blast
  ultimately show ?thesis
    by (simp only: Option.bind.bind_lunit Let_def) (simp add: k(2))
qed

section \<open>Elementwise loops\<close>

lemma each_byte_eq:
  assumes "\<And>c. c \<in> set xs \<Longrightarrow> f c = Some (g c)"
  shows "each_byte f (pre @ xs @ post) (int (length pre)) (length xs) = Some (pre @ map g xs @ post)"
  using assms
proof (induction xs arbitrary: pre)
  case Nil
  then show ?case by simp
next
  case (Cons x xs)
  have at: "byte_at (pre @ (x # xs) @ post) (int (length pre)) = Some x"
    by (simp add: byte_at_def nth_append)
  have wr: "mem_write (pre @ (x # xs) @ post) (int (length pre)) [g x] = Some ((pre @ [g x]) @ xs @ post)"
    using mem_write_byte [of "int (length pre)" pre x "xs @ post" "g x"] by simp
  have "int (length pre) + 1 = int (length (pre @ [g x]))" by simp
  with Cons.IH [of "pre @ [g x]"] Cons.prems at wr show ?case
    by (simp add: add.commute)
qed

lemma each_byte_sds:
  assumes "sds_ok s" "\<And>c. c \<in> set (sds_str s) \<Longrightarrow> f c = Some (g c)"
  shows "\<exists>b. each_byte f (sh_buf s) 0 (nat (sh_len s)) = Some b \<and>
    sds_ok (s\<lparr>sh_buf := b\<rparr>) \<and> sds_str (s\<lparr>sh_buf := b\<rparr>) = map g (sds_str s)"
proof -
  obtain rest where buf: "sh_buf s = sds_str s @ NUL # rest" and free: "sh_free s = int (length rest)"
    using sds_ok_elim [OF assms(1)] by blast
  have len: "sh_len s = int (length (sds_str s))" using length_sds_str [OF assms(1)] by simp
  have "each_byte f (sh_buf s) 0 (nat (sh_len s)) = Some (map g (sds_str s) @ NUL # rest)"
    using each_byte_eq [where pre = "[]" and f = f and g = g and post = "NUL # rest", OF assms(2)]
    by (simp add: len buf)
  moreover have "sds_ok (s\<lparr>sh_buf := map g (sds_str s) @ NUL # rest\<rparr>) \<and>
      sds_str (s\<lparr>sh_buf := map g (sds_str s) @ NUL # rest\<rparr>) = map g (sds_str s)"
    using len free sds_okD(3) [OF assms(1)] by (intro sds_ok_intro [of _ _ rest]) simp_all
  ultimately show ?thesis by blast
qed

lemma sdstolower_ok:
  assumes "sds_ok s"
  shows "\<exists>s'. sdstolower s = Some s' \<and> sds_ok s' \<and> sds_str s' = map c_tolower (sds_str s)"
  using each_byte_sds [OF assms, of "\<lambda>c. Some (c_tolower c)" c_tolower] sds_okD [OF assms] assms
  by (auto simp: sdstolower_def)

lemma sdstoupper_ok:
  assumes "sds_ok s"
  shows "\<exists>s'. sdstoupper s = Some s' \<and> sds_ok s' \<and> sds_str s' = map c_toupper (sds_str s)"
  using each_byte_sds [OF assms, of "\<lambda>c. Some (c_toupper c)" c_toupper] sds_okD [OF assms] assms
  by (auto simp: sdstoupper_def)

text \<open>The first pair of \<open>zip from to\<close> that matches is the character \<open>sdsmapchars\<close> stores.\<close>

definition mapped_char :: "bytes \<Rightarrow> bytes \<Rightarrow> char \<Rightarrow> char" where
  "mapped_char from to c = (case map_of (zip from to) c of None \<Rightarrow> c | Some d \<Rightarrow> d)"

lemma map_char_eq:
  assumes "length from = length to" "length fpre = length tpre"
  shows "map_char (fpre @ from) (tpre @ to) (int (length fpre)) (length from) c = Some (mapped_char from to c)"
  using assms
proof (induction "from" "to" arbitrary: fpre tpre rule: list_induct2)
  case Nil
  then show ?case by (simp add: mapped_char_def)
next
  case (Cons f fs t ts)
  have "int (length fpre) + 1 = int (length (fpre @ [f]))" by simp
  with Cons.IH [of "fpre @ [f]" "tpre @ [t]"] Cons.prems show ?case
    by (simp add: byte_at_def nth_append mapped_char_def add.commute)
qed

lemma sdsmapchars_ok:
  assumes "sds_ok s" "length from = length to"
  shows "\<exists>s'. sdsmapchars s from to (int (length from)) = Some s' \<and> sds_ok s' \<and>
    sds_str s' = map (mapped_char from to) (sds_str s)"
  using each_byte_sds [OF assms(1), of "map_char from to 0 (length from)" "mapped_char from to"]
    map_char_eq [OF assms(2), of "[]" "[]"] assms(1)
  by (auto simp: sdsmapchars_def)

section \<open>Comparison\<close>

lemma of_char_eq_nat: "(of_char x :: nat) = of_char y \<longleftrightarrow> x = y"
  by simp

lemma of_char_less_int: "(of_char x :: int) < of_char y \<longleftrightarrow> (of_char x :: nat) < of_char y"
  using of_nat_less_iff [where 'a = int, of "of_char x" "of_char y"] by (simp add: of_nat_of_char)

lemma c_memcmp_prefix:
  "c_memcmp (take (min (length xs) (length ys)) xs) (take (min (length xs) (length ys)) ys) = 0 \<longleftrightarrow>
     take (min (length xs) (length ys)) xs = take (min (length xs) (length ys)) ys"
  by (induction xs ys rule: c_memcmp.induct) (auto simp: of_char_eq_iff)

lemma byte_less_cmp:
  "byte_less xs ys \<longleftrightarrow>
     (let m = min (length xs) (length ys); r = c_memcmp (take m xs) (take m ys)
      in if r = 0 then length xs < length ys else r < 0)"
proof (induction xs ys rule: c_memcmp.induct)
  case (1 x xs y ys)
  have "x \<noteq> y \<Longrightarrow> (of_char x :: nat) < of_char y \<or> (of_char y :: nat) < of_char x"
    using of_char_eq_nat linorder_neqE_nat by blast
  with 1 show ?case
    by (cases "x = y") (auto simp: byte_less_def Let_def of_char_less_int)
next
  show "byte_less [] ys \<longleftrightarrow> (let m = min (length []) (length ys); r = c_memcmp (take m []) (take m ys)
      in if r = 0 then length [] < length ys else r < 0)" for ys
    by (cases ys) (simp_all add: byte_less_def)
next
  show "byte_less xs [] \<longleftrightarrow> (let m = min (length xs) (length []); r = c_memcmp (take m xs) (take m [])
      in if r = 0 then length xs < length [] else r < 0)" for xs
    by (cases xs) (simp_all add: byte_less_def)
qed

lemma sdscmp_ok:
  assumes "sds_ok s1" "sds_ok s2"
  shows "\<exists>r. sdscmp s1 s2 = Some r \<and> (r = 0 \<longleftrightarrow> sds_str s1 = sds_str s2) \<and>
    (r < 0 \<longleftrightarrow> byte_less (sds_str s1) (sds_str s2))"
proof -
  let ?x = "sds_str s1" and ?y = "sds_str s2"
  let ?m = "min (length ?x) (length ?y)"
  have l: "sh_len s1 = int (length ?x)" "sh_len s2 = int (length ?y)"
    using length_sds_str assms by simp_all
  have m: "(if sh_len s1 < sh_len s2 then sh_len s1 else sh_len s2) = int ?m" by (simp add: l min_def)
  have rd: "mem_read (sh_buf s1) 0 (int ?m) = Some (take ?m ?x)"
    "mem_read (sh_buf s2) 0 (int ?m) = Some (take ?m ?y)"
    using mem_read_sds [OF assms(1), of 0 ?m] mem_read_sds [OF assms(2), of 0 ?m] by simp_all
  have conv: "to_int (sh_len s1 - sh_len s2) = sh_len s1 - sh_len s2"
    using sds_okD [OF assms(1)] sds_okD [OF assms(2)] by simp
  have eq: "sdscmp s1 s2 = Some (let r = c_memcmp (take ?m ?x) (take ?m ?y)
      in if r = 0 then sh_len s1 - sh_len s2 else r)"
    using assms rd conv by (simp add: sdscmp_def m Let_def)
  have "?x = ?y \<longleftrightarrow> take ?m ?x = take ?m ?y \<and> length ?x = length ?y" by auto
  then show ?thesis
    using eq c_memcmp_prefix [of ?x ?y] byte_less_cmp [of ?x ?y] l by (auto simp: Let_def)
qed

section \<open>The interface of a byte buffer\<close>

text \<open>
  What the protocol reader and the connection need of a buffer: \<open>bappend\<close> appends bytes or reports
  that memory is exhausted, \<open>bdrop\<close> removes a prefix, and neither fails in any other way while the
  content stays below \<open>limit\<close>.
\<close>

locale byte_buffer =
  fixes inv :: "'b \<Rightarrow> bool"
    and content :: "'b \<Rightarrow> bytes"
    and bappend :: "'b \<Rightarrow> bytes \<Rightarrow> 'b ptr option"
    and bdrop :: "'b \<Rightarrow> int \<Rightarrow> 'b option"
    and limit :: int
  assumes bappend_law: "inv b \<Longrightarrow> int (length (content b)) + int (length t) \<le> limit \<Longrightarrow>
      bappend b t = Some NULL \<or> (\<exists>b'. bappend b t = Some (Ptr b') \<and> inv b' \<and> content b' = content b @ t)"
    and bdrop_law: "inv b \<Longrightarrow> n \<le> length (content b) \<Longrightarrow>
      \<exists>b'. bdrop b (int n) = Some b' \<and> inv b' \<and> content b' = drop n (content b)"
begin

primrec bappend_all :: "'b \<Rightarrow> bytes list \<Rightarrow> 'b ptr option" where
  "bappend_all b [] = Some (Ptr b)"
| "bappend_all b (t # ts) = do { r \<leftarrow> bappend b t; (case r of NULL \<Rightarrow> Some NULL | Ptr b' \<Rightarrow> bappend_all b' ts) }"

lemma bappend_all_concat:
  assumes "inv b" "int (length (content b)) + int (length (concat ts)) \<le> limit"
  shows "bappend_all b ts = Some NULL \<or>
    (\<exists>b'. bappend_all b ts = Some (Ptr b') \<and> inv b' \<and> content b' = content b @ concat ts)"
  using assms
proof (induction ts arbitrary: b)
  case Nil
  then show ?case by simp
next
  case (Cons t ts)
  from Cons.prems have "int (length (content b)) + int (length t) \<le> limit" by simp
  with bappend_law [OF Cons.prems(1)] consider "bappend b t = Some NULL"
    | b1 where "bappend b t = Some (Ptr b1)" "inv b1" "content b1 = content b @ t" by blast
  then show ?case
  proof cases
    case 1
    then show ?thesis by simp
  next
    case 2
    with Cons.prems Cons.IH [of b1] show ?thesis by simp
  qed
qed

text \<open>Appending and then dropping what was there before leaves the appended bytes.\<close>

lemma bappend_bdrop:
  assumes "inv b" "int (length (content b)) + int (length t) \<le> limit" "bappend b t = Some (Ptr b1)"
  shows "\<exists>b2. bdrop b1 (int (length (content b))) = Some b2 \<and> inv b2 \<and> content b2 = t"
proof -
  from bappend_law [OF assms(1,2)] assms(3) have "inv b1" "content b1 = content b @ t" by auto
  with bdrop_law [of b1 "length (content b)"] show ?thesis by simp
qed

end

definition sds_append :: "cenv \<Rightarrow> sds \<Rightarrow> bytes \<Rightarrow> sds ptr option" where
  "sds_append e s t = sdscatlen e s t (int (length t))"

definition sds_drop :: "sds \<Rightarrow> int \<Rightarrow> sds option" where
  "sds_drop s n = sdsrange s n (- 1)"

lemma sds_append_law:
  assumes "sds_ok s" "int (length (sds_str s)) + int (length t) \<le> SDS_LIMIT"
  shows "sds_append e s t = Some NULL \<or>
    (\<exists>s'. sds_append e s t = Some (Ptr s') \<and> sds_ok s' \<and> sds_str s' = sds_str s @ t)"
  using sdscatlen_yields [of s t e "[]"] assms by (auto simp: sds_append_def yields_def)

lemma sds_drop_law:
  assumes "sds_ok s" "n \<le> length (sds_str s)"
  shows "\<exists>s'. sds_drop s (int n) = Some s' \<and> sds_ok s' \<and> sds_str s' = drop n (sds_str s)"
proof -
  have "int n \<le> sh_len s" using assms(2) length_sds_str [OF assms(1)] by linarith
  then show ?thesis using sdsrange_drop [OF assms(1), of "int n"] by (auto simp: sds_drop_def)
qed

interpretation sdsbuf: byte_buffer sds_ok sds_str "sds_append e" sds_drop SDS_LIMIT for e
  by unfold_locales (rule sds_append_law sds_drop_law; assumption)+

end
