(* ===== verification/Sds_Number.thy ===== *)
theory Sds_Number
  imports Sds
begin

text \<open>
  Numbers and formats of \<open>sds.c\<close>: the digit loops \<open>sdsll2str\<close>, \<open>sdsull2str\<close> and
  \<open>sdsfromlonglong\<close>, which write into fixed buffers, the growing buffer of \<open>sdscatvprintf\<close> and the
  format interpreter \<open>sdscatfmt\<close>. The reference is the decimal notation \<open>dec_int\<close>,
  \<open>dec_string\<close> of the base theory.

  \<open>sdscatvprintf\<close> takes the text that \<open>vsnprintf\<close> renders instead of a format and its
  arguments: rendering is the C library's, the loop around it is this component's. A pointer into a
  format string is the list of the bytes from there on. A variable argument is a tagged value; taking
  one of another type than the format asks for is \<open>None\<close>.
\<close>

section \<open>Digit loops\<close>

function put_digits :: "bytes \<Rightarrow> int \<Rightarrow> nat \<Rightarrow> (bytes \<times> int) option" where
  "put_digits b p v = do {
     b' \<leftarrow> mem_write b p [digit_char (v mod 10)];
     if v div 10 \<noteq> 0 then put_digits b' (p + 1) (v div 10) else Some (b', p + 1)
   }"
  by pat_completeness auto
termination
  by (relation "measure (\<lambda>(b, p, v). v)") auto

function put_digits_back :: "bytes \<Rightarrow> int \<Rightarrow> nat \<Rightarrow> (bytes \<times> int) option" where
  "put_digits_back b p v = do {
     b' \<leftarrow> mem_write b p [digit_char (v mod 10)];
     if v div 10 \<noteq> 0 then put_digits_back b' (p - 1) (v div 10) else Some (b', p - 1)
   }"
  by pat_completeness auto
termination
  by (relation "measure (\<lambda>(b, p, v). v)") auto

function reverse_in_place :: "bytes \<Rightarrow> int \<Rightarrow> int \<Rightarrow> bytes option" where
  "reverse_in_place b s p =
     (if s < p
      then do {
        x \<leftarrow> byte_at b s; y \<leftarrow> byte_at b p;
        b1 \<leftarrow> mem_write b s [y]; b2 \<leftarrow> mem_write b1 p [x];
        reverse_in_place b2 (s + 1) (p - 1)
      }
      else Some b)"
  by pat_completeness auto
termination
  by (relation "measure (\<lambda>(b, s, p). nat (p - s))") auto

declare put_digits.simps [simp del] put_digits_back.simps [simp del] reverse_in_place.simps [simp del]

definition magnitude :: "int \<Rightarrow> nat" where
  "magnitude value = nat (to_size (if value < 0 then to_ll (- value) else value))"

definition sdsll2str :: "bytes \<Rightarrow> int \<Rightarrow> (bytes \<times> int) option" where
  "sdsll2str b value = do {
     (b1, p1) \<leftarrow> put_digits b 0 (magnitude value);
     (b2, p2) \<leftarrow> (if value < 0 then do { b' \<leftarrow> mem_write b1 p1 [CHR ''-'']; Some (b', p1 + 1) }
                   else Some (b1, p1));
     b3 \<leftarrow> mem_write b2 p2 [NUL];
     b4 \<leftarrow> reverse_in_place b3 0 (p2 - 1);
     Some (b4, to_int p2)
   }"

definition sdsull2str :: "bytes \<Rightarrow> nat \<Rightarrow> (bytes \<times> int) option" where
  "sdsull2str b v = do {
     (b1, p1) \<leftarrow> put_digits b 0 v;
     b2 \<leftarrow> mem_write b1 p1 [NUL];
     b3 \<leftarrow> reverse_in_place b2 0 (p1 - 1);
     Some (b3, to_int p1)
   }"

definition sdsfromlonglong :: "cenv \<Rightarrow> int \<Rightarrow> sds ptr option" where
  "sdsfromlonglong e value = do {
     (b1, p1) \<leftarrow> put_digits_back (fresh e 32) 31 (magnitude value);
     (b2, p2) \<leftarrow> (if value < 0 then do { b' \<leftarrow> mem_write b1 p1 [CHR ''-'']; Some (b', p1 - 1) }
                   else Some (b1, p1));
     sdsnewlen e (Ptr (drop (nat (p2 + 1)) b2)) (32 - (p2 + 1))
   }"

section \<open>The printf buffer\<close>

function printf_buffer :: "cenv \<Rightarrow> bytes \<Rightarrow> int \<Rightarrow> bytes ptr option" where
  "printf_buffer e text buflen =
     (if \<not> granted e buflen then Some NULL
      else do {
        b \<leftarrow> mem_write (fresh e buflen) (buflen - 2) [NUL];
        b' \<leftarrow> mem_write b 0 (take (nat (buflen - 1)) text @ [NUL]);
        c \<leftarrow> byte_at b' (buflen - 2);
        if c \<noteq> NUL then printf_buffer e text (buflen * 2) else Some (Ptr b')
      })"
  by pat_completeness auto

text \<open>
  The loop ends: a byte other than NUL at the last but one place means that the text is at least
  that long.
\<close>

lemma printf_probe:
  assumes "mem_write (fresh e n) (n - 2) [NUL] = Some b"
    and "mem_write b 0 (take (nat (n - 1)) text @ [NUL]) = Some b'"
    and "byte_at b' (n - 2) = Some c"
  shows "2 \<le> n" and "c \<noteq> NUL \<Longrightarrow> n < int (length text) + 2"
    and "c = NUL \<Longrightarrow> NUL \<notin> set text \<Longrightarrow> int (length text) + 2 \<le> n"
proof -
  show n: "2 \<le> n" using assms(1) by (simp add: mem_write_def split: if_splits)
  have lb: "length b = nat n" using mem_write_length [OF assms(1)] by simp
  have b: "b ! nat (n - 2) = NUL"
    using assms(1) n by (auto simp: mem_write_def nth_append split: if_splits)
  have b': "b' = (take (nat (n - 1)) text @ [NUL]) @ drop (length (take (nat (n - 1)) text @ [NUL])) b"
    using assms(2) by (auto simp: mem_write_def split: if_splits)
  have c: "c = b' ! nat (n - 2)" using assms(3) by (auto simp: byte_at_def split: if_splits)
  have short: "c = NUL" if "int (length text) + 2 \<le> n"
  proof (cases "length text = nat (n - 2)")
    case True
    then show ?thesis using c n unfolding b' by (simp add: nth_append)
  next
    case False
    with that n have "length text < nat (n - 2)" by linarith
    with c n b lb show ?thesis unfolding b' by (simp add: nth_append)
  qed
  then show "n < int (length text) + 2" if "c \<noteq> NUL" using that by force
  have long: "c = text ! nat (n - 2)" if "n < int (length text) + 2"
    using c n that unfolding b' by (simp add: nth_append nat_less_iff)
  show "int (length text) + 2 \<le> n" if "c = NUL" "NUL \<notin> set text"
  proof (rule ccontr)
    assume "\<not> int (length text) + 2 \<le> n"
    then have "n < int (length text) + 2" by simp
    moreover from this n have "nat (n - 2) < length text" by linarith
    ultimately show False using long that by (metis nth_mem)
  qed
qed

termination printf_buffer
proof (relation "measure (\<lambda>(e, text, buflen). nat (int (length text) + 2 - buflen))", simp, goal_cases)
  case (1 e str buflen b b' c)
  from printf_probe(1,2) [OF 1(2,3,4)] 1(5) show ?case by simp
qed

declare printf_buffer.simps [simp del]

definition sdscatvprintf :: "cenv \<Rightarrow> sds \<Rightarrow> bytes \<Rightarrow> sds ptr option" where
  "sdscatvprintf e s text = do {
     r \<leftarrow> printf_buffer e text 16;
     (case r of NULL \<Rightarrow> Some NULL | Ptr b \<Rightarrow> sdscat e s b)
   }"

section \<open>The format interpreter\<close>

datatype va_arg = VaStr bytes | VaSds sds | VaInt int | VaLL int | VaUInt nat | VaULL nat | VaSize nat

text \<open>
  A call of \<open>sdsMakeRoomFor\<close> whose result is used without a check: \<open>NULL\<close> is dereferenced.
\<close>

definition must_grow :: "cenv \<Rightarrow> sds \<Rightarrow> int \<Rightarrow> sds option" where
  "must_grow e s n = do {
     r \<leftarrow> sdsMakeRoomFor e s n; (case r of NULL \<Rightarrow> None | Ptr s' \<Rightarrow> Some s') }"

definition fmt_copy :: "cenv \<Rightarrow> bytes \<Rightarrow> int \<Rightarrow> sds \<times> int \<Rightarrow> (sds \<times> int) option" where
  "fmt_copy e str l = (\<lambda>(s, i). do {
     s1 \<leftarrow> (if sh_free s < l then must_grow e s l else Some s);
     d \<leftarrow> mem_read str 0 l;
     b \<leftarrow> mem_write (sh_buf s1) i d;
     Some (\<lparr>sh_len = to_int (sh_len s1 + l), sh_free = to_int (sh_free s1 - l), sh_buf = b\<rparr>, i + l)
   })"

definition fmt_byte :: "char \<Rightarrow> sds \<times> int \<Rightarrow> (sds \<times> int) option" where
  "fmt_byte c = (\<lambda>(s, i). do {
     b \<leftarrow> mem_write (sh_buf s) i [c];
     Some (\<lparr>sh_len = to_int (sh_len s + 1), sh_free = to_int (sh_free s - 1), sh_buf = b\<rparr>, i + 1)
   })"

definition LLSTR_SIZE :: int where "LLSTR_SIZE = 21"

definition fmt_spec :: "cenv \<Rightarrow> char \<Rightarrow> va_arg list \<Rightarrow> sds \<times> int \<Rightarrow> (va_arg list \<times> sds \<times> int) option" where
  "fmt_spec e next ap si =
     (if next = CHR ''s'' then
        (case ap of VaStr str # ap' \<Rightarrow> do { l \<leftarrow> c_strlen str; si' \<leftarrow> fmt_copy e str (to_int l) si; Some (ap', si') }
         | _ \<Rightarrow> None)
      else if next = CHR ''S'' then
        (case ap of VaSds t # ap' \<Rightarrow> do { si' \<leftarrow> fmt_copy e (sh_buf t) (to_int (sdslen t)) si; Some (ap', si') }
         | _ \<Rightarrow> None)
      else if next = CHR ''i'' then
        (case ap of VaInt num # ap' \<Rightarrow> do {
            (b, l) \<leftarrow> sdsll2str (fresh e LLSTR_SIZE) num; si' \<leftarrow> fmt_copy e b l si; Some (ap', si') }
         | _ \<Rightarrow> None)
      else if next = CHR ''I'' then
        (case ap of VaLL num # ap' \<Rightarrow> do {
            (b, l) \<leftarrow> sdsll2str (fresh e LLSTR_SIZE) num; si' \<leftarrow> fmt_copy e b l si; Some (ap', si') }
         | _ \<Rightarrow> None)
      else if next = CHR ''u'' then
        (case ap of VaUInt unum # ap' \<Rightarrow> do {
            (b, l) \<leftarrow> sdsull2str (fresh e LLSTR_SIZE) unum; si' \<leftarrow> fmt_copy e b l si; Some (ap', si') }
         | _ \<Rightarrow> None)
      else if next = CHR ''U'' then
        (case ap of VaULL unum # ap' \<Rightarrow> do {
            (b, l) \<leftarrow> sdsull2str (fresh e LLSTR_SIZE) unum; si' \<leftarrow> fmt_copy e b l si; Some (ap', si') }
         | _ \<Rightarrow> None)
      else if next = CHR ''T'' then
        (case ap of VaSize unum # ap' \<Rightarrow> do {
            (b, l) \<leftarrow> sdsull2str (fresh e LLSTR_SIZE) unum; si' \<leftarrow> fmt_copy e b l si; Some (ap', si') }
         | _ \<Rightarrow> None)
      else do { si' \<leftarrow> fmt_byte next si; Some (ap, si') })"

fun catfmt_loop :: "cenv \<Rightarrow> bytes \<Rightarrow> va_arg list \<Rightarrow> sds \<times> int \<Rightarrow> (sds \<times> int) option" where
  "catfmt_loop e [] ap si = None"
| "catfmt_loop e (c # f) ap si =
     (if c = NUL then Some si
      else do {
        s1 \<leftarrow> (if sh_free (fst si) = 0 then must_grow e (fst si) 1 else Some (fst si));
        if c = CHR ''%''
        then (case f of
                [] \<Rightarrow> None
              | next # f' \<Rightarrow> do {
                  (ap', si') \<leftarrow> fmt_spec e next ap (s1, snd si);
                  catfmt_loop e f' ap' si' })
        else do { si' \<leftarrow> fmt_byte c (s1, snd si); catfmt_loop e f ap si' }
      })"

definition sdscatfmt :: "cenv \<Rightarrow> sds \<Rightarrow> bytes \<Rightarrow> va_arg list \<Rightarrow> sds option" where
  "sdscatfmt e s fmt ap = do {
     (s1, i) \<leftarrow> catfmt_loop e fmt ap (s, to_int (sdslen s));
     b \<leftarrow> mem_write (sh_buf s1) i [NUL];
     Some (s1\<lparr>sh_buf := b\<rparr>)
   }"

section \<open>Digits\<close>

lemma dec_string_snoc: "v div 10 \<noteq> 0 \<Longrightarrow> dec_string v = dec_string (v div 10) @ [digit_char (v mod 10)]"
  by (rule dec_string_big) auto

lemma dec_string_last: "v div 10 = 0 \<Longrightarrow> dec_string v = [digit_char (v mod 10)]"
  by (subst dec_string_small) auto

lemma put_digits_eq:
  assumes "length old = length (dec_string v)"
  shows "put_digits (pre @ old @ post) (int (length pre)) v =
    Some (pre @ rev (dec_string v) @ post, int (length pre) + int (length (dec_string v)))"
  using assms
proof (induction v arbitrary: pre old rule: less_induct)
  case (less v)
  then obtain x xs where old: "old = x # xs" by (cases old) auto
  let ?d = "digit_char (v mod 10)"
  have wr: "mem_write (pre @ old @ post) (int (length pre)) [?d] = Some ((pre @ [?d]) @ xs @ post)"
    using mem_write_byte [of "int (length pre)" pre x "xs @ post" ?d] by (simp add: old)
  show ?case
  proof (cases "v div 10 = 0")
    case True
    with less.prems old wr show ?thesis
      by (simp add: put_digits.simps [of _ _ v] dec_string_last)
  next
    case False
    then have "v div 10 < v" by simp
    moreover have "length xs = length (dec_string (v div 10))"
      using less.prems old False by (simp add: dec_string_snoc)
    ultimately have "put_digits ((pre @ [?d]) @ xs @ post) (int (length (pre @ [?d]))) (v div 10) =
        Some ((pre @ [?d]) @ rev (dec_string (v div 10)) @ post,
          int (length (pre @ [?d])) + int (length (dec_string (v div 10))))"
      by (rule less.IH)
    with False wr show ?thesis
      by (simp add: put_digits.simps [of _ _ v] dec_string_snoc add.commute add.left_commute)
  qed
qed

lemma put_digits_back_eq:
  assumes "length old = length (dec_string v)"
  shows "put_digits_back (pre @ old @ post) (int (length pre) + int (length old) - 1) v =
    Some (pre @ dec_string v @ post, int (length pre) - 1)"
  using assms
proof (induction v arbitrary: old post rule: less_induct)
  case (less v)
  then obtain x xs where old: "old = xs @ [x]" by (cases old rule: rev_cases) auto
  let ?d = "digit_char (v mod 10)"
  have wr: "mem_write (pre @ old @ post) (int (length pre) + int (length old) - 1) [?d]
      = Some (pre @ xs @ ?d # post)"
    using mem_write_byte [of "int (length pre + length xs)" "pre @ xs" x post ?d] by (simp add: old)
  show ?case
  proof (cases "v div 10 = 0")
    case True
    with less.prems old have "xs = []" by (simp add: dec_string_last)
    with True wr old show ?thesis
      by (simp add: put_digits_back.simps [of _ _ v] dec_string_last)
  next
    case False
    then have "v div 10 < v" by simp
    moreover have "length xs = length (dec_string (v div 10))"
      using less.prems old False by (simp add: dec_string_snoc)
    ultimately have "put_digits_back (pre @ xs @ (?d # post)) (int (length pre) + int (length xs) - 1) (v div 10) =
        Some (pre @ dec_string (v div 10) @ (?d # post), int (length pre) - 1)"
      by (rule less.IH)
    with False wr old show ?thesis
      by (simp add: put_digits_back.simps [of _ _ v] dec_string_snoc algebra_simps)
  qed
qed

lemma reverse_in_place_eq:
  "reverse_in_place (pre @ xs @ post) (int (length pre)) (int (length pre) + int (length xs) - 1) =
   Some (pre @ rev xs @ post)"
proof (induction xs arbitrary: pre post rule: length_induct)
  case (1 xs)
  show ?case
  proof (cases "length xs < 2")
    case True
    then have "xs = [] \<or> (\<exists>x. xs = [x])" by (cases xs) auto
    then show ?thesis by (auto simp: reverse_in_place.simps [of _ "int (length pre)"])
  next
    case False
    then obtain x ys y where xs: "xs = x # ys @ [y]"
      by (metis One_nat_def length_0_conv length_Cons less_2_cases_iff neq_Nil_conv rev_exhaust)
    let ?p = "int (length pre)" and ?q = "int (length pre) + int (length xs) - 1"
    have q: "?q = int (length (pre @ x # ys))" "?q = int (length (pre @ y # ys))" by (simp_all add: xs)
    have rd: "byte_at (pre @ xs @ post) ?p = Some x" "byte_at (pre @ xs @ post) ?q = Some y"
      using byte_at_append [OF refl, of pre x "ys @ [y] @ post"] byte_at_append [OF q(1), of y post]
      by (simp_all add: xs)
    have w1: "mem_write (pre @ xs @ post) ?p [y] = Some ((pre @ y # ys) @ y # post)"
      using mem_write_byte [of ?p pre x "ys @ [y] @ post" y] by (simp add: xs)
    have w2: "mem_write ((pre @ y # ys) @ y # post) ?q [x] = Some ((pre @ y # ys) @ x # post)"
      by (rule mem_write_byte) (rule q)
    have IH: "reverse_in_place ((pre @ [y]) @ ys @ (x # post)) (int (length (pre @ [y])))
        (int (length (pre @ [y])) + int (length ys) - 1) = Some ((pre @ [y]) @ rev ys @ (x # post))"
      using 1 xs by (metis length_Cons length_append_singleton less_Suc_eq lessI)
    have idx: "?p + 1 = int (length (pre @ [y]))" "?q - 1 = int (length (pre @ [y])) + int (length ys) - 1"
      by (simp_all add: xs)
    have lt: "?p < ?q" by (simp add: xs)
    have "reverse_in_place (pre @ xs @ post) ?p ?q =
        reverse_in_place ((pre @ y # ys) @ x # post) (?p + 1) (?q - 1)"
      using lt rd w1 w2 by (simp add: reverse_in_place.simps [of "pre @ xs @ post"])
    also have "\<dots> = Some (pre @ rev xs @ post)"
      using IH unfolding idx by (simp add: xs)
    finally show ?thesis .
  qed
qed

lemma magnitude_eq:
  assumes "- 9223372036854775808 \<le> i" "i \<le> LONG_MAX"
  shows "magnitude i = nat \<bar>i\<bar>"
proof -
  have "to_size (to_ll x) = to_size x" for x
    by (simp add: to_size_def to_ll_def take_bit_signed_take_bit)
  then show ?thesis using assms by (simp add: magnitude_def abs_if)
qed

lemma magnitude_length:
  assumes "- 9223372036854775808 \<le> i" "i \<le> LONG_MAX"
  shows "length (dec_string (magnitude i)) \<le> 19"
  using assms by (intro dec_string_length_le) (simp_all add: magnitude_eq)

lemma dec_int_magnitude:
  assumes "- 9223372036854775808 \<le> i" "i \<le> LONG_MAX"
  shows "dec_int i = (if i < 0 then [CHR ''-''] else []) @ dec_string (magnitude i)"
  using assms by (simp add: dec_int_def magnitude_eq)

lemma sdsll2str_eq:
  assumes "- 9223372036854775808 \<le> i" "i \<le> LONG_MAX" "length b = length (dec_int i) + 1 + length post"
  shows "\<exists>post'. length post' = length post \<and> sdsll2str b i = Some (dec_int i @ NUL # post', int (length (dec_int i)))"
proof -
  let ?d = "dec_string (magnitude i)" and ?sg = "if i < 0 then [CHR ''-''] else []"
  have dec: "dec_int i = ?sg @ ?d" by (rule dec_int_magnitude [OF assms(1,2)])
  define old r0 where "old = take (length ?d) b" and "r0 = drop (length ?d) b"
  have b: "b = [] @ old @ r0" and lo: "length old = length ?d"
    using assms(3) by (simp_all add: old_def r0_def dec)
  have lr: "length r0 = length ?sg + 1 + length post" using assms(3) by (simp add: r0_def dec)
  have dig: "put_digits b 0 (magnitude i) = Some (rev ?d @ r0, int (length ?d))"
    using put_digits_eq [OF lo, of "[]" r0] b by simp
  obtain y r1 where sg: "(if i < 0 then do { b' \<leftarrow> mem_write (rev ?d @ r0) (int (length ?d)) [CHR ''-''];
      Some (b', int (length ?d) + 1) } else Some (rev ?d @ r0, int (length ?d))) =
      Some (rev (dec_int i) @ y # r1, int (length (dec_int i)))" and lr1: "length r1 = length post"
  proof (cases "i < 0")
    case True
    then obtain x y r1 where r0: "r0 = x # y # r1" "length r1 = length post"
      using lr by (auto simp: length_Suc_conv numeral_2_eq_2)
    have "mem_write (rev ?d @ r0) (int (length ?d)) [CHR ''-''] = Some (rev ?d @ CHR ''-'' # y # r1)"
      using mem_write_byte [of "int (length ?d)" "rev ?d" x "y # r1" "CHR ''-''"] by (simp add: r0)
    then show ?thesis using that [of y r1] True r0 by (simp add: dec)
  next
    case False
    then obtain y r1 where "r0 = y # r1" "length r1 = length post"
      using lr by (auto simp: length_Suc_conv)
    then show ?thesis using that [of y r1] False by (simp add: dec)
  qed
  have nul: "mem_write (rev (dec_int i) @ y # r1) (int (length (dec_int i))) [NUL] = Some (rev (dec_int i) @ NUL # r1)"
    by (rule mem_write_byte) simp
  have rv: "reverse_in_place (rev (dec_int i) @ NUL # r1) 0 (int (length (dec_int i)) - 1) = Some (dec_int i @ NUL # r1)"
    using reverse_in_place_eq [of "[]" "rev (dec_int i)" "NUL # r1"] by simp
  have "length (dec_int i) \<le> 20" using magnitude_length [OF assms(1,2)] by (simp add: dec)
  then have "to_int (int (length (dec_int i))) = int (length (dec_int i))" by simp
  with dig sg nul rv lr1 show ?thesis
    by (auto simp: sdsll2str_def simp del: bind_split)
qed

lemma sdsull2str_eq:
  assumes "v < 18446744073709551616" "length b = length (dec_string v) + 1 + length post"
  shows "\<exists>post'. length post' = length post \<and>
    sdsull2str b v = Some (dec_string v @ NUL # post', int (length (dec_string v)))"
proof -
  let ?d = "dec_string v"
  define old r0 where "old = take (length ?d) b" and "r0 = drop (length ?d) b"
  have b: "b = [] @ old @ r0" and lo: "length old = length ?d" and lr: "length r0 = 1 + length post"
    using assms(2) by (simp_all add: old_def r0_def)
  then obtain y r1 where r0: "r0 = y # r1" "length r1 = length post" by (auto simp: length_Suc_conv)
  have dig: "put_digits b 0 v = Some (rev ?d @ y # r1, int (length ?d))"
    using put_digits_eq [OF lo, of "[]" r0] b r0 by simp
  have nul: "mem_write (rev ?d @ y # r1) (int (length ?d)) [NUL] = Some (rev ?d @ NUL # r1)"
    by (rule mem_write_byte) simp
  have rv: "reverse_in_place (rev ?d @ NUL # r1) 0 (int (length ?d) - 1) = Some (?d @ NUL # r1)"
    using reverse_in_place_eq [of "[]" "rev ?d" "NUL # r1"] by simp
  have "length ?d \<le> 20" using assms(1) by (intro dec_string_length_le) simp_all
  with dig nul rv r0(2) show ?thesis by (auto simp: sdsull2str_def)
qed

lemma sdsfromlonglong_yields:
  assumes "- 9223372036854775808 \<le> i" "i \<le> LONG_MAX"
  shows "yields (sdsfromlonglong e i) (dec_int i)"
proof -
  let ?d = "dec_string (magnitude i)" and ?b = "fresh e 32"
  have len: "length ?d \<le> 19" by (rule magnitude_length [OF assms])
  define pre old where "pre = take (32 - length ?d) ?b" and "old = drop (32 - length ?d) ?b"
  have b: "?b = pre @ old @ []" "length old = length ?d" "length pre = 32 - length ?d"
    using len by (simp_all add: pre_def old_def)
  have idx: "int (length pre) + int (length old) - 1 = 31" using b len by simp
  have dig: "put_digits_back ?b 31 (magnitude i) = Some (pre @ ?d, int (length pre) - 1)"
    using put_digits_back_eq [OF b(2), of pre "[]"] idx by (simp add: b(1))
  obtain pre' where sg: "(if i < 0 then do { b' \<leftarrow> mem_write (pre @ ?d) (int (length pre) - 1) [CHR ''-''];
      Some (b', int (length pre) - 1 - 1) } else Some (pre @ ?d, int (length pre) - 1)) =
      Some (pre' @ dec_int i, int (length pre') - 1)"
      and lp: "length pre' + length (dec_int i) = 32"
  proof (cases "i < 0")
    case True
    then obtain q x where pre: "pre = q @ [x]"
      using b(3) len by (cases pre rule: rev_cases) auto
    have "mem_write (pre @ ?d) (int (length pre) - 1) [CHR ''-''] = Some (q @ CHR ''-'' # ?d)"
      using mem_write_byte [of "int (length q)" q x ?d "CHR ''-''"] by (simp add: pre)
    with True pre b len show ?thesis
      by (intro that [of q]) (simp_all add: dec_int_magnitude [OF assms])
  next
    case False
    with b len show ?thesis
      by (intro that [of pre]) (simp_all add: dec_int_magnitude [OF assms])
  qed
  have l32: "32 - int (length pre') = int (length (dec_int i))" using lp by linarith
  have "sdsfromlonglong e i = sdsnewlen e (Ptr (dec_int i)) (int (length (dec_int i)))"
    using dig sg l32 by (simp add: sdsfromlonglong_def)
  moreover have "int (length (dec_int i)) \<le> INT_MAX" using lp by simp
  ultimately show ?thesis
    using sdsnewlen_yields [of "int (length (dec_int i))" "dec_int i" e] by simp
qed

section \<open>The printf buffer returns\<close>

lemma printf_buffer_result:
  assumes "NUL \<notin> set str" "16 \<le> n"
  shows "printf_buffer e str n = Some NULL \<or> (\<exists>rest. printf_buffer e str n = Some (Ptr (str @ NUL # rest)))"
  using assms
proof (induction e str n rule: printf_buffer.induct)
  case (1 e str n)
  show ?case
  proof (cases "granted e n")
    case False
    then show ?thesis by (simp add: printf_buffer.simps [of e str n])
  next
    case True
    let ?t = "take (nat (n - 1)) str @ [NUL]"
    obtain b where b: "mem_write (fresh e n) (n - 2) [NUL] = Some b"
      using "1.prems" by (simp add: mem_write_def)
    have lb: "length b = nat n" using mem_write_length [OF b] by simp
    then have "int (length ?t) \<le> int (length b)" using "1.prems" by simp
    then obtain b' where b': "mem_write b 0 ?t = Some b'" and eq: "b' = ?t @ drop (length ?t) b"
      by (simp add: mem_write_in)
    have lb': "length b' = nat n" using mem_write_length [OF b'] lb by simp
    then obtain c where c: "byte_at b' (n - 2) = Some c" using "1.prems" by (simp add: byte_at_def)
    show ?thesis
    proof (cases "c = NUL")
      case nul: True
      from printf_probe(3) [OF b b' c nul "1.prems"(1)] have "take (nat (n - 1)) str = str" by simp
      with True b b' c nul eq show ?thesis by (simp add: printf_buffer.simps [of e str n])
    next
      case False
      have step: "printf_buffer e str n = printf_buffer e str (n * 2)"
        using True b b' c False by (simp add: printf_buffer.simps [of e str n])
      have "\<not> \<not> granted e n" "16 \<le> n * 2" using True "1.prems"(2) by simp_all
      with "1.IH" [OF _ b b' c False "1.prems"(1)] show ?thesis unfolding step by blast
    qed
  qed
qed

lemma sdscatvprintf_yields:
  assumes "sds_ok s" "NUL \<notin> set text" "sh_len s + int (length text) \<le> SDS_LIMIT"
  shows "yields (sdscatvprintf e s text) (sds_str s @ text)"
proof -
  consider "printf_buffer e text 16 = Some NULL"
    | rest where "printf_buffer e text 16 = Some (Ptr (text @ NUL # rest))"
    using printf_buffer_result [OF assms(2), of 16 e] by auto
  then show ?thesis
  proof cases
    case 1
    then show ?thesis by (simp add: sdscatvprintf_def)
  next
    case 2
    have "c_strlen (text @ NUL # rest) = Some (int (length text))"
      using assms(2) by (simp add: c_strlen_def takeWhile_tail)
    with 2 sdscatlen_yields [OF assms(1,3), of e "NUL # rest"] show ?thesis
      by (simp add: sdscatvprintf_def sdscat_def)
  qed
qed

lemma sdscatvprintf_makes:
  assumes "plenty e" "sds_ok s" "NUL \<notin> set str" "sh_len s + int (length str) \<le> SDS_LIMIT"
  shows "makes (sdscatvprintf e s str) (sds_str s @ str)"
proof (rule makesI [OF sdscatvprintf_yields [OF assms(2-4)]])
  have "printf_buffer e str n \<noteq> Some NULL" for n
    using assms(1)
  proof (induction e str n rule: printf_buffer.induct)
    case (1 e str n)
    then show ?case
      by (subst printf_buffer.simps) (auto simp: bind_eq_Some_conv plenty_def split: if_splits)
  qed
  then obtain rest where "printf_buffer e str 16 = Some (Ptr (str @ NUL # rest))"
    using printf_buffer_result [OF assms(3), of 16 e] by auto
  moreover have "c_strlen (str @ NUL # rest) = Some (int (length str))"
    using assms(3) by (simp add: c_strlen_def takeWhile_tail)
  ultimately show "sdscatvprintf e s str \<noteq> Some NULL"
    using sdscatlen_plenty [OF assms(1,2,4), of "NUL # rest"] by (simp add: sdscatvprintf_def sdscat_def)
qed

section \<open>The format interpreter computes the rendered text\<close>

definition render_spec :: "char \<Rightarrow> va_arg list \<Rightarrow> (va_arg list \<times> bytes) option" where
  "render_spec next ap =
     (if next = CHR ''s'' then (case ap of VaStr str # ap' \<Rightarrow> Some (ap', takeWhile (\<lambda>c. c \<noteq> NUL) str) | _ \<Rightarrow> None)
      else if next = CHR ''S'' then (case ap of VaSds t # ap' \<Rightarrow> Some (ap', sds_str t) | _ \<Rightarrow> None)
      else if next = CHR ''i'' then (case ap of VaInt n # ap' \<Rightarrow> Some (ap', dec_int n) | _ \<Rightarrow> None)
      else if next = CHR ''I'' then (case ap of VaLL n # ap' \<Rightarrow> Some (ap', dec_int n) | _ \<Rightarrow> None)
      else if next = CHR ''u'' then (case ap of VaUInt n # ap' \<Rightarrow> Some (ap', dec_string n) | _ \<Rightarrow> None)
      else if next = CHR ''U'' then (case ap of VaULL n # ap' \<Rightarrow> Some (ap', dec_string n) | _ \<Rightarrow> None)
      else if next = CHR ''T'' then (case ap of VaSize n # ap' \<Rightarrow> Some (ap', dec_string n) | _ \<Rightarrow> None)
      else Some (ap, [next]))"

fun fmt_render :: "bytes \<Rightarrow> va_arg list \<Rightarrow> bytes option" where
  "fmt_render [] ap = Some []"
| "fmt_render (c # f) ap =
     (if c = CHR ''%''
      then (case f of
              [] \<Rightarrow> None
            | next # f' \<Rightarrow> do { (ap', out) \<leftarrow> render_spec next ap; r \<leftarrow> fmt_render f' ap'; Some (out @ r) })
      else do { r \<leftarrow> fmt_render f ap; Some (c # r) })"

primrec va_ok :: "va_arg \<Rightarrow> bool" where
  "va_ok (VaStr b) \<longleftrightarrow> NUL \<in> set b \<and> int (length b) \<le> INT_MAX"
| "va_ok (VaSds t) \<longleftrightarrow> sds_ok t"
| "va_ok (VaInt n) \<longleftrightarrow> - 2147483648 \<le> n \<and> n \<le> INT_MAX"
| "va_ok (VaLL n) \<longleftrightarrow> - 9223372036854775808 \<le> n \<and> n \<le> LONG_MAX"
| "va_ok (VaUInt n) \<longleftrightarrow> n < 4294967296"
| "va_ok (VaULL n) \<longleftrightarrow> n < 18446744073709551616"
| "va_ok (VaSize n) \<longleftrightarrow> n < 18446744073709551616"

lemma must_grow_ok:
  assumes "plenty e" "sds_shape s" "0 \<le> n" "sh_len s + n \<le> SDS_LIMIT"
  obtains s1 where "must_grow e s n = Some s1" "sds_shape s1" "sh_len s1 = sh_len s"
    "n \<le> sh_free s1" "sds_str s1 = sds_str s"
  using assms(2-4)
proof (cases rule: sdsMakeRoomFor_shape [where e = e])
  case null
  with assms(1) show ?thesis by simp
next
  case (grown s1)
  then have "take (nat (sh_len s)) (take (Suc (nat (sh_len s))) (sh_buf s1)) =
      take (nat (sh_len s)) (take (Suc (nat (sh_len s))) (sh_buf s))" by simp
  then have "sds_str s1 = sds_str s" by (simp add: sds_str_def grown(3))
  with grown show ?thesis by (intro that [of s1]) (simp_all add: must_grow_def)
qed

lemma shape_write:
  assumes "sds_shape s" "int (length d) \<le> sh_free s"
  shows "\<exists>b. mem_write (sh_buf s) (sh_len s) d = Some b \<and>
    (let s' = \<lparr>sh_len = sh_len s + int (length d), sh_free = sh_free s - int (length d), sh_buf = b\<rparr>
     in sds_shape s' \<and> sds_str s' = sds_str s @ d)"
proof -
  note sh = assms(1) [unfolded sds_shape_def]
  have "nat (sh_len s + int (length d)) = nat (sh_len s) + length d"
    using sh by (simp add: nat_add_distrib)
  moreover have "nat (sh_len s) \<le> length (sh_buf s)"
    "int (length (sh_buf s) - (nat (sh_len s) + length d)) = sh_free s + 1 - int (length d)"
    using sh assms(2) by linarith+
  ultimately show ?thesis
    using sh assms(2) by (simp add: mem_write_in Let_def sds_shape_def sds_str_def)
qed

lemma fmt_copy_ok:
  assumes "plenty e" "sds_shape s" "sh_len s + int (length d) \<le> SDS_LIMIT"
  shows "\<exists>s'. fmt_copy e (d @ rest) (int (length d)) (s, sh_len s) = Some (s', sh_len s') \<and>
    sds_shape s' \<and> sds_str s' = sds_str s @ d \<and> sh_len s' = sh_len s + int (length d)"
proof -
  obtain s1 where g: "(if sh_free s < int (length d) then must_grow e s (int (length d)) else Some s) = Some s1"
    and s1: "sds_shape s1" "sh_len s1 = sh_len s" "int (length d) \<le> sh_free s1" "sds_str s1 = sds_str s"
  proof (cases "sh_free s < int (length d)")
    case True
    obtain s1 where "must_grow e s (int (length d)) = Some s1" "sds_shape s1" "sh_len s1 = sh_len s"
      "int (length d) \<le> sh_free s1" "sds_str s1 = sds_str s"
      by (rule must_grow_ok [OF assms(1,2) of_nat_0_le_iff assms(3)])
    with True that show ?thesis by simp
  next
    case False
    with assms(2) that show ?thesis by simp
  qed
  have rd: "mem_read (d @ rest) 0 (int (length d)) = Some d" by (simp add: mem_read_in)
  note sh = s1(1) [unfolded sds_shape_def]
  have "to_int (sh_len s1 + int (length d)) = sh_len s1 + int (length d)"
    "to_int (sh_free s1 - int (length d)) = sh_free s1 - int (length d)"
    using sh s1(3) by simp_all
  with shape_write [OF s1(1,3)] s1 g rd show ?thesis by (auto simp: fmt_copy_def Let_def)
qed

lemma fmt_byte_ok:
  assumes "sds_shape s" "1 \<le> sh_free s"
  shows "\<exists>s'. fmt_byte c (s, sh_len s) = Some (s', sh_len s') \<and> sds_shape s' \<and>
    sds_str s' = sds_str s @ [c] \<and> sh_len s' = sh_len s + 1"
  using shape_write [OF assms(1), of "[c]"] assms by (auto simp: fmt_byte_def Let_def sds_shape_def)

lemma fmt_spec_ok:
  assumes "plenty e" "list_all va_ok ap" "render_spec next ap = Some (ap', out)"
    and "sds_shape s" "1 \<le> sh_free s" "sh_len s + int (length out) \<le> SDS_LIMIT"
  shows "list_all va_ok ap' \<and> (\<exists>s'. fmt_spec e next ap (s, sh_len s) = Some (ap', s', sh_len s') \<and>
    sds_shape s' \<and> sds_str s' = sds_str s @ out \<and> sh_len s' = sh_len s + int (length out))"
proof -
  have copy: "\<exists>s'. fmt_copy e b (int (length out)) (s, sh_len s) = Some (s', sh_len s') \<and>
      sds_shape s' \<and> sds_str s' = sds_str s @ out \<and> sh_len s' = sh_len s + int (length out)"
    if "b = out @ rest" for b rest
    using fmt_copy_ok [OF assms(1,4,6), of rest] that by simp
  have room: "length (fresh e LLSTR_SIZE) = 21" by (simp add: LLSTR_SIZE_def)
  have signed: "\<exists>rest. sdsll2str (fresh e LLSTR_SIZE) n = Some (dec_int n @ NUL # rest, int (length (dec_int n)))"
    if "- 9223372036854775808 \<le> n" "n \<le> LONG_MAX" for n
  proof -
    have l: "length (dec_int n) \<le> 20"
      using magnitude_length [OF that] by (simp add: dec_int_magnitude [OF that])
    show ?thesis
      using sdsll2str_eq [OF that, of "fresh e LLSTR_SIZE" "replicate (20 - length (dec_int n)) NUL"] l room by auto
  qed
  have unsigned: "\<exists>rest. sdsull2str (fresh e LLSTR_SIZE) n = Some (dec_string n @ NUL # rest, int (length (dec_string n)))"
    if "n < 18446744073709551616" for n
  proof -
    have l: "length (dec_string n) \<le> 20" using that by (intro dec_string_length_le) simp_all
    show ?thesis
      using sdsull2str_eq [OF that, of "fresh e LLSTR_SIZE" "replicate (20 - length (dec_string n)) NUL"] l room by auto
  qed
  consider (str) b where "next = CHR ''s''" "ap = VaStr b # ap'" "out = takeWhile (\<lambda>c. c \<noteq> NUL) b"
    | (sds) t where "next = CHR ''S''" "ap = VaSds t # ap'" "out = sds_str t"
    | (int) n where "next = CHR ''i''" "ap = VaInt n # ap'" "out = dec_int n"
    | (ll) n where "next = CHR ''I''" "ap = VaLL n # ap'" "out = dec_int n"
    | (uint) n where "next = CHR ''u''" "ap = VaUInt n # ap'" "out = dec_string n"
    | (ull) n where "next = CHR ''U''" "ap = VaULL n # ap'" "out = dec_string n"
    | (size) n where "next = CHR ''T''" "ap = VaSize n # ap'" "out = dec_string n"
    | (other) "next \<notin> set ''sSiIuUT''" "ap' = ap" "out = [next]"
    using assms(3) unfolding render_spec_def
    by (auto split: if_splits list.splits va_arg.splits)
  then show ?thesis
  proof cases
    case str
    have nul: "NUL \<in> set b" "int (length b) \<le> INT_MAX" using assms(2) str by simp_all
    have "c_strlen b = Some (int (length out))" using nul by (simp add: c_strlen_def str)
    moreover have "int (length out) \<le> INT_MAX"
      using nul length_takeWhile_le [of "\<lambda>c. c \<noteq> NUL" b] by (simp add: str)
    moreover have "b = out @ dropWhile (\<lambda>c. c \<noteq> NUL) b" by (simp add: str)
    moreover obtain s' where "fmt_copy e b (int (length out)) (s, sh_len s) = Some (s', sh_len s')"
      "sds_shape s'" "sds_str s' = sds_str s @ out" "sh_len s' = sh_len s + int (length out)"
      using copy [OF calculation(3)] by blast
    ultimately show ?thesis using str(1,2) assms(2) by (simp add: fmt_spec_def)
  next
    case sds
    have ok: "sds_ok t" using assms(2) sds by simp
    have l: "sdslen t = int (length out)" "int (length out) \<le> INT_MAX"
      using ok sds sds_okD [OF ok] by simp_all
    obtain rest where "sh_buf t = out @ NUL # rest" using sds_ok_elim [OF ok] sds by metis
    then show ?thesis using sds assms(2) copy [of "sh_buf t"] l sds_okD(1) [OF ok] by (auto simp: fmt_spec_def)
  next
    case int
    then obtain rest where "sdsll2str (fresh e LLSTR_SIZE) n = Some (out @ NUL # rest, int (length out))"
      using assms(2) signed [of n] by auto
    then show ?thesis using int assms(2) copy [OF refl, of "NUL # rest"] by (auto simp: fmt_spec_def)
  next
    case ll
    then obtain rest where "sdsll2str (fresh e LLSTR_SIZE) n = Some (out @ NUL # rest, int (length out))"
      using assms(2) signed [of n] by auto
    then show ?thesis using ll assms(2) copy [OF refl, of "NUL # rest"] by (auto simp: fmt_spec_def)
  next
    case uint
    then obtain rest where "sdsull2str (fresh e LLSTR_SIZE) n = Some (out @ NUL # rest, int (length out))"
      using assms(2) unsigned [of n] by auto
    then show ?thesis using uint assms(2) copy [OF refl, of "NUL # rest"] by (auto simp: fmt_spec_def)
  next
    case ull
    then obtain rest where "sdsull2str (fresh e LLSTR_SIZE) n = Some (out @ NUL # rest, int (length out))"
      using assms(2) unsigned [of n] by auto
    then show ?thesis using ull assms(2) copy [OF refl, of "NUL # rest"] by (auto simp: fmt_spec_def)
  next
    case size
    then obtain rest where "sdsull2str (fresh e LLSTR_SIZE) n = Some (out @ NUL # rest, int (length out))"
      using assms(2) unsigned [of n] by auto
    then show ?thesis using size assms(2) copy [OF refl, of "NUL # rest"] by (auto simp: fmt_spec_def)
  next
    case other
    then show ?thesis
      using fmt_byte_ok [OF assms(4,5), of "next"] assms(2) by (auto simp: fmt_spec_def)
  qed
qed

lemma catfmt_room:
  assumes "plenty e" "sds_shape s" "sh_len s + 1 \<le> SDS_LIMIT"
  obtains s1 where "(if sh_free s = 0 then must_grow e s 1 else Some s) = Some s1" "sds_shape s1"
    "sh_len s1 = sh_len s" "1 \<le> sh_free s1" "sds_str s1 = sds_str s"
proof (cases "sh_free s = 0")
  case True
  obtain s1 where "must_grow e s 1 = Some s1" "sds_shape s1" "sh_len s1 = sh_len s"
    "1 \<le> sh_free s1" "sds_str s1 = sds_str s"
    using must_grow_ok [OF assms(1,2) _ assms(3)] by auto
  with True that show ?thesis by simp
next
  case False
  then have "1 \<le> sh_free s" using assms(2) by (auto simp: sds_shape_def)
  with False assms(2) that show ?thesis by simp
qed

lemma catfmt_loop_percent:
  assumes "(if sh_free s = 0 then must_grow e s 1 else Some s) = Some s1"
  shows "catfmt_loop e (CHR ''%'' # nx # f) ap (s, i) =
    do { (ap', si') \<leftarrow> fmt_spec e nx ap (s1, i); catfmt_loop e f ap' si' }"
  using assms by (cases "sh_free s = 0") simp_all

lemma catfmt_loop_byte:
  assumes "(if sh_free s = 0 then must_grow e s 1 else Some s) = Some s1" "c \<noteq> NUL" "c \<noteq> CHR ''%''"
  shows "catfmt_loop e (c # f) ap (s, i) = do { si' \<leftarrow> fmt_byte c (s1, i); catfmt_loop e f ap si' }"
  using assms by (cases "sh_free s = 0") simp_all

lemma catfmt_loop_ok:
  assumes "plenty e" "list_all va_ok ap" "fmt_render f ap = Some out" "NUL \<notin> set f"
    and "sds_shape s" "sh_len s + int (length out) + 1 \<le> SDS_LIMIT"
  shows "\<exists>s'. catfmt_loop e (f @ [NUL]) ap (s, sh_len s) = Some (s', sh_len s') \<and> sds_shape s' \<and>
    sds_str s' = sds_str s @ out"
  using assms(2-6)
proof (induction f ap arbitrary: s out rule: fmt_render.induct)
  case (1 ap)
  then show ?case by simp
next
  case (2 c f ap)
  have c: "c \<noteq> NUL" using "2.prems"(3) by auto
  have "sh_len s + 1 \<le> SDS_LIMIT" using "2.prems"(5) by simp
  then obtain s1 where room: "(if sh_free s = 0 then must_grow e s 1 else Some s) = Some s1" and s1: "sds_shape s1"
    "sh_len s1 = sh_len s" "1 \<le> sh_free s1" "sds_str s1 = sds_str s"
    by (rule catfmt_room [OF assms(1) "2.prems"(4)])
  show ?case
  proof (cases "c = CHR ''%''")
    case True
    with "2.prems"(2) obtain nx f' ap' o1 r where f: "f = nx # f'"
      and sp: "render_spec nx ap = Some (ap', o1)" and r: "fmt_render f' ap' = Some r" "out = o1 @ r"
      by (auto simp: bind_eq_Some_conv split: list.splits)
    have "sh_len s1 + int (length o1) \<le> SDS_LIMIT" using "2.prems"(5) s1(2) r(2) by simp
    from fmt_spec_ok [OF assms(1) "2.prems"(1) sp s1(1,3) this] s1(2) obtain s2 where
      va: "list_all va_ok ap'" and s2: "fmt_spec e nx ap (s1, sh_len s) = Some (ap', s2, sh_len s2)"
      "sds_shape s2" "sds_str s2 = sds_str s1 @ o1" "sh_len s2 = sh_len s1 + int (length o1)" by auto
    have "NUL \<notin> set f'" "sh_len s2 + int (length r) + 1 \<le> SDS_LIMIT"
      using "2.prems"(3,5) f r(2) s2(4) s1(2) by simp_all
    from "2.IH"(1) [OF True f sp refl va r(1) this(1) s2(2) this(2)] obtain s' where
      "catfmt_loop e (f' @ [NUL]) ap' (s2, sh_len s2) = Some (s', sh_len s')" "sds_shape s'"
      "sds_str s' = sds_str s2 @ r" by blast
    with True s1 s2 f r show ?thesis by (simp add: catfmt_loop_percent [OF room] del: catfmt_loop.simps)
  next
    case False
    with "2.prems"(2) obtain r where r: "fmt_render f ap = Some r" "out = c # r"
      by (auto simp: bind_eq_Some_conv)
    obtain s2 where s2: "fmt_byte c (s1, sh_len s1) = Some (s2, sh_len s2)" "sds_shape s2"
      "sds_str s2 = sds_str s1 @ [c]" "sh_len s2 = sh_len s1 + 1"
      using fmt_byte_ok [OF s1(1,3)] by blast
    have "NUL \<notin> set f" "sh_len s2 + int (length r) + 1 \<le> SDS_LIMIT"
      using "2.prems"(3,5) r(2) s2(4) s1(2) by simp_all
    from "2.IH"(2) [OF False "2.prems"(1) r(1) this(1) s2(2) this(2)] obtain s' where
      "catfmt_loop e (f @ [NUL]) ap (s2, sh_len s2) = Some (s', sh_len s')" "sds_shape s'"
      "sds_str s' = sds_str s2 @ r" by blast
    with s1 s2 r show ?thesis by (simp add: catfmt_loop_byte [OF room c False] del: catfmt_loop.simps)
  qed
qed

lemma sdscatfmt_makes:
  assumes "plenty e" "sds_ok s" "list_all va_ok ap" "fmt_render f ap = Some out" "NUL \<notin> set f"
    and "sh_len s + int (length out) + 1 \<le> SDS_LIMIT"
  shows "\<exists>s'. sdscatfmt e s (cstr f) ap = Some s' \<and> sds_ok s' \<and> sds_str s' = sds_str s @ out"
proof -
  obtain s1 where s1: "catfmt_loop e (f @ [NUL]) ap (s, sh_len s) = Some (s1, sh_len s1)" "sds_shape s1"
    "sds_str s1 = sds_str s @ out"
    using catfmt_loop_ok [OF assms(1,3,4,5) sds_ok_shape [OF assms(2)] assms(6)] by blast
  note sh = s1(2) [unfolded sds_shape_def]
  let ?k = "nat (sh_len s1)"
  have lt: "?k < length (sh_buf s1)" using sh by linarith
  define b where "b = take ?k (sh_buf s1) @ NUL # drop (Suc ?k) (sh_buf s1)"
  have free: "int (length (sh_buf s1) - Suc ?k) = sh_free s1" using sh lt by linarith
  have w: "mem_write (sh_buf s1) (sh_len s1) [NUL] = Some b"
    using sh by (simp add: mem_write_in b_def)
  have "sds_ok (s1\<lparr>sh_buf := b\<rparr>) \<and> sds_str (s1\<lparr>sh_buf := b\<rparr>) = take ?k (sh_buf s1)"
    using sh free lt sds_ok_intro [of "s1\<lparr>sh_buf := b\<rparr>" "take ?k (sh_buf s1)" "drop (Suc ?k) (sh_buf s1)"]
    by (simp add: b_def)
  moreover have "to_int (sdslen s) = sh_len s" using sds_okD [OF assms(2)] assms(2) by simp
  ultimately show ?thesis
    using s1 w by (simp add: sdscatfmt_def cstr_def sds_str_def)
qed

text \<open>A format that ends in a single \<open>%\<close> makes the loop step over the terminator.\<close>

lemma sdscatfmt_trailing_percent:
  assumes "plenty e" "sds_ok s" "sh_len s + 1 \<le> SDS_LIMIT"
  shows "sdscatfmt e s (cstr ''%'') ap = None"
proof -
  obtain s1 where room: "(if sh_free s = 0 then must_grow e s 1 else Some s) = Some s1" and s1: "sds_shape s1"
    "sh_len s1 = sh_len s" "1 \<le> sh_free s1"
    by (rule catfmt_room [OF assms(1) sds_ok_shape [OF assms(2)] assms(3)])
  obtain s2 where "fmt_byte NUL (s1, sh_len s1) = Some (s2, sh_len s2)"
    using fmt_byte_ok [OF s1(1,3)] by blast
  with s1 show ?thesis
    using assms(2) sds_okD [OF assms(2)]
    by (simp add: sdscatfmt_def cstr_def fmt_spec_def catfmt_loop_percent [OF room])
qed

end
