(* ===== verification/Sds_Text.thy ===== *)
theory Sds_Text
  imports Sds_Number "HOL-Library.Sublist"
begin

text \<open>
  Quoting, splitting and joining, the last part of \<open>sds.c\<close>: \<open>sdssplitlen\<close>, \<open>sdsjoin\<close>,
  \<open>sdsjoinsds\<close>, \<open>sdscatrepr\<close> and the argument scanner \<open>sdssplitargs\<close>.

  A pointer into a string is the list of the bytes from there on. \<open>scan\<close> distinguishes the exit of
  the scanner through its label \<open>err\<close> from a token. Freeing the tokens (\<open>sdsfreesplitres\<close>, the
  cleanup paths) has no effect in this model and is left out.
\<close>

section \<open>Splitting on a separator\<close>

text \<open>
  \<open>sep_matches\<close> is the test of the loop. The array \<open>tokens\<close> has \<open>slots\<close> cells, of which the list
  holds the \<open>elements\<close> already set; a store beyond \<open>slots\<close> gives \<open>None\<close>.
\<close>

definition sep_matches :: "bytes \<Rightarrow> int \<Rightarrow> bytes \<Rightarrow> int \<Rightarrow> bool option" where
  "sep_matches s j sep seplen = do {
     c \<leftarrow> byte_at s j;
     c0 \<leftarrow> byte_at sep 0;
     if seplen = 1 \<and> c = c0 then Some True
     else do { a \<leftarrow> mem_read s j seplen; b \<leftarrow> mem_read sep 0 seplen; Some (a = b) }
   }"

definition put_token :: "int \<Rightarrow> sds list \<Rightarrow> sds ptr \<Rightarrow> sds list ptr option" where
  "put_token slots tokens t =
     (if int (length tokens) < slots
      then (case t of NULL \<Rightarrow> Some NULL | Ptr tok \<Rightarrow> Some (Ptr (tokens @ [tok]))) else None)"

function split_loop :: "cenv \<Rightarrow> bytes \<Rightarrow> int \<Rightarrow> bytes \<Rightarrow> int \<Rightarrow> int \<Rightarrow> int \<Rightarrow> int \<Rightarrow> sds list \<Rightarrow>
    (sds list \<times> int \<times> int) ptr option" where
  "split_loop e s len sep seplen j start slots tokens =
     (if j < len - (seplen - 1) \<and> 1 \<le> seplen
      then let slots' = (if slots < int (length tokens) + 2 then to_int (slots * 2) else slots) in
        if slots < int (length tokens) + 2 \<and> \<not> granted e (to_size (8 * slots')) then Some NULL
        else do {
          m \<leftarrow> sep_matches s j sep seplen;
          if m
          then do {
            t \<leftarrow> sdsnewlen e (Ptr (drop (nat start) s)) (j - start);
            r \<leftarrow> put_token slots' tokens t;
            (case r of
               NULL \<Rightarrow> Some NULL
             | Ptr tokens' \<Rightarrow> split_loop e s len sep seplen (j + seplen) (j + seplen) slots' tokens')
          }
          else split_loop e s len sep seplen (j + 1) start slots' tokens
        }
      else Some (Ptr (tokens, start, slots)))"
  by pat_completeness auto
termination
  by (relation "measure (\<lambda>(e, s, len, sep, seplen, j, start, slots, tokens). nat (len - j))") auto

declare split_loop.simps [simp del]

text \<open>The result: the tokens, or \<open>NULL\<close>; the count is the length of the list.\<close>

definition sdssplitlen :: "cenv \<Rightarrow> bytes \<Rightarrow> int \<Rightarrow> bytes \<Rightarrow> int \<Rightarrow> sds list ptr option" where
  "sdssplitlen e s len sep seplen =
     (if seplen < 1 \<or> len < 0 then Some NULL
      else if \<not> granted e (8 * 5) then Some NULL
      else if len = 0 then Some (Ptr [])
      else do {
        r \<leftarrow> split_loop e s len sep seplen 0 0 5 [];
        (case r of
           NULL \<Rightarrow> Some NULL
         | Ptr (tokens, start, slots) \<Rightarrow> do {
             t \<leftarrow> sdsnewlen e (Ptr (drop (nat start) s)) (len - start);
             put_token slots tokens t
           })
      })"

section \<open>Joining\<close>

text \<open>A result that the caller uses without looking for \<open>NULL\<close>.\<close>

definition must :: "sds ptr option \<Rightarrow> sds option" where
  "must r = do { p \<leftarrow> r; (case p of NULL \<Rightarrow> None | Ptr s \<Rightarrow> Some s) }"

fun join_loop :: "cenv \<Rightarrow> (sds \<Rightarrow> 'a \<Rightarrow> sds ptr option) \<Rightarrow> sds \<Rightarrow> 'a list \<Rightarrow> bytes \<Rightarrow> int \<Rightarrow> sds ptr option" where
  "join_loop e cat join [] sep seplen = Some (Ptr join)"
| "join_loop e cat join [x] sep seplen = cat join x"
| "join_loop e cat join (x # y # zs) sep seplen = do {
     j1 \<leftarrow> must (cat join x);
     j2 \<leftarrow> must (sdscatlen e j1 sep seplen);
     join_loop e cat j2 (y # zs) sep seplen
   }"

definition sdsjoin :: "cenv \<Rightarrow> bytes list \<Rightarrow> bytes \<Rightarrow> int \<Rightarrow> sds ptr option" where
  "sdsjoin e argv sep seplen =
     (case argv of
        [] \<Rightarrow> sdsempty e
      | _ \<Rightarrow> do { join \<leftarrow> must (sdsempty e); join_loop e (sdscat e) join argv sep seplen })"

definition sdsjoinsds :: "cenv \<Rightarrow> sds list \<Rightarrow> bytes \<Rightarrow> int \<Rightarrow> sds ptr option" where
  "sdsjoinsds e argv sep seplen =
     (case argv of
        [] \<Rightarrow> sdsempty e
      | _ \<Rightarrow> do { join \<leftarrow> must (sdsempty e); join_loop e (sdscatsds e) join argv sep seplen })"

section \<open>Quoting\<close>

abbreviation BSL :: char where "BSL \<equiv> CHR 0x5C"
abbreviation DQ :: char where "DQ \<equiv> CHR 0x22"
abbreviation SQ :: char where "SQ \<equiv> CHR 0x27"
abbreviation TAB :: char where "TAB \<equiv> CHR 0x09"
abbreviation BEL :: char where "BEL \<equiv> CHR 0x07"
abbreviation BKSP :: char where "BKSP \<equiv> CHR 0x08"

definition hex_char :: "nat \<Rightarrow> char" where
  "hex_char n = (if n < 10 then char_of (48 + n) else char_of (87 + n))"

definition repr_put :: "cenv \<Rightarrow> sds \<Rightarrow> char \<Rightarrow> sds ptr option" where
  "repr_put e s c =
     (if c = BSL \<or> c = DQ then sdscatvprintf e s [BSL, c]
      else if c = LF then sdscatlen e s [BSL, CHR ''n''] 2
      else if c = CR then sdscatlen e s [BSL, CHR ''r''] 2
      else if c = TAB then sdscatlen e s [BSL, CHR ''t''] 2
      else if c = BEL then sdscatlen e s [BSL, CHR ''a''] 2
      else if c = BKSP then sdscatlen e s [BSL, CHR ''b''] 2
      else if c_isprint c then sdscatvprintf e s [c]
      else sdscatvprintf e s [BSL, CHR ''x'', hex_char (of_char c div 16), hex_char (of_char c mod 16)])"

fun repr_loop :: "cenv \<Rightarrow> sds \<Rightarrow> bytes \<Rightarrow> nat \<Rightarrow> sds option" where
  "repr_loop e s p 0 = Some s"
| "repr_loop e s [] (Suc n) = None"
| "repr_loop e s (c # p) (Suc n) = do { s' \<leftarrow> must (repr_put e s c); repr_loop e s' p n }"

definition sdscatrepr :: "cenv \<Rightarrow> sds \<Rightarrow> bytes \<Rightarrow> int \<Rightarrow> sds ptr option" where
  "sdscatrepr e s p len = do {
     s1 \<leftarrow> must (sdscatlen e s [DQ] 1);
     s2 \<leftarrow> repr_loop e s1 p (nat len);
     sdscatlen e s2 [DQ] 1
   }"

definition is_hex_digit :: "char \<Rightarrow> bool" where
  "is_hex_digit c \<longleftrightarrow> c \<in> set ''0123456789abcdefABCDEF''"

definition hex_digit_to_int :: "char \<Rightarrow> nat" where
  "hex_digit_to_int c =
     (case map_of (zip ''0123456789'' [0..<10] @ zip ''abcdef'' [10..<16] @ zip ''ABCDEF'' [10..<16]) c of
        Some n \<Rightarrow> n | None \<Rightarrow> 0)"

section \<open>The argument scanner\<close>

datatype 'a scan = ScanErr | ScanTok 'a

definition catp :: "cenv \<Rightarrow> sds ptr \<Rightarrow> char \<Rightarrow> sds ptr option" where
  "catp e cur c = (case cur of NULL \<Rightarrow> None | Ptr s \<Rightarrow> sdscatlen e s [c] 1)"

definition hex_escape :: "bytes \<Rightarrow> bool option" where
  "hex_escape p = do {
     c0 \<leftarrow> byte_at p 0;
     if c0 \<noteq> BSL then Some False else do {
     c1 \<leftarrow> byte_at p 1;
     if c1 \<noteq> CHR ''x'' then Some False else do {
     c2 \<leftarrow> byte_at p 2;
     if \<not> is_hex_digit c2 then Some False else do {
     c3 \<leftarrow> byte_at p 3;
     Some (is_hex_digit c3) }}}}"

definition unescape :: "char \<Rightarrow> char" where
  "unescape c =
     (if c = CHR ''n'' then LF else if c = CHR ''r'' then CR else if c = CHR ''t'' then TAB
      else if c = CHR ''b'' then BKSP else if c = CHR ''a'' then BEL else c)"

text \<open>Whether a closing quote is followed by a blank or by the end of the line.\<close>

definition quote_closed :: "bytes \<Rightarrow> bool option" where
  "quote_closed p = do { c1 \<leftarrow> byte_at p 1; Some (c1 = NUL \<or> c_isspace c1) }"

text \<open>
  One round of the loop that collects a token, on the unread bytes \<open>p\<close>: it jumps to the error
  exit, ends the token, emits a byte, or only changes the quoting mode; the bytes after the round
  and the new mode go with it. The closing \<open>if (*p) p++\<close> is folded into each branch.
\<close>

datatype tok_step = TFail | TDone bytes | TPut char bytes | TMode bytes bool bool

definition quoted_step :: "bytes \<Rightarrow> tok_step option" where
  "quoted_step p = do {
     c \<leftarrow> byte_at p 0;
     hx \<leftarrow> hex_escape p;
     if hx then Some (TPut (char_of (hex_digit_to_int (p ! 2) * 16 + hex_digit_to_int (p ! 3))) (drop 4 p))
     else do {
     esc \<leftarrow> (if c = BSL then do { c1 \<leftarrow> byte_at p 1; Some (c1 \<noteq> NUL) } else Some False);
     if esc then Some (TPut (unescape (p ! 1)) (drop 2 p))
     else if c = DQ then do { ok \<leftarrow> quote_closed p; Some (if ok then TDone (drop 1 p) else TFail) }
     else if c = NUL then Some TFail
     else Some (TPut c (drop 1 p)) }}"

definition single_step :: "bytes \<Rightarrow> tok_step option" where
  "single_step p = do {
     c \<leftarrow> byte_at p 0;
     esc \<leftarrow> (if c = BSL then do { c1 \<leftarrow> byte_at p 1; Some (c1 = SQ) } else Some False);
     if esc then Some (TPut SQ (drop 2 p))
     else if c = SQ then do { ok \<leftarrow> quote_closed p; Some (if ok then TDone (drop 1 p) else TFail) }
     else if c = NUL then Some TFail
     else Some (TPut c (drop 1 p)) }"

definition plain_step :: "bytes \<Rightarrow> bool \<Rightarrow> bool \<Rightarrow> tok_step option" where
  "plain_step p inq insq = do {
     c \<leftarrow> byte_at p 0;
     if c = NUL then Some (TDone p)
     else if c = CHR '' '' \<or> c = LF \<or> c = CR \<or> c = TAB then Some (TDone (drop 1 p))
     else if c = DQ then Some (TMode (drop 1 p) True insq)
     else if c = SQ then Some (TMode (drop 1 p) inq True)
     else Some (TPut c (drop 1 p)) }"

definition token_step :: "bytes \<Rightarrow> bool \<Rightarrow> bool \<Rightarrow> tok_step option" where
  "token_step p inq insq =
     (if inq then quoted_step p else if insq then single_step p else plain_step p inq insq)"

text \<open>How much a round consumes: at least a byte, unless it ended at the terminator.\<close>

fun step_shrinks :: "bytes \<Rightarrow> tok_step \<Rightarrow> bool" where
  "step_shrinks p TFail = True"
| "step_shrinks p (TDone p') = (length p' \<le> length p \<and> (p ! 0 \<noteq> NUL \<longrightarrow> length p' < length p))"
| "step_shrinks p (TPut c p') = (length p' < length p)"
| "step_shrinks p (TMode p' inq insq) = (length p' < length p)"

lemma byte_at_Some: "byte_at p i = Some c \<longleftrightarrow> 0 \<le> i \<and> i < int (length p) \<and> c = p ! nat i"
  by (auto simp: byte_at_def)

lemma quoted_step_shrinks: "quoted_step p = Some st \<Longrightarrow> step_shrinks p st"
  by (auto simp: quoted_step_def bind_eq_Some_conv byte_at_Some split: if_splits)

lemma single_step_shrinks: "single_step p = Some st \<Longrightarrow> step_shrinks p st"
  by (auto simp: single_step_def bind_eq_Some_conv byte_at_Some split: if_splits)

lemma plain_step_shrinks: "plain_step p inq insq = Some st \<Longrightarrow> step_shrinks p st"
  by (auto simp: plain_step_def bind_eq_Some_conv byte_at_Some split: if_splits)

lemma token_step_shrinks: "token_step p inq insq = Some st \<Longrightarrow> step_shrinks p st"
  by (auto simp: token_step_def dest: quoted_step_shrinks single_step_shrinks plain_step_shrinks
      split: if_splits)

function token_loop :: "cenv \<Rightarrow> bytes \<Rightarrow> bool \<Rightarrow> bool \<Rightarrow> sds ptr \<Rightarrow> (bytes \<times> sds ptr) scan option" where
  "token_loop e p inq insq cur =
     (case token_step p inq insq of
        None \<Rightarrow> None
      | Some TFail \<Rightarrow> Some ScanErr
      | Some (TDone p') \<Rightarrow> Some (ScanTok (p', cur))
      | Some (TPut c p') \<Rightarrow> (case catp e cur c of
            None \<Rightarrow> None
          | Some cur' \<Rightarrow> token_loop e p' inq insq cur')
      | Some (TMode p' inq' insq') \<Rightarrow> token_loop e p' inq' insq' cur)"
  by pat_completeness auto
termination
  by (relation "measure (\<lambda>(e, p, inq, insq, cur). length p)") (auto dest: token_step_shrinks)

declare token_loop.simps [simp del]

fun skip_blanks :: "bytes \<Rightarrow> bytes option" where
  "skip_blanks [] = None"
| "skip_blanks (c # p) = (if c \<noteq> NUL \<and> c_isspace c then skip_blanks p else Some (c # p))"

lemma skip_blanks_Some:
  "skip_blanks p = Some q \<Longrightarrow> length q \<le> length p \<and> q \<noteq> []"
  by (induction p) (auto split: if_splits)

lemma token_loop_length:
  "token_loop e p inq insq cur = Some (ScanTok (p', cur')) \<Longrightarrow>
   length p' \<le> length p \<and> (p ! 0 \<noteq> NUL \<longrightarrow> length p' < length p)"
proof (induction e p inq insq cur rule: token_loop.induct)
  case (1 e p inq insq cur)
  from "1.prems" obtain st where st: "token_step p inq insq = Some st"
    by (subst (asm) token_loop.simps) (auto split: option.splits)
  note sh = token_step_shrinks [OF st]
  show ?case
  proof (cases st)
    case TFail
    with st "1.prems" show ?thesis by (subst (asm) token_loop.simps) simp
  next
    case (TDone q)
    with st sh "1.prems" show ?thesis by (subst (asm) token_loop.simps) simp
  next
    case (TPut c q)
    with st "1.prems" obtain cur1 where cur1: "catp e cur c = Some cur1"
      and run: "token_loop e q inq insq cur1 = Some (ScanTok (p', cur'))"
      by (subst (asm) token_loop.simps) (auto split: option.splits)
    from "1.IH"(1) [OF _ _ cur1 run] st TPut sh show ?thesis by auto
  next
    case (TMode q i1 i2)
    with st "1.prems" have run: "token_loop e q i1 i2 cur = Some (ScanTok (p', cur'))"
      by (subst (asm) token_loop.simps) (auto split: option.splits)
    from "1.IH"(2) [OF _ _ run] st TMode sh show ?thesis by auto
  qed
qed

text \<open>
  The outer loop. \<open>vector\<close> and \<open>*argc\<close> are the list of the tokens read so far, a token being the
  pointer the code stores (\<open>NULL\<close> when the only allocation of an empty token failed). A \<open>realloc\<close>
  that fails is written through at once.
\<close>

function splitargs_loop :: "cenv \<Rightarrow> bytes \<Rightarrow> sds ptr list \<Rightarrow> sds ptr list ptr option" where
  "splitargs_loop e p vec =
     (case skip_blanks p of
        None \<Rightarrow> None
      | Some q \<Rightarrow>
        if q ! 0 \<noteq> NUL
        then (case sdsempty e of
            None \<Rightarrow> None
          | Some cur \<Rightarrow> (case token_loop e q False False cur of
                None \<Rightarrow> None
              | Some ScanErr \<Rightarrow> Some NULL
              | Some (ScanTok (p', tok)) \<Rightarrow>
                  if granted e (8 * (int (length vec) + 1)) then splitargs_loop e p' (vec @ [tok]) else None))
        else if vec = [] \<and> \<not> granted e 8 then Some NULL
        else Some (Ptr vec))"
  by pat_completeness auto
termination
  by (relation "measure (\<lambda>(e, p, vec). length p)")
    (auto dest!: token_loop_length skip_blanks_Some)

declare splitargs_loop.simps [simp del]

definition sdssplitargs :: "cenv \<Rightarrow> bytes \<Rightarrow> sds ptr list ptr option" where
  "sdssplitargs e line = splitargs_loop e line []"

section \<open>Correctness of splitting\<close>

text \<open>No occurrence of \<open>sep\<close> begins in \<open>s\<close> at a position from \<open>a\<close> on and ends at \<open>b\<close> or before.\<close>

definition clear_of :: "bytes \<Rightarrow> bytes \<Rightarrow> nat \<Rightarrow> nat \<Rightarrow> bool" where
  "clear_of sep s a b \<longleftrightarrow> (\<forall>i \<ge> a. i + length sep \<le> b \<longrightarrow> take (length sep) (drop i s) \<noteq> sep)"

lemma clear_of_no_sublist:
  assumes "clear_of sep s a b" "a \<le> b" "b \<le> length s"
  shows "\<not> sublist sep (take (b - a) (drop a s))"
proof
  assume "sublist sep (take (b - a) (drop a s))"
  then obtain ps ss where split: "take (b - a) (drop a s) = ps @ sep @ ss"
    by (auto simp: sublist_def)
  have fit: "length ps + length sep \<le> b - a"
    using arg_cong [OF split, of length] assms by simp
  have "take (length sep) (drop (length ps) (take (b - a) (drop a s))) = sep"
    by (simp add: split)
  then have "take (length sep) (drop (a + length ps) s) = sep"
    using fit by (simp add: drop_take min_def add.commute split: if_splits)
  moreover have "a + length ps + length sep \<le> b" using fit assms by linarith
  ultimately show False using assms(1) by (auto simp: clear_of_def)
qed

text \<open>
  The state of the loop: the tokens so far, each followed by a separator, spell the text before
  \<open>start\<close>; none contains the separator; the array has room for one more.
\<close>

definition split_inv :: "bytes \<Rightarrow> bytes \<Rightarrow> nat \<Rightarrow> nat \<Rightarrow> nat \<Rightarrow> int \<Rightarrow> sds list \<Rightarrow> bool" where
  "split_inv sep s start j len slots tokens \<longleftrightarrow>
     start \<le> j \<and> start \<le> len \<and> length tokens \<le> start \<and> list_all sds_ok tokens \<and>
     concat (map (\<lambda>t. sds_str t @ sep) tokens) = take start s \<and>
     list_all (\<lambda>t. \<not> sublist sep (sds_str t)) tokens \<and>
     clear_of sep s start (j + length sep - 1) \<and> int (length tokens) < slots \<and>
     slots \<le> 2 * int len + 5"

lemma sep_matches_eq:
  assumes "sep \<noteq> []" "j + length sep \<le> length s"
  shows "sep_matches s (int j) sep (int (length sep)) = Some (take (length sep) (drop j s) = sep)"
proof -
  have j: "j < length s" and pos: "0 < length sep" using assms by (cases sep; simp)+
  have reads: "byte_at s (int j) = Some (s ! j)" "byte_at sep 0 = Some (sep ! 0)"
    "mem_read s (int j) (int (length sep)) = Some (take (length sep) (drop j s))"
    using byte_at_in [of "int j" s] byte_at_in [of 0 sep] mem_read_in [of "int j" "int (length sep)" s]
      j pos assms(2) by simp_all
  have "length sep = 1 \<Longrightarrow> s ! j = sep ! 0 \<Longrightarrow> take (length sep) (drop j s) = sep"
    using j by (cases sep) (auto simp: take_Suc_conv_app_nth)
  then show ?thesis
    by (auto simp: sep_matches_def reads)
qed

lemma split_inv_step:
  assumes "split_inv sep s start j len slots tokens" "sep \<noteq> []"
    and "take (length sep) (drop j s) \<noteq> sep" "slots \<le> slots'" "slots' \<le> 2 * int len + 5"
  shows "split_inv sep s start (Suc j) len slots' tokens"
proof -
  have "clear_of sep s start (Suc j + length sep - 1)"
    unfolding clear_of_def
  proof (intro allI impI)
    fix i
    assume i: "start \<le> i" "i + length sep \<le> Suc j + length sep - 1"
    show "take (length sep) (drop i s) \<noteq> sep"
    proof (cases "i = j")
      case True
      with assms(3) show ?thesis by simp
    next
      case False
      with i have "i + length sep \<le> j + length sep - 1" using assms(2) by (cases sep) auto
      with assms(1) i(1) show ?thesis by (auto simp: split_inv_def clear_of_def)
    qed
  qed
  with assms show ?thesis by (auto simp: split_inv_def)
qed

lemma split_inv_token:
  assumes inv: "split_inv sep s start j len slots tokens" and "sep \<noteq> []"
    and hit: "take (length sep) (drop j s) = sep" and fits: "j + length sep \<le> len" "len \<le> length s"
    and slots: "int (length tokens) + 1 < slots'" "slots' \<le> 2 * int len + 5"
    and tok: "sds_ok t" "sds_str t = take (j - start) (drop start s)"
  shows "split_inv sep s (j + length sep) (j + length sep) len slots' (tokens @ [t])"
proof -
  have le: "start \<le> j" using inv by (simp add: split_inv_def)
  have pos: "0 < length sep" using \<open>sep \<noteq> []\<close> by simp
  have "clear_of sep s start j"
    unfolding clear_of_def
  proof (intro allI impI)
    fix i
    assume i: "start \<le> i" "i + length sep \<le> j"
    then have "i + length sep \<le> j + length sep - 1" using pos by linarith
    with inv i(1) show "take (length sep) (drop i s) \<noteq> sep"
      unfolding split_inv_def clear_of_def by blast
  qed
  then have clean: "\<not> sublist sep (sds_str t)"
    using clear_of_no_sublist [of sep s start j] le fits by (simp add: tok)
  have "take start s @ take (j - start) (drop start s) @ sep = take (j + length sep) s"
    using le fits hit by (metis (no_types) append.assoc le_add_diff_inverse take_add)
  then have "concat (map (\<lambda>t. sds_str t @ sep) (tokens @ [t])) = take (j + length sep) s"
    using inv by (simp add: split_inv_def tok)
  moreover have "clear_of sep s (j + length sep) (j + length sep + length sep - 1)"
    unfolding clear_of_def using pos by (intro allI impI) linarith
  moreover have "length (tokens @ [t]) \<le> j + length sep"
    using inv pos unfolding split_inv_def length_append by (simp only: list.size) linarith
  ultimately show ?thesis
    using inv clean fits slots tok by (auto simp: split_inv_def)
qed

lemma sdsnewlen_slice:
  assumes "a \<le> b" "b \<le> length s" "int b \<le> INT_MAX"
  shows "yields (sdsnewlen e (Ptr (drop a s)) (int b - int a)) (take (b - a) (drop a s))"
  using sdsnewlen_yields [of "int b - int a" "drop a s" e] assms
  by (simp add: nat_diff_distrib')

definition split_done :: "cenv \<Rightarrow> bytes \<Rightarrow> bytes \<Rightarrow> nat \<Rightarrow> (sds list \<times> int \<times> int) ptr option \<Rightarrow> bool" where
  "split_done e sep s len r \<longleftrightarrow>
     r = Some NULL \<and> \<not> plenty e \<or>
     (\<exists>tokens start j slots. r = Some (Ptr (tokens, int start, slots)) \<and>
        split_inv sep s start j len slots tokens \<and> len < j + length sep)"

lemma split_loop_done:
  assumes "split_inv sep s start j len slots tokens" "sep \<noteq> []"
    and "len \<le> length s" "int len \<le> 1073741820" "5 \<le> slots"
  shows "split_done e sep s len
    (split_loop e s (int len) sep (int (length sep)) (int j) (int start) slots tokens)"
  using assms
proof (induction "len - j" arbitrary: j start slots tokens rule: less_induct)
  case less
  note inv = \<open>split_inv sep s start j len slots tokens\<close>
  note loop = split_loop.simps [of e s "int len" sep "int (length sep)" "int j" "int start" slots tokens]
  let ?slots = "if slots < int (length tokens) + 2 then to_int (slots * 2) else slots"
  have tok: "length tokens \<le> start" "start \<le> j" "start \<le> len" "int (length tokens) < slots"
    "slots \<le> 2 * int len + 5"
    using inv by (auto simp: split_inv_def)
  show ?case
  proof (cases "j + length sep \<le> len")
    case False
    then have "split_loop e s (int len) sep (int (length sep)) (int j) (int start) slots tokens
        = Some (Ptr (tokens, int start, slots))"
      by (simp add: loop)
    with inv False show ?thesis by (auto simp: split_done_def not_le)
  next
    case True
    have room: "int (length tokens) + 1 < ?slots" "slots \<le> ?slots" "?slots \<le> 2 * int len + 5" "5 \<le> ?slots"
    proof -
      have "slots < int (length tokens) + 2 \<Longrightarrow> to_int (slots * 2) = slots * 2"
        using less.prems tok by simp
      then show "int (length tokens) + 1 < ?slots" "slots \<le> ?slots" "?slots \<le> 2 * int len + 5" "5 \<le> ?slots"
        using less.prems tok by auto
    qed
    have shrink: "len - (j + length sep) < len - j" "len - Suc j < len - j"
      using True \<open>sep \<noteq> []\<close> by (cases sep; simp)+
    have guard: "int j < int len - (int (length sep) - 1) \<and> 1 \<le> int (length sep)"
      using True \<open>sep \<noteq> []\<close> by (cases sep) auto
    show ?thesis
    proof (cases "slots < int (length tokens) + 2 \<and> \<not> granted e (to_size (8 * ?slots))")
      case oom: True
      have "split_loop e s (int len) sep (int (length sep)) (int j) (int start) slots tokens = Some NULL"
        unfolding loop if_P [OF guard] Let_def by (rule if_P [OF oom])
      with oom show ?thesis by (simp add: split_done_def plenty_def) blast
    next
      case mem: False
      note body = loop [unfolded Let_def if_P [OF guard] if_not_P [OF mem]]
      have m: "sep_matches s (int j) sep (int (length sep)) = Some (take (length sep) (drop j s) = sep)"
        using sep_matches_eq True less.prems by simp
      show ?thesis
      proof (cases "take (length sep) (drop j s) = sep")
        case False
        have "split_loop e s (int len) sep (int (length sep)) (int j) (int start) slots tokens
            = split_loop e s (int len) sep (int (length sep)) (int (Suc j)) (int start) ?slots tokens"
          unfolding body by (simp add: m False add.commute)
        moreover have "split_done e sep s len
            (split_loop e s (int len) sep (int (length sep)) (int (Suc j)) (int start) ?slots tokens)"
          using less.hyps [OF shrink(2) split_inv_step [OF inv \<open>sep \<noteq> []\<close> False room(2,3)]]
            less.prems room(4) by blast
        ultimately show ?thesis by simp
      next
        case hit: True
        have "yields (sdsnewlen e (Ptr (drop start s)) (int j - int start)) (take (j - start) (drop start s))"
          using sdsnewlen_slice [of start j s e] tok True less.prems by simp
        then show ?thesis
        proof (cases rule: yieldsE)
          case 1
          with room(1) show ?thesis using sdsnewlen_plenty
            unfolding body by (auto simp: m hit put_token_def split_done_def)
        next
          case (2 t)
          have next_inv: "split_inv sep s (j + length sep) (j + length sep) len ?slots (tokens @ [t])"
            using split_inv_token [OF inv \<open>sep \<noteq> []\<close> hit True _ room(1,3) 2(2,3)] less.prems by blast
          have "split_loop e s (int len) sep (int (length sep)) (int j) (int start) slots tokens
            = split_loop e s (int len) sep (int (length sep)) (int (j + length sep)) (int (j + length sep))
                ?slots (tokens @ [t])"
            unfolding body using room(1) 2(1) by (simp add: m hit put_token_def)
          with less.hyps [OF shrink(1) next_inv] less.prems room(4) show ?thesis by simp
        qed
      qed
    qed
  qed
qed

text \<open>Joining with a separator, the inverse of splitting.\<close>

fun join_with :: "bytes \<Rightarrow> bytes list \<Rightarrow> bytes" where
  "join_with sep [] = []"
| "join_with sep [x] = x"
| "join_with sep (x # y # zs) = x @ sep @ join_with sep (y # zs)"

lemma join_with_snoc: "join_with sep (xs @ [y]) = concat (map (\<lambda>x. x @ sep) xs) @ y"
  by (induction xs) (auto simp: neq_Nil_conv elim!: join_with.elims)

lemma sdssplitlen_spec:
  assumes "sep \<noteq> []" "len \<le> length s" "int len \<le> 1073741820" "0 < len"
  shows "sdssplitlen e s (int len) sep (int (length sep)) = Some NULL \<and> \<not> plenty e \<or>
    (\<exists>toks. sdssplitlen e s (int len) sep (int (length sep)) = Some (Ptr toks) \<and>
       list_all sds_ok toks \<and> join_with sep (map sds_str toks) = take len s \<and>
       list_all (\<lambda>t. \<not> sublist sep (sds_str t)) toks)"
proof (cases "granted e (8 * 5)")
  case False
  with assms show ?thesis by (auto simp: sdssplitlen_def plenty_def)
next
  case True
  have "split_inv sep s 0 0 len 5 []"
    using \<open>sep \<noteq> []\<close> by (cases sep) (auto simp: split_inv_def clear_of_def)
  from split_loop_done [OF this, of e] assms
  have "split_done e sep s len (split_loop e s (int len) sep (int (length sep)) 0 0 5 [])" by simp
  moreover have unf: "sdssplitlen e s (int len) sep (int (length sep)) = do {
        r \<leftarrow> split_loop e s (int len) sep (int (length sep)) 0 0 5 [];
        (case r of NULL \<Rightarrow> Some NULL | Ptr (tokens, start, slots) \<Rightarrow> do {
             t \<leftarrow> sdsnewlen e (Ptr (drop (nat start) s)) (int len - start);
             put_token slots tokens t })}"
    using True assms by (cases sep) (simp_all add: sdssplitlen_def)
  ultimately consider (oom) "sdssplitlen e s (int len) sep (int (length sep)) = Some NULL" "\<not> plenty e"
    | (ok) tokens start j slots where
        "split_loop e s (int len) sep (int (length sep)) 0 0 5 [] = Some (Ptr (tokens, int start, slots))"
        "split_inv sep s start j len slots tokens" "len < j + length sep"
    by (auto simp: split_done_def)
  then show ?thesis
  proof cases
    case oom
    then show ?thesis by simp
  next
    case ok
    have le: "start \<le> len" and pre: "concat (map (\<lambda>t. sds_str t @ sep) tokens) = take start s"
      and toks: "list_all sds_ok tokens" "list_all (\<lambda>t. \<not> sublist sep (sds_str t)) tokens"
      and room: "int (length tokens) < slots" and clear: "clear_of sep s start (j + length sep - 1)"
      using ok(2) by (auto simp: split_inv_def)
    have "clear_of sep s start len"
      using clear ok(3) by (auto simp: clear_of_def)
    then have clean: "\<not> sublist sep (take (len - start) (drop start s))"
      using clear_of_no_sublist le assms(2) by blast
    have all: "take start s @ take (len - start) (drop start s) = take len s"
      using le by (metis le_add_diff_inverse take_add)
    have "yields (sdsnewlen e (Ptr (drop start s)) (int len - int start)) (take (len - start) (drop start s))"
      using sdsnewlen_slice [of start len s e] le assms by simp
    then show ?thesis
    proof (cases rule: yieldsE)
      case 1
      then show ?thesis
        using unf ok(1) room sdsnewlen_plenty by (auto simp: put_token_def)
    next
      case (2 t)
      then have "sdssplitlen e s (int len) sep (int (length sep)) = Some (Ptr (tokens @ [t]))"
        using unf ok(1) room by (simp add: put_token_def)
      moreover have "join_with sep (map sds_str (tokens @ [t])) = take len s"
        using pre all 2(3) by (simp add: join_with_snoc comp_def)
      ultimately show ?thesis
        using toks 2 clean by (intro disjI2 exI [of _ "tokens @ [t]"]) simp
    qed
  qed
qed

section \<open>Correctness of joining\<close>

lemma must_makes: "makes r xs \<Longrightarrow> \<exists>s. must r = Some s \<and> sds_ok s \<and> sds_str s = xs"
  by (auto simp: makes_def must_def)

lemma sdsempty_makes: "plenty e \<Longrightarrow> makes (sdsempty e) []"
  by (intro makesI sdsempty_yields sdsempty_plenty)

lemma join_loop_makes:
  assumes "plenty e" "sds_ok join" "list_all good xs"
    and cat: "\<And>s x. sds_ok s \<Longrightarrow> good x \<Longrightarrow> sh_len s + int (length (val x)) \<le> SDS_LIMIT \<Longrightarrow>
      makes (cat s x) (sds_str s @ val x)"
    and "sh_len join + int (length (join_with sep (map val xs))) \<le> SDS_LIMIT"
  shows "makes (join_loop e cat join xs (sep @ rest) (int (length sep)))
    (sds_str join @ join_with sep (map val xs))"
  using assms(2,3,5)
proof (induction xs arbitrary: join rule: induct_list012)
  case 1
  then show ?case by (simp add: makes_def)
next
  case (2 x)
  then show ?case using cat by simp
next
  case (3 x y zs)
  from 3 have "makes (cat join x) (sds_str join @ val x)" by (intro cat) auto
  then obtain j1 where j1: "must (cat join x) = Some j1" "sds_ok j1" "sds_str j1 = sds_str join @ val x"
    using must_makes by blast
  have len1: "sh_len j1 = sh_len join + int (length (val x))"
    using j1 3(3) by (simp flip: length_sds_str)
  have "makes (sdscatlen e j1 (sep @ rest) (int (length sep))) (sds_str j1 @ sep)"
    using sdscatlen_makes [OF assms(1) j1(2), of sep rest] 3(5) len1 by simp
  then obtain j2 where j2: "must (sdscatlen e j1 (sep @ rest) (int (length sep))) = Some j2"
    "sds_ok j2" "sds_str j2 = sds_str j1 @ sep"
    using must_makes by blast
  have len2: "sh_len j2 = sh_len join + int (length (val x)) + int (length sep)"
    using j2 len1 j1 by (simp flip: length_sds_str)
  from 3(2) [OF j2(2)] 3(4,5) len2 j1 j2 show ?case by simp
qed

lemma sdsjoinsds_makes:
  assumes "plenty e" "list_all sds_ok xs" "int (length (join_with sep (map sds_str xs))) \<le> SDS_LIMIT"
  shows "makes (sdsjoinsds e xs (sep @ rest) (int (length sep))) (join_with sep (map sds_str xs))"
proof (cases xs)
  case Nil
  then show ?thesis using sdsempty_makes [OF assms(1)] by (simp add: sdsjoinsds_def)
next
  case (Cons y ys)
  obtain j where j: "must (sdsempty e) = Some j" "sds_ok j" "sds_str j = []"
    using must_makes [OF sdsempty_makes [OF assms(1)]] by blast
  then have "sh_len j = 0" by (simp flip: length_sds_str)
  with join_loop_makes [OF assms(1) j(2) assms(2), of sds_str "sdscatsds e" sep rest] assms j Cons show ?thesis
    by (simp add: sdsjoinsds_def sdscatsds_makes)
qed

lemma sdsjoin_makes:
  assumes "plenty e" "list_all (\<lambda>x. NUL \<notin> set x) xs" "int (length (join_with sep xs)) \<le> SDS_LIMIT"
  shows "makes (sdsjoin e (map cstr xs) (sep @ rest) (int (length sep))) (join_with sep xs)"
proof (cases xs)
  case Nil
  then show ?thesis using sdsempty_makes [OF assms(1)] by (simp add: sdsjoin_def)
next
  case (Cons y ys)
  obtain j where j: "must (sdsempty e) = Some j" "sds_ok j" "sds_str j = []"
    using must_makes [OF sdsempty_makes [OF assms(1)]] by blast
  then have j0: "sh_len j = 0" by (simp flip: length_sds_str)
  have "list_all (\<lambda>x. \<exists>y. NUL \<notin> set y \<and> x = cstr y) (map cstr xs)"
    using assms(2) by (auto simp: list_all_iff)
  moreover have "makes (sdscat e s x) (sds_str s @ butlast x)"
    if s: "sds_ok s" and x: "\<exists>y. NUL \<notin> set y \<and> x = cstr y"
      and fit: "sh_len s + int (length (butlast x)) \<le> SDS_LIMIT" for s x
  proof -
    obtain y where y: "NUL \<notin> set y" "x = cstr y" using x by blast
    have last: "butlast (cstr y) = y" by (simp add: cstr_def)
    show ?thesis using sdscat_makes [OF assms(1) s y(1)] fit unfolding y(2) last .
  qed
  moreover have "map butlast (map cstr xs) = xs" by (simp add: cstr_def map_idI)
  ultimately show ?thesis
    using join_loop_makes [OF assms(1) j(2), of _ "map cstr xs" butlast "sdscat e" sep rest] assms j j0 Cons
    by (simp add: sdsjoin_def)
qed

section \<open>Quoting and the scanner are inverse\<close>

definition repr_char :: "char \<Rightarrow> bytes" where
  "repr_char c =
     (if c = BSL \<or> c = DQ then [BSL, c]
      else if c = LF then [BSL, CHR ''n''] else if c = CR then [BSL, CHR ''r'']
      else if c = TAB then [BSL, CHR ''t''] else if c = BEL then [BSL, CHR ''a'']
      else if c = BKSP then [BSL, CHR ''b''] else if c_isprint c then [c]
      else [BSL, CHR ''x'', hex_char (of_char c div 16), hex_char (of_char c mod 16)])"

definition repr :: "bytes \<Rightarrow> bytes" where
  "repr xs = DQ # concat (map repr_char xs) @ [DQ]"

lemma length_le_repr: "length xs \<le> length (repr xs)"
proof -
  have "repr_char c \<noteq> []" for c by (simp add: repr_char_def)
  then have "1 \<le> length (repr_char c)" for c by (simp add: Suc_le_eq)
  then have pos: "Suc n \<le> length (repr_char c) + m" if "n \<le> m" for c n m
    using that add_mono [of 1 "length (repr_char c)" n m] by simp
  have "length xs \<le> length (concat (map repr_char xs))"
    by (induction xs) (simp_all add: pos)
  then show ?thesis by (simp add: repr_def)
qed

lemma hex_char_cases:
  assumes "n < 16"
  shows "is_hex_digit (hex_char n) \<and> hex_digit_to_int (hex_char n) = n \<and> hex_char n \<noteq> NUL"
proof -
  have "list_all (\<lambda>n. is_hex_digit (hex_char n) \<and> hex_digit_to_int (hex_char n) = n \<and> hex_char n \<noteq> NUL) [0..<16]"
    by code_simp
  with assms show ?thesis by (simp add: list_all_iff)
qed

lemma repr_put_eq:
  "repr_put e s c =
     (if c \<in> {LF, CR, TAB, BEL, BKSP} then sdscatlen e s (repr_char c) 2 else sdscatvprintf e s (repr_char c))"
  by (simp add: repr_put_def repr_char_def)

lemma repr_char_no_NUL: "NUL \<notin> set (repr_char c)"
proof -
  have "of_char c div 16 < (16::nat)" using nat_of_char_less_256 [of c] by linarith
  then have "hex_char (of_char c div 16) \<noteq> NUL" "hex_char (of_char c mod 16) \<noteq> NUL"
    using hex_char_cases [of "of_char c div 16"] hex_char_cases [of "of_char c mod 16"] by auto
  moreover have "c_isprint c \<Longrightarrow> NUL \<noteq> c" by (auto simp: c_isprint_def)
  ultimately show ?thesis by (simp add: repr_char_def)
qed

lemma repr_put_makes:
  assumes "plenty e" "sds_ok s" "sh_len s + int (length (repr_char c)) \<le> SDS_LIMIT"
  shows "makes (repr_put e s c) (sds_str s @ repr_char c)"
proof (cases "c \<in> {LF, CR, TAB, BEL, BKSP}")
  case True
  then have "length (repr_char c) = 2" by (auto simp: repr_char_def)
  with sdscatlen_makes [OF assms, of "[]"] True show ?thesis by (simp add: repr_put_eq)
next
  case False
  then show ?thesis
    unfolding repr_put_eq using sdscatvprintf_makes [OF assms(1,2) repr_char_no_NUL assms(3)] by simp
qed

lemma repr_loop_makes:
  assumes "plenty e" "sds_ok s" "sh_len s + int (length (concat (map repr_char xs))) \<le> SDS_LIMIT"
  shows "\<exists>s'. repr_loop e s (xs @ rest) (length xs) = Some s' \<and> sds_ok s' \<and>
    sds_str s' = sds_str s @ concat (map repr_char xs)"
  using assms(2,3)
proof (induction xs arbitrary: s)
  case Nil
  then show ?case by simp
next
  case (Cons c xs)
  have "makes (repr_put e s c) (sds_str s @ repr_char c)"
    using Cons.prems by (intro repr_put_makes [OF assms(1)]) auto
  then obtain s1 where s1: "must (repr_put e s c) = Some s1" "sds_ok s1" "sds_str s1 = sds_str s @ repr_char c"
    using must_makes by blast
  then have "sh_len s1 = sh_len s + int (length (repr_char c))"
    using Cons.prems by (simp flip: length_sds_str)
  with Cons.IH [OF s1(2)] Cons.prems s1 show ?case by auto
qed

lemma sdscatrepr_makes:
  assumes "plenty e" "sds_ok s" "sh_len s + int (length (repr xs)) \<le> SDS_LIMIT"
  shows "makes (sdscatrepr e s (xs @ rest) (int (length xs))) (sds_str s @ repr xs)"
proof -
  have one: "sds_ok t \<Longrightarrow> sh_len t + 1 \<le> SDS_LIMIT \<Longrightarrow> makes (sdscatlen e t [DQ] 1) (sds_str t @ [DQ])" for t
    using sdscatlen_makes [OF assms(1), of t "[DQ]" "[]"] by simp
  obtain s1 where s1: "must (sdscatlen e s [DQ] 1) = Some s1" "sds_ok s1" "sds_str s1 = sds_str s @ [DQ]"
    using must_makes [OF one [OF assms(2)]] assms(3) by (auto simp: repr_def)
  then have l1: "sh_len s1 = sh_len s + 1" using assms(2) by (simp flip: length_sds_str)
  obtain s2 where s2: "repr_loop e s1 (xs @ rest) (length xs) = Some s2" "sds_ok s2"
    "sds_str s2 = sds_str s1 @ concat (map repr_char xs)"
    using repr_loop_makes [OF assms(1) s1(2), of xs rest] assms(3) l1 by (auto simp: repr_def)
  then have "sh_len s2 = sh_len s1 + int (length (concat (map repr_char xs)))"
    using s1(2) by (simp flip: length_sds_str)
  with one [OF s2(2)] s1 s2 l1 assms(3) show ?thesis
    by (simp add: sdscatrepr_def repr_def)
qed

text \<open>One step of the scanner takes back what quoting a character wrote.\<close>

lemma byte_at_Cons [simp]:
  "byte_at (c # p) 0 = Some c" "byte_at (c # d # p) 1 = Some d"
  "byte_at (c # d # f # p) 2 = Some f" "byte_at (c # d # f # g # p) 3 = Some g"
  by (simp_all add: byte_at_def)

lemma quoted_step_escape:
  assumes "c \<noteq> CHR ''x''" "c \<noteq> NUL"
  shows "quoted_step (BSL # c # rest) = Some (TPut (unescape c) rest)"
  using assms by (simp add: quoted_step_def hex_escape_def)

lemma quoted_step_hex:
  assumes "is_hex_digit a" "is_hex_digit b"
  shows "quoted_step (BSL # CHR ''x'' # a # b # rest) =
    Some (TPut (char_of (hex_digit_to_int a * 16 + hex_digit_to_int b)) rest)"
  using assms by (simp add: quoted_step_def hex_escape_def)

lemma quoted_step_plain:
  assumes "c \<noteq> BSL" "c \<noteq> DQ" "c \<noteq> NUL"
  shows "quoted_step (c # rest) = Some (TPut c rest)"
  using assms by (simp add: quoted_step_def hex_escape_def)

lemma quoted_step_close:
  assumes "d = NUL \<or> c_isspace d"
  shows "quoted_step (DQ # d # rest) = Some (TDone (d # rest))"
  using assms by (simp add: quoted_step_def hex_escape_def quote_closed_def)

lemma quoted_step_repr: "quoted_step (repr_char c @ rest) = Some (TPut c rest)"
proof -
  let ?a = "hex_char (of_char c div 16)" and ?b = "hex_char (of_char c mod 16)"
  have "of_char c div 16 < (16::nat)" using nat_of_char_less_256 [of c] by linarith
  then have hex: "is_hex_digit ?a" "is_hex_digit ?b"
    "hex_digit_to_int ?a = of_char c div 16" "hex_digit_to_int ?b = of_char c mod 16"
    using hex_char_cases [of "of_char c div 16"] hex_char_cases [of "of_char c mod 16"] by auto
  have "c_isprint c \<Longrightarrow> c \<noteq> NUL" by (auto simp: c_isprint_def)
  then show ?thesis
    by (simp add: repr_char_def quoted_step_escape quoted_step_plain quoted_step_hex hex unescape_def)
qed

lemma token_loop_repr:
  assumes "plenty e" "sds_ok s" "d = NUL \<or> c_isspace d" "sh_len s + int (length xs) \<le> SDS_LIMIT"
  shows "\<exists>s'. token_loop e (concat (map repr_char xs) @ DQ # d # rest) True False (Ptr s) =
    Some (ScanTok (d # rest, Ptr s')) \<and> sds_ok s' \<and> sds_str s' = sds_str s @ xs"
  using assms(2,4)
proof (induction xs arbitrary: s)
  case Nil
  then show ?case
    by (subst token_loop.simps) (simp add: token_step_def quoted_step_close assms(3))
next
  case (Cons c xs)
  have "makes (sdscatlen e s [c] 1) (sds_str s @ [c])"
    using sdscatlen_makes [OF assms(1), of s "[c]" "[]"] Cons.prems by simp
  then obtain s1 where s1: "catp e (Ptr s) c = Some (Ptr s1)" "sds_ok s1" "sds_str s1 = sds_str s @ [c]"
    by (auto simp: makes_def catp_def)
  then have "sh_len s1 = sh_len s + 1" using Cons.prems by (simp flip: length_sds_str)
  with Cons.IH [OF s1(2)] Cons.prems s1 show ?case
    by (subst token_loop.simps) (simp add: token_step_def quoted_step_repr)
qed

lemma splitargs_loop_repr:
  assumes "plenty e" "d = NUL \<or> c_isspace d" "int (length xs) \<le> SDS_LIMIT"
  shows "\<exists>t. splitargs_loop e (repr xs @ d # rest) vec = splitargs_loop e (d # rest) (vec @ [Ptr t]) \<and>
    sds_ok t \<and> sds_str t = xs"
proof -
  obtain s where s: "sdsempty e = Some (Ptr s)" "sds_ok s" "sds_str s = []"
    using sdsempty_makes [OF assms(1)] by (auto simp: makes_def)
  then have "sh_len s = 0" by (simp flip: length_sds_str)
  then obtain t where t: "token_loop e (concat (map repr_char xs) @ DQ # d # rest) True False (Ptr s) =
    Some (ScanTok (d # rest, Ptr t))" "sds_ok t" "sds_str t = xs"
    using token_loop_repr [OF assms(1) s(2) assms(2), of xs rest] assms(3) s by auto
  have "token_loop e (repr xs @ d # rest) False False (Ptr s) = Some (ScanTok (d # rest, Ptr t))"
    by (subst token_loop.simps) (simp add: token_step_def plain_step_def repr_def t(1))
  moreover have "skip_blanks (repr xs @ d # rest) = Some (repr xs @ d # rest)"
    by (simp add: repr_def c_isspace_def)
  ultimately have "splitargs_loop e (repr xs @ d # rest) vec = splitargs_loop e (d # rest) (vec @ [Ptr t])"
    using s(1) assms(1) by (subst splitargs_loop.simps) (simp add: plenty_def, simp add: repr_def)
  with t show ?thesis by blast
qed

lemma splitargs_loop_blank: "c_isspace c \<Longrightarrow> c \<noteq> NUL \<Longrightarrow> splitargs_loop e (c # p) vec = splitargs_loop e p vec"
  by (subst (1 2) splitargs_loop.simps) simp

lemma splitargs_loop_line:
  assumes "plenty e" "list_all (\<lambda>x. int (length x) \<le> SDS_LIMIT) xss"
  shows "\<exists>toks. splitargs_loop e (join_with '' '' (map repr xss) @ [NUL]) vec = Some (Ptr (vec @ map Ptr toks)) \<and>
    list_all sds_ok toks \<and> map sds_str toks = xss"
  using assms(2)
proof (induction xss arbitrary: vec rule: induct_list012)
  case 1
  then show ?case
    using assms(1) by (subst splitargs_loop.simps) (simp add: plenty_def)
next
  case (2 x)
  obtain t where t: "splitargs_loop e (repr x @ [NUL]) vec = splitargs_loop e [NUL] (vec @ [Ptr t])"
    "sds_ok t" "sds_str t = x"
    using splitargs_loop_repr [OF assms(1), of NUL x "[]" vec] 2 by auto
  moreover have "splitargs_loop e [NUL] (vec @ [Ptr t]) = Some (Ptr (vec @ [Ptr t]))"
    by (subst splitargs_loop.simps) simp
  ultimately show ?case by (intro exI [of _ "[t]"]) simp
next
  case (3 x y zs)
  let ?rest = "join_with '' '' (map repr (y # zs)) @ [NUL]"
  have sp: "c_isspace CHR '' ''" by (simp add: c_isspace_def)
  obtain t where t: "splitargs_loop e (repr x @ CHR '' '' # ?rest) vec =
      splitargs_loop e (CHR '' '' # ?rest) (vec @ [Ptr t])" "sds_ok t" "sds_str t = x"
    using splitargs_loop_repr [OF assms(1), of "CHR '' ''" x ?rest vec] 3(3) sp by auto
  have "list_all (\<lambda>x. int (length x) \<le> SDS_LIMIT) (y # zs)" using 3(3) by simp
  from 3(2) [OF this, of "vec @ [Ptr t]"]
  obtain toks where toks: "splitargs_loop e ?rest (vec @ [Ptr t]) = Some (Ptr ((vec @ [Ptr t]) @ map Ptr toks))"
    "list_all sds_ok toks" "map sds_str toks = y # zs"
    by (elim exE conjE) (rule that)
  then show ?case
    using t splitargs_loop_blank [OF sp, of e ?rest "vec @ [Ptr t]"] by (intro exI [of _ "t # toks"]) simp
qed

end
