(* ===== verification/Sds_Correct.thy ===== *)
theory Sds_Correct
  imports Sds_Edit Sds_Text
begin

text \<open>
  The properties of the string library, each stated over the operations of \<open>sds.c\<close> and with a
  concrete instance. All of them include memory safety: a result \<open>None\<close> would mean that the
  operation read or wrote outside its buffer.
\<close>

section \<open>Concrete strings\<close>

definition demo_env :: cenv where
  "demo_env = \<lparr>granted = (\<lambda>n. True), junk = (\<lambda>n. CHR ''?'')\<rparr>"

definition sds_of :: "bytes \<Rightarrow> sds" where
  "sds_of xs = \<lparr>sh_len = int (length xs), sh_free = 0, sh_buf = xs @ [NUL]\<rparr>"

lemma sds_of_ok [simp]: "int (length xs) \<le> INT_MAX \<Longrightarrow> sds_ok (sds_of xs)"
  by (simp add: sds_of_def sds_ok_def)

lemma sds_of_str [simp]: "sds_str (sds_of xs) = xs"
  by (simp add: sds_of_def sds_str_def)

lemma sds_of_len [simp]: "sh_len (sds_of xs) = int (length xs)"
  by (simp add: sds_of_def)

lemma demo_plenty [simp]: "plenty demo_env"
  by (simp add: plenty_def demo_env_def)

section \<open>Appending, slicing, trimming, comparing\<close>

text \<open>
  C17. Appending is safe and exact: on a well-formed string whose new length stays within
  \<open>SDS_LIMIT\<close>, \<open>sdscatlen\<close> returns \<open>NULL\<close> only when memory is short, and otherwise a well-formed
  string that holds the old bytes followed by the appended ones, whatever bytes follow in the source.
\<close>

theorem sdscatlen_appends:
  assumes "sds_ok s" "sh_len s + int (length t) \<le> SDS_LIMIT"
  shows "(sdscatlen e s (t @ rest) (int (length t)) = Some NULL \<and> \<not> plenty e) \<or>
    (\<exists>s'. sdscatlen e s (t @ rest) (int (length t)) = Some (Ptr s') \<and> sds_ok s' \<and> sds_str s' = sds_str s @ t)"
  using sdscatlen_yields [OF assms, of e rest] sdscatlen_plenty [OF _ assms, of e rest]
  by (auto simp: yields_def)

theorem sdscatlen_appends_witness:
  "\<exists>s'. sdscatlen demo_env (sds_of ''GET '') ''key:1'' 3 = Some (Ptr s') \<and> sds_ok s' \<and> sds_str s' = ''GET key''"
  using sdscatlen_appends [of "sds_of ''GET ''" "''key''" demo_env "'':1''"] by simp

text \<open>
  The protocol by which a caller reads from a socket straight into a string: after
  \<open>sdsMakeRoomFor\<close> has succeeded there is room for the bytes and for the terminator, writing at
  most that many bytes behind the string and calling \<open>sdsIncrLen\<close> passes both assertions, stays
  inside the buffer and appends exactly the bytes written.
\<close>

theorem sdsMakeRoomFor_IncrLen:
  assumes "sds_ok s" "0 \<le> n" "sh_len s + n \<le> SDS_LIMIT" "sdsMakeRoomFor e s n = Some (Ptr s1)"
    and "int (length d) \<le> n"
  shows "\<exists>b s2. mem_write (sh_buf s1) (sdslen s1) d = Some b \<and>
    sdsIncrLen (s1\<lparr>sh_buf := b\<rparr>) (int (length d)) = Some s2 \<and> sds_ok s2 \<and> sds_str s2 = sds_str s @ d"
  using assms(1-3)
proof (cases rule: sdsMakeRoomFor_cases [where e = e])
  case null
  with assms(4) show ?thesis by simp
next
  case (grown t)
  with assms(4) have t: "t = s1" by simp
  from grown assms(5) have fit: "int (length d) \<le> sh_free s1" by (simp add: t)
  from append_in_place [OF _ fit] grown obtain b b' where
    w: "mem_write (sh_buf s1) (sh_len s1) d = Some b"
      "mem_write b (sh_len s1 + int (length d)) [NUL] = Some b'" and
    res: "let s' = \<lparr>sh_len = sh_len s1 + int (length d), sh_free = sh_free s1 - int (length d), sh_buf = b'\<rparr>
      in sds_ok s' \<and> sds_str s' = sds_str s1 @ d"
    by (auto simp: t)
  have "to_int (sh_len s1 + int (length d)) = sh_len s1 + int (length d)"
    "to_int (sh_free s1 - int (length d)) = sh_free s1 - int (length d)"
    using sds_okD [of s1] grown fit by (simp_all add: t)
  with w res fit grown show ?thesis
    by (auto simp: sdsIncrLen_def Let_def t)
qed

lemma demo_room:
  "sdsMakeRoomFor demo_env (sds_of ''ab'') 3 =
     Some (Ptr \<lparr>sh_len = 2, sh_free = 8, sh_buf = ''ab'' @ NUL # replicate 8 (CHR ''?'')\<rparr>)"
  by code_simp

theorem sdsMakeRoomFor_IncrLen_witness:
  "\<exists>s2. sdsIncrLen \<lparr>sh_len = 2, sh_free = 8, sh_buf = ''abcd'' @ replicate 7 (CHR ''?'')\<rparr> 2 = Some s2 \<and>
     sds_ok s2 \<and> sds_str s2 = ''abcd''"
proof -
  have "mem_write (''ab'' @ NUL # replicate 8 (CHR ''?'')) 2 ''cd'' = Some (''abcd'' @ replicate 7 (CHR ''?''))"
    by code_simp
  moreover have "sdslen \<lparr>sh_len = 2, sh_free = 8, sh_buf = b\<rparr> = 2" for b by (simp add: sdslen_def)
  ultimately show ?thesis
    using sdsMakeRoomFor_IncrLen [OF _ _ _ demo_room, of "''cd''"] by simp
qed

text \<open>
  \<open>sdsrange\<close> keeps exactly the inclusive slice that its two indices denote (negative ones count
  from the end, both are clamped), for every pair of \<open>int\<close>s; it never leaves the buffer and
  turns what it cuts into free space.
\<close>

theorem sdsrange_slices:
  assumes "sds_ok s" "- 2147483648 \<le> start" "start \<le> INT_MAX" "- 2147483648 \<le> stop" "stop \<le> INT_MAX"
  shows "\<exists>s'. sdsrange s start stop = Some s' \<and> sds_ok s' \<and> sds_str s' = slice (sds_str s) start stop \<and>
    sh_len s' + sh_free s' = sh_len s + sh_free s"
  by (rule sdsrange_ok [OF assms])

theorem sdsrange_slices_witness:
  "\<exists>s'. sdsrange (sds_of ''Hello World'') 1 (- 1) = Some s' \<and> sds_str s' = ''ello World''"
proof -
  have "slice ''Hello World'' 1 (- 1) = ''ello World''" by code_simp
  then show ?thesis using sdsrange_slices [of "sds_of ''Hello World''" 1 "- 1"] by auto
qed

text \<open>
  \<open>sdstrim\<close> removes from both ends the longest runs of characters of the set. The terminator
  of the set counts for \<open>strchr\<close>, so zero bytes at the ends are removed as well.
\<close>

theorem sdstrim_strips:
  assumes "sds_ok s" "NUL \<notin> set cs"
  shows "\<exists>s'. sdstrim s (cstr cs) = Some s' \<and> sds_ok s' \<and>
    sds_str s' = strip (\<lambda>c. c = NUL \<or> c \<in> set cs) (sds_str s) \<and> sh_len s' + sh_free s' = sh_len s + sh_free s"
  using sdstrim_ok [OF assms] by (simp add: trimmed_by_def [abs_def])

theorem sdstrim_strips_witness:
  "\<exists>s'. sdstrim (sds_of ''xxciaoyyy'') (cstr ''xy'') = Some s' \<and> sds_str s' = ''ciao''"
proof -
  have "strip (\<lambda>c. c = NUL \<or> c \<in> set ''xy'') ''xxciaoyyy'' = ''ciao''" by code_simp
  then show ?thesis using sdstrim_strips [of "sds_of ''xxciaoyyy''" "''xy''"] by auto
qed

text \<open>
  \<open>sdscmp\<close> decides equality and the lexicographic order of the bytes taken as unsigned numbers,
  a proper prefix being smaller.
\<close>

theorem sdscmp_orders:
  assumes "sds_ok s1" "sds_ok s2"
  shows "\<exists>r. sdscmp s1 s2 = Some r \<and> (r = 0 \<longleftrightarrow> sds_str s1 = sds_str s2) \<and>
    (r < 0 \<longleftrightarrow> byte_less (sds_str s1) (sds_str s2))"
  by (rule sdscmp_ok [OF assms])

theorem sdscmp_orders_witness:
  "\<exists>r. sdscmp (sds_of ''foo'') (sds_of ''foa'') = Some r \<and> 0 < r"
proof -
  have "\<not> byte_less ''foo'' ''foa''" by code_simp
  then show ?thesis using sdscmp_orders [of "sds_of ''foo''" "sds_of ''foa''"] by fastforce
qed

section \<open>Numbers and formats\<close>

text \<open>
  C18. For every 64-bit value, \<open>sdsll2str\<close> writes the decimal notation and its terminator into a
  buffer of \<open>SDS_LLSTR_SIZE\<close> bytes without leaving it and returns the number of digits,
  the sign included; the most negative value is no exception.
\<close>

theorem sdsll2str_decimal:
  assumes "- 9223372036854775808 \<le> i" "i \<le> LONG_MAX" "int (length b) = LLSTR_SIZE"
  shows "\<exists>post. sdsll2str b i = Some (dec_int i @ NUL # post, int (length (dec_int i))) \<and>
    length (dec_int i @ NUL # post) = length b"
proof -
  have "length (dec_string (magnitude i)) \<le> 19" by (rule magnitude_length [OF assms(1,2)])
  then have "length (dec_int i) \<le> 20" by (simp add: dec_int_magnitude [OF assms(1,2)])
  then have "length b = length (dec_int i) + 1 + length (drop (Suc (length (dec_int i))) b)"
    using assms(3) by (simp add: LLSTR_SIZE_def)
  moreover from sdsll2str_eq [OF assms(1,2) this] obtain post where
    "length post = length (drop (Suc (length (dec_int i))) b)"
    "sdsll2str b i = Some (dec_int i @ NUL # post, int (length (dec_int i)))" by blast
  ultimately show ?thesis by (intro exI [of _ post]) simp
qed

theorem sdsll2str_decimal_witness:
  "\<exists>post. sdsll2str (replicate 21 NUL) (- 9223372036854775808) = Some (''-9223372036854775808'' @ NUL # post, 20)"
proof -
  have d: "dec_int (- 9223372036854775808) = ''-9223372036854775808''"
    by (simp add: dec_int_def dec_string_big dec_string_small digit_char_def char_of_def bit_0)
  show ?thesis
    using sdsll2str_decimal [of "- 9223372036854775808" "replicate 21 NUL"]
    by (auto simp: LLSTR_SIZE_def d)
qed

text \<open>
  C19. \<open>sdscatfmt\<close> computes the text its format denotes: for every format whose specifiers fit the
  arguments, the interpreter, which writes piece by piece into the free space and grows it on
  demand, appends exactly the rendered text and leaves a well-formed string.
\<close>

theorem sdscatfmt_renders:
  assumes "plenty e" "sds_ok s" "list_all va_ok ap" "fmt_render f ap = Some out" "NUL \<notin> set f"
    and "sh_len s + int (length out) + 1 \<le> SDS_LIMIT"
  shows "\<exists>s'. sdscatfmt e s (cstr f) ap = Some s' \<and> sds_ok s' \<and> sds_str s' = sds_str s @ out"
  by (rule sdscatfmt_makes [OF assms])

theorem sdscatfmt_renders_witness:
  "\<exists>s'. sdscatfmt demo_env (sds_of ''*'') (cstr ''%i%%%s'') [VaInt (- 3), VaStr (cstr ''ab'')] = Some s' \<and>
     sds_ok s' \<and> sds_str s' = ''*-3%ab''"
proof -
  have "fmt_render ''%i%%%s'' [VaInt (- 3), VaStr (cstr ''ab'')] = Some ''-3%ab''" by code_simp
  from sdscatfmt_renders [OF demo_plenty _ _ this, of "sds_of ''*''"] show ?thesis
    by (simp add: cstr_def)
qed

text \<open>
  A format that ends in a single \<open>%\<close> makes \<open>sdscatfmt\<close> copy the terminator and go on reading
  behind the end of the format.
\<close>

theorem sdscatfmt_overread:
  assumes "plenty e" "sds_ok s" "sh_len s + 1 \<le> SDS_LIMIT"
  shows "sdscatfmt e s (cstr ''%'') ap = None"
  by (rule sdscatfmt_trailing_percent [OF assms])

theorem sdscatfmt_overread_witness: "sdscatfmt demo_env (sds_of []) (cstr ''%'') [] = None"
  using sdscatfmt_overread [of demo_env "sds_of []"] by simp

text \<open>
  \<open>sdscatvprintf\<close> finds a large enough buffer by doubling and appends the text of the format,
  whatever its length: the probe byte it puts two bytes before the end of the buffer never makes it
  accept a truncated text.
\<close>

theorem sdscatvprintf_appends:
  assumes "plenty e" "sds_ok s" "NUL \<notin> set str" "sh_len s + int (length str) \<le> SDS_LIMIT"
  shows "\<exists>s'. sdscatvprintf e s str = Some (Ptr s') \<and> sds_ok s' \<and> sds_str s' = sds_str s @ str"
  using sdscatvprintf_makes [OF assms] by (simp add: makes_def)

theorem sdscatvprintf_appends_witness:
  "\<exists>s'. sdscatvprintf demo_env (sds_of ''Sum: '') ''1234567890 + 1 = 1234567891'' = Some (Ptr s') \<and>
     sds_str s' = ''Sum: 1234567890 + 1 = 1234567891''"
  using sdscatvprintf_appends [of demo_env "sds_of ''Sum: ''" "''1234567890 + 1 = 1234567891''"] by auto

section \<open>Round trips\<close>

text \<open>
  C20. What \<open>sdscatrepr\<close> quotes, \<open>sdssplitargs\<close> reads back: a line of quoted arguments, one for
  each byte string of a list and a blank between two of them, is split into exactly these byte
  strings, arbitrary bytes included.
\<close>

theorem sdssplitargs_repr:
  assumes "plenty e" "sds_ok s" "sds_str s = []" "list_all (\<lambda>x. int (length (repr x)) \<le> SDS_LIMIT) xss"
  shows "(\<forall>x \<in> set xss. \<exists>q. sdscatrepr e s x (int (length x)) = Some (Ptr q) \<and> sds_str q = repr x) \<and>
    (\<exists>toks. sdssplitargs e (cstr (join_with '' '' (map repr xss))) = Some (Ptr (map Ptr toks)) \<and>
       list_all sds_ok toks \<and> map sds_str toks = xss)"
proof
  have len0: "sh_len s = 0" using length_sds_str [OF assms(2)] assms(3) by simp
  show "\<forall>x \<in> set xss. \<exists>q. sdscatrepr e s x (int (length x)) = Some (Ptr q) \<and> sds_str q = repr x"
  proof
    fix x
    assume "x \<in> set xss"
    with assms(4) have "int (length (repr x)) \<le> SDS_LIMIT" by (auto simp: list_all_iff)
    with sdscatrepr_makes [OF assms(1,2), of x "[]"] len0 assms(3)
    show "\<exists>q. sdscatrepr e s x (int (length x)) = Some (Ptr q) \<and> sds_str q = repr x"
      by (auto simp: makes_def)
  qed
  have "list_all (\<lambda>x. int (length x) \<le> SDS_LIMIT) xss"
    using assms(4) length_le_repr
    by (auto simp: list_all_iff intro: order_trans)
  from splitargs_loop_line [OF assms(1) this, of "[]"]
  show "\<exists>toks. sdssplitargs e (cstr (join_with '' '' (map repr xss))) = Some (Ptr (map Ptr toks)) \<and>
       list_all sds_ok toks \<and> map sds_str toks = xss"
    by (simp add: sdssplitargs_def cstr_def)
qed

lemma demo_repr: "repr [CHR ''a'', NUL, LF, DQ] = [DQ, CHR ''a'', BSL, CHR ''x'', CHR ''0'', CHR ''0'', BSL, CHR ''n'', BSL, DQ, DQ]"
  by code_simp

theorem sdssplitargs_repr_witness:
  "\<exists>t. sdssplitargs demo_env
     (cstr [DQ, CHR ''a'', BSL, CHR ''x'', CHR ''0'', CHR ''0'', BSL, CHR ''n'', BSL, DQ, DQ]) = Some (Ptr [Ptr t]) \<and>
     sds_str t = [CHR ''a'', NUL, LF, DQ]"
  using sdssplitargs_repr [of demo_env "sds_of []" "[[CHR ''a'', NUL, LF, DQ]]"] demo_repr by auto

text \<open>
  C21. Splitting and joining are inverse: \<open>sdssplitlen\<close> on a non-empty string yields tokens none of
  which contains the separator, its array of tokens is always large enough, and \<open>sdsjoinsds\<close> with
  the same separator gives the string back.
\<close>

theorem sdssplitlen_sdsjoinsds:
  assumes "plenty e" "sep \<noteq> []" "s \<noteq> []" "int (length s) \<le> 1073741820"
  shows "\<exists>toks j. sdssplitlen e s (int (length s)) sep (int (length sep)) = Some (Ptr toks) \<and>
    list_all (\<lambda>t. \<not> sublist sep (sds_str t)) toks \<and>
    sdsjoinsds e toks sep (int (length sep)) = Some (Ptr j) \<and> sds_ok j \<and> sds_str j = s"
proof -
  obtain toks where toks: "sdssplitlen e s (int (length s)) sep (int (length sep)) = Some (Ptr toks)"
    "list_all sds_ok toks" "join_with sep (map sds_str toks) = s"
    "list_all (\<lambda>t. \<not> sublist sep (sds_str t)) toks"
    using sdssplitlen_spec [OF assms(2), of "length s" s e] assms by auto
  have "makes (sdsjoinsds e toks sep (int (length sep))) s"
    using sdsjoinsds_makes [OF assms(1) toks(2), of sep "[]"] toks(3) assms(4) by simp
  with toks show ?thesis by (auto simp: makes_def)
qed

theorem sdssplitlen_sdsjoinsds_witness:
  "\<exists>toks j. sdssplitlen demo_env ''foo_-_bar'' 9 ''_-_'' 3 = Some (Ptr toks) \<and>
     sdsjoinsds demo_env toks ''_-_'' 3 = Some (Ptr j) \<and> sds_str j = ''foo_-_bar''"
  using sdssplitlen_sdsjoinsds [of demo_env "''_-_''" "''foo_-_bar''"] by auto

end
