(* ===== verification/Dict.thy ===== *)
theory Dict
  imports C_Base "HOL-Library.Multiset"
begin

text \<open>
  The hash table of the client library, \<open>redis/hiredis/dict.c\<close> and \<open>dict.h\<close>.

  A chain of entries is the list of its (key, value) pairs, first entry first; the table is \<open>NULL\<close>
  or the array of its chains. The record \<open>dictType\<close> holds the user's functions; an optional one
  is \<open>None\<close> where the code has \<open>NULL\<close>, and \<open>privdata\<close>, which the code only hands through to
  them, is taken as already applied. Calls of the two destructors are returned as a list of
  \<open>freed\<close> objects in their order. Sizes are \<open>unsigned long\<close>s, hash values 32-bit words.

  \<open>dict_ok\<close> is the representation invariant, \<open>dict_map\<close> the finite map a table stands for. The
  lemmas show that every operation keeps \<open>dict_ok\<close>, stays inside the table, and what it does to the
  map. The locale \<open>callback_table\<close> is the interface the asynchronous client uses.
\<close>

section \<open>Data\<close>

record ('k, 'v) dictType =
  hashFunction :: "'k \<Rightarrow> 32 word"
  keyDup :: "('k \<Rightarrow> 'k) option"
  valDup :: "('v \<Rightarrow> 'v) option"
  keyCompare :: "('k \<Rightarrow> 'k \<Rightarrow> bool) option"
  keyDestructor :: bool
  valDestructor :: bool

record ('k, 'v) dict =
  ht_table :: "('k \<times> 'v) list list ptr"
  dtype :: "('k, 'v) dictType"
  ht_size :: int
  ht_sizemask :: int
  ht_used :: int

datatype ('k, 'v) freed = FreedKey 'k | FreedVal 'v

abbreviation (input) DICT_OK :: int where "DICT_OK \<equiv> 0"
abbreviation (input) DICT_ERR :: int where "DICT_ERR \<equiv> 1"
abbreviation (input) DICT_HT_INITIAL_SIZE :: int where "DICT_HT_INITIAL_SIZE \<equiv> 4"

definition dictFreeEntryVal :: "('k, 'v) dictType \<Rightarrow> 'k \<times> 'v \<Rightarrow> ('k, 'v) freed list" where
  "dictFreeEntryVal ty he = (if valDestructor ty then [FreedVal (snd he)] else [])"

definition dictFreeEntryKey :: "('k, 'v) dictType \<Rightarrow> 'k \<times> 'v \<Rightarrow> ('k, 'v) freed list" where
  "dictFreeEntryKey ty he = (if keyDestructor ty then [FreedKey (fst he)] else [])"

definition dictSetHashVal :: "('k, 'v) dictType \<Rightarrow> 'v \<Rightarrow> 'v" where
  "dictSetHashVal ty v = (case valDup ty of None \<Rightarrow> v | Some f \<Rightarrow> f v)"

definition dictSetHashKey :: "('k, 'v) dictType \<Rightarrow> 'k \<Rightarrow> 'k" where
  "dictSetHashKey ty k = (case keyDup ty of None \<Rightarrow> k | Some f \<Rightarrow> f k)"

definition dictCompareHashKeys :: "('k, 'v) dictType \<Rightarrow> 'k \<Rightarrow> 'k \<Rightarrow> bool" where
  "dictCompareHashKeys ty k1 k2 = (case keyCompare ty of None \<Rightarrow> k1 = k2 | Some f \<Rightarrow> f k1 k2)"

definition dictHashKey :: "('k, 'v) dictType \<Rightarrow> 'k \<Rightarrow> 32 word" where
  "dictHashKey ty k = hashFunction ty k"

section \<open>Operations\<close>

definition dictGenHashFunction :: "bytes \<Rightarrow> 32 word" where
  "dictGenHashFunction buf =
     fold (\<lambda>c hash. (push_bit 5 hash + hash) + word_of_nat (of_char c)) buf 5381"

definition dictReset :: "('k, 'v) dict \<Rightarrow> ('k, 'v) dict" where
  "dictReset ht = ht\<lparr>ht_table := NULL, ht_size := 0, ht_sizemask := 0, ht_used := 0\<rparr>"

definition dictInit :: "('k, 'v) dict \<Rightarrow> ('k, 'v) dictType \<Rightarrow> ('k, 'v) dict" where
  "dictInit ht ty = (dictReset ht)\<lparr>dtype := ty\<rparr>"

definition dictCreate :: "cenv \<Rightarrow> ('k, 'v) dictType \<Rightarrow> ('k, 'v) dict option" where
  "dictCreate e ty =
     (if granted e 48
      then Some (dictInit \<lparr>ht_table = NULL, dtype = ty, ht_size = 0, ht_sizemask = 0, ht_used = 0\<rparr> ty) else None)"

text \<open>The loop of \<open>_dictNextPower\<close>; it starts at 4, the case 0 only makes the recursion total.\<close>

function next_power :: "int \<Rightarrow> int \<Rightarrow> int" where
  "next_power i n = (if i \<ge> n \<or> i \<le> 0 then i else next_power (i * 2) n)"
  by pat_completeness auto
termination
  by (relation "measure (\<lambda>(i, n). nat (n - i))") auto

declare next_power.simps [simp del]

definition dictNextPower :: "int \<Rightarrow> int" where
  "dictNextPower n = (if n \<ge> LONG_MAX then LONG_MAX else next_power DICT_HT_INITIAL_SIZE n)"

text \<open>The slot of a key under a ht_size msk, as the \<open>unsigned int\<close> the code stores.\<close>

definition slot :: "('k, 'v) dictType \<Rightarrow> int \<Rightarrow> 'k \<Rightarrow> int" where
  "slot ty msk k = to_uint (and (uint (dictHashKey ty k)) msk)"

definition bucket :: "('k \<times> 'v) list list ptr \<Rightarrow> int \<Rightarrow> ('k \<times> 'v) list option" where
  "bucket t i = (case t of
      NULL \<Rightarrow> None
    | Ptr tab \<Rightarrow> if 0 \<le> i \<and> i < int (length tab) then Some (tab ! nat i) else None)"

definition set_bucket :: "('k \<times> 'v) list list ptr \<Rightarrow> int \<Rightarrow> ('k \<times> 'v) list \<Rightarrow> ('k \<times> 'v) list list ptr option" where
  "set_bucket t i chain = (case t of
      NULL \<Rightarrow> None
    | Ptr tab \<Rightarrow> if 0 \<le> i \<and> i < int (length tab) then Some (Ptr (tab[nat i := chain])) else None)"

fun rehash_chain :: "('k, 'v) dictType \<Rightarrow> int \<Rightarrow> ('k \<times> 'v) list \<Rightarrow> ('k \<times> 'v) list list ptr \<Rightarrow> int \<Rightarrow>
    (('k \<times> 'v) list list ptr \<times> int) option" where
  "rehash_chain ty msk [] nt us = Some (nt, us)"
| "rehash_chain ty msk (he # rest) nt us = do {
     let h = slot ty msk (fst he);
     chain \<leftarrow> bucket nt h;
     nt' \<leftarrow> set_bucket nt h (he # chain);
     rehash_chain ty msk rest nt' (to_size (us - 1))
   }"

function rehash_loop :: "('k, 'v) dict \<Rightarrow> int \<Rightarrow> int \<Rightarrow> ('k \<times> 'v) list list ptr \<Rightarrow> int \<Rightarrow>
    (('k \<times> 'v) list list ptr \<times> int) option" where
  "rehash_loop ht msk i nt us =
     (if i < ht_size ht \<and> us > 0
      then (case bucket (ht_table ht) i of
          None \<Rightarrow> None
        | Some chain \<Rightarrow> (case rehash_chain (dtype ht) msk chain nt us of
            None \<Rightarrow> None
          | Some (nt', us') \<Rightarrow> rehash_loop ht msk (i + 1) nt' us'))
      else Some (nt, us))"
  by pat_completeness auto
termination
  by (relation "measure (\<lambda>(ht, msk, i, nt, us). nat (ht_size ht - i))") auto

declare rehash_loop.simps [simp del]

definition dictExpand :: "cenv \<Rightarrow> ('k, 'v) dict \<Rightarrow> int \<Rightarrow> (int \<times> ('k, 'v) dict) option" where
  "dictExpand e ht sz =
     (let realsize = dictNextPower sz in
      if ht_used ht > sz then Some (DICT_ERR, ht)
      else do {
        let n = dictInit ht (dtype ht);
        let n1 = n\<lparr>ht_size := realsize, ht_sizemask := to_size (realsize - 1),
           ht_table := (if granted e (8 * realsize) then Ptr (replicate (nat realsize) []) else NULL),
           ht_used := ht_used ht\<rparr>;
        (nt, us) \<leftarrow> rehash_loop ht (ht_sizemask n1) 0 (ht_table n1) (ht_used ht);
        c_assert (us = 0);
        Some (DICT_OK, n1\<lparr>ht_table := nt\<rparr>)
      })"

definition dictExpandIfNeeded :: "cenv \<Rightarrow> ('k, 'v) dict \<Rightarrow> (int \<times> ('k, 'v) dict) option" where
  "dictExpandIfNeeded e ht =
     (if ht_size ht = 0 then dictExpand e ht DICT_HT_INITIAL_SIZE
      else if ht_used ht = ht_size ht then dictExpand e ht (to_size (ht_size ht * 2))
      else Some (DICT_OK, ht))"

definition chain_find :: "('k, 'v) dictType \<Rightarrow> 'k \<Rightarrow> ('k \<times> 'v) list \<Rightarrow> ('k \<times> 'v) option" where
  "chain_find ty key he = List.find (\<lambda>e. dictCompareHashKeys ty key (fst e)) he"

definition dictKeyIndex :: "cenv \<Rightarrow> ('k, 'v) dict \<Rightarrow> 'k \<Rightarrow> (int \<times> ('k, 'v) dict) option" where
  "dictKeyIndex e ht key = do {
     (r, ht') \<leftarrow> dictExpandIfNeeded e ht;
     if r = DICT_ERR then Some (- 1, ht')
     else do {
       let h = slot (dtype ht') (ht_sizemask ht') key;
       chain \<leftarrow> bucket (ht_table ht') h;
       Some (case chain_find (dtype ht') key chain of Some _ \<Rightarrow> - 1 | None \<Rightarrow> to_int h, ht')
     }
   }"

definition dictAdd :: "cenv \<Rightarrow> ('k, 'v) dict \<Rightarrow> 'k \<Rightarrow> 'v \<Rightarrow> (int \<times> ('k, 'v) dict) option" where
  "dictAdd e ht key val = do {
     (idx, ht1) \<leftarrow> dictKeyIndex e ht key;
     if idx = - 1 then Some (DICT_ERR, ht1)
     else if \<not> granted e 24 then None
     else do {
       chain \<leftarrow> bucket (ht_table ht1) idx;
       t \<leftarrow> set_bucket (ht_table ht1) idx
              ((dictSetHashKey (dtype ht1) key, dictSetHashVal (dtype ht1) val) # chain);
       Some (DICT_OK, ht1\<lparr>ht_table := t, ht_used := to_size (ht_used ht1 + 1)\<rparr>)
     }
   }"

definition dictFind :: "('k, 'v) dict \<Rightarrow> 'k \<Rightarrow> ('k \<times> 'v) ptr option" where
  "dictFind ht key =
     (if ht_size ht = 0 then Some NULL
      else do {
        chain \<leftarrow> bucket (ht_table ht) (slot (dtype ht) (ht_sizemask ht) key);
        Some (case chain_find (dtype ht) key chain of None \<Rightarrow> NULL | Some he \<Rightarrow> Ptr he)
      })"

text \<open>The entry that \<open>dictFind\<close> points at, updated in its chain.\<close>

fun chain_update :: "('k, 'v) dictType \<Rightarrow> 'k \<Rightarrow> 'v \<Rightarrow> ('k \<times> 'v) list \<Rightarrow> ('k \<times> 'v) list" where
  "chain_update ty key v [] = []"
| "chain_update ty key v (he # rest) =
     (if dictCompareHashKeys ty key (fst he) then (fst he, v) # rest else he # chain_update ty key v rest)"

definition dictReplace :: "cenv \<Rightarrow> ('k, 'v) dict \<Rightarrow> 'k \<Rightarrow> 'v \<Rightarrow>
    (int \<times> ('k, 'v) dict \<times> ('k, 'v) freed list) option" where
  "dictReplace e ht key val = do {
     (r, ht1) \<leftarrow> dictAdd e ht key val;
     if r = DICT_OK then Some (1, ht1, [])
     else do {
       he \<leftarrow> dictFind ht1 key;
       (case he of
          NULL \<Rightarrow> None
        | Ptr auxentry \<Rightarrow> do {
            let h = slot (dtype ht1) (ht_sizemask ht1) key;
            chain \<leftarrow> bucket (ht_table ht1) h;
            t \<leftarrow> set_bucket (ht_table ht1) h (chain_update (dtype ht1) key (dictSetHashVal (dtype ht1) val) chain);
            Some (0, ht1\<lparr>ht_table := t\<rparr>, dictFreeEntryVal (dtype ht1) auxentry)
          })
     }
   }"

text \<open>The search of \<open>dictDelete\<close>: the chain without the first matching entry, and that entry.\<close>

fun unlink :: "('k, 'v) dictType \<Rightarrow> 'k \<Rightarrow> ('k \<times> 'v) list \<Rightarrow> (('k \<times> 'v) list \<times> 'k \<times> 'v) option" where
  "unlink ty key [] = None"
| "unlink ty key (de # rest) =
     (if dictCompareHashKeys ty key (fst de) then Some (rest, de)
      else map_option (\<lambda>(chain, gone). (de # chain, gone)) (unlink ty key rest))"

definition dictDelete :: "('k, 'v) dict \<Rightarrow> 'k \<Rightarrow> (int \<times> ('k, 'v) dict \<times> ('k, 'v) freed list) option" where
  "dictDelete ht key =
     (if ht_size ht = 0 then Some (DICT_ERR, ht, [])
      else do {
        let h = slot (dtype ht) (ht_sizemask ht) key;
        chain \<leftarrow> bucket (ht_table ht) h;
        (case unlink (dtype ht) key chain of
           None \<Rightarrow> Some (DICT_ERR, ht, [])
         | Some (chain', de) \<Rightarrow> do {
             t \<leftarrow> set_bucket (ht_table ht) h chain';
             Some (DICT_OK, ht\<lparr>ht_table := t, ht_used := to_size (ht_used ht - 1)\<rparr>,
               dictFreeEntryKey (dtype ht) de @ dictFreeEntryVal (dtype ht) de)
           })
      })"

definition free_entry :: "('k, 'v) dictType \<Rightarrow> 'k \<times> 'v \<Rightarrow> ('k, 'v) freed list" where
  "free_entry ty he = dictFreeEntryKey ty he @ dictFreeEntryVal ty he"

function clear_loop :: "('k, 'v) dict \<Rightarrow> int \<Rightarrow> int \<Rightarrow> ('k, 'v) freed list option" where
  "clear_loop ht i us =
     (if i < ht_size ht \<and> us > 0
      then (case bucket (ht_table ht) i of
          None \<Rightarrow> None
        | Some chain \<Rightarrow> map_option (\<lambda>fs. concat (map (free_entry (dtype ht)) chain) @ fs)
            (clear_loop ht (i + 1) (to_size (us - int (length chain)))))
      else Some [])"
  by pat_completeness auto
termination
  by (relation "measure (\<lambda>(ht, i, us). nat (ht_size ht - i))") auto

declare clear_loop.simps [simp del]

definition dictClear :: "('k, 'v) dict \<Rightarrow> (int \<times> ('k, 'v) dict \<times> ('k, 'v) freed list) option" where
  "dictClear ht = do { fs \<leftarrow> clear_loop ht 0 (ht_used ht); Some (DICT_OK, dictReset ht, fs) }"

definition dictRelease :: "('k, 'v) dict \<Rightarrow> ('k, 'v) freed list option" where
  "dictRelease ht = do { (r, ht', fs) \<leftarrow> dictClear ht; Some fs }"

text \<open>
  The iterator. \<open>it_entry\<close> is the chain that begins with the current entry, empty for \<open>NULL\<close>;
  \<open>it_next\<close> likewise. An index beyond \<open>INT_MAX\<close> gives \<open>None\<close>.
\<close>

record ('k, 'v) dictIterator =
  it_index :: int
  it_entry :: "('k \<times> 'v) list"
  it_next :: "('k \<times> 'v) list"

definition dictGetIterator :: "cenv \<Rightarrow> ('k, 'v) dictIterator option" where
  "dictGetIterator e = (if granted e 32 then Some \<lparr>it_index = - 1, it_entry = [], it_next = []\<rparr> else None)"

function next_loop :: "('k, 'v) dict \<Rightarrow> int \<Rightarrow> ('k \<times> 'v) list \<Rightarrow> ('k \<times> 'v) list \<Rightarrow>
    (('k \<times> 'v) ptr \<times> ('k, 'v) dictIterator) option" where
  "next_loop ht i cur nxt =
     (if cur = []
      then (if i \<ge> INT_MAX then None
        else if i + 1 \<ge> to_int (ht_size ht) then Some (NULL, \<lparr>it_index = i + 1, it_entry = [], it_next = nxt\<rparr>)
        else (case bucket (ht_table ht) (i + 1) of
            None \<Rightarrow> None
          | Some [] \<Rightarrow> next_loop ht (i + 1) [] nxt
          | Some (he # rest) \<Rightarrow> Some (Ptr he, \<lparr>it_index = i + 1, it_entry = he # rest, it_next = rest\<rparr>)))
      else (case nxt of
          [] \<Rightarrow> next_loop ht i [] nxt
        | he # rest \<Rightarrow> Some (Ptr he, \<lparr>it_index = i, it_entry = he # rest, it_next = rest\<rparr>)))"
  by pat_completeness auto
termination
  by (relation "measures [\<lambda>(ht, i, cur, nxt). nat (to_int (ht_size ht) - i), \<lambda>(ht, i, cur, nxt). length cur]") auto

declare next_loop.simps [simp del]

definition dictNext :: "('k, 'v) dict \<Rightarrow> ('k, 'v) dictIterator \<Rightarrow> (('k \<times> 'v) ptr \<times> ('k, 'v) dictIterator) option" where
  "dictNext ht it = next_loop ht (it_index it) (it_entry it) (it_next it)"

section \<open>Representation invariant and abstraction\<close>

text \<open>
  What the table needs of the user's functions: comparison is an equivalence that the hash
  function respects, and a duplicated key compares equal to its original.
\<close>

definition keys_ok :: "('k, 'v) dictType \<Rightarrow> bool" where
  "keys_ok ty \<longleftrightarrow> (\<forall>k. dictCompareHashKeys ty k k) \<and>
     (\<forall>k k'. dictCompareHashKeys ty k k' \<longrightarrow> dictCompareHashKeys ty k' k) \<and>
     (\<forall>k k' k''. dictCompareHashKeys ty k k' \<longrightarrow> dictCompareHashKeys ty k' k'' \<longrightarrow> dictCompareHashKeys ty k k'') \<and>
     (\<forall>k k'. dictCompareHashKeys ty k k' \<longrightarrow> dictHashKey ty k = dictHashKey ty k') \<and>
     (\<forall>k. dictCompareHashKeys ty k (dictSetHashKey ty k))"

definition key_class :: "('k, 'v) dictType \<Rightarrow> 'k \<Rightarrow> 'k set" where
  "key_class ty k = {k'. dictCompareHashKeys ty k k'}"

lemma keys_okD:
  assumes "keys_ok ty"
  shows "dictCompareHashKeys ty k k"
    "dictCompareHashKeys ty k k' \<Longrightarrow> dictCompareHashKeys ty k' k"
    "dictCompareHashKeys ty k k' \<Longrightarrow> dictCompareHashKeys ty k' k'' \<Longrightarrow> dictCompareHashKeys ty k k''"
    "dictCompareHashKeys ty k k' \<Longrightarrow> dictHashKey ty k = dictHashKey ty k'"
    "dictCompareHashKeys ty k (dictSetHashKey ty k)"
proof -
  note A = assms [unfolded keys_ok_def]
  show "dictCompareHashKeys ty k k" using A [THEN conjunct1] by (rule spec)
  show "dictCompareHashKeys ty k k' \<Longrightarrow> dictCompareHashKeys ty k' k"
    using A [THEN conjunct2, THEN conjunct1] by simp
  show "dictCompareHashKeys ty k k' \<Longrightarrow> dictCompareHashKeys ty k' k'' \<Longrightarrow> dictCompareHashKeys ty k k''"
    using A [THEN conjunct2, THEN conjunct2, THEN conjunct1] by iprover
  show "dictCompareHashKeys ty k k' \<Longrightarrow> dictHashKey ty k = dictHashKey ty k'"
    using A [THEN conjunct2, THEN conjunct2, THEN conjunct2, THEN conjunct1] by iprover
  show "dictCompareHashKeys ty k (dictSetHashKey ty k)"
    using A [THEN conjunct2, THEN conjunct2, THEN conjunct2, THEN conjunct2] by (rule spec)
qed

lemma key_class_eq:
  assumes "keys_ok ty"
  shows "key_class ty k = key_class ty k' \<longleftrightarrow> dictCompareHashKeys ty k k'"
proof
  assume "key_class ty k = key_class ty k'"
  moreover have "k' \<in> key_class ty k'" using keys_okD(1) [OF assms] by (simp add: key_class_def)
  ultimately have "k' \<in> key_class ty k" by simp
  then show "dictCompareHashKeys ty k k'" by (simp add: key_class_def)
next
  assume c: "dictCompareHashKeys ty k k'"
  show "key_class ty k = key_class ty k'"
    using keys_okD(3) [OF assms c] keys_okD(3) [OF assms keys_okD(2) [OF assms c]]
    by (auto simp: key_class_def)
qed

lemma key_class_dup [simp]: "keys_ok ty \<Longrightarrow> key_class ty (dictSetHashKey ty k) = key_class ty k"
  using key_class_eq keys_okD(5) by metis

lemma key_class_slot:
  assumes "keys_ok ty" "key_class ty k = key_class ty k'"
  shows "slot ty m k = slot ty m k'"
  using keys_okD(4) [OF assms(1)] assms(2) by (simp add: key_class_eq [OF assms(1)] slot_def)

definition entries :: "('k, 'v) dict \<Rightarrow> ('k \<times> 'v) list" where
  "entries ht = (case ht_table ht of NULL \<Rightarrow> [] | Ptr tab \<Rightarrow> concat tab)"

definition by_class :: "('k, 'v) dictType \<Rightarrow> 'k \<times> 'v \<Rightarrow> 'k set \<times> 'v" where
  "by_class ty he = (key_class ty (fst he), snd he)"

definition dict_map :: "('k, 'v) dict \<Rightarrow> 'k \<Rightarrow> 'v option" where
  "dict_map ht k = map_of (map (by_class (dtype ht)) (entries ht)) (key_class (dtype ht) k)"

definition placed :: "('k, 'v) dictType \<Rightarrow> int \<Rightarrow> ('k \<times> 'v) list list \<Rightarrow> bool" where
  "placed ty m tab \<longleftrightarrow> (\<forall>i < length tab. \<forall>he \<in> set (tab ! i). slot ty m (fst he) = int i)"

definition apart :: "('k, 'v) dictType \<Rightarrow> ('k \<times> 'v) list \<Rightarrow> bool" where
  "apart ty es \<longleftrightarrow> distinct (map (\<lambda>he. key_class ty (fst he)) es)"

definition dict_rep :: "('k, 'v) dict \<Rightarrow> nat \<Rightarrow> ('k \<times> 'v) list list \<Rightarrow> bool" where
  "dict_rep ht n tab \<longleftrightarrow> ht_table ht = Ptr tab \<and> ht_size ht = 2 ^ n \<and> ht_sizemask ht = 2 ^ n - 1 \<and>
     2 \<le> n \<and> n \<le> 31 \<and> length tab = 2 ^ n \<and> placed (dtype ht) (2 ^ n - 1) tab \<and>
     ht_used ht = int (length (concat tab)) \<and> apart (dtype ht) (concat tab)"

definition dict_ok :: "('k, 'v) dict \<Rightarrow> bool" where
  "dict_ok ht \<longleftrightarrow> keys_ok (dtype ht) \<and>
     (ht_table ht = NULL \<and> ht_size ht = 0 \<and> ht_sizemask ht = 0 \<and> ht_used ht = 0 \<or> (\<exists>n tab. dict_rep ht n tab))"

lemma pow_31: "n \<le> 31 \<Longrightarrow> (2::int) ^ n \<le> 2147483648"
  using power_increasing [of n 31 "2::int"] by simp

lemma slot_bounds:
  assumes "n \<le> 31"
  shows "0 \<le> slot ty (2 ^ n - 1) k \<and> slot ty (2 ^ n - 1) k < 2 ^ n"
proof -
  let ?h = "take_bit n (uint (dictHashKey ty k))"
  have "and (uint (dictHashKey ty k)) (2 ^ n - 1) = ?h"
    by (simp add: take_bit_eq_mask mask_eq_exp_minus_1)
  moreover have h: "0 \<le> ?h" "?h < 2 ^ n" by simp_all
  moreover have "to_uint ?h = ?h"
    using h pow_31 [OF assms] by (intro to_uint_id) linarith+
  ultimately show ?thesis by (simp add: slot_def)
qed

lemma apart_mset: "mset xs = mset ys \<Longrightarrow> apart ty xs \<longleftrightarrow> apart ty ys"
  unfolding apart_def by (rule mset_eq_imp_distinct_iff) (simp add: mset_map)

lemma apart_map_of:
  assumes "apart ty es"
  shows "map_of (map (by_class ty) es) c = Some v \<longleftrightarrow> (\<exists>k. (k, v) \<in> set es \<and> key_class ty k = c)"
proof -
  have "distinct (map fst (map (by_class ty) es))"
    using assms by (simp add: apart_def by_class_def comp_def)
  then show ?thesis by (force simp: map_of_eq_Some_iff by_class_def)
qed

lemma option_eq_by_Some: "(\<And>v. x = Some v \<longleftrightarrow> y = Some v) \<Longrightarrow> x = y"
  by (cases x; cases y) auto

lemma map_of_same_mset:
  assumes "apart ty xs" "mset xs = mset ys"
  shows "map_of (map (by_class ty) xs) = map_of (map (by_class ty) ys)"
  using assms apart_mset [OF assms(2), of ty] mset_eq_setD [OF assms(2)]
  by (intro ext option_eq_by_Some) (simp add: apart_map_of)

section \<open>Buckets\<close>

lemma mset_concat_update:
  "i < length tab \<Longrightarrow> mset (concat (tab[i := c])) + mset (tab ! i) = mset (concat tab) + mset c"
proof (induction tab arbitrary: i)
  case (Cons b tab)
  then show ?case by (cases i) (auto simp: ac_simps)
qed simp

lemma bucket_simps [simp]:
  "0 \<le> i \<Longrightarrow> i < int (length tab) \<Longrightarrow> bucket (Ptr tab) i = Some (tab ! nat i)"
  "0 \<le> i \<Longrightarrow> i < int (length tab) \<Longrightarrow> set_bucket (Ptr tab) i c = Some (Ptr (tab[nat i := c]))"
  by (simp_all add: bucket_def set_bucket_def)

lemma placed_update:
  assumes "placed ty m tab" "\<And>he. he \<in> set c \<Longrightarrow> slot ty m (fst he) = int i"
  shows "placed ty m (tab[i := c])"
  unfolding placed_def
proof (intro allI impI ballI)
  fix j he
  assume j: "j < length (tab[i := c])" and he: "he \<in> set (tab[i := c] ! j)"
  show "slot ty m (fst he) = int j"
    using assms j he by (cases "j = i") (auto simp: placed_def)
qed

lemma placedD: "placed ty m tab \<Longrightarrow> i < length tab \<Longrightarrow> he \<in> set (tab ! i) \<Longrightarrow> slot ty m (fst he) = int i"
  by (simp add: placed_def)

lemma placed_replicate: "placed ty m (replicate n [])"
  by (simp add: placed_def)

text \<open>Only the bucket of its slot can hold a key.\<close>

lemma in_own_bucket:
  assumes "placed ty m tab" "he \<in> set (concat tab)" "slot ty m (fst he) = int i" "i < length tab"
  shows "he \<in> set (tab ! i)"
proof -
  obtain b where "b \<in> set tab" "he \<in> set b" using assms(2) by auto
  then obtain j where "j < length tab" "he \<in> set (tab ! j)" by (auto simp: in_set_conv_nth [of b])
  moreover then have "j = i" using assms(1,3) by (auto simp: placed_def)
  ultimately show ?thesis by simp
qed

lemma apart_bucket: "apart ty (concat tab) \<Longrightarrow> i < length tab \<Longrightarrow> apart ty (tab ! i)"
proof (induction tab arbitrary: i)
  case (Cons b tab)
  then show ?case by (cases i) (auto simp: apart_def)
qed simp

lemma chain_find_map_of:
  assumes "keys_ok ty"
  shows "map_option snd (chain_find ty k chain) = map_of (map (by_class ty) chain) (key_class ty k)"
  by (induction chain) (auto simp: chain_find_def by_class_def key_class_eq [OF assms] dest: keys_okD(2) [OF assms])

lemma bucket_lookup:
  assumes "keys_ok ty" "n \<le> 31" "length tab = 2 ^ n" "placed ty (2 ^ n - 1) tab" "apart ty (concat tab)"
  shows "map_of (map (by_class ty) (tab ! nat (slot ty (2 ^ n - 1) k))) (key_class ty k) =
    map_of (map (by_class ty) (concat tab)) (key_class ty k)"
proof -
  let ?i = "nat (slot ty (2 ^ n - 1) k)"
  have i: "?i < length tab" "slot ty (2 ^ n - 1) k = int ?i"
    using slot_bounds [OF assms(2), of ty k] assms(3) by (simp_all add: nat_less_iff)
  have "(k', v) \<in> set (tab ! ?i) \<longleftrightarrow> (k', v) \<in> set (concat tab)" if "key_class ty k' = key_class ty k" for k' v
  proof
    assume "(k', v) \<in> set (concat tab)"
    moreover have "slot ty (2 ^ n - 1) (fst (k', v)) = int ?i"
      using key_class_slot [OF assms(1) that] i(2) by simp
    ultimately show "(k', v) \<in> set (tab ! ?i)" using in_own_bucket [OF assms(4)] i(1) by blast
  next
    assume "(k', v) \<in> set (tab ! ?i)"
    then show "(k', v) \<in> set (concat tab)" using i(1) nth_mem by fastforce
  qed
  then show ?thesis
    using apart_bucket [OF assms(5) i(1)] assms(5)
    by (intro option_eq_by_Some) (auto simp: apart_map_of)
qed

lemma dict_ok_cases [consumes 1, case_names empty table]:
  assumes "dict_ok ht"
  obtains "keys_ok (dtype ht)" "ht_table ht = NULL" "ht_size ht = 0" "ht_sizemask ht = 0" "ht_used ht = 0"
  | n tab where "keys_ok (dtype ht)" "dict_rep ht n tab"
  using assms by (auto simp: dict_ok_def)

lemma dict_repD:
  assumes "dict_rep ht n tab"
  shows "ht_table ht = Ptr tab" "ht_size ht = 2 ^ n" "ht_sizemask ht = 2 ^ n - 1" "2 \<le> n" "n \<le> 31"
    "length tab = 2 ^ n" "placed (dtype ht) (2 ^ n - 1) tab" "ht_used ht = int (length (concat tab))"
    "apart (dtype ht) (concat tab)"
  using assms by (simp_all add: dict_rep_def)

lemma dict_rep_bucket:
  assumes "dict_rep ht n tab"
  shows "bucket (ht_table ht) (slot (dtype ht) (ht_sizemask ht) k) = Some (tab ! nat (slot (dtype ht) (2 ^ n - 1) k))"
    "set_bucket (ht_table ht) (slot (dtype ht) (ht_sizemask ht) k) c =
      Some (Ptr (tab[nat (slot (dtype ht) (2 ^ n - 1) k) := c]))"
    "nat (slot (dtype ht) (2 ^ n - 1) k) < length tab"
    "slot (dtype ht) (2 ^ n - 1) k = int (nat (slot (dtype ht) (2 ^ n - 1) k))"
  using dict_repD [OF assms] slot_bounds [OF dict_repD(5) [OF assms], of "dtype ht" k]
  by (simp_all add: nat_less_iff)

section \<open>Searching\<close>

lemma dictFind_spec:
  assumes "dict_ok ht"
  shows "\<exists>p. dictFind ht k = Some p \<and>
    dict_map ht k = (case p of NULL \<Rightarrow> None | Ptr he \<Rightarrow> Some (snd he)) \<and>
    (\<forall>he. p = Ptr he \<longrightarrow> he \<in> set (entries ht) \<and> dictCompareHashKeys (dtype ht) k (fst he))"
  using assms
proof (cases rule: dict_ok_cases)
  case empty
  then show ?thesis by (simp add: dictFind_def dict_map_def entries_def)
next
  case (table n tab)
  note rep = dict_repD [OF table(2)]
  let ?chain = "tab ! nat (slot (dtype ht) (2 ^ n - 1) k)"
  let ?r = "chain_find (dtype ht) k ?chain"
  have "map_option snd ?r = dict_map ht k"
    using chain_find_map_of [OF table(1)] bucket_lookup [OF table(1) rep(5,6,7,9)]
    by (simp add: dict_map_def entries_def rep(1))
  moreover have "he \<in> set (entries ht) \<and> dictCompareHashKeys (dtype ht) k (fst he)" if "?r = Some he" for he
  proof -
    have "he \<in> set ?chain" "dictCompareHashKeys (dtype ht) k (fst he)"
      using that by (auto simp: chain_find_def find_Some_iff)
    with dict_rep_bucket(3) [OF table(2), of k] show ?thesis
      using nth_mem by (fastforce simp: entries_def rep(1))
  qed
  moreover have "dictFind ht k = Some (case ?r of None \<Rightarrow> NULL | Some he \<Rightarrow> Ptr he)"
    using dict_rep_bucket(1) [OF table(2), of k] rep(2) by (simp add: dictFind_def)
  ultimately show ?thesis by (cases ?r) auto
qed

section \<open>Growing\<close>

lemma next_power_pow:
  assumes "0 \<le> n" "n \<le> 2 ^ m" "j \<le> m"
  shows "\<exists>k \<ge> j. k \<le> m \<and> next_power (2 ^ j) n = 2 ^ k \<and> n \<le> 2 ^ k"
  using assms(3)
proof (induction "m - j" arbitrary: j)
  case 0
  then have "j = m" by simp
  with assms show ?case by (intro exI [of _ j]) (simp add: next_power.simps)
next
  case (Suc d)
  show ?case
  proof (cases "n \<le> 2 ^ j")
    case True
    with Suc show ?thesis by (intro exI [of _ j]) (simp add: next_power.simps)
  next
    case False
    from Suc have "\<exists>k \<ge> Suc j. k \<le> m \<and> next_power (2 ^ Suc j) n = 2 ^ k \<and> n \<le> 2 ^ k"
      by (intro Suc.hyps(1)) auto
    moreover have "next_power (2 ^ j) n = next_power (2 ^ Suc j) n"
      using False by (subst next_power.simps) (simp add: mult.commute)
    ultimately show ?thesis using Suc_leD by metis
  qed
qed

lemma rehash_chain_spec:
  assumes "n \<le> 31" "length nt = 2 ^ n" "placed ty (2 ^ n - 1) nt" "int (length chain) \<le> us"
    and "us < 18446744073709551616"
  shows "\<exists>nt'. rehash_chain ty (2 ^ n - 1) chain (Ptr nt) us = Some (Ptr nt', us - int (length chain)) \<and>
    length nt' = 2 ^ n \<and> placed ty (2 ^ n - 1) nt' \<and> mset (concat nt') = mset (concat nt) + mset chain"
  using assms(2-5)
proof (induction chain arbitrary: nt us)
  case Nil
  then show ?case by simp
next
  case (Cons he chain)
  let ?h = "slot ty (2 ^ n - 1) (fst he)"
  let ?nt = "nt[nat ?h := he # nt ! nat ?h]"
  have h: "0 \<le> ?h" "?h < int (length nt)" "nat ?h < length nt"
    using slot_bounds [OF assms(1), of ty "fst he"] Cons.prems(1) by (simp_all add: nat_less_iff)
  have placed: "placed ty (2 ^ n - 1) ?nt"
  proof (rule placed_update [OF Cons.prems(2)])
    fix x
    assume "x \<in> set (he # nt ! nat ?h)"
    then consider "x = he" | "x \<in> set (nt ! nat ?h)" by auto
    then show "slot ty (2 ^ n - 1) (fst x) = int (nat ?h)"
      using h(1) Cons.prems(2) [unfolded placed_def, rule_format, OF h(3), of x] by cases simp_all
  qed
  have "mset (concat ?nt) = add_mset he (mset (concat nt))"
    using mset_concat_update [OF h(3), of "he # nt ! nat ?h"] by simp
  moreover have "rehash_chain ty (2 ^ n - 1) (he # chain) (Ptr nt) us =
      rehash_chain ty (2 ^ n - 1) chain (Ptr ?nt) (us - 1)"
    using Cons.prems(3,4) h by (simp add: Let_def)
  moreover obtain nt' where "rehash_chain ty (2 ^ n - 1) chain (Ptr ?nt) (us - 1) =
      Some (Ptr nt', us - 1 - int (length chain))" "length nt' = 2 ^ n" "placed ty (2 ^ n - 1) nt'"
      "mset (concat nt') = mset (concat ?nt) + mset chain"
    using Cons.IH [OF _ placed, of "us - 1"] Cons.prems by auto
  ultimately show ?case by (intro exI [of _ nt']) simp
qed

lemma rehash_loop_spec:
  assumes "n \<le> 31" "length nt = 2 ^ n" "placed (dtype ht) (2 ^ n - 1) nt"
    and "ht_table ht = Ptr tab" "ht_size ht = int (length tab)" "i \<le> length tab"
    and "us = int (length (concat (drop i tab)))" "us < 18446744073709551616"
  shows "\<exists>nt'. rehash_loop ht (2 ^ n - 1) (int i) (Ptr nt) us = Some (Ptr nt', 0) \<and> length nt' = 2 ^ n \<and>
    placed (dtype ht) (2 ^ n - 1) nt' \<and> mset (concat nt') = mset (concat nt) + mset (concat (drop i tab))"
  using assms(2,3,6-8)
proof (induction "length tab - i" arbitrary: i nt us)
  case 0
  then show ?case by (simp add: rehash_loop.simps assms(5))
next
  case (Suc d)
  then have i: "i < length tab" by simp
  have drop: "drop i tab = tab ! i # drop (Suc i) tab" using i by (rule Cons_nth_drop_Suc [symmetric])
  have d: "d = length tab - Suc i" using Suc.hyps(2) by simp
  show ?case
  proof (cases "us > 0")
    case False
    with Suc.prems show ?thesis by (subst rehash_loop.simps) auto
  next
    case True
    obtain nt1 where nt1: "rehash_chain (dtype ht) (2 ^ n - 1) (tab ! i) (Ptr nt) us =
        Some (Ptr nt1, us - int (length (tab ! i)))" "length nt1 = 2 ^ n" "placed (dtype ht) (2 ^ n - 1) nt1"
      "mset (concat nt1) = mset (concat nt) + mset (tab ! i)"
      using rehash_chain_spec [OF assms(1) Suc.prems(1,2), of "tab ! i" us] Suc.prems drop by auto
    obtain nt2 where nt2: "rehash_loop ht (2 ^ n - 1) (int (Suc i)) (Ptr nt1) (us - int (length (tab ! i))) =
        Some (Ptr nt2, 0)" "length nt2 = 2 ^ n" "placed (dtype ht) (2 ^ n - 1) nt2"
      "mset (concat nt2) = mset (concat nt1) + mset (concat (drop (Suc i) tab))"
      using Suc.hyps(1) [of "Suc i" nt1 "us - int (length (tab ! i))", OF d] Suc.prems nt1 i drop by auto
    have "rehash_loop ht (2 ^ n - 1) (int i) (Ptr nt) us = Some (Ptr nt2, 0)"
      using True i nt1(1) nt2(1) by (subst rehash_loop.simps) (simp add: assms(4,5) add.commute)
    with nt1 nt2 drop show ?thesis by (auto simp: ac_simps)
  qed
qed

lemma dictExpand_spec:
  assumes "plenty e" "dict_ok ht" "ht_used ht \<le> sz" "sz \<le> 2 ^ 31"
  shows "\<exists>ht' n tab. dictExpand e ht sz = Some (DICT_OK, ht') \<and> dtype ht' = dtype ht \<and>
    dict_rep ht' n tab \<and> sz \<le> 2 ^ n \<and> mset (entries ht') = mset (entries ht)"
proof -
  have used: "0 \<le> ht_used ht" "ht_used ht = int (length (entries ht))" "apart (dtype ht) (entries ht)"
    using assms(2) by (cases rule: dict_ok_cases; auto simp: entries_def dict_rep_def apart_def)+
  obtain n where n: "2 \<le> n" "n \<le> 31" "next_power 4 sz = 2 ^ n" "sz \<le> 2 ^ n"
    using next_power_pow [of sz 31 2] used(1) assms(3,4) by auto
  have real: "dictNextPower sz = 2 ^ n" using n assms(4) by (simp add: dictNextPower_def)
  let ?nt = "replicate (2 ^ n) [] :: ('a \<times> 'b) list list"
  have "\<exists>nt'. rehash_loop ht (2 ^ n - 1) 0 (Ptr ?nt) (ht_used ht) = Some (Ptr nt', 0) \<and> length nt' = 2 ^ n \<and>
    placed (dtype ht) (2 ^ n - 1) nt' \<and> mset (concat nt') = mset (entries ht)"
    using assms(2)
  proof (cases rule: dict_ok_cases)
    case empty
    then show ?thesis
      by (intro exI [of _ ?nt]) (simp add: rehash_loop.simps entries_def placed_replicate)
  next
    case (table k tab)
    with rehash_loop_spec [OF n(2), of ?nt ht tab 0 "ht_used ht"] used assms(3,4) show ?thesis
      by (simp add: dict_rep_def entries_def placed_replicate)
  qed
  then obtain nt' where nt': "rehash_loop ht (2 ^ n - 1) 0 (Ptr ?nt) (ht_used ht) = Some (Ptr nt', 0)"
    "length nt' = 2 ^ n" "placed (dtype ht) (2 ^ n - 1) nt'" "mset (concat nt') = mset (entries ht)" by blast
  define ht' where "ht' = (dictInit ht (dtype ht))\<lparr>ht_size := 2 ^ n, ht_sizemask := 2 ^ n - 1,
    ht_table := Ptr nt', ht_used := ht_used ht\<rparr>"
  have "to_size (2 ^ n - 1) = 2 ^ n - 1" using pow_31 [OF n(2)] by simp
  then have "dictExpand e ht sz = Some (DICT_OK, ht')"
    using assms(1,3) nt'(1) real
    by (simp add: dictExpand_def Let_def plenty_def ht'_def dictInit_def dictReset_def nat_power_eq)
  moreover have "dict_rep ht' n nt'"
    using nt' n used apart_mset [OF nt'(4), of "dtype ht"] mset_eq_length [OF nt'(4)]
    by (simp add: dict_rep_def ht'_def dictInit_def dictReset_def)
  ultimately show ?thesis
    using n(4) nt'(4) by (intro exI [of _ ht'] exI [of _ n] exI [of _ nt'])
      (simp add: ht'_def entries_def dictInit_def dictReset_def)
qed

section \<open>Adding, replacing, deleting\<close>

lemma dict_ok_entries:
  assumes "dict_ok ht"
  shows "keys_ok (dtype ht)" "apart (dtype ht) (entries ht)" "ht_used ht = int (length (entries ht))"
  using assms by (cases rule: dict_ok_cases; simp add: entries_def dict_rep_def apart_def)+

lemma dict_rep_ok: "keys_ok (dtype ht) \<Longrightarrow> dict_rep ht n tab \<Longrightarrow> dict_ok ht"
  by (auto simp: dict_ok_def)

lemma dict_map_mset:
  assumes "dict_ok ht" "dtype ht' = dtype ht" "mset (entries ht') = mset (entries ht)"
  shows "dict_map ht' = dict_map ht"
  using map_of_same_mset [OF dict_ok_entries(2) [OF assms(1)] assms(3) [symmetric]] assms(2)
  by (intro ext) (simp add: dict_map_def)

lemma dict_map_add_mset:
  assumes "dict_ok ht" "dtype ht' = dtype ht" "mset (entries ht) = add_mset he (mset (entries ht'))"
  shows "dict_map ht k = (if dictCompareHashKeys (dtype ht) k (fst he) then Some (snd he) else dict_map ht' k)"
    and "dictCompareHashKeys (dtype ht) k (fst he) \<Longrightarrow> dict_map ht' k = None"
proof -
  note ok = dict_ok_entries [OF assms(1)]
  have perm: "mset (entries ht) = mset (he # entries ht')" using assms(3) by simp
  then have ap: "apart (dtype ht) (he # entries ht')" using ok(2) apart_mset by blast
  show "dict_map ht k = (if dictCompareHashKeys (dtype ht) k (fst he) then Some (snd he) else dict_map ht' k)"
    using map_of_same_mset [OF ok(2) perm] assms(2) key_class_eq [OF ok(1), of k "fst he"]
    by (auto simp: dict_map_def by_class_def)
  assume "dictCompareHashKeys (dtype ht) k (fst he)"
  then have c: "key_class (dtype ht) (fst he) = key_class (dtype ht) k"
    using key_class_eq [OF ok(1), of k "fst he"] by simp
  have "map_of (map (by_class (dtype ht)) (entries ht')) (key_class (dtype ht) k) = None"
    unfolding map_of_eq_None_iff using ap by (force simp: apart_def by_class_def simp flip: c)
  then show "dict_map ht' k = None" by (simp add: dict_map_def assms(2))
qed

lemma dict_rep_set:
  assumes "dict_rep ht n tab" "i < length tab"
    and "\<And>he. he \<in> set c \<Longrightarrow> slot (dtype ht) (2 ^ n - 1) (fst he) = int i"
    and "apart (dtype ht) (concat (tab[i := c]))" "us = int (length (concat (tab[i := c])))"
  shows "dict_rep (ht\<lparr>ht_table := Ptr (tab[i := c]), ht_used := us\<rparr>) n (tab[i := c])"
  using dict_repD [OF assms(1)] placed_update [OF dict_repD(7) [OF assms(1)] assms(3)] assms(2,4,5)
  by (simp add: dict_rep_def)

lemma dictExpandIfNeeded_spec:
  assumes "plenty e" "dict_ok ht" "ht_used ht < 2147483648"
  shows "\<exists>ht' n tab. dictExpandIfNeeded e ht = Some (DICT_OK, ht') \<and> dtype ht' = dtype ht \<and>
    dict_rep ht' n tab \<and> mset (entries ht') = mset (entries ht)"
  using assms(2)
proof (cases rule: dict_ok_cases)
  case empty
  with dictExpand_spec [OF assms(1,2), of 4] show ?thesis by (auto simp: dictExpandIfNeeded_def)
next
  case (table n tab)
  note rep = dict_repD [OF table(2)]
  show ?thesis
  proof (cases "ht_used ht = ht_size ht")
    case True
    then have "(2::int) ^ n < 2 ^ 31" using assms(3) rep(2) by simp
    then have "n < 31" by (rule power_less_imp_less_exp [rotated]) simp
    then have le: "(2::int) ^ Suc n \<le> 2 ^ 31" by (intro power_increasing) auto
    then have "to_size (ht_size ht * 2) = 2 ^ Suc n" using rep(2) by (simp add: mult.commute)
    then have "dictExpandIfNeeded e ht = dictExpand e ht (2 ^ Suc n)"
      using True rep(2) unfolding dictExpandIfNeeded_def by (simp only: if_True) simp
    with dictExpand_spec [OF assms(1,2), of "2 ^ Suc n"] le True rep(2) show ?thesis by auto
  next
    case False
    with table rep(2) show ?thesis by (auto simp: dictExpandIfNeeded_def)
  qed
qed

lemma dictKeyIndex_spec:
  assumes "plenty e" "dict_ok ht" "ht_used ht < 2147483648"
  shows "\<exists>ht' n tab. dict_rep ht' n tab \<and> dtype ht' = dtype ht \<and> mset (entries ht') = mset (entries ht) \<and>
    dictKeyIndex e ht k =
      Some (if dict_map ht k = None then slot (dtype ht) (2 ^ n - 1) k else - 1, ht')"
proof -
  obtain ht' n tab where ht': "dictExpandIfNeeded e ht = Some (DICT_OK, ht')" "dtype ht' = dtype ht"
    "dict_rep ht' n tab" "mset (entries ht') = mset (entries ht)"
    using dictExpandIfNeeded_spec [OF assms] by blast
  note rep = dict_repD [OF ht'(3)] and keys = dict_ok_entries(1) [OF assms(2)]
  let ?h = "slot (dtype ht) (2 ^ n - 1) k"
  have "map_option snd (chain_find (dtype ht') k (tab ! nat ?h)) = dict_map ht k"
    using chain_find_map_of [OF keys] bucket_lookup [OF keys rep(5,6), of k] rep(1,7,9) ht'(2)
      dict_map_mset [OF assms(2) ht'(2,4), THEN fun_cong, of k]
    by (simp add: dict_map_def entries_def)
  moreover have "to_int ?h = ?h"
    using slot_bounds [OF rep(5), of "dtype ht" k] pow_31 [OF rep(5)] by (intro to_int_id) linarith+
  moreover have "bucket (ht_table ht') (slot (dtype ht) (ht_sizemask ht') k) = Some (tab ! nat ?h)"
    using dict_rep_bucket(1) [OF ht'(3), of k] ht'(2) by simp
  ultimately show ?thesis
    using ht' by (intro exI [of _ ht'] exI [of _ n] exI [of _ tab])
      (auto simp: dictKeyIndex_def Let_def rep(3) split: option.splits)
qed

lemma dictAdd_spec:
  assumes "plenty e" "dict_ok ht" "ht_used ht < 2147483648"
  shows "\<exists>ht'. dict_ok ht' \<and> dtype ht' = dtype ht \<and>
    (if dict_map ht k = None
     then dictAdd e ht k v = Some (DICT_OK, ht') \<and>
       mset (entries ht') = add_mset (dictSetHashKey (dtype ht) k, dictSetHashVal (dtype ht) v) (mset (entries ht))
     else dictAdd e ht k v = Some (DICT_ERR, ht') \<and> mset (entries ht') = mset (entries ht))"
proof -
  note keys = dict_ok_entries(1) [OF assms(2)]
  obtain h1 n tab where h1: "dict_rep h1 n tab" "dtype h1 = dtype ht" "mset (entries h1) = mset (entries ht)"
    "dictKeyIndex e ht k = Some (if dict_map ht k = None then slot (dtype ht) (2 ^ n - 1) k else - 1, h1)"
    using dictKeyIndex_spec [OF assms] by blast
  have ok1: "dict_ok h1" using dict_rep_ok h1(1,2) keys by metis
  show ?thesis
  proof (cases "dict_map ht k = None")
    case False
    with h1 ok1 show ?thesis by (intro exI [of _ h1]) (simp add: dictAdd_def)
  next
    case True
    let ?h = "slot (dtype ht) (2 ^ n - 1) k" and ?he = "(dictSetHashKey (dtype ht) k, dictSetHashVal (dtype ht) v)"
    let ?i = "nat ?h"
    let ?tab = "tab[?i := ?he # tab ! ?i]"
    note rep = dict_repD [OF h1(1)]
    have i: "?i < length tab" "?h = int ?i" "0 \<le> ?h"
      using dict_rep_bucket(3,4) [OF h1(1), of k] slot_bounds [OF rep(5), of "dtype ht" k] h1(2) by simp_all
    have ms: "mset (concat ?tab) = add_mset ?he (mset (concat tab))"
      using mset_concat_update [OF i(1), of "?he # tab ! ?i"] by simp
    have "map_of (map (by_class (dtype ht)) (concat tab)) (key_class (dtype ht) k) = None"
      using True dict_map_mset [OF assms(2) h1(2,3), THEN fun_cong, of k] h1(2)
      by (simp add: dict_map_def entries_def rep(1))
    then have "apart (dtype ht) (?he # concat tab)"
      using rep(9) keys h1(2) unfolding map_of_eq_None_iff
      by (auto simp: apart_def by_class_def image_image)
    then have ap: "apart (dtype ht) (concat ?tab)" using apart_mset [of "?he # concat tab" "concat ?tab"] ms by simp
    have pl: "slot (dtype ht) (2 ^ n - 1) (fst x) = int ?i" if "x \<in> set (?he # tab ! ?i)" for x
      using that i rep(7) h1(2) key_class_slot [OF keys, of "dictSetHashKey (dtype ht) k" k] keys
      by (auto simp: placed_def)
    define ht' where "ht' = h1\<lparr>ht_table := Ptr ?tab, ht_used := to_size (ht_used h1 + 1)\<rparr>"
    have us: "to_size (ht_used h1 + 1) = int (length (concat ?tab))"
    proof -
      have "ht_used h1 = ht_used ht"
        using dict_ok_entries(3) [OF ok1] dict_ok_entries(3) [OF assms(2)] mset_eq_length [OF h1(3)] by simp
      moreover have "length (concat ?tab) = Suc (length (concat tab))"
        using arg_cong [OF ms, of size] by simp
      ultimately show ?thesis using assms(3) rep(8) by simp
    qed
    have "dict_rep ht' n ?tab"
      unfolding ht'_def using dict_rep_set [OF h1(1) i(1), of "?he # tab ! ?i"] pl ap us h1(2) by simp
    moreover have "dictAdd e ht k v = Some (DICT_OK, ht')"
      using True h1 i assms(1) dict_rep_bucket(1,2) [OF h1(1), of k] rep(1,3)
      by (simp add: dictAdd_def plenty_def ht'_def)
    moreover have "mset (entries ht') = add_mset ?he (mset (entries ht))"
      using ms h1(3) rep(1) by (simp add: ht'_def entries_def)
    ultimately show ?thesis
      using True dict_rep_ok [of ht' n ?tab] keys h1(2) by (intro exI [of _ ht']) (simp add: ht'_def)
  qed
qed

lemma chain_find_in: "chain_find ty key chain = Some he \<Longrightarrow> he \<in> set chain \<and> dictCompareHashKeys ty key (fst he)"
  by (auto simp: chain_find_def find_Some_iff)

lemma unlink_spec:
  "unlink ty key chain = (case chain_find ty key chain of
     None \<Rightarrow> None | Some he \<Rightarrow> Some (remove1 he chain, he))"
proof (induction chain)
  case (Cons de rest)
  have "he \<noteq> de" if "chain_find ty key rest = Some he" "\<not> dictCompareHashKeys ty key (fst de)" for he
    using that chain_find_in by metis
  with Cons show ?case
    by (cases "chain_find ty key rest") (auto simp: chain_find_def)
qed (simp add: chain_find_def)

lemma chain_update_mset:
  "chain_find ty key chain = Some he \<Longrightarrow>
   add_mset he (mset (chain_update ty key v chain)) = add_mset (fst he, v) (mset chain)"
  by (induction chain) (auto simp: chain_find_def split: if_splits)

text \<open>The entry that a lookup finds, in the representation.\<close>

lemma dict_rep_find:
  assumes "keys_ok (dtype ht)" "dict_rep ht n tab" "dict_map ht k = Some v"
  obtains he where "chain_find (dtype ht) k (tab ! nat (slot (dtype ht) (2 ^ n - 1) k)) = Some he"
    "snd he = v" "he \<in> set (tab ! nat (slot (dtype ht) (2 ^ n - 1) k))"
    "dictCompareHashKeys (dtype ht) k (fst he)"
proof -
  note rep = dict_repD [OF assms(2)]
  have "map_option snd (chain_find (dtype ht) k (tab ! nat (slot (dtype ht) (2 ^ n - 1) k))) = Some v"
    using chain_find_map_of [OF assms(1)] bucket_lookup [OF assms(1) rep(5,6,7,9)] assms(3)
    by (simp add: dict_map_def entries_def rep(1))
  then obtain he where he: "chain_find (dtype ht) k (tab ! nat (slot (dtype ht) (2 ^ n - 1) k)) = Some he" "snd he = v"
    by auto
  show thesis using that [OF he] chain_find_in [OF he(1)] by blast
qed

lemma dict_rep_find_None:
  assumes "keys_ok (dtype ht)" "dict_rep ht n tab" "dict_map ht k = None"
  shows "chain_find (dtype ht) k (tab ! nat (slot (dtype ht) (2 ^ n - 1) k)) = None"
  using chain_find_map_of [OF assms(1), of k "tab ! nat (slot (dtype ht) (2 ^ n - 1) k)"]
    bucket_lookup [OF assms(1) dict_repD(5,6,7,9) [OF assms(2)], of k] assms(3)
  by (simp add: dict_map_def entries_def dict_repD(1) [OF assms(2)])

lemma dictDelete_spec:
  assumes "dict_ok ht" "ht_used ht < 18446744073709551616"
  shows "dict_map ht k = None \<and> dictDelete ht k = Some (DICT_ERR, ht, []) \<or>
    (\<exists>he ht'. dict_map ht k = Some (snd he) \<and> dictDelete ht k = Some (DICT_OK, ht', free_entry (dtype ht) he) \<and>
       dict_ok ht' \<and> dtype ht' = dtype ht \<and> dictCompareHashKeys (dtype ht) k (fst he) \<and>
       mset (entries ht) = add_mset he (mset (entries ht')))"
  using assms(1)
proof (cases rule: dict_ok_cases)
  case empty
  then show ?thesis by (simp add: dictDelete_def dict_map_def entries_def)
next
  case (table n tab)
  note rep = dict_repD [OF table(2)]
  note bk = dict_rep_bucket [OF table(2), of k]
  let ?i = "nat (slot (dtype ht) (2 ^ n - 1) k)"
  show ?thesis
  proof (cases "dict_map ht k")
    case None
    from dict_rep_find_None [OF table this] have "dictDelete ht k = Some (DICT_ERR, ht, [])"
      using bk(1) rep(2) by (simp add: dictDelete_def Let_def unlink_spec)
    with None show ?thesis by simp
  next
    case (Some v)
    from dict_rep_find [OF table Some] obtain he where
      he: "chain_find (dtype ht) k (tab ! ?i) = Some he" "snd he = v" "he \<in> set (tab ! ?i)"
      "dictCompareHashKeys (dtype ht) k (fst he)" by blast
    let ?c = "remove1 he (tab ! ?i)"
    define ht' where "ht' = ht\<lparr>ht_table := Ptr (tab[?i := ?c]), ht_used := to_size (ht_used ht - 1)\<rparr>"
    have ms: "mset (concat tab) = add_mset he (mset (concat (tab[?i := ?c])))"
      using mset_concat_update [OF bk(3), of ?c] he(3)
      by (metis (no_types, lifting) add.commute insert_DiffM mset_remove1 set_mset_mset union_left_cancel union_mset_add_mset_left)
    have "apart (dtype ht) (he # concat (tab[?i := ?c]))"
      using rep(9) apart_mset [of "concat tab" "he # concat (tab[?i := ?c])"] ms by simp
    then have "apart (dtype ht) (concat (tab[?i := ?c]))" by (simp add: apart_def)
    moreover have "to_size (ht_used ht - 1) = int (length (concat (tab[?i := ?c])))"
      using arg_cong [OF ms, of size] rep(8) assms(2) by simp
    moreover have "slot (dtype ht) (2 ^ n - 1) (fst x) = int ?i" if "x \<in> set ?c" for x
      using placedD [OF rep(7) bk(3)] that notin_set_remove1 [of x "tab ! ?i" he] by blast
    ultimately have "dict_rep ht' n (tab[?i := ?c])"
      unfolding ht'_def by (intro dict_rep_set [OF table(2) bk(3)])
    moreover have "dictDelete ht k = Some (DICT_OK, ht', free_entry (dtype ht) he)"
      using bk(1,2) rep(2) he(1) by (simp add: dictDelete_def Let_def unlink_spec ht'_def free_entry_def)
    ultimately show ?thesis
      using Some he ms dict_rep_ok [of ht'] table(1) rep(1)
      by (intro disjI2 exI [of _ he] exI [of _ ht']) (simp add: ht'_def entries_def)
  qed
qed

lemma dictReplace_old:
  assumes "keys_ok (dtype ht)" "dict_rep ht n tab" "dict_map ht k = Some w"
    and i: "i = nat (slot (dtype ht) (2 ^ n - 1) k)"
    and t: "t = tab[i := chain_update (dtype ht) k v (tab ! i)]"
  shows "\<exists>he. dictFind ht k = Some (Ptr he) \<and> dictCompareHashKeys (dtype ht) k (fst he) \<and>
    dict_rep (ht\<lparr>ht_table := Ptr t\<rparr>) n t \<and>
    (\<exists>M. mset (entries ht) = add_mset he M \<and> mset (concat t) = add_mset (fst he, v) M)"
proof -
  note rep = dict_repD [OF assms(2)] and bk = dict_rep_bucket [OF assms(2), of k]
  let ?c = "chain_update (dtype ht) k v (tab ! i)"
  obtain he where he: "chain_find (dtype ht) k (tab ! i) = Some he" "he \<in> set (tab ! i)"
    "dictCompareHashKeys (dtype ht) k (fst he)"
    using dict_rep_find [OF assms(1-3)] i by metis
  have il: "i < length tab" using bk(3) i by simp
  obtain M where M: "mset (concat tab) = add_mset he M"
    using he(2) il nth_mem [OF il] by (metis (no_types, lifting) UN_I mset_add set_concat set_mset_mset)
  have "mset (concat t) + mset (tab ! i) = mset (concat tab) + mset ?c"
    unfolding t by (rule mset_concat_update [OF il])
  moreover have "add_mset he (mset ?c) = add_mset (fst he, v) (mset (tab ! i))" by (rule chain_update_mset [OF he(1)])
  ultimately have "mset (concat t) + mset (tab ! i) = add_mset (fst he, v) M + mset (tab ! i)"
    using M by simp
  then have Mt: "mset (concat t) = add_mset (fst he, v) M" by (rule add_right_imp_eq)
  have "image_mset (\<lambda>x. key_class (dtype ht) (fst x)) (mset (concat t)) =
      image_mset (\<lambda>x. key_class (dtype ht) (fst x)) (mset (concat tab))"
    by (simp add: Mt M)
  then have "distinct (map (\<lambda>x. key_class (dtype ht) (fst x)) (concat t)) \<longleftrightarrow>
      distinct (map (\<lambda>x. key_class (dtype ht) (fst x)) (concat tab))"
    by (intro mset_eq_imp_distinct_iff) (simp only: mset_map)
  then have ap: "apart (dtype ht) (concat t)" using rep(9) by (simp add: apart_def)
  have "slot (dtype ht) (2 ^ n - 1) (fst x) = int i" if "x \<in> set ?c" for x
  proof -
    have "x \<in># add_mset he (mset ?c)" using that by simp
    then have "x = (fst he, v) \<or> x \<in> set (tab ! i)" using chain_update_mset [OF he(1), of v] by simp
    then show ?thesis using placedD [OF rep(7) il, of x] placedD [OF rep(7) il he(2)] by auto
  qed
  moreover have "ht_used ht = int (length (concat t))"
    using rep(8) arg_cong [OF M, of size] arg_cong [OF Mt, of size] by simp
  ultimately have "dict_rep (ht\<lparr>ht_table := Ptr t, ht_used := ht_used ht\<rparr>) n t"
    using dict_rep_set [OF assms(2) il, of ?c] ap t by simp
  moreover have "dictFind ht k = Some (Ptr he)"
    using bk(1) rep(2) he(1) i by (simp add: dictFind_def)
  ultimately show ?thesis using he M Mt rep(1) by (auto simp: entries_def)
qed

lemma dictReplace_spec:
  assumes "plenty e" "dict_ok ht" "ht_used ht < 2147483648"
  shows "\<exists>r ht' fs. dictReplace e ht k v = Some (r, ht', fs) \<and> dict_ok ht' \<and> dtype ht' = dtype ht \<and>
    ht_used ht' \<le> ht_used ht + 1 \<and>
    (case dict_map ht k of
       None \<Rightarrow> r = 1 \<and> fs = [] \<and>
         mset (entries ht') = add_mset (dictSetHashKey (dtype ht) k, dictSetHashVal (dtype ht) v) (mset (entries ht))
     | Some w \<Rightarrow> r = 0 \<and> (\<exists>he M. dictCompareHashKeys (dtype ht) k (fst he) \<and> snd he = w \<and>
         fs = dictFreeEntryVal (dtype ht) he \<and> mset (entries ht) = add_mset he M \<and>
         mset (entries ht') = add_mset (fst he, dictSetHashVal (dtype ht) v) M))"
proof (cases "dict_map ht k")
  case None
  then obtain ht' where ht': "dict_ok ht'" "dtype ht' = dtype ht" "dictAdd e ht k v = Some (DICT_OK, ht')"
    "mset (entries ht') = add_mset (dictSetHashKey (dtype ht) k, dictSetHashVal (dtype ht) v) (mset (entries ht))"
    using dictAdd_spec [OF assms, of k v] by auto
  have "ht_used ht' = ht_used ht + 1"
    using dict_ok_entries(3) [OF ht'(1)] dict_ok_entries(3) [OF assms(2)] arg_cong [OF ht'(4), of size] by simp
  with ht' None show ?thesis by (simp add: dictReplace_def)
next
  case (Some w)
  then obtain h1 where h1: "dict_ok h1" "dtype h1 = dtype ht" "dictAdd e ht k v = Some (DICT_ERR, h1)"
    "mset (entries h1) = mset (entries ht)"
    using dictAdd_spec [OF assms, of k v] by auto
  have w: "dict_map h1 k = Some w" using dict_map_mset [OF assms(2) h1(2,4)] Some by simp
  then have "ht_table h1 \<noteq> NULL" by (auto simp: dict_map_def entries_def)
  with h1(1) obtain n tab where rep: "keys_ok (dtype h1)" "dict_rep h1 n tab"
    by (cases rule: dict_ok_cases) auto
  define i t where "i = nat (slot (dtype h1) (2 ^ n - 1) k)"
    and "t = tab[i := chain_update (dtype h1) k (dictSetHashVal (dtype h1) v) (tab ! i)]"
  obtain he M where he: "dictFind h1 k = Some (Ptr he)" "dictCompareHashKeys (dtype h1) k (fst he)"
    "dict_rep (h1\<lparr>ht_table := Ptr t\<rparr>) n t" "mset (entries h1) = add_mset he M"
    "mset (concat t) = add_mset (fst he, dictSetHashVal (dtype h1) v) M"
    using dictReplace_old [OF rep w i_def t_def] by blast
  have "dictReplace e ht k v = Some (0, h1\<lparr>ht_table := Ptr t\<rparr>, dictFreeEntryVal (dtype ht) he)"
    using h1 he(1) dict_rep_bucket [OF rep(2), of k] i_def t_def by (simp add: dictReplace_def Let_def)
  moreover have "snd he = w"
    using dictFind_spec [OF h1(1), of k] he(1) w by simp
  moreover have "dict_ok (h1\<lparr>ht_table := Ptr t\<rparr>)" using dict_rep_ok [OF _ he(3)] rep(1) by simp
  moreover have "ht_used h1 = ht_used ht"
    using dict_ok_entries(3) [OF h1(1)] dict_ok_entries(3) [OF assms(2)] mset_eq_length [OF h1(4)] by simp
  ultimately show ?thesis using Some h1 he by (auto simp: entries_def)
qed

text \<open>The effect of replacing and deleting on the map.\<close>

lemma dictReplace_map:
  assumes "plenty e" "dict_ok ht" "ht_used ht < 2147483648"
  obtains r ht' fs where "dictReplace e ht k v = Some (r, ht', fs)" "dict_ok ht'" "dtype ht' = dtype ht"
    "ht_used ht' \<le> ht_used ht + 1" "r = (if dict_map ht k = None then 1 else 0)"
    "\<And>k'. dict_map ht' k' =
       (if dictCompareHashKeys (dtype ht) k' k then Some (dictSetHashVal (dtype ht) v) else dict_map ht k')"
proof -
  note keys = dict_ok_entries(1) [OF assms(2)]
  obtain r ht' fs where res: "dictReplace e ht k v = Some (r, ht', fs)" "dict_ok ht'" "dtype ht' = dtype ht"
    "ht_used ht' \<le> ht_used ht + 1" and
    c: "case dict_map ht k of
       None \<Rightarrow> r = 1 \<and> fs = [] \<and>
         mset (entries ht') = add_mset (dictSetHashKey (dtype ht) k, dictSetHashVal (dtype ht) v) (mset (entries ht))
     | Some w \<Rightarrow> r = 0 \<and> (\<exists>he M. dictCompareHashKeys (dtype ht) k (fst he) \<and> snd he = w \<and>
         fs = dictFreeEntryVal (dtype ht) he \<and> mset (entries ht) = add_mset he M \<and>
         mset (entries ht') = add_mset (fst he, dictSetHashVal (dtype ht) v) M)"
    using dictReplace_spec [OF assms, of k v] by (elim exE conjE) (rule that)
  show thesis
  proof (rule that [OF res])
    show "r = (if dict_map ht k = None then 1 else 0)" using c by (auto split: option.splits)
    fix k'
    show "dict_map ht' k' =
       (if dictCompareHashKeys (dtype ht) k' k then Some (dictSetHashVal (dtype ht) v) else dict_map ht k')"
    proof (cases "dict_map ht k")
      case None
      with c have "mset (entries ht') =
          add_mset (dictSetHashKey (dtype ht) k, dictSetHashVal (dtype ht) v) (mset (entries ht))" by simp
      from dict_map_add_mset(1) [OF res(2) res(3) [symmetric] this, of k'] res(3) keys show ?thesis
        by (auto simp flip: key_class_eq [OF keys])
    next
      case (Some w)
      with c obtain he M where he: "dictCompareHashKeys (dtype ht) k (fst he)" "mset (entries ht) = add_mset he M"
        "mset (entries ht') = add_mset (fst he, dictSetHashVal (dtype ht) v) M" by auto
      obtain xs where "mset xs = M" using ex_mset by blast
      define h0 where "h0 = ht\<lparr>ht_table := Ptr [xs]\<rparr>"
      have h0: "dtype h0 = dtype ht" "mset (entries h0) = M"
        using \<open>mset xs = M\<close> by (simp_all add: h0_def entries_def)
      have "dictCompareHashKeys (dtype ht) k' k \<longleftrightarrow> dictCompareHashKeys (dtype ht) k' (fst he)"
        using he(1) by (simp flip: key_class_eq [OF keys])
      then show ?thesis
        using dict_map_add_mset(1) [OF res(2), of h0 "(fst he, dictSetHashVal (dtype ht) v)" k']
          dict_map_add_mset(1) [OF assms(2) h0(1), of he k'] he h0 res(3) by simp
    qed
  qed
qed

lemma dictDelete_map:
  assumes "dict_ok ht" "ht_used ht < 18446744073709551616"
  obtains r ht' fs where "dictDelete ht k = Some (r, ht', fs)" "dict_ok ht'" "dtype ht' = dtype ht"
    "ht_used ht' \<le> ht_used ht" "r = (if dict_map ht k = None then DICT_ERR else DICT_OK)"
    "\<And>k'. dict_map ht' k' = (if dictCompareHashKeys (dtype ht) k' k then None else dict_map ht k')"
proof -
  note keys = dict_ok_entries(1) [OF assms(1)]
  show thesis
  proof (cases "dict_map ht k")
    case None
    then have "dictDelete ht k = Some (DICT_ERR, ht, [])" using dictDelete_spec [OF assms, of k] by simp
    moreover have "dict_map ht k' = None" if "dictCompareHashKeys (dtype ht) k' k" for k'
      using None that by (simp add: dict_map_def key_class_eq [OF keys, THEN iffD2])
    ultimately show thesis using that [of DICT_ERR ht "[]"] assms(1) None by auto
  next
    case (Some v)
    then obtain he ht' where h: "dictDelete ht k = Some (DICT_OK, ht', free_entry (dtype ht) he)"
      "dict_ok ht'" "dtype ht' = dtype ht" "dictCompareHashKeys (dtype ht) k (fst he)"
      "mset (entries ht) = add_mset he (mset (entries ht'))"
      using dictDelete_spec [OF assms, of k] by auto
    have "ht_used ht' \<le> ht_used ht"
      using dict_ok_entries(3) [OF h(2)] dict_ok_entries(3) [OF assms(1)] arg_cong [OF h(5), of size] by simp
    moreover have "dict_map ht' k' = (if dictCompareHashKeys (dtype ht) k' k then None else dict_map ht k')" for k'
    proof -
      have "dictCompareHashKeys (dtype ht) k' k \<longleftrightarrow> dictCompareHashKeys (dtype ht) k' (fst he)"
        using h(4) by (simp flip: key_class_eq [OF keys])
      then show ?thesis using dict_map_add_mset [OF assms(1) h(3,5), of k'] by auto
    qed
    ultimately show thesis using that [OF h(1-3)] Some by simp
  qed
qed

section \<open>Clearing and iterating\<close>

lemma clear_loop_spec:
  assumes "ht_table ht = Ptr tab" "ht_size ht = int (length tab)" "i \<le> length tab"
    and "us = int (length (concat (drop i tab)))" "us < 18446744073709551616"
  shows "clear_loop ht (int i) us = Some (concat (map (free_entry (dtype ht)) (concat (drop i tab))))"
  using assms(3-5)
proof (induction "length tab - i" arbitrary: i us)
  case 0
  then show ?case by (simp add: clear_loop.simps assms(2))
next
  case (Suc d)
  then have i: "i < length tab" by simp
  have drop: "drop i tab = tab ! i # drop (Suc i) tab" using i by (rule Cons_nth_drop_Suc [symmetric])
  have d: "d = length tab - Suc i" using Suc.hyps(2) by simp
  show ?case
  proof (cases "us > 0")
    case False
    with Suc.prems show ?thesis by (subst clear_loop.simps) auto
  next
    case True
    have "clear_loop ht (int (Suc i)) (us - int (length (tab ! i))) =
        Some (concat (map (free_entry (dtype ht)) (concat (drop (Suc i) tab))))"
      using Suc.hyps(1) [OF d, of "us - int (length (tab ! i))"] Suc.prems i drop by simp
    moreover have "to_size (us - int (length (tab ! i))) = us - int (length (tab ! i))"
      using Suc.prems drop by simp
    ultimately show ?thesis
      using True i drop by (subst clear_loop.simps) (simp add: assms(1,2) add.commute)
  qed
qed

lemma dictClear_spec:
  assumes "dict_ok ht" "ht_used ht < 18446744073709551616"
  shows "dictClear ht = Some (DICT_OK, dictReset ht, concat (map (free_entry (dtype ht)) (entries ht)))"
  using assms(1)
proof (cases rule: dict_ok_cases)
  case empty
  then show ?thesis by (simp add: dictClear_def clear_loop.simps entries_def)
next
  case (table n tab)
  note rep = dict_repD [OF table(2)]
  with clear_loop_spec [OF rep(1), of 0 "ht_used ht"] assms(2) show ?thesis
    by (simp add: dictClear_def entries_def)
qed

text \<open>
  What an iterator still has to deliver: the rest of the current chain and the buckets behind it.
\<close>

definition remaining :: "('k \<times> 'v) list list \<Rightarrow> ('k, 'v) dictIterator \<Rightarrow> ('k \<times> 'v) list" where
  "remaining tab it = (if it_entry it = [] then [] else it_next it) @ concat (drop (nat (it_index it + 1)) tab)"

definition delivers :: "('k \<times> 'v) list list \<Rightarrow> ('k \<times> 'v) list \<Rightarrow>
    (('k \<times> 'v) ptr \<times> ('k, 'v) dictIterator) option \<Rightarrow> bool" where
  "delivers tab es res \<longleftrightarrow> (\<exists>p it'. res = Some (p, it') \<and>
     (case es of [] \<Rightarrow> p = NULL | he # es' \<Rightarrow> p = Ptr he \<and> remaining tab it' = es' \<and>
        - 1 \<le> it_index it' \<and> it_index it' < int (length tab)))"

lemma next_bucket:
  assumes "ht_table ht = Ptr tab" "to_int (ht_size ht) = int (length tab)" "int (length tab) \<le> INT_MAX" "i \<le> length tab"
  shows "delivers tab (concat (drop i tab)) (next_loop ht (int i - 1) [] nxt)"
  using assms(4)
proof (induction "length tab - i" arbitrary: i)
  case 0
  then show ?case using assms(2,3) by (subst next_loop.simps) (auto simp: delivers_def)
next
  case (Suc d)
  then have i: "i < length tab" by simp
  have drop: "drop i tab = tab ! i # drop (Suc i) tab" using i by (rule Cons_nth_drop_Suc [symmetric])
  have b: "bucket (ht_table ht) (int i) = Some (tab ! i)" using i assms(1) by simp
  show ?case
  proof (cases "tab ! i")
    case Nil
    have "delivers tab (concat (drop (Suc i) tab)) (next_loop ht (int (Suc i) - 1) [] nxt)"
      using Suc by (intro Suc.hyps(1)) auto
    moreover have "next_loop ht (int i - 1) [] nxt = next_loop ht (int (Suc i) - 1) [] nxt"
      using i b Nil assms(2,3) by (subst next_loop.simps) simp
    ultimately show ?thesis by (simp add: drop Nil)
  next
    case (Cons he rest)
    then have "next_loop ht (int i - 1) [] nxt = Some (Ptr he, \<lparr>it_index = int i, it_entry = he # rest, it_next = rest\<rparr>)"
      using i b assms(2,3) by (subst next_loop.simps) simp
    moreover have "nat (int i + 1) = Suc i" by simp
    ultimately show ?thesis using i by (simp add: delivers_def drop Cons remaining_def)
  qed
qed

lemma dictNext_delivers:
  assumes "ht_table ht = Ptr tab" "to_int (ht_size ht) = int (length tab)" "int (length tab) \<le> INT_MAX"
    and "- 1 \<le> it_index it" "it_index it < int (length tab)"
  shows "delivers tab (remaining tab it) (dictNext ht it)"
proof -
  let ?j = "nat (it_index it + 1)"
  have j: "it_index it = int ?j - 1" "?j \<le> length tab" using assms(4,5) by auto
  note skip = next_bucket [OF assms(1-3) j(2), of "it_next it"]
  show ?thesis
  proof (cases "it_entry it")
    case Nil
    then show ?thesis using skip j(1) by (simp add: dictNext_def remaining_def)
  next
    case cur: (Cons a as)
    show ?thesis
    proof (cases "it_next it")
      case Nil
      then have "dictNext ht it = next_loop ht (int ?j - 1) [] (it_next it)"
        unfolding dictNext_def using cur j(1) by (subst next_loop.simps) simp
      then show ?thesis using skip Nil cur by (simp add: remaining_def)
    next
      case (Cons he rest)
      then have "dictNext ht it = Some (Ptr he, \<lparr>it_index = it_index it, it_entry = he # rest, it_next = rest\<rparr>)"
        unfolding dictNext_def using cur by (subst next_loop.simps) simp
      then show ?thesis using Cons cur assms(4,5) by (simp add: delivers_def remaining_def)
    qed
  qed
qed

text \<open>A client loop over the iterator, at most \<open>n\<close> calls.\<close>

fun iterate :: "('k, 'v) dict \<Rightarrow> ('k, 'v) dictIterator \<Rightarrow> nat \<Rightarrow> ('k \<times> 'v) list option" where
  "iterate ht it 0 = None"
| "iterate ht it (Suc n) = (case dictNext ht it of
     None \<Rightarrow> None
   | Some (NULL, it') \<Rightarrow> Some []
   | Some (Ptr he, it') \<Rightarrow> map_option (Cons he) (iterate ht it' n))"

lemma iterate_remaining:
  assumes "ht_table ht = Ptr tab" "to_int (ht_size ht) = int (length tab)" "int (length tab) \<le> INT_MAX"
    and "- 1 \<le> it_index it" "it_index it < int (length tab)" "length (remaining tab it) < n"
  shows "iterate ht it n = Some (remaining tab it)"
  using assms(4-6)
proof (induction n arbitrary: it)
  case (Suc n)
  with dictNext_delivers [OF assms(1-3) Suc.prems(1,2)] show ?case
    by (cases "remaining tab it") (auto simp: delivers_def split: ptr.splits)
qed simp

section \<open>The interface of a callback table\<close>

text \<open>
  A sequence of updates, \<open>(k, Some v)\<close> to store and \<open>(k, None)\<close> to remove, run on a table and on
  the map it stands for.
\<close>

primrec exec_ops :: "('t \<Rightarrow> 'k \<Rightarrow> 'v \<Rightarrow> 't option) \<Rightarrow> ('t \<Rightarrow> 'k \<Rightarrow> 't option) \<Rightarrow> 't \<Rightarrow> ('k \<times> 'v option) list \<Rightarrow> 't option" where
  "exec_ops put del t [] = Some t"
| "exec_ops put del t (op # ops) = do {
     t' \<leftarrow> (case op of (k, Some v) \<Rightarrow> put t k v | (k, None) \<Rightarrow> del t k);
     exec_ops put del t' ops }"

definition map_op :: "('k \<Rightarrow> 'k \<Rightarrow> bool) \<Rightarrow> ('v \<Rightarrow> 'v) \<Rightarrow> 'k \<times> 'v option \<Rightarrow> ('k \<Rightarrow> 'v option) \<Rightarrow> 'k \<Rightarrow> 'v option" where
  "map_op same stored op m = (\<lambda>k. if same k (fst op) then map_option stored (snd op) else m k)"

locale callback_table =
  fixes tinv :: "'t \<Rightarrow> bool"
    and lookup :: "'t \<Rightarrow> 'k \<Rightarrow> 'v option"
    and load :: "'t \<Rightarrow> int"
    and cap :: int
    and same :: "'k \<Rightarrow> 'k \<Rightarrow> bool"
    and stored :: "'v \<Rightarrow> 'v"
    and put :: "'t \<Rightarrow> 'k \<Rightarrow> 'v \<Rightarrow> 't option"
    and del :: "'t \<Rightarrow> 'k \<Rightarrow> 't option"
  assumes put_law: "tinv t \<Longrightarrow> load t < cap \<Longrightarrow>
      \<exists>t'. put t k v = Some t' \<and> tinv t' \<and> load t' \<le> load t + 1 \<and>
        lookup t' = map_op same stored (k, Some v) (lookup t)"
    and del_law: "tinv t \<Longrightarrow> load t \<le> cap \<Longrightarrow>
      \<exists>t'. del t k = Some t' \<and> tinv t' \<and> load t' \<le> load t \<and> lookup t' = map_op same stored (k, None) (lookup t)"
begin

lemma exec_refines:
  assumes "tinv t" "load t + int (length ops) \<le> cap"
  shows "\<exists>t'. exec_ops put del t ops = Some t' \<and> tinv t' \<and> lookup t' = fold (map_op same stored) ops (lookup t)"
  using assms
proof (induction ops arbitrary: t)
  case Nil
  then show ?case by simp
next
  case (Cons op ops)
  obtain k w where op: "op = (k, w)" by (cases op)
  have "\<exists>t'. (case op of (k, Some v) \<Rightarrow> put t k v | (k, None) \<Rightarrow> del t k) = Some t' \<and> tinv t' \<and>
      load t' \<le> load t + 1 \<and> lookup t' = map_op same stored op (lookup t)"
    using put_law [of t k "the w"] del_law [of t k] Cons.prems op by (cases w) auto
  then obtain t1 where t1: "(case op of (k, Some v) \<Rightarrow> put t k v | (k, None) \<Rightarrow> del t k) = Some t1"
    "tinv t1" "load t1 \<le> load t + 1" "lookup t1 = map_op same stored op (lookup t)" by blast
  from Cons.IH [OF t1(2)] t1 Cons.prems show ?case by auto
qed

text \<open>A key that was stored and not touched since is found again; one that was removed is not.\<close>

lemma exec_last_wins:
  assumes "tinv t" "load t + int (length (ops @ (k, w) # later)) \<le> cap" "\<forall>op \<in> set later. \<not> same k' (fst op)" "same k' k"
  shows "\<exists>t'. exec_ops put del t (ops @ (k, w) # later) = Some t' \<and> lookup t' k' = map_option stored w"
proof -
  have "fold (map_op same stored) later m k' = m k'" for m
    using assms(3) by (induction later arbitrary: m) (auto simp: map_op_def)
  with exec_refines [OF assms(1,2)] assms(4) show ?thesis by (auto simp: map_op_def)
qed

end

definition dict_put :: "cenv \<Rightarrow> ('k, 'v) dict \<Rightarrow> 'k \<Rightarrow> 'v \<Rightarrow> ('k, 'v) dict option" where
  "dict_put e ht k v = do { (r, ht', fs) \<leftarrow> dictReplace e ht k v; Some ht' }"

definition dict_del :: "('k, 'v) dict \<Rightarrow> 'k \<Rightarrow> ('k, 'v) dict option" where
  "dict_del ht k = do { (r, ht', fs) \<leftarrow> dictDelete ht k; Some ht' }"

definition dict_inv :: "cenv \<Rightarrow> ('k, 'v) dictType \<Rightarrow> ('k, 'v) dict \<Rightarrow> bool" where
  "dict_inv e ty ht \<longleftrightarrow> plenty e \<and> dict_ok ht \<and> dtype ht = ty"

interpretation dicts: callback_table "dict_inv e ty" dict_map ht_used 2147483648
  "dictCompareHashKeys ty" "dictSetHashVal ty" "dict_put e" dict_del for e ty
proof unfold_locales
  fix ht :: "('a, 'b) dict" and k v
  assume h: "dict_inv e ty ht" "ht_used ht < 2147483648"
  then have p: "plenty e" "dict_ok ht" "dtype ht = ty" by (simp_all add: dict_inv_def)
  show "\<exists>t'. dict_put e ht k v = Some t' \<and> dict_inv e ty t' \<and> ht_used t' \<le> ht_used ht + 1 \<and>
      dict_map t' = map_op (dictCompareHashKeys ty) (dictSetHashVal ty) (k, Some v) (dict_map ht)"
    by (rule dictReplace_map [OF p(1,2) h(2), of k v])
      (auto simp: dict_put_def dict_inv_def map_op_def p intro!: ext)
next
  fix ht :: "('a, 'b) dict" and k
  assume h: "dict_inv e ty ht" "ht_used ht \<le> 2147483648"
  then have p: "plenty e" "dict_ok ht" "dtype ht = ty" "ht_used ht < 18446744073709551616"
    by (simp_all add: dict_inv_def)
  show "\<exists>t'. dict_del ht k = Some t' \<and> dict_inv e ty t' \<and> ht_used t' \<le> ht_used ht \<and>
      dict_map t' = map_op (dictCompareHashKeys ty) (dictSetHashVal ty) (k, None) (dict_map ht)"
    by (rule dictDelete_map [OF p(2,4), of k]) (auto simp: dict_del_def dict_inv_def map_op_def p intro!: ext)
qed

section \<open>Properties\<close>

text \<open>
  C39. The hash table implements a finite map: after any sequence of \<open>dictReplace\<close> and \<open>dictDelete\<close>
  calls on a fresh table, however often it was expanded on the way, \<open>dictFind\<close> returns for every key
  the value of the map that the same updates give, and never reads outside the table.
\<close>

theorem dict_refines_map:
  assumes "plenty e" "keys_ok ty" "dictCreate e ty = Some ht0" "int (length ops) \<le> 2147483648"
  shows "\<exists>ht. exec_ops (dict_put e) dict_del ht0 ops = Some ht \<and> dict_ok ht \<and>
    (\<forall>k. \<exists>p. dictFind ht k = Some p \<and> (case p of NULL \<Rightarrow> None | Ptr he \<Rightarrow> Some (snd he)) =
       fold (map_op (dictCompareHashKeys ty) (dictSetHashVal ty)) ops (\<lambda>k. None) k)"
proof -
  have ht0: "ht0 = \<lparr>ht_table = NULL, dtype = ty, ht_size = 0, ht_sizemask = 0, ht_used = 0\<rparr>"
    using assms(1,3) by (simp add: dictCreate_def plenty_def dictInit_def dictReset_def)
  then have "dict_inv e ty ht0" "dict_map ht0 = (\<lambda>k. None)"
    using assms(1,2) by (simp_all add: dict_inv_def dict_ok_def dict_map_def entries_def fun_eq_iff)
  with dicts.exec_refines [of e ty ht0 ops] assms(4) ht0
  obtain ht where ht: "exec_ops (dict_put e) dict_del ht0 ops = Some ht" "dict_ok ht"
    "dict_map ht = fold (map_op (dictCompareHashKeys ty) (dictSetHashVal ty)) ops (\<lambda>k. None)"
    by (auto simp: dict_inv_def)
  have "\<exists>p. dictFind ht k = Some p \<and> (case p of NULL \<Rightarrow> None | Ptr he \<Rightarrow> Some (snd he)) = dict_map ht k" for k
    using dictFind_spec [OF ht(2), of k] by auto
  with ht show ?thesis by simp
qed

text \<open>A concrete table: keys are byte strings under Bernstein's hash, values are numbers.\<close>

definition demo_type :: "(bytes, nat) dictType" where
  "demo_type = \<lparr>hashFunction = dictGenHashFunction, keyDup = None, valDup = None, keyCompare = None,
     keyDestructor = False, valDestructor = True\<rparr>"

definition demo_mem :: cenv where
  "demo_mem = \<lparr>granted = (\<lambda>n. True), junk = (\<lambda>n. NUL)\<rparr>"

lemma demo_type_ok: "keys_ok demo_type"
  by (simp add: keys_ok_def demo_type_def dictCompareHashKeys_def dictHashKey_def dictSetHashKey_def)

theorem dict_refines_map_witness:
  "\<exists>ht he. exec_ops (dict_put demo_mem) dict_del
      \<lparr>ht_table = NULL, dtype = demo_type, ht_size = 0, ht_sizemask = 0, ht_used = 0\<rparr>
      [(''a'', Some 1), (''b'', Some 2), (''a'', Some 3), (''b'', None)] = Some ht \<and>
    dictFind ht ''a'' = Some (Ptr he) \<and> snd he = 3"
proof -
  have "dictCreate demo_mem demo_type =
      Some \<lparr>ht_table = NULL, dtype = demo_type, ht_size = 0, ht_sizemask = 0, ht_used = 0\<rparr>"
    by (simp add: dictCreate_def demo_mem_def dictInit_def dictReset_def)
  from dict_refines_map [OF _ demo_type_ok this, of "[(''a'', Some 1), (''b'', Some 2), (''a'', Some 3), (''b'', None)]"]
  obtain ht where ht: "exec_ops (dict_put demo_mem) dict_del
      \<lparr>ht_table = NULL, dtype = demo_type, ht_size = 0, ht_sizemask = 0, ht_used = 0\<rparr>
      [(''a'', Some 1), (''b'', Some 2), (''a'', Some 3), (''b'', None)] = Some ht"
    "\<forall>k. \<exists>p. dictFind ht k = Some p \<and> (case p of NULL \<Rightarrow> None | Ptr he \<Rightarrow> Some (snd he)) =
       fold (map_op (dictCompareHashKeys demo_type) (dictSetHashVal demo_type))
         [(''a'', Some 1), (''b'', Some 2), (''a'', Some 3), (''b'', None)] (\<lambda>k. None) k"
    by (auto simp: plenty_def demo_mem_def)
  have "fold (map_op (dictCompareHashKeys demo_type) (dictSetHashVal demo_type))
         [(''a'', Some 1), (''b'', Some 2), (''a'', Some 3), (''b'', None)] (\<lambda>k. None) ''a'' = Some 3"
    by (simp add: map_op_def demo_type_def dictCompareHashKeys_def dictSetHashVal_def)
  with ht(2) [THEN spec, of "''a''"] obtain p where
    p: "dictFind ht ''a'' = Some p" "(case p of NULL \<Rightarrow> None | Ptr he \<Rightarrow> Some (snd he)) = Some 3" by auto
  then obtain he where "dictFind ht ''a'' = Some (Ptr he)" "snd he = 3" by (cases p) auto
  with ht(1) show ?thesis by blast
qed


lemma demo_dict_ok:
  "dict_ok \<lparr>ht_table = NULL, dtype = demo_type, ht_size = 0, ht_sizemask = 0, ht_used = 0\<rparr>"
  by (simp add: dict_ok_def demo_type_ok)


text \<open>The same updates with the calls of the destructors they make.\<close>

fun dict_run :: "cenv \<Rightarrow> ('k, 'v) dict \<Rightarrow> ('k \<times> 'v option) list \<Rightarrow> (('k, 'v) dict \<times> ('k, 'v) freed list) option" where
  "dict_run e ht [] = Some (ht, [])"
| "dict_run e ht ((k, w) # ops) = do {
     (r, ht1, fs) \<leftarrow> (case w of Some v \<Rightarrow> dictReplace e ht k v | None \<Rightarrow> dictDelete ht k);
     (ht2, fs2) \<leftarrow> dict_run e ht1 ops;
     Some (ht2, fs @ fs2) }"

definition freed_vals :: "('k, 'v) freed list \<Rightarrow> 'v multiset" where
  "freed_vals fs = mset (concat (map (\<lambda>f. case f of FreedVal v \<Rightarrow> [v] | FreedKey k \<Rightarrow> []) fs))"

definition live_vals :: "('k, 'v) dict \<Rightarrow> 'v multiset" where
  "live_vals ht = mset (map snd (entries ht))"

definition put_vals :: "('k, 'v) dictType \<Rightarrow> ('k \<times> 'v option) list \<Rightarrow> 'v multiset" where
  "put_vals ty ops = mset (map (dictSetHashVal ty) (concat (map (\<lambda>(k, w). case w of Some v \<Rightarrow> [v] | None \<Rightarrow> []) ops)))"

lemma freed_vals_simps [simp]:
  "freed_vals [] = {#}" "freed_vals (fs @ gs) = freed_vals fs + freed_vals gs"
  "valDestructor ty \<Longrightarrow> freed_vals (dictFreeEntryVal ty he) = {# snd he #}"
  "valDestructor ty \<Longrightarrow> freed_vals (free_entry ty he) = {# snd he #}"
  by (simp_all add: freed_vals_def dictFreeEntryVal_def free_entry_def dictFreeEntryKey_def)

lemma freed_vals_concat:
  "valDestructor ty \<Longrightarrow> freed_vals (concat (map (free_entry ty) es)) = mset (map snd es)"
  by (induction es) simp_all

lemma dict_step_vals:
  assumes "plenty e" "dict_ok ht" "ht_used ht < 2147483648" "valDestructor (dtype ht)"
  shows "\<exists>r ht1 fs. (case w of Some v \<Rightarrow> dictReplace e ht k v | None \<Rightarrow> dictDelete ht k) = Some (r, ht1, fs) \<and>
    dict_ok ht1 \<and> dtype ht1 = dtype ht \<and> ht_used ht1 \<le> ht_used ht + 1 \<and>
    live_vals ht1 + freed_vals fs = live_vals ht + put_vals (dtype ht) [(k, w)]"
proof (cases w)
  case None
  have "ht_used ht < 18446744073709551616" using assms(3) by simp
  from dictDelete_spec [OF assms(2) this, of k] consider "dictDelete ht k = Some (1, ht, [])"
    | he ht' where "dictDelete ht k = Some (0, ht', free_entry (dtype ht) he)" "dict_ok ht'" "dtype ht' = dtype ht"
      "mset (entries ht) = add_mset he (mset (entries ht'))" by auto
  then show ?thesis
  proof cases
    case 1
    with None assms(2) show ?thesis by (simp add: put_vals_def)
  next
    case 2
    have "length (entries ht) = Suc (length (entries ht'))" using arg_cong [OF 2(4), of size] by simp
    then have "ht_used ht' \<le> ht_used ht + 1"
      using dict_ok_entries(3) [OF assms(2)] dict_ok_entries(3) [OF 2(2)] by simp
    with 2 None assms(4) show ?thesis by (simp add: live_vals_def put_vals_def)
  qed
next
  case (Some v)
  from dictReplace_spec [OF assms(1-3), of k v] obtain r ht' fs where
    res: "dictReplace e ht k v = Some (r, ht', fs)" "dict_ok ht'" "dtype ht' = dtype ht" "ht_used ht' \<le> ht_used ht + 1"
    and c: "case dict_map ht k of
       None \<Rightarrow> r = 1 \<and> fs = [] \<and>
         mset (entries ht') = add_mset (dictSetHashKey (dtype ht) k, dictSetHashVal (dtype ht) v) (mset (entries ht))
     | Some w \<Rightarrow> r = 0 \<and> (\<exists>he M. dictCompareHashKeys (dtype ht) k (fst he) \<and> snd he = w \<and>
         fs = dictFreeEntryVal (dtype ht) he \<and> mset (entries ht) = add_mset he M \<and>
         mset (entries ht') = add_mset (fst he, dictSetHashVal (dtype ht) v) M)"
    by (elim exE conjE) (rule that)
  have "live_vals ht' + freed_vals fs = live_vals ht + {# dictSetHashVal (dtype ht) v #}"
    using c assms(4) by (cases "dict_map ht k") (auto simp: live_vals_def)
  with res Some show ?thesis by (simp add: put_vals_def)
qed

lemma dict_run_vals:
  assumes "plenty e" "dict_ok ht" "ht_used ht + int (length ops) \<le> 2147483648" "valDestructor (dtype ht)"
  shows "\<exists>ht' fs. dict_run e ht ops = Some (ht', fs) \<and> dict_ok ht' \<and> dtype ht' = dtype ht \<and>
    ht_used ht' \<le> 2147483648 \<and> live_vals ht' + freed_vals fs = live_vals ht + put_vals (dtype ht) ops"
  using assms(2-4)
proof (induction ops arbitrary: ht)
  case Nil
  then show ?case by (simp add: put_vals_def)
next
  case (Cons op ops)
  obtain k w where op: "op = (k, w)" by (cases op)
  from Cons.prems have "ht_used ht < 2147483648" by simp
  from dict_step_vals [OF assms(1) Cons.prems(1) this Cons.prems(3), where w = w and k = k] obtain r ht1 fs where
    step: "(case w of Some v \<Rightarrow> dictReplace e ht k v | None \<Rightarrow> dictDelete ht k) = Some (r, ht1, fs)"
      "dict_ok ht1" "dtype ht1 = dtype ht" "ht_used ht1 \<le> ht_used ht + 1"
      "live_vals ht1 + freed_vals fs = live_vals ht + put_vals (dtype ht) [(k, w)]" by blast
  have "\<exists>ht' fs'. dict_run e ht1 ops = Some (ht', fs') \<and> dict_ok ht' \<and> dtype ht' = dtype ht1 \<and>
    ht_used ht' \<le> 2147483648 \<and> live_vals ht' + freed_vals fs' = live_vals ht1 + put_vals (dtype ht1) ops"
    using Cons.IH [OF step(2)] Cons.prems step(3,4) by simp
  then obtain ht' fs' where run: "dict_run e ht1 ops = Some (ht', fs')" "dict_ok ht'" "dtype ht' = dtype ht"
    "ht_used ht' \<le> 2147483648" "live_vals ht' + freed_vals fs' = live_vals ht1 + put_vals (dtype ht) ops"
    using step(3) by auto
  have "put_vals (dtype ht) (op # ops) = put_vals (dtype ht) [(k, w)] + put_vals (dtype ht) ops"
    by (simp add: put_vals_def op)
  moreover have "live_vals ht' + freed_vals (fs @ fs') = (live_vals ht' + freed_vals fs') + freed_vals fs"
    by simp
  ultimately have "live_vals ht' + freed_vals (fs @ fs') = live_vals ht + put_vals (dtype ht) (op # ops)"
    unfolding run(5) by (metis (no_types) add.assoc add.commute step(5))
  with step(1) run show ?case by (simp add: op)
qed

text \<open>
  The table neither leaks nor frees twice: over any sequence of updates followed by
  \<open>dictRelease\<close>, the value destructor is called exactly once for every value that was stored.
\<close>

theorem dict_frees_once:
  assumes "plenty e" "keys_ok ty" "valDestructor ty" "dictCreate e ty = Some ht0" "int (length ops) \<le> 2147483648"
  shows "\<exists>ht fs fs'. dict_run e ht0 ops = Some (ht, fs) \<and> dictRelease ht = Some fs' \<and>
    freed_vals (fs @ fs') = put_vals ty ops"
proof -
  have ht0: "ht0 = \<lparr>ht_table = NULL, dtype = ty, ht_size = 0, ht_sizemask = 0, ht_used = 0\<rparr>"
    using assms(1,4) by (simp add: dictCreate_def plenty_def dictInit_def dictReset_def)
  then have "dict_ok ht0" "live_vals ht0 = {#}" "dtype ht0 = ty" "ht_used ht0 = 0"
    using assms(2) by (simp_all add: dict_ok_def live_vals_def entries_def)
  with dict_run_vals [OF assms(1), of ht0 ops] assms(3,5) obtain ht fs where
    run: "dict_run e ht0 ops = Some (ht, fs)" "dict_ok ht" "dtype ht = ty" "ht_used ht \<le> 2147483648"
      "live_vals ht + freed_vals fs = put_vals ty ops" by auto
  have "dictRelease ht = Some (concat (map (free_entry ty) (entries ht)))"
    using dictClear_spec [OF run(2)] run(3,4) by (simp add: dictRelease_def)
  with run assms(3) show ?thesis by (simp add: freed_vals_concat live_vals_def add.commute)
qed

theorem dict_frees_once_witness:
  "\<exists>ht fs fs'. dict_run demo_mem \<lparr>ht_table = NULL, dtype = demo_type, ht_size = 0, ht_sizemask = 0, ht_used = 0\<rparr>
      [(''a'', Some 1), (''a'', Some 3), (''b'', Some 2), (''a'', None)] = Some (ht, fs) \<and>
    dictRelease ht = Some fs' \<and> freed_vals (fs @ fs') = {# 1, 2, 3 #}"
proof -
  have "dictCreate demo_mem demo_type =
      Some \<lparr>ht_table = NULL, dtype = demo_type, ht_size = 0, ht_sizemask = 0, ht_used = 0\<rparr>"
    by (simp add: dictCreate_def demo_mem_def dictInit_def dictReset_def)
  moreover have "put_vals demo_type [(''a'', Some 1), (''a'', Some 3), (''b'', Some 2), (''a'', None)] = {# 1, 2, 3 #}"
    by (simp add: put_vals_def demo_type_def dictSetHashVal_def add_mset_commute)
  ultimately show ?thesis
    using dict_frees_once [OF _ demo_type_ok, of demo_mem _ "[(''a'', Some 1), (''a'', Some 3), (''b'', Some 2), (''a'', None)]"]
    by (simp add: plenty_def demo_mem_def demo_type_def)
qed

end
