(* ===== verification/Reader.thy ===== *)
theory Reader
  imports Sds_Edit
begin

text \<open>
  The protocol reader, \<open>redis/hiredis/read.c\<close> and \<open>read.h\<close>: an incremental parser of the server's
  replies over a growing buffer and a stack of nine read tasks.

  A \<open>void *\<close> object is an integer address, 0 for \<open>NULL\<close>. The functions that create and free objects
  (\<open>redisReplyObjectFunctions\<close>) act on a heap of any type; an absent function is \<open>None\<close>. They receive
  the task and, for \<open>task->parent\<close>, the parent task. The pointer \<open>parent\<close> of a task is the index of
  the parent in the stack. A pointer into the buffer is its offset.

  An operation returns its result, the new reader and the new heap; \<open>None\<close> is an access outside an
  object or a failed assertion, as everywhere. The loop of \<open>redisReaderGetReply\<close> is a partial function
  over options, so that a loop that did not end would also be \<open>None\<close>.
\<close>

section \<open>Data\<close>

abbreviation (input) REDIS_ERR :: int where "REDIS_ERR \<equiv> - 1"
abbreviation (input) REDIS_OK :: int where "REDIS_OK \<equiv> 0"
abbreviation (input) REDIS_ERR_IO :: int where "REDIS_ERR_IO \<equiv> 1"
abbreviation (input) REDIS_ERR_OTHER :: int where "REDIS_ERR_OTHER \<equiv> 2"
abbreviation (input) REDIS_ERR_EOF :: int where "REDIS_ERR_EOF \<equiv> 3"
abbreviation (input) REDIS_ERR_PROTOCOL :: int where "REDIS_ERR_PROTOCOL \<equiv> 4"
abbreviation (input) REDIS_ERR_OOM :: int where "REDIS_ERR_OOM \<equiv> 5"
abbreviation (input) REDIS_REPLY_STRING :: int where "REDIS_REPLY_STRING \<equiv> 1"
abbreviation (input) REDIS_REPLY_ARRAY :: int where "REDIS_REPLY_ARRAY \<equiv> 2"
abbreviation (input) REDIS_REPLY_INTEGER :: int where "REDIS_REPLY_INTEGER \<equiv> 3"
abbreviation (input) REDIS_REPLY_NIL :: int where "REDIS_REPLY_NIL \<equiv> 4"
abbreviation (input) REDIS_REPLY_STATUS :: int where "REDIS_REPLY_STATUS \<equiv> 5"
abbreviation (input) REDIS_REPLY_ERROR :: int where "REDIS_REPLY_ERROR \<equiv> 6"
abbreviation (input) REDIS_READER_MAX_BUF :: int where "REDIS_READER_MAX_BUF \<equiv> 16384"

record redisReadTask =
  t_type :: int
  t_elements :: int
  t_idx :: int
  t_obj :: int
  t_parent :: "int ptr"
  t_privdata :: int

type_synonym task_arg = "redisReadTask \<times> redisReadTask ptr"

record 'h redisReplyObjectFunctions =
  createString :: "('h \<Rightarrow> task_arg \<Rightarrow> bytes \<Rightarrow> int \<Rightarrow> (int \<times> 'h) option) option"
  createArray :: "('h \<Rightarrow> task_arg \<Rightarrow> int \<Rightarrow> (int \<times> 'h) option) option"
  createInteger :: "('h \<Rightarrow> task_arg \<Rightarrow> int \<Rightarrow> (int \<times> 'h) option) option"
  createNil :: "('h \<Rightarrow> task_arg \<Rightarrow> (int \<times> 'h) option) option"
  freeObject :: "('h \<Rightarrow> int \<Rightarrow> 'h option) option"

record 'h redisReader =
  r_err :: int
  r_errstr :: bytes
  r_buf :: "sds ptr"
  r_pos :: int
  r_len :: int
  r_maxbuf :: int
  rstack :: "redisReadTask list"
  ridx :: int
  r_reply :: int
  r_fn :: "'h redisReplyObjectFunctions ptr"
  r_privdata :: int

section \<open>Errors\<close>

text \<open>\<open>r->fn && r->fn->f\<close>: the function, if it is there.\<close>

definition fn_of :: "'h redisReader \<Rightarrow> ('h redisReplyObjectFunctions \<Rightarrow> 'f option) \<Rightarrow> 'f option" where
  "fn_of r f = (case r_fn r of NULL \<Rightarrow> None | Ptr fn \<Rightarrow> f fn)"

text \<open>The text of a message in a buffer of \<open>size\<close> bytes, cut as \<open>strlen\<close> and \<open>memcpy\<close> do.\<close>

definition put_errstr :: "bytes \<Rightarrow> bytes \<Rightarrow> bytes option" where
  "put_errstr old str = do {
     n \<leftarrow> c_strlen str;
     let len = (if n < int (length old) - 1 then n else int (length old) - 1);
     d \<leftarrow> mem_read str 0 len;
     b \<leftarrow> mem_write old 0 d;
     mem_write b len [NUL]
   }"

definition redisReaderSetError :: "'h redisReader \<Rightarrow> 'h \<Rightarrow> int \<Rightarrow> bytes \<Rightarrow> ('h redisReader \<times> 'h) option" where
  "redisReaderSetError r h type str = do {
     (r1, h1) \<leftarrow> (case fn_of r freeObject of
         Some free_obj \<Rightarrow>
           if r_reply r \<noteq> 0 then do { h' \<leftarrow> free_obj h (r_reply r); Some (r\<lparr>r_reply := 0\<rparr>, h') }
           else Some (r, h)
       | None \<Rightarrow> Some (r, h));
     let r2 = (case r_buf r1 of NULL \<Rightarrow> r1 | Ptr s \<Rightarrow> r1\<lparr>r_buf := NULL, r_pos := 0, r_len := 0\<rparr>);
     es \<leftarrow> put_errstr (r_errstr r2) str;
     Some (r2\<lparr>ridx := - 1, r_err := type, r_errstr := es\<rparr>, h1)
   }"

text \<open>What \<open>snprintf\<close> leaves in a buffer of \<open>n\<close> bytes: the text, cut to fit, and a terminator.\<close>

definition c_snprintf :: "nat \<Rightarrow> bytes \<Rightarrow> bytes" where
  "c_snprintf n str = cstr (take (n - 1) str)"

abbreviation DQUOTE :: char where "DQUOTE \<equiv> CHR 0x22"
abbreviation BACKSL :: char where "BACKSL \<equiv> CHR 0x5C"

definition lower_hex :: "nat \<Rightarrow> char" where
  "lower_hex n = (if n < 10 then char_of (48 + n) else char_of (87 + n))"

definition chrtos :: "nat \<Rightarrow> char \<Rightarrow> bytes" where
  "chrtos n byte = c_snprintf n
     (if byte = BACKSL \<or> byte = DQUOTE then [DQUOTE, BACKSL, byte, DQUOTE]
      else if byte = LF then [DQUOTE, BACKSL, CHR ''n'', DQUOTE]
      else if byte = CR then [DQUOTE, BACKSL, CHR ''r'', DQUOTE]
      else if byte = CHR 0x09 then [DQUOTE, BACKSL, CHR ''t'', DQUOTE]
      else if byte = CHR 0x07 then [DQUOTE, BACKSL, CHR ''a'', DQUOTE]
      else if byte = CHR 0x08 then [DQUOTE, BACKSL, CHR ''b'', DQUOTE]
      else if c_isprint byte then [DQUOTE, byte, DQUOTE]
      else [DQUOTE, BACKSL, CHR ''x'', lower_hex (of_char byte div 16), lower_hex (of_char byte mod 16), DQUOTE])"

definition redisReaderSetErrorProtocolByte :: "'h redisReader \<Rightarrow> 'h \<Rightarrow> char \<Rightarrow> ('h redisReader \<times> 'h) option" where
  "redisReaderSetErrorProtocolByte r h byte =
     (let cbuf = chrtos 8 byte;
          sbuf = c_snprintf 128 (''Protocol error, got '' @ takeWhile (\<lambda>c. c \<noteq> NUL) cbuf @ '' as reply type byte'')
      in redisReaderSetError r h REDIS_ERR_PROTOCOL sbuf)"

definition redisReaderSetErrorOOM :: "'h redisReader \<Rightarrow> 'h \<Rightarrow> ('h redisReader \<times> 'h) option" where
  "redisReaderSetErrorOOM r h = redisReaderSetError r h REDIS_ERR_OOM (cstr ''Out of memory'')"

section \<open>Reading from the buffer\<close>

definition rbuf :: "'h redisReader \<Rightarrow> bytes option" where
  "rbuf r = (case r_buf r of NULL \<Rightarrow> None | Ptr s \<Rightarrow> Some (sh_buf s))"

definition readBytes :: "'h redisReader \<Rightarrow> int \<Rightarrow> int ptr \<times> 'h redisReader" where
  "readBytes r bytes =
     (if to_size (r_len r - r_pos r) \<ge> bytes
      then (Ptr (r_pos r), r\<lparr>r_pos := to_size (r_pos r + bytes)\<rparr>) else (NULL, r))"

text \<open>The inner and the outer loop of \<open>seekNewline\<close> on the bytes of \<open>b\<close> from offset \<open>p\<close> on.\<close>

function seek_cr :: "bytes \<Rightarrow> int \<Rightarrow> int \<Rightarrow> int \<Rightarrow> int option" where
  "seek_cr b p pos lim =
     (if pos < lim
      then do { c \<leftarrow> byte_at b (p + pos); if c \<noteq> CR then seek_cr b p (pos + 1) lim else Some pos }
      else Some pos)"
  by pat_completeness auto
termination
  by (relation "measure (\<lambda>(b, p, pos, lim). nat (lim - pos))") auto

declare seek_cr.simps [simp del]

lemma seek_cr_ge: "seek_cr b p pos lim = Some q \<Longrightarrow> pos \<le> q \<and> (pos \<le> lim \<longrightarrow> q \<le> lim)"
proof (induction b p pos lim rule: seek_cr.induct)
  case (1 b p pos lim)
  show ?case
  proof (cases "pos < lim")
    case True
    with "1.prems" obtain c where c: "byte_at b (p + pos) = Some c"
      and "(if c \<noteq> CR then seek_cr b p (pos + 1) lim else Some pos) = Some q"
      by (subst (asm) seek_cr.simps) (auto simp: bind_eq_Some_conv)
    with "1.IH" [OF True c] True show ?thesis by (auto split: if_splits)
  next
    case False
    with "1.prems" show ?thesis by (subst (asm) seek_cr.simps) simp
  qed
qed

function seek_loop :: "bytes \<Rightarrow> int \<Rightarrow> int \<Rightarrow> int \<Rightarrow> int ptr option" where
  "seek_loop b p pos lim =
     (if pos < lim
      then (case seek_cr b p pos lim of
          None \<Rightarrow> None
        | Some q \<Rightarrow> (case byte_at b (p + q) of
            None \<Rightarrow> None
          | Some c \<Rightarrow>
              if c \<noteq> CR then Some NULL
              else (case byte_at b (p + q + 1) of
                  None \<Rightarrow> None
                | Some d \<Rightarrow> if d = LF then Some (Ptr (p + q)) else seek_loop b p (q + 1) lim)))
      else Some NULL)"
  by pat_completeness auto
termination
  by (relation "measure (\<lambda>(b, p, pos, lim). nat (lim - pos))") (auto dest: seek_cr_ge)

declare seek_loop.simps [simp del]

definition seekNewline :: "bytes \<Rightarrow> int \<Rightarrow> int \<Rightarrow> int ptr option" where
  "seekNewline b p len = seek_loop b p 0 (to_int (len - 1))"

function read_digits :: "bytes \<Rightarrow> int \<Rightarrow> int \<Rightarrow> int \<Rightarrow> int option" where
  "read_digits b s mult v =
     (case byte_at b s of
        None \<Rightarrow> None
      | Some c \<Rightarrow>
          if c = CR then Some (to_ll (mult * v))
          else if c_isdigit c
          then read_digits b (s + 1) mult (to_ll (to_ll (v * 10) + (of_char c - 48)))
          else Some (- 1))"
  by pat_completeness auto
termination
  by (relation "measure (\<lambda>(b, s, mult, v). nat (int (length b) - s))") (auto simp: byte_at_def split: if_splits)

declare read_digits.simps [simp del]

definition readLongLong :: "bytes \<Rightarrow> int \<Rightarrow> int option" where
  "readLongLong b s = do {
     c \<leftarrow> byte_at b s;
     if c = CHR ''-'' then read_digits b (s + 1) (- 1) 0
     else if c = CHR ''+'' then read_digits b (s + 1) 1 0
     else read_digits b s 1 0
   }"

text \<open>The result: the offset of the line, if there is one, its length, and the reader behind it.\<close>

definition readLine :: "'h redisReader \<Rightarrow> (int ptr \<times> int \<times> 'h redisReader) option" where
  "readLine r = do {
     b \<leftarrow> rbuf r;
     s \<leftarrow> seekNewline b (r_pos r) (to_size (r_len r - r_pos r));
     Some (case s of
         NULL \<Rightarrow> (NULL, 0, r)
       | Ptr q \<Rightarrow> let len = to_int (q - r_pos r) in
           (Ptr (r_pos r), len, r\<lparr>r_pos := to_size (r_pos r + to_size (to_int (len + 2)))\<rparr>))
   }"

section \<open>The task stack\<close>

definition task_at :: "redisReadTask list \<Rightarrow> int \<Rightarrow> redisReadTask option" where
  "task_at st i = (if 0 \<le> i \<and> i < int (length st) then Some (st ! nat i) else None)"

definition set_task :: "redisReadTask list \<Rightarrow> int \<Rightarrow> redisReadTask \<Rightarrow> redisReadTask list option" where
  "set_task st i t = (if 0 \<le> i \<and> i < int (length st) then Some (st[nat i := t]) else None)"

definition cur_task :: "'h redisReader \<Rightarrow> task_arg option" where
  "cur_task r = do {
     cur \<leftarrow> task_at (rstack r) (ridx r);
     par \<leftarrow> (case t_parent cur of NULL \<Rightarrow> Some NULL | Ptr i \<Rightarrow> do { p \<leftarrow> task_at (rstack r) i; Some (Ptr p) });
     Some (cur, par)
   }"

function moveToNextTask :: "'h redisReader \<Rightarrow> 'h redisReader option" where
  "moveToNextTask r =
     (if ridx r \<ge> 0
      then if ridx r = 0 then Some (r\<lparr>ridx := ridx r - 1\<rparr>)
      else (case (task_at (rstack r) (ridx r), task_at (rstack r) (ridx r - 1)) of
          (Some cur, Some prv) \<Rightarrow>
            if t_type prv \<noteq> REDIS_REPLY_ARRAY then None
            else if t_idx cur = to_int (t_elements prv - 1) then moveToNextTask (r\<lparr>ridx := ridx r - 1\<rparr>)
            else if \<not> t_idx cur < t_elements prv then None
            else do {
              st \<leftarrow> set_task (rstack r) (ridx r)
                (cur\<lparr>t_type := - 1, t_elements := - 1, t_idx := to_int (t_idx cur + 1)\<rparr>);
              Some (r\<lparr>rstack := st\<rparr>)
            }
        | _ \<Rightarrow> None)
      else Some r)"
  by pat_completeness auto
termination
  by (relation "measure (\<lambda>r. nat (ridx r + 1))") auto

declare moveToNextTask.simps [simp del]

section \<open>Items\<close>

text \<open>
  The calls \<open>if (r->fn && r->fn->createX) obj = r->fn->createX(...); else obj = (void*)...\<close>. The
  value of an integer is only read when the function is there.
\<close>

definition make_integer :: "'h redisReader \<Rightarrow> 'h \<Rightarrow> task_arg \<Rightarrow> int option \<Rightarrow> (int \<times> 'h) option" where
  "make_integer r h arg value = (case fn_of r createInteger of
      Some f \<Rightarrow> do { v \<leftarrow> value; f h arg v } | None \<Rightarrow> Some (REDIS_REPLY_INTEGER, h))"

definition make_string :: "'h redisReader \<Rightarrow> 'h \<Rightarrow> task_arg \<Rightarrow> bytes \<Rightarrow> int \<Rightarrow> int \<Rightarrow> (int \<times> 'h) option" where
  "make_string r h arg str len dflt = (case fn_of r createString of
      Some f \<Rightarrow> f h arg str len | None \<Rightarrow> Some (dflt, h))"

definition make_nil :: "'h redisReader \<Rightarrow> 'h \<Rightarrow> task_arg \<Rightarrow> (int \<times> 'h) option" where
  "make_nil r h arg = (case fn_of r createNil of
      Some f \<Rightarrow> f h arg | None \<Rightarrow> Some (REDIS_REPLY_NIL, h))"

definition make_array :: "'h redisReader \<Rightarrow> 'h \<Rightarrow> task_arg \<Rightarrow> int \<Rightarrow> (int \<times> 'h) option" where
  "make_array r h arg elements = (case fn_of r createArray of
      Some f \<Rightarrow> f h arg elements | None \<Rightarrow> Some (REDIS_REPLY_ARRAY, h))"

text \<open>The end shared by the three kinds of items: an object that could not be created is an error.\<close>

definition fail_oom :: "'h redisReader \<Rightarrow> 'h \<Rightarrow> (int \<times> 'h redisReader \<times> 'h) option" where
  "fail_oom r h = do { (r', h') \<leftarrow> redisReaderSetErrorOOM r h; Some (REDIS_ERR, r', h') }"

definition set_root :: "'h redisReader \<Rightarrow> int \<Rightarrow> 'h redisReader" where
  "set_root r obj = (if ridx r = 0 then r\<lparr>r_reply := obj\<rparr> else r)"

definition processLineItem :: "'h redisReader \<Rightarrow> 'h \<Rightarrow> (int \<times> 'h redisReader \<times> 'h) option" where
  "processLineItem r h = do {
     (cur, par) \<leftarrow> cur_task r;
     (p, len, r1) \<leftarrow> readLine r;
     (case p of
        NULL \<Rightarrow> Some (REDIS_ERR, r1, h)
      | Ptr off \<Rightarrow> do {
          b \<leftarrow> rbuf r1;
          (obj, h1) \<leftarrow>
            (if t_type cur = REDIS_REPLY_INTEGER
             then make_integer r1 h (cur, par) (readLongLong b off)
             else make_string r1 h (cur, par) (drop (nat off) b) (to_size len) (to_size (t_type cur)));
          if obj = 0 then fail_oom r1 h1
          else do { r2 \<leftarrow> moveToNextTask (set_root r1 obj); Some (REDIS_OK, r2, h1) }
        })
   }"

definition processBulkItem :: "'h redisReader \<Rightarrow> 'h \<Rightarrow> (int \<times> 'h redisReader \<times> 'h) option" where
  "processBulkItem r h = do {
     (cur, par) \<leftarrow> cur_task r;
     b \<leftarrow> rbuf r;
     s \<leftarrow> seekNewline b (r_pos r) (to_size (r_len r - r_pos r));
     (case s of
        NULL \<Rightarrow> Some (REDIS_ERR, r, h)
      | Ptr q \<Rightarrow> do {
          let bytelen = to_size (q - r_pos r + 2);
          len \<leftarrow> readLongLong b (r_pos r);
          (success, bytelen', obj, h1) \<leftarrow>
            (if len < 0
             then do { (obj, h1) \<leftarrow> make_nil r h (cur, par); Some (True, bytelen, obj, h1) }
             else
               let bl = to_size (bytelen + to_ll (len + 2)) in
               if to_size (r_pos r + bl) \<le> r_len r
               then do {
                 (obj, h1) \<leftarrow> make_string r h (cur, par) (drop (nat (q + 2)) b) (to_size len) REDIS_REPLY_STRING;
                 Some (True, bl, obj, h1) }
               else Some (False, bl, 0, h));
          if success
          then if obj = 0 then fail_oom r h1
            else do {
              r2 \<leftarrow> moveToNextTask (set_root (r\<lparr>r_pos := to_size (r_pos r + bytelen')\<rparr>) obj);
              Some (REDIS_OK, r2, h1) }
          else Some (REDIS_ERR, r, h1)
        })
   }"

definition fresh_task :: "int ptr \<Rightarrow> int \<Rightarrow> int \<Rightarrow> redisReadTask" where
  "fresh_task parent i priv =
     \<lparr>t_type = - 1, t_elements = - 1, t_idx = i, t_obj = 0, t_parent = parent, t_privdata = priv\<rparr>"

definition push_task :: "'h redisReader \<Rightarrow> redisReadTask \<Rightarrow> int \<Rightarrow> int \<Rightarrow> 'h redisReader option" where
  "push_task r cur elements obj = do {
     st \<leftarrow> set_task (rstack r) (ridx r) (cur\<lparr>t_elements := to_int elements, t_obj := obj\<rparr>);
     st' \<leftarrow> set_task st (ridx r + 1) (fresh_task (Ptr (ridx r)) 0 (r_privdata r));
     Some (r\<lparr>rstack := st', ridx := ridx r + 1\<rparr>)
   }"

definition processMultiBulkItem :: "'h redisReader \<Rightarrow> 'h \<Rightarrow> (int \<times> 'h redisReader \<times> 'h) option" where
  "processMultiBulkItem r h = do {
     (cur, par) \<leftarrow> cur_task r;
     if ridx r = 8
     then do {
       (r', h') \<leftarrow> redisReaderSetError r h REDIS_ERR_PROTOCOL
         (cstr ''No support for nested multi bulk replies with depth > 7'');
       Some (REDIS_ERR, r', h') }
     else do {
       (p, len, r1) \<leftarrow> readLine r;
       (case p of
          NULL \<Rightarrow> Some (REDIS_ERR, r1, h)
        | Ptr off \<Rightarrow> do {
            b \<leftarrow> rbuf r1;
            elements \<leftarrow> readLongLong b off;
            let root = (ridx r1 = 0);
            if elements = - 1
            then do {
              (obj, h1) \<leftarrow> make_nil r1 h (cur, par);
              if obj = 0 then fail_oom r1 h1
              else do {
                r2 \<leftarrow> moveToNextTask r1;
                Some (REDIS_OK, if root then r2\<lparr>r_reply := obj\<rparr> else r2, h1) } }
            else do {
              (obj, h1) \<leftarrow> make_array r1 h (cur, par) (to_int elements);
              if obj = 0 then fail_oom r1 h1
              else do {
                r2 \<leftarrow> (if elements > 0 then push_task r1 cur elements obj else moveToNextTask r1);
                Some (REDIS_OK, if root then r2\<lparr>r_reply := obj\<rparr> else r2, h1) } }
          })
     }
   }"

definition reply_type_of :: "char \<Rightarrow> int option" where
  "reply_type_of c =
     (if c = CHR ''-'' then Some REDIS_REPLY_ERROR else if c = CHR ''+'' then Some REDIS_REPLY_STATUS
      else if c = CHR '':'' then Some REDIS_REPLY_INTEGER else if c = CHR ''$'' then Some REDIS_REPLY_STRING
      else if c = CHR ''*'' then Some REDIS_REPLY_ARRAY else None)"

definition process_typed :: "'h redisReader \<Rightarrow> 'h \<Rightarrow> int \<Rightarrow> (int \<times> 'h redisReader \<times> 'h) option" where
  "process_typed r h ty =
     (if ty = REDIS_REPLY_ERROR \<or> ty = REDIS_REPLY_STATUS \<or> ty = REDIS_REPLY_INTEGER then processLineItem r h
      else if ty = REDIS_REPLY_STRING then processBulkItem r h
      else if ty = REDIS_REPLY_ARRAY then processMultiBulkItem r h
      else None)"

definition processItem :: "'h redisReader \<Rightarrow> 'h \<Rightarrow> (int \<times> 'h redisReader \<times> 'h) option" where
  "processItem r h = do {
     cur \<leftarrow> task_at (rstack r) (ridx r);
     if t_type cur < 0
     then (case readBytes r 1 of
         (NULL, r1) \<Rightarrow> Some (REDIS_ERR, r1, h)
       | (Ptr off, r1) \<Rightarrow> do {
           b \<leftarrow> rbuf r1;
           c \<leftarrow> byte_at b off;
           (case reply_type_of c of
              None \<Rightarrow> do { (r', h') \<leftarrow> redisReaderSetErrorProtocolByte r1 h c; Some (REDIS_ERR, r', h') }
            | Some ty \<Rightarrow> do {
                st \<leftarrow> set_task (rstack r1) (ridx r1) (cur\<lparr>t_type := ty\<rparr>);
                process_typed (r1\<lparr>rstack := st\<rparr>) h ty })
         })
     else process_typed r h (t_type cur)
   }"

section \<open>The interface of the reader\<close>

definition redisReaderCreateWithFunctions :: "cenv \<Rightarrow> 'h redisReplyObjectFunctions ptr \<Rightarrow> 'h redisReader ptr option" where
  "redisReaderCreateWithFunctions e fn =
     (if \<not> granted e 560 then Some NULL
      else do {
        b \<leftarrow> sdsempty e;
        (case b of
           NULL \<Rightarrow> Some NULL
         | Ptr s \<Rightarrow> Some (Ptr \<lparr>r_err = 0, r_errstr = zeros 128, r_buf = Ptr s, r_pos = 0, r_len = 0,
             r_maxbuf = REDIS_READER_MAX_BUF, rstack = replicate 9 (fresh_task NULL 0 0\<lparr>t_type := 0, t_elements := 0\<rparr>),
             ridx = - 1, r_reply = 0, r_fn = fn, r_privdata = 0\<rparr>))
      })"

definition redisReaderFree :: "'h redisReader \<Rightarrow> 'h \<Rightarrow> 'h option" where
  "redisReaderFree r h = (case fn_of r freeObject of
      Some free \<Rightarrow> if r_reply r \<noteq> 0 then free h (r_reply r) else Some h
    | None \<Rightarrow> Some h)"

definition redisReaderFeed :: "cenv \<Rightarrow> 'h redisReader \<Rightarrow> 'h \<Rightarrow> bytes ptr \<Rightarrow> int \<Rightarrow> (int \<times> 'h redisReader \<times> 'h) option" where
  "redisReaderFeed e r h buf len =
     (if r_err r \<noteq> 0 then Some (REDIS_ERR, r, h)
      else case buf of
        NULL \<Rightarrow> Some (REDIS_OK, r, h)
      | Ptr data \<Rightarrow>
          if len \<ge> 1
          then do {
            s \<leftarrow> (case r_buf r of NULL \<Rightarrow> None | Ptr s \<Rightarrow> Some s);
            r1 \<leftarrow> (if r_len r = 0 \<and> r_maxbuf r \<noteq> 0 \<and> sdsavail s > r_maxbuf r
              then do {
                b \<leftarrow> sdsempty e;
                (case b of NULL \<Rightarrow> None | Ptr s' \<Rightarrow> Some (r\<lparr>r_buf := Ptr s', r_pos := 0\<rparr>)) }
              else Some r);
            s1 \<leftarrow> (case r_buf r1 of NULL \<Rightarrow> None | Ptr s \<Rightarrow> Some s);
            newbuf \<leftarrow> sdscatlen e s1 data len;
            (case newbuf of
               NULL \<Rightarrow> do { (r', h') \<leftarrow> redisReaderSetErrorOOM r1 h; Some (REDIS_ERR, r', h') }
             | Ptr nb \<Rightarrow> Some (REDIS_OK, r1\<lparr>r_buf := Ptr nb, r_len := sdslen nb\<rparr>, h))
          }
          else Some (REDIS_OK, r, h))"

partial_function (option) process_loop :: "'h redisReader \<Rightarrow> 'h \<Rightarrow> ('h redisReader \<times> 'h) option" where
  "process_loop r h =
     (if ridx r \<ge> 0
      then do {
        (rc, r', h') \<leftarrow> processItem r h;
        if rc \<noteq> REDIS_OK then Some (r', h') else process_loop r' h'
      }
      else Some (r, h))"

declare process_loop.simps [code]

definition discard_consumed :: "'h redisReader \<Rightarrow> 'h redisReader option" where
  "discard_consumed r =
     (if r_pos r \<ge> 1024
      then do {
        s \<leftarrow> (case r_buf r of NULL \<Rightarrow> None | Ptr s \<Rightarrow> Some s);
        s' \<leftarrow> sdsrange s (to_int (r_pos r)) (- 1);
        Some (r\<lparr>r_buf := Ptr s', r_pos := 0, r_len := sdslen s'\<rparr>) }
      else Some r)"

text \<open>The result: the return value, \<open>*reply\<close>, the reader and the heap.\<close>

definition redisReaderGetReply :: "'h redisReader \<Rightarrow> 'h \<Rightarrow> (int \<times> int \<times> 'h redisReader \<times> 'h) option" where
  "redisReaderGetReply r h =
     (if r_err r \<noteq> 0 then Some (REDIS_ERR, 0, r, h)
      else if r_len r = 0 then Some (REDIS_OK, 0, r, h)
      else do {
        r1 \<leftarrow> (if ridx r = - 1
          then do { st \<leftarrow> set_task (rstack r) 0 (fresh_task NULL (- 1) (r_privdata r)); Some (r\<lparr>rstack := st, ridx := 0\<rparr>) }
          else Some r);
        (r2, h2) \<leftarrow> process_loop r1 h;
        if r_err r2 \<noteq> 0 then Some (REDIS_ERR, 0, r2, h2)
        else do {
          r3 \<leftarrow> discard_consumed r2;
          Some (if ridx r3 = - 1 then (REDIS_OK, r_reply r3, r3\<lparr>r_reply := 0\<rparr>, h2) else (REDIS_OK, 0, r3, h2))
        }
      })"

section \<open>What reading does\<close>

text \<open>The reference for \<open>seekNewline\<close>: the index of the first \<open>\r\n\<close>.\<close>

fun find_crlf :: "bytes \<Rightarrow> nat option" where
  "find_crlf (c # d # t) = (if c = CR \<and> d = LF then Some 0 else map_option Suc (find_crlf (d # t)))"
| "find_crlf _ = None"

lemma find_crlf_Some:
  "find_crlf t = Some i \<Longrightarrow> Suc i < length t \<and> t ! i = CR \<and> t ! Suc i = LF"
proof (induction t arbitrary: i rule: find_crlf.induct)
  case (1 c d t)
  then show ?case by (auto split: if_splits)
qed simp_all

lemma find_crlf_skip: "t \<noteq> [] \<Longrightarrow> hd t \<noteq> CR \<Longrightarrow> find_crlf t = map_option Suc (find_crlf (tl t))"
  by (cases t rule: find_crlf.cases) auto

lemma find_crlf_line: "CR \<notin> set xs \<Longrightarrow> find_crlf (xs @ CR # LF # rest) = Some (length xs)"
proof (induction xs)
  case (Cons x xs)
  then show ?case using find_crlf_skip [of "(x # xs) @ CR # LF # rest"] by auto
qed simp

lemma seek_cr_eq:
  assumes "b = pre @ t @ post" "p = int (length pre)" "i \<le> n" "n < length t"
  shows "\<exists>q \<ge> i. q \<le> n \<and> seek_cr b p (int i) (int n) = Some (int q) \<and>
    (\<forall>k \<ge> i. k < q \<longrightarrow> t ! k \<noteq> CR) \<and> (q < n \<longrightarrow> t ! q = CR)"
  using assms(3)
proof (induction "n - i" arbitrary: i)
  case 0
  then show ?case by (intro exI [of _ i]) (simp add: seek_cr.simps)
next
  case (Suc d)
  then have i: "i < n" by simp
  have at: "byte_at b (p + int i) = Some (t ! i)"
    using i assms by (simp add: byte_at_def nth_append nat_add_distrib)
  show ?case
  proof (cases "t ! i = CR")
    case True
    then show ?thesis using i at by (intro exI [of _ i]) (simp add: seek_cr.simps)
  next
    case False
    have "n - Suc i = d" using Suc.hyps(2) by simp
    then obtain q where q: "q \<ge> Suc i" "q \<le> n" "seek_cr b p (int (Suc i)) (int n) = Some (int q)"
      "\<forall>k \<ge> Suc i. k < q \<longrightarrow> t ! k \<noteq> CR" "q < n \<longrightarrow> t ! q = CR"
      using Suc.hyps(1) [of "Suc i"] i by auto
    have "seek_cr b p (int i) (int n) = seek_cr b p (int (Suc i)) (int n)"
      using i at False by (subst seek_cr.simps) (simp add: add.commute)
    moreover have "\<forall>k \<ge> i. k < q \<longrightarrow> t ! k \<noteq> CR"
    proof (intro allI impI)
      fix k
      assume "i \<le> k" "k < q"
      then show "t ! k \<noteq> CR" using q(4) False by (cases "k = i") auto
    qed
    ultimately show ?thesis using q by (intro exI [of _ q]) simp
  qed
qed

lemma find_crlf_drop:
  assumes "i \<le> q" "q < length t" "\<forall>k \<ge> i. k < q \<longrightarrow> t ! k \<noteq> CR"
  shows "find_crlf (drop i t) = map_option ((+) (q - i)) (find_crlf (drop q t))"
  using assms
proof (induction "q - i" arbitrary: i)
  case 0
  then show ?case by (simp add: option.map_ident)
next
  case (Suc d)
  then have "i < q" by simp
  have "find_crlf (drop i t) = map_option Suc (find_crlf (drop (Suc i) t))"
    using find_crlf_skip [of "drop i t"] Suc.prems \<open>i < q\<close> by (simp add: hd_drop_conv_nth tl_drop drop_Suc)
  also have "find_crlf (drop (Suc i) t) = map_option ((+) (q - Suc i)) (find_crlf (drop q t))"
    using Suc by (intro Suc.hyps(1)) auto
  finally show ?case using \<open>i < q\<close> by (cases "find_crlf (drop q t)") auto
qed

lemma seek_loop_eq:
  assumes "b = pre @ t @ post" "p = int (length pre)" "post \<noteq> []" "hd post \<noteq> LF" "i < length t"
  shows "seek_loop b p (int i) (int (length t - 1)) =
    Some (case find_crlf (drop i t) of None \<Rightarrow> NULL | Some k \<Rightarrow> Ptr (p + int (i + k)))"
  using assms(5)
proof (induction "length t - i" arbitrary: i rule: less_induct)
  case less
  let ?n = "length t - 1"
  show ?case
  proof (cases "i < ?n")
    case False
    with less.prems have "i = ?n" by simp
    then have "drop i t = [t ! i]" using less.prems by (simp add: Cons_nth_drop_Suc [symmetric])
    with \<open>i = ?n\<close> show ?thesis by (subst seek_loop.simps) simp
  next
    case True
    obtain q where q: "q \<ge> i" "q \<le> ?n" "seek_cr b p (int i) (int ?n) = Some (int q)"
      "\<forall>k \<ge> i. k < q \<longrightarrow> t ! k \<noteq> CR" "q < ?n \<longrightarrow> t ! q = CR"
      using seek_cr_eq [OF assms(1,2) less_imp_le [OF True]] less.prems by (metis diff_less less_nat_zero_code neq0_conv zero_less_one)
    have ql: "q < length t" using q(2) less.prems by simp
    obtain d ps where post: "post = d # ps" using assms(3) by (cases post) auto
    have nat: "nat (p + int q) = length pre + q" "nat (p + int q + 1) = length pre + Suc q"
      using assms(2) by (simp_all add: nat_add_distrib)
    have "int q + 1 < int (length t) + int (length post)" using ql post by simp
    then have at: "byte_at b (p + int q) = Some (t ! q)"
      "byte_at b (p + int q + 1) = Some (if Suc q < length t then t ! Suc q else hd post)"
      using ql assms(1,2) post unfolding byte_at_def nat by (auto simp: nth_append nth_Cons' not_less_less_Suc_eq)
    have fd: "find_crlf (drop i t) = map_option ((+) (q - i)) (find_crlf (drop q t))"
      using find_crlf_drop q(1,4) ql by blast
    have dq: "drop q t = t ! q # drop (Suc q) t" using ql by (rule Cons_nth_drop_Suc [symmetric])
    note unf = seek_loop.simps [of b p "int i" "int ?n"]
    show ?thesis
    proof (cases "t ! q = CR \<and> Suc q < length t \<and> t ! Suc q = LF")
      case hit: True
      then have "find_crlf (drop q t) = Some 0"
        by (simp add: dq Cons_nth_drop_Suc [of "Suc q" t, symmetric])
      then show ?thesis using True q hit at fd by (subst unf) simp
    next
      case miss: False
      show ?thesis
      proof (cases "t ! q = CR")
        case False
        then have "q = ?n" using q by auto
        then have "drop (Suc q) t = []" using less.prems by simp
        then have "find_crlf (drop q t) = None" by (simp only: dq find_crlf.simps)
        then show ?thesis using True q(3) at(1) False fd by (subst unf) simp
      next
        case cr: True
        have "seek_loop b p (int i) (int ?n) = seek_loop b p (int (Suc q)) (int ?n)"
          using True q(3) at cr miss assms(4) by (subst unf) (auto simp: add.commute)
        moreover have "find_crlf (drop q t) = map_option Suc (find_crlf (drop (Suc q) t))"
        proof (cases "drop (Suc q) t")
          case Nil
          then show ?thesis by (simp add: dq)
        next
          case (Cons d r)
          then have "d = t ! Suc q" "Suc q < length t"
            using nth_via_drop [OF Cons] by (simp_all add: drop_eq_Nil not_le [symmetric]) (metis drop_all list.distinct(1) not_le)
          then show ?thesis using miss cr by (simp add: dq Cons)
        qed
        moreover have "seek_loop b p (int (Suc q)) (int ?n) =
            Some (case find_crlf (drop (Suc q) t) of None \<Rightarrow> NULL | Some k \<Rightarrow> Ptr (p + int (Suc q + k)))"
        proof (cases "Suc q < length t")
          case True
          then show ?thesis using less.hyps [of "Suc q"] q(1) less.prems by simp
        next
          case False
          then have "\<not> int (Suc q) < int ?n" "find_crlf (drop (Suc q) t) = None" by simp_all
          then show ?thesis by (subst seek_loop.simps) (simp only: if_False option.case)
        qed
        ultimately show ?thesis using fd q(1) by (auto split: option.splits)
      qed
    qed
  qed
qed

text \<open>On a well-formed buffer, \<open>seekNewline\<close> finds the first line end behind the cursor.\<close>

lemma seekNewline_eq:
  assumes "sds_ok s" "p \<le> length (sds_str s)"
  shows "seekNewline (sh_buf s) (int p) (int (length (sds_str s)) - int p) =
    Some (case find_crlf (drop p (sds_str s)) of None \<Rightarrow> NULL | Some k \<Rightarrow> Ptr (int (p + k)))"
proof (cases "p = length (sds_str s)")
  case True
  then show ?thesis by (simp add: seekNewline_def seek_loop.simps)
next
  case False
  obtain rest where buf: "sh_buf s = sds_str s @ NUL # rest" using sds_ok_elim [OF assms(1)] by blast
  let ?t = "drop p (sds_str s)"
  have len: "length ?t = length (sds_str s) - p" "0 < length ?t" using False assms(2) by simp_all
  have bound: "int (length (sds_str s)) \<le> INT_MAX" using sds_okD [OF assms(1)] length_sds_str [OF assms(1)] by linarith
  have "to_int (int (length (sds_str s)) - int p - 1) = int (length ?t - 1)"
    using len bound assms(2) by simp
  moreover have "sh_buf s = take p (sds_str s) @ ?t @ NUL # rest" using buf by simp
  ultimately show ?thesis
    using seek_loop_eq [of "sh_buf s" "take p (sds_str s)" ?t "NUL # rest" "int p" 0] len assms(2)
    by (simp add: seekNewline_def add.commute split: option.split)
qed

section \<open>Numbers\<close>

lemma read_digits_total:
  assumes "i \<le> q" "q < length b" "b ! q = CR"
  shows "\<exists>v. read_digits b (int i) m w = Some v \<and> - 9223372036854775808 \<le> v \<and> v \<le> LONG_MAX"
  using assms(1)
proof (induction "q - i" arbitrary: i w)
  case 0
  then have "i = q" by simp
  with assms to_ll_range [of "m * w"] show ?case by (subst read_digits.simps) (simp add: byte_at_def)
next
  case (Suc d)
  have at: "byte_at b (int i) = Some (b ! i)" using Suc assms by (simp add: byte_at_def)
  have "\<exists>v. read_digits b (int (Suc i)) m (to_ll (to_ll (w * 10) + (of_char (b ! i) - 48))) = Some v \<and>
      - 9223372036854775808 \<le> v \<and> v \<le> LONG_MAX"
    using Suc by (intro Suc.hyps(1)) auto
  then show ?case
    using at to_ll_range [of "m * w"] by (subst read_digits.simps) (auto simp: add.commute)
qed

lemma readLongLong_total:
  assumes "i \<le> q" "q < length b" "b ! q = CR"
  shows "\<exists>v. readLongLong b (int i) = Some v \<and> - 9223372036854775808 \<le> v \<and> v \<le> LONG_MAX"
proof -
  have at: "byte_at b (int i) = Some (b ! i)" using assms by (simp add: byte_at_def)
  consider "b ! i = CHR ''-''" | "b ! i = CHR ''+''" | "b ! i \<noteq> CHR ''-''" "b ! i \<noteq> CHR ''+''" by blast
  then show ?thesis
  proof cases
    case 1
    then have "Suc i \<le> q" using assms by (cases "i = q") auto
    from read_digits_total [OF this assms(2,3), of "- 1" 0] 1 at show ?thesis
      by (simp add: readLongLong_def add.commute)
  next
    case 2
    then have "Suc i \<le> q" using assms by (cases "i = q") auto
    from read_digits_total [OF this assms(2,3), of 1 0] 2 at show ?thesis
      by (simp add: readLongLong_def add.commute)
  next
    case 3
    with read_digits_total [OF assms, of 1 0] at show ?thesis by (simp add: readLongLong_def)
  qed
qed

text \<open>Every number is read back from its decimal notation, also the most negative one.\<close>

lemma to_ll_cong:
  assumes "to_ll x = to_ll y"
  shows "to_ll (to_ll (x * 10) + d) = to_ll (y * 10 + d)" "to_ll (m * x) = to_ll (m * y)"
proof -
  have mod: "to_ll u = to_ll v \<longleftrightarrow> u mod 18446744073709551616 = v mod 18446744073709551616" for u v
    using signed_take_bit_eq_iff_take_bit_eq [of 63 u v] by (simp add: to_ll_def take_bit_eq_mod)
  have xy: "x mod 18446744073709551616 = y mod 18446744073709551616" using assms mod by blast
  have "to_ll (to_ll (x * 10)) = to_ll (x * 10)" by (simp add: to_ll_def)
  then have "to_ll (x * 10) mod 18446744073709551616 = (x * 10) mod 18446744073709551616"
    unfolding mod .
  also have "\<dots> = (y * 10) mod 18446744073709551616" by (rule mod_mult_cong [OF xy refl])
  finally show "to_ll (to_ll (x * 10) + d) = to_ll (y * 10 + d)"
    unfolding mod by (rule mod_add_cong [OF _ refl])
  show "to_ll (m * x) = to_ll (m * y)" unfolding mod by (rule mod_mult_cong [OF refl xy])
qed

definition digits_value :: "bytes \<Rightarrow> int \<Rightarrow> int" where
  "digits_value ds w = foldl (\<lambda>v c. v * 10 + (of_char c - 48)) w ds"

lemma read_digits_value:
  assumes "b = pre @ ds @ CR # post" "\<forall>c \<in> set ds. c_isdigit c" "to_ll w = to_ll w'" 
  shows "read_digits b (int (length pre)) m w = Some (to_ll (m * digits_value ds w'))"
  using assms
proof (induction ds arbitrary: pre w w')
  case Nil
  then show ?case
    using to_ll_cong(2) [of w w'] by (subst read_digits.simps) (simp add: byte_at_def nth_append digits_value_def)
next
  case (Cons c ds)
  let ?w = "to_ll (to_ll (w * 10) + (of_char c - 48))"
  have "CR \<noteq> c" using Cons.prems(2) by (auto simp: c_isdigit_def)
  moreover have "byte_at b (int (length pre)) = Some c" using Cons.prems(1) by (simp add: byte_at_def nth_append)
  ultimately have "read_digits b (int (length pre)) m w = read_digits b (int (length (pre @ [c]))) m ?w"
    using Cons.prems(2) by (subst read_digits.simps) (auto simp: add.commute)
  also have "\<dots> = Some (to_ll (m * digits_value ds (w' * 10 + (of_char c - 48))))"
    using Cons.prems to_ll_cong(1) [of w w'] by (intro Cons.IH) (auto simp: to_ll_def)
  finally show ?case by (simp add: digits_value_def)
qed

lemma digits_value_dec: "digits_value (dec_string n) 0 = int n"
proof (induction n rule: dec_string.induct)
  case (1 n)
  show ?case
  proof (cases "n < 10")
    case True
    have "(of_char (digit_char n) :: int) = int (48 + n)"
      using True of_char_digit_char [of n] by (metis of_nat_of_char)
    with True show ?thesis by (simp add: dec_string_small digits_value_def)
  next
    case False
    have "(of_char (digit_char (n mod 10)) :: int) = int (48 + n mod 10)"
      using of_char_digit_char [of "n mod 10"] by (metis of_nat_of_char mod_less_divisor zero_less_numeral)
    moreover have "int (n div 10) * 10 + int (n mod 10) = int n"
      using arg_cong [OF div_mult_mod_eq [of n 10], of int]
      by (simp only: of_nat_add of_nat_mult of_nat_numeral)
    ultimately show ?thesis using 1 False by (simp add: dec_string_big digits_value_def)
  qed
qed

lemma readLongLong_dec_int:
  assumes "- 9223372036854775808 \<le> i" "i \<le> LONG_MAX" "b = pre @ dec_int i @ CR # post"
  shows "readLongLong b (int (length pre)) = Some i"
proof (cases "i < 0")
  case True
  then have d: "dec_int i = CHR ''-'' # dec_string (nat (- i))" by (simp add: dec_int_def)
  have "byte_at b (int (length pre)) = Some (CHR ''-'')" by (simp add: assms(3) d byte_at_def nth_append)
  moreover have "read_digits b (int (length (pre @ ''-''))) (- 1) 0 = Some (to_ll (- 1 * digits_value (dec_string (nat (- i))) 0))"
    using dec_string_isdigit by (intro read_digits_value) (auto simp: assms(3) d)
  ultimately show ?thesis
    using True assms(1,2) by (simp add: readLongLong_def digits_value_dec add.commute)
next
  case False
  then have d: "dec_int i = dec_string (nat i)" by (simp add: dec_int_def)
  obtain c ds where cs: "dec_string (nat i) = c # ds" using dec_string_nonempty by (meson neq_Nil_conv)
  have "c_isdigit c" using dec_string_isdigit [of c "nat i"] cs by simp
  then have "c \<noteq> CHR ''-''" "c \<noteq> CHR ''+''" by (auto simp: c_isdigit_def)
  moreover have "byte_at b (int (length pre)) = Some c" by (simp add: assms(3) d cs byte_at_def nth_append)
  moreover have "read_digits b (int (length pre)) 1 0 = Some (to_ll (1 * digits_value (dec_string (nat i)) 0))"
    using dec_string_isdigit by (intro read_digits_value) (auto simp: assms(3) d)
  ultimately show ?thesis using False assms(1,2) by (simp add: readLongLong_def digits_value_dec)
qed

end
