(* ===== verification/Reader_Safe.thy ===== *)
theory Reader_Safe
  imports Reader
begin

text \<open>
  Safety of the protocol reader: whatever bytes arrive, \<open>redisReaderGetReply\<close> ends, stays inside
  its buffer and its stack, passes every assertion and keeps the invariant, as long as no array
  announces more than \<open>INT_MAX\<close> elements.

  The functions that build the objects are used through the locale \<open>reply_objects\<close>. Its invariant
  \<open>hinv h os\<close> relates a heap to the arrays that are still open, outermost first, each with
  its announced number of elements.
\<close>

section \<open>Invariants of the stack and of the buffer\<close>

definition stack_ok :: "redisReadTask list \<Rightarrow> int \<Rightarrow> bool" where
  "stack_ok st d \<longleftrightarrow> length st = 9 \<and> - 1 \<le> d \<and> d \<le> 8 \<and>
     (0 \<le> d \<longrightarrow> t_parent (st ! 0) = NULL \<and> t_type (st ! nat d) \<in> {- 1, 1, 2, 3, 5, 6}) \<and>
     (\<forall>i < nat d. t_type (st ! i) = REDIS_REPLY_ARRAY \<and> 0 \<le> t_idx (st ! Suc i) \<and>
        t_idx (st ! Suc i) < t_elements (st ! i) \<and> t_elements (st ! i) \<le> INT_MAX \<and>
        t_parent (st ! Suc i) = Ptr (int i))"

definition buf_ok :: "'h redisReader \<Rightarrow> bool" where
  "buf_ok r \<longleftrightarrow> (\<exists>s. r_buf r = Ptr s \<and> sds_ok s \<and> 0 \<le> r_pos r \<and> r_pos r \<le> r_len r \<and> r_len r = sh_len s)"

definition open_arrays :: "'h redisReader \<Rightarrow> (int \<times> int) list" where
  "open_arrays r = map (\<lambda>i. (t_obj (rstack r ! i), t_elements (rstack r ! i))) [0..<nat (ridx r)]"

text \<open>
  No array that begins in the buffer announces more than \<open>INT_MAX\<close> elements, nor does the one whose
  type byte has just been read.
\<close>

definition stars_ok :: "'h redisReader \<Rightarrow> bool" where
  "stars_ok r \<longleftrightarrow> (\<forall>b. rbuf r = Some b \<longrightarrow>
     (\<forall>i v. byte_at b i = Some (CHR ''*'') \<longrightarrow> readLongLong b (i + 1) = Some v \<longrightarrow> v \<le> INT_MAX))"

definition counts_ok :: "'h redisReader \<Rightarrow> bool" where
  "counts_ok r \<longleftrightarrow> stars_ok r \<and> (\<forall>b v. rbuf r = Some b \<longrightarrow>
     0 \<le> ridx r \<longrightarrow> t_type (rstack r ! nat (ridx r)) = REDIS_REPLY_ARRAY \<longrightarrow>
     readLongLong b (r_pos r) = Some v \<longrightarrow> v \<le> INT_MAX)"

definition free_reply :: "'h redisReader \<Rightarrow> 'h \<Rightarrow> int \<Rightarrow> 'h option" where
  "free_reply r h obj = (case fn_of r freeObject of Some f \<Rightarrow> f h obj | None \<Rightarrow> Some h)"

lemma task_at_in: "0 \<le> d \<Longrightarrow> d < int (length st) \<Longrightarrow> task_at st d = Some (st ! nat d)"
  by (simp add: task_at_def)

lemma set_task_in: "0 \<le> d \<Longrightarrow> d < int (length st) \<Longrightarrow> set_task st d t = Some (st[nat d := t])"
  by (simp add: set_task_def)

lemma stack_okD:
  assumes "stack_ok st d"
  shows "length st = 9" "- 1 \<le> d" "d \<le> 8" "0 \<le> d \<Longrightarrow> t_parent (st ! 0) = NULL"
    "0 \<le> d \<Longrightarrow> t_type (st ! nat d) \<in> {- 1, 1, 2, 3, 5, 6}"
    "\<And>i. i < nat d \<Longrightarrow> t_type (st ! i) = REDIS_REPLY_ARRAY \<and> 0 \<le> t_idx (st ! Suc i) \<and>
        t_idx (st ! Suc i) < t_elements (st ! i) \<and> t_elements (st ! i) \<le> INT_MAX \<and>
        t_parent (st ! Suc i) = Ptr (int i)"
  using assms by (auto simp: stack_ok_def)

text \<open>The stack after an item: either the whole reply is complete, or some array waits for its next element.\<close>

lemma moveToNextTask_ok:
  assumes "stack_ok (rstack r) (ridx r)" "0 \<le> ridx r"
  shows "\<exists>st d. moveToNextTask r = Some (r\<lparr>rstack := st, ridx := d\<rparr>) \<and> stack_ok st d \<and>
    (d = - 1 \<or> 1 \<le> d \<and> t_type (st ! nat d) = - 1) \<and> d \<le> ridx r \<and>
    (\<forall>i < nat d. t_obj (st ! i) = t_obj (rstack r ! i) \<and> t_elements (st ! i) = t_elements (rstack r ! i))"
  using assms
proof (induction "nat (ridx r)" arbitrary: r)
  case 0
  then have "ridx r = 0" by simp
  moreover have "stack_ok (rstack r) (- 1)" using stack_okD(1) [OF 0(2)] by (simp add: stack_ok_def)
  ultimately show ?case
    by (intro exI [of _ "rstack r"] exI [of _ "- 1"]) (subst moveToNextTask.simps, simp)
next
  case (Suc n)
  let ?st = "rstack r" and ?d = "ridx r"
  note ok = stack_okD [OF Suc(3)]
  have d: "?d = int (Suc n)" "nat ?d = Suc n" "nat (?d - 1) = n" using Suc(2,4) by auto
  have at: "task_at ?st ?d = Some (?st ! Suc n)" "task_at ?st (?d - 1) = Some (?st ! n)"
    using d ok(1,3) by (simp_all add: task_at_def)
  have lev: "t_type (?st ! n) = REDIS_REPLY_ARRAY" "0 \<le> t_idx (?st ! Suc n)"
    "t_idx (?st ! Suc n) < t_elements (?st ! n)" "t_elements (?st ! n) \<le> INT_MAX"
    using ok(6) [of n] d by auto
  have conv: "to_int (t_elements (?st ! n) - 1) = t_elements (?st ! n) - 1" using lev by simp
  note unf = moveToNextTask.simps [of r]
  show ?case
  proof (cases "t_idx (?st ! Suc n) = t_elements (?st ! n) - 1")
    case True
    let ?r = "r\<lparr>ridx := ?d - 1\<rparr>"
    have step: "moveToNextTask r = moveToNextTask ?r"
      using d at lev conv True by (subst unf) simp
    have ok': "stack_ok (rstack ?r) (ridx ?r)"
      unfolding stack_ok_def using ok d lev(1) by auto
    have "n = nat (ridx ?r)" "0 \<le> ridx ?r" using d by simp_all
    from Suc.hyps(1) [OF this(1) ok' this(2)] obtain st e where
      "moveToNextTask ?r = Some (?r\<lparr>rstack := st, ridx := e\<rparr>)" "stack_ok st e"
      "e = - 1 \<or> 1 \<le> e \<and> t_type (st ! nat e) = - 1" "e \<le> ridx ?r"
      "\<forall>i < nat e. t_obj (st ! i) = t_obj (rstack ?r ! i) \<and> t_elements (st ! i) = t_elements (rstack ?r ! i)"
      by blast
    with step show ?thesis by (intro exI [of _ st] exI [of _ e]) simp
  next
    case False
    let ?cur = "(?st ! Suc n)\<lparr>t_type := - 1, t_elements := - 1, t_idx := t_idx (?st ! Suc n) + 1\<rparr>"
    let ?new = "?st[Suc n := ?cur]"
    have "to_int (t_idx (?st ! Suc n) + 1) = t_idx (?st ! Suc n) + 1" using lev False by simp
    then have step: "moveToNextTask r = Some (r\<lparr>rstack := ?new\<rparr>)"
      using d at lev conv False ok(1,3) by (subst unf) (simp add: set_task_def)
    have "stack_ok ?new ?d"
      unfolding stack_ok_def
    proof (intro conjI allI impI)
      fix i
      assume i: "i < nat ?d"
      then have "i < Suc n" using d by simp
      then show "t_type (?new ! i) = 2" "0 \<le> t_idx (?new ! Suc i)" "t_elements (?new ! i) \<le> INT_MAX"
        "t_parent (?new ! Suc i) = Ptr (int i)" "t_idx (?new ! Suc i) < t_elements (?new ! i)"
        using ok(6) [OF i] lev False ok(1,3) d by (auto simp: nth_list_update)
    qed (use ok d in \<open>auto simp: nth_list_update\<close>)
    moreover have "t_type (?new ! nat ?d) = - 1" using ok(1,3) d by simp
    moreover have "r\<lparr>rstack := ?new, ridx := ?d\<rparr> = r\<lparr>rstack := ?new\<rparr>" by simp
    ultimately show ?thesis
      using step d by (intro exI [of _ ?new] exI [of _ ?d]) (simp add: nth_list_update)
  qed
qed

section \<open>Lines and the cursor\<close>

lemma buf_okE:
  assumes "buf_ok r"
  obtains s p where "r_buf r = Ptr s" "sds_ok s" "rbuf r = Some (sh_buf s)" "r_pos r = int p"
    "p \<le> length (sds_str s)" "r_len r = int (length (sds_str s))" "int (length (sds_str s)) \<le> INT_MAX"
proof -
  obtain s where s: "r_buf r = Ptr s" "sds_ok s" "0 \<le> r_pos r" "r_pos r \<le> r_len r" "r_len r = sh_len s"
    using assms by (auto simp: buf_ok_def)
  have len: "sh_len s = int (length (sds_str s))" using length_sds_str [OF s(2)] by simp
  show thesis
  proof (rule that [of s "nat (r_pos r)"])
    show "nat (r_pos r) \<le> length (sds_str s)" using s(3-5) len by linarith
    show "int (length (sds_str s)) \<le> INT_MAX" using sds_okD [OF s(2)] len by linarith
    show "r_len r = int (length (sds_str s))" using s(5) len by (rule trans)
  qed (use s in \<open>simp_all add: rbuf_def\<close>)
qed

lemma buf_okI:
  assumes "r_buf r = Ptr s" "sds_ok s" "0 \<le> r_pos r" "r_pos r \<le> int (length (sds_str s))"
    "r_len r = int (length (sds_str s))"
  shows "buf_ok r"
  using assms length_sds_str [OF assms(2)] by (auto simp: buf_ok_def)

lemma sh_buf_nth:
  assumes "sds_ok s" "i < length (sds_str s)"
  shows "sh_buf s ! i = sds_str s ! i" "i < length (sh_buf s)"
  using sds_ok_elim [OF assms(1)] assms(2) by (metis nth_append, metis length_append trans_less_add1)

text \<open>The seek behind the cursor, with the facts about the line it finds.\<close>

lemma seek_cases:
  assumes "sds_ok s" "p \<le> length (sds_str s)" "int (length (sds_str s)) \<le> INT_MAX"
  obtains (none) "find_crlf (drop p (sds_str s)) = None"
    "seekNewline (sh_buf s) (int p) (to_size (int (length (sds_str s)) - int p)) = Some NULL"
  | (line) k where "find_crlf (drop p (sds_str s)) = Some k"
    "seekNewline (sh_buf s) (int p) (to_size (int (length (sds_str s)) - int p)) = Some (Ptr (int (p + k)))"
    "p + k + 2 \<le> length (sds_str s)" "sh_buf s ! (p + k) = CR" "p + k < length (sh_buf s)"
proof -
  have conv: "to_size (int (length (sds_str s)) - int p) = int (length (sds_str s)) - int p"
    using assms(2,3) by simp
  show thesis
  proof (cases "find_crlf (drop p (sds_str s))")
    case None
    then show thesis using none seekNewline_eq [OF assms(1,2)] conv by simp
  next
    case (Some k)
    have k: "Suc k < length (drop p (sds_str s))" "drop p (sds_str s) ! k = CR"
      using find_crlf_Some [OF Some] by auto
    have "p + k < length (sds_str s)" using k(1) by simp
    with sh_buf_nth [OF assms(1) this] k show thesis
      using line [OF Some] seekNewline_eq [OF assms(1,2)] conv Some by (simp add: add.commute)
  qed
qed

lemma readLine_cases:
  assumes "buf_ok r" "r_buf r = Ptr s" "r_pos r = int p" "p \<le> length (sds_str s)"
  obtains (none) "find_crlf (drop p (sds_str s)) = None" "readLine r = Some (NULL, 0, r)"
  | (line) k where "find_crlf (drop p (sds_str s)) = Some k"
    "readLine r = Some (Ptr (int p), int k, r\<lparr>r_pos := int (p + k + 2)\<rparr>)"
    "p + k + 2 \<le> length (sds_str s)" "sh_buf s ! (p + k) = CR" "p + k < length (sh_buf s)"
proof -
  obtain p' where facts: "sds_ok s" "rbuf r = Some (sh_buf s)" "r_len r = int (length (sds_str s))"
    "int (length (sds_str s)) \<le> INT_MAX"
    using buf_okE [OF assms(1)] assms(2) by (metis ptr.inject)
  from facts(1) assms(4) facts(4) show thesis
  proof (cases rule: seek_cases)
    case none
    then show thesis using that(1) facts assms(3) by (simp add: readLine_def)
  next
    case (line k)
    have "to_int (int k) = int k" "to_int (int k + 2) = int k + 2" "to_size (int k + 2) = int k + 2"
      "to_size (int p + (int k + 2)) = int (p + k + 2)"
      using line(3) facts(4) by simp_all
    then have "readLine r = Some (Ptr (int p), int k, r\<lparr>r_pos := int (p + k + 2)\<rparr>)"
      using line(2) facts assms(3) by (simp add: readLine_def Let_def)
    with that(2) line show thesis by blast
  qed
qed

section \<open>The interface to the object functions\<close>

definition arg_fits :: "(int \<times> int) list \<Rightarrow> task_arg \<Rightarrow> bool" where
  "arg_fits os arg \<longleftrightarrow> (case snd arg of
      NULL \<Rightarrow> os = []
    | Ptr par \<Rightarrow> os \<noteq> [] \<and> t_obj par = fst (last os) \<and> 0 \<le> t_idx (fst arg) \<and> t_idx (fst arg) < snd (last os))"

locale reply_objects =
  fixes fn :: "'h redisReplyObjectFunctions ptr"
    and hinv :: "'h \<Rightarrow> (int \<times> int) list \<Rightarrow> bool"
  assumes integer_law: "r_fn r = fn \<Longrightarrow> hinv h os \<Longrightarrow> arg_fits os arg \<Longrightarrow>
      \<exists>obj h'. make_integer r h arg (Some v) = Some (obj, h') \<and> hinv h' os"
    and string_law: "r_fn r = fn \<Longrightarrow> hinv h os \<Longrightarrow> arg_fits os arg \<Longrightarrow> t_type (fst arg) \<in> {1, 5, 6} \<Longrightarrow>
      len \<le> length str \<Longrightarrow> int len < INT_MAX \<Longrightarrow> dflt \<noteq> 0 \<Longrightarrow>
      \<exists>obj h'. make_string r h arg str (int len) dflt = Some (obj, h') \<and> hinv h' os"
    and nil_law: "r_fn r = fn \<Longrightarrow> hinv h os \<Longrightarrow> arg_fits os arg \<Longrightarrow>
      \<exists>obj h'. make_nil r h arg = Some (obj, h') \<and> hinv h' os"
    and array_law: "r_fn r = fn \<Longrightarrow> hinv h os \<Longrightarrow> arg_fits os arg \<Longrightarrow> - 2147483648 \<le> n \<Longrightarrow> n \<le> INT_MAX \<Longrightarrow>
      \<exists>obj h'. make_array r h arg n = Some (obj, h') \<and> hinv h' os \<and> (obj \<noteq> 0 \<longrightarrow> 0 < n \<longrightarrow> hinv h' (os @ [(obj, n)]))"
    and pop_law: "hinv h (os @ [x]) \<Longrightarrow> hinv h os"
    and free_law: "r_fn r = fn \<Longrightarrow> hinv h ((root, n) # os) \<Longrightarrow> \<exists>h'. free_reply r h root = Some h' \<and> hinv h' []"
begin

lemma hinv_take: "hinv h os \<Longrightarrow> hinv h (take n os)"
proof (induction os rule: rev_induct)
  case (snoc x os)
  then show ?case using pop_law by (cases "n \<le> length os") auto
qed simp

text \<open>A reader without an error, and one that has seen an error.\<close>

definition live :: "'h redisReader \<Rightarrow> 'h \<Rightarrow> bool" where
  "live r h \<longleftrightarrow> r_fn r = fn \<and> r_err r = 0 \<and> length (r_errstr r) = 128 \<and> buf_ok r \<and>
     stack_ok (rstack r) (ridx r) \<and> hinv h (open_arrays r) \<and>
     (ridx r = 0 \<longrightarrow> r_reply r = 0) \<and> (0 < ridx r \<longrightarrow> r_reply r = t_obj (rstack r ! 0) \<and> r_reply r \<noteq> 0)"

definition dead :: "'h redisReader \<Rightarrow> 'h \<Rightarrow> bool" where
  "dead r h \<longleftrightarrow> r_fn r = fn \<and> r_err r \<in> {REDIS_ERR_PROTOCOL, REDIS_ERR_OOM} \<and> r_buf r = NULL \<and>
     r_pos r = 0 \<and> r_len r = 0 \<and> ridx r = - 1 \<and> length (r_errstr r) = 128 \<and> NUL \<in> set (r_errstr r) \<and> hinv h [] \<and>
     (fn_of r freeObject = None \<or> r_reply r = 0)"

definition settled :: "'h redisReader \<Rightarrow> (int \<times> 'h redisReader \<times> 'h) option \<Rightarrow> bool" where
  "settled r res \<longleftrightarrow> (\<exists>rc r' h'. res = Some (rc, r', h') \<and>
     (rc = REDIS_OK \<and> live r' h' \<and> counts_ok r' \<and> r_buf r' = r_buf r \<and> r_len r' = r_len r \<and> r_pos r < r_pos r' \<or>
      rc = REDIS_ERR \<and> live r' h' \<and> counts_ok r' \<and> 0 \<le> ridx r' \<and> r_buf r' = r_buf r \<and> r_len r' = r_len r \<and> r_pos r \<le> r_pos r' \<or>
      rc = REDIS_ERR \<and> dead r' h'))"

end

lemma put_errstr_ok:
  assumes "length old = 128" "NUL \<in> set str"
  shows "\<exists>es. put_errstr old str = Some es \<and> length es = 128 \<and> NUL \<in> set es \<and>
    takeWhile (\<lambda>c. c \<noteq> NUL) es = take 127 (takeWhile (\<lambda>c. c \<noteq> NUL) str)"
proof -
  let ?t = "takeWhile (\<lambda>c. c \<noteq> NUL) str"
  let ?n = "min (length ?t) 127"
  obtain rest where str: "str = ?t @ rest" using takeWhile_dropWhile_id by metis
  have no: "NUL \<notin> set (take ?n ?t)" by (auto dest: in_set_takeD set_takeWhileD)
  have len: "(if int (length ?t) < int (length old) - 1 then int (length ?t) else int (length old) - 1) = int ?n"
    using assms(1) by auto
  have "mem_read str 0 (int ?n) = Some (take ?n ?t)"
  proof -
    have "?n \<le> length str" using length_takeWhile_le [of _ str] by (simp add: min.coboundedI1)
    moreover have "take ?n str = take ?n ?t" by (subst str) simp
    ultimately show ?thesis by (simp add: mem_read_def)
  qed
  moreover have "mem_write old 0 (take ?n ?t) = Some (take ?n ?t @ drop ?n old)"
    using assms(1) by (simp add: mem_write_def min_def)
  moreover have "mem_write (take ?n ?t @ drop ?n old) (int ?n) [NUL] = Some (take ?n ?t @ NUL # drop (Suc ?n) old)"
    using assms(1) by (simp add: mem_write_def min_def)
  ultimately have "put_errstr old str = Some (take ?n ?t @ NUL # drop (Suc ?n) old)"
    using assms(2) len by (simp add: put_errstr_def c_strlen_def Let_def)
  moreover have "takeWhile (\<lambda>c. c \<noteq> NUL) (take ?n ?t @ NUL # drop (Suc ?n) old) = take ?n ?t"
    using no by (simp add: takeWhile_tail)
  ultimately show ?thesis using assms(1) by (simp add: min_def)
qed

lemma counts_ok_stars: "counts_ok r \<Longrightarrow> stars_ok r"
  by (simp add: counts_ok_def)

lemma stars_ok_same: "stars_ok r \<Longrightarrow> rbuf r' = rbuf r \<Longrightarrow> stars_ok r'"
  by (simp add: stars_ok_def)

lemma counts_ok_move:
  assumes "stars_ok r" "rbuf r' = rbuf r" "0 \<le> ridx r' \<Longrightarrow> t_type (rstack r' ! nat (ridx r')) = - 1"
  shows "counts_ok r'"
  using assms by (auto simp: counts_ok_def stars_ok_def)

context reply_objects
begin

lemma liveD:
  assumes "live r h"
  shows "r_fn r = fn" "r_err r = 0" "length (r_errstr r) = 128" "buf_ok r" "stack_ok (rstack r) (ridx r)"
    "hinv h (open_arrays r)" "ridx r = 0 \<Longrightarrow> r_reply r = 0"
    "0 < ridx r \<Longrightarrow> r_reply r = t_obj (rstack r ! 0) \<and> r_reply r \<noteq> 0"
  using assms by (auto simp: live_def)

lemma set_error_dead:
  assumes "live r h" "0 \<le> ridx r" "ty \<in> {REDIS_ERR_PROTOCOL, REDIS_ERR_OOM}" "NUL \<in> set str"
  shows "\<exists>r' h'. redisReaderSetError r h ty str = Some (r', h') \<and> dead r' h' \<and> r_err r' = ty \<and>
    takeWhile (\<lambda>c. c \<noteq> NUL) (r_errstr r') = take 127 (takeWhile (\<lambda>c. c \<noteq> NUL) str)"
proof -
  note live = liveD [OF assms(1)]
  obtain s where buf: "r_buf r = Ptr s" using live(4) by (auto simp: buf_ok_def)
  have "\<exists>h'. (if r_reply r \<noteq> 0 then free_reply r h (r_reply r) else Some h) = Some h' \<and> hinv h' []"
  proof (cases "ridx r = 0")
    case True
    with live(6,7) show ?thesis by (simp add: open_arrays_def)
  next
    case False
    then have pos: "0 < ridx r" using assms(2) by simp
    then have "[0..<nat (ridx r)] = 0 # [1..<nat (ridx r)]" by (simp add: upt_conv_Cons)
    then obtain n os where "open_arrays r = (r_reply r, n) # os"
      using live(8) [OF pos] by (simp add: open_arrays_def)
    with free_law [OF live(1)] live(6,8) pos show ?thesis by simp
  qed
  then obtain h1 where h1: "(if r_reply r \<noteq> 0 then free_reply r h (r_reply r) else Some h) = Some h1" "hinv h1 []"
    by blast
  obtain es where es: "put_errstr (r_errstr r) str = Some es" "length es = 128" "NUL \<in> set es"
    "takeWhile (\<lambda>c. c \<noteq> NUL) es = take 127 (takeWhile (\<lambda>c. c \<noteq> NUL) str)"
    using put_errstr_ok [OF live(3) assms(4)] by blast
  show ?thesis
  proof (cases "fn_of r freeObject")
    case None
    then have "h1 = h" using h1 by (simp add: free_reply_def split: if_splits)
    moreover have "fn_of (r\<lparr>r_buf := NULL, r_pos := 0, r_len := 0, ridx := - 1, r_err := ty, r_errstr := es\<rparr>) freeObject = None"
      using None by (simp add: fn_of_def)
    ultimately show ?thesis
      using None buf es h1 live(1) assms(3) by (simp add: redisReaderSetError_def dead_def Let_def)
  next
    case (Some f)
    then have f: "r_reply r \<noteq> 0 \<Longrightarrow> f h (r_reply r) = Some h1" "r_reply r = 0 \<Longrightarrow> h = h1"
      using h1 by (simp_all add: free_reply_def)
    show ?thesis
      using Some buf es h1(2) f live(1) assms(3)
      by (cases "r_reply r = 0") (simp_all add: redisReaderSetError_def dead_def Let_def)
  qed
qed

lemma fail_oom_settled:
  assumes "live r1 h" "0 \<le> ridx r1"
  shows "settled r (fail_oom r1 h)"
proof -
  obtain r' h' where "redisReaderSetError r1 h REDIS_ERR_OOM (cstr ''Out of memory'') = Some (r', h')" "dead r' h'"
    using set_error_dead [OF assms, of REDIS_ERR_OOM "cstr ''Out of memory''"] by (auto simp: cstr_def)
  then show ?thesis by (simp add: settled_def fail_oom_def redisReaderSetErrorOOM_def)
qed

lemma cur_task_ok:
  assumes "live r h" "0 \<le> ridx r"
  obtains par where "cur_task r = Some (rstack r ! nat (ridx r), par)"
    "arg_fits (open_arrays r) (rstack r ! nat (ridx r), par)"
proof -
  note st = stack_okD [OF liveD(5) [OF assms(1)]]
  have at: "task_at (rstack r) (ridx r) = Some (rstack r ! nat (ridx r))"
    using st(1,3) assms(2) by (simp add: task_at_def)
  show thesis
  proof (cases "nat (ridx r)")
    case 0
    with st(4) [OF assms(2)] at show thesis
      by (intro that [of NULL]) (simp_all add: cur_task_def arg_fits_def open_arrays_def)
  next
    case (Suc i)
    have "t_parent (rstack r ! Suc i) = Ptr (int i)" "0 \<le> t_idx (rstack r ! Suc i)"
      "t_idx (rstack r ! Suc i) < t_elements (rstack r ! i)" using st(6) [of i] Suc by simp_all
    moreover have "task_at (rstack r) (int i) = Some (rstack r ! i)"
      using st(1,3) Suc by (simp add: task_at_def)
    ultimately show thesis
      using at Suc by (intro that [of "Ptr (rstack r ! i)"]) (simp_all add: cur_task_def arg_fits_def open_arrays_def)
  qed
qed

text \<open>The end of an item: the reply is set if it is the root, and the stack moves on.\<close>

lemma finish_item:
  assumes "live r h" "0 \<le> ridx r" "obj \<noteq> 0" "stars_ok r"
  shows "\<exists>r'. moveToNextTask (set_root r obj) = Some r' \<and> live r' h \<and> counts_ok r' \<and>
    r_buf r' = r_buf r \<and> r_len r' = r_len r \<and> r_pos r' = r_pos r \<and>
    (\<exists>r1. moveToNextTask r = Some r1 \<and> (if ridx r = 0 then r1\<lparr>r_reply := obj\<rparr> else r1) = r')"
proof -
  note live = liveD [OF assms(1)]
  obtain st d where mv: "moveToNextTask r = Some (r\<lparr>rstack := st, ridx := d\<rparr>)" "stack_ok st d"
    "d = - 1 \<or> 1 \<le> d \<and> t_type (st ! nat d) = - 1" "d \<le> ridx r"
    "\<forall>i < nat d. t_obj (st ! i) = t_obj (rstack r ! i) \<and> t_elements (st ! i) = t_elements (rstack r ! i)"
    using moveToNextTask_ok [OF live(5) assms(2)] by blast
  define r' where "r' = (set_root r obj)\<lparr>rstack := st, ridx := d\<rparr>"
  have "rstack (set_root r obj) = rstack r" "ridx (set_root r obj) = ridx r" by (simp_all add: set_root_def)
  have root: "moveToNextTask (set_root r obj) = Some r'"
  proof (cases "ridx r = 0")
    case True
    then have "moveToNextTask r = Some (r\<lparr>ridx := - 1\<rparr>)" by (subst moveToNextTask.simps) simp
    with mv(1) have eq: "r\<lparr>rstack := st, ridx := d\<rparr> = r\<lparr>ridx := - 1\<rparr>" by simp
    have "st = rstack r" "d = - 1" using arg_cong [OF eq, of rstack] arg_cong [OF eq, of ridx] by simp_all
    with True show ?thesis by (subst moveToNextTask.simps) (simp add: r'_def set_root_def)
  next
    case False
    with mv(1) show ?thesis by (simp add: r'_def set_root_def)
  qed
  have os: "open_arrays r' = take (nat d) (open_arrays r)"
    using mv(4,5) by (auto simp: r'_def open_arrays_def take_map intro!: map_cong)
  have "live r' h"
    unfolding live_def os
  proof (intro conjI impI)
    show "hinv h (take (nat d) (open_arrays r))" using hinv_take live(6) by blast
    show "buf_ok r'" using live(4) by (auto simp: buf_ok_def r'_def set_root_def)
    assume "0 < ridx r'"
    then have d: "0 < d" by (simp add: r'_def)
    then have "r_reply r' = r_reply r" "0 < ridx r" using mv(4) by (auto simp: r'_def set_root_def)
    with live(8) mv(5) d show "r_reply r' = t_obj (rstack r' ! 0)" "r_reply r' \<noteq> 0" by (simp_all add: r'_def)
  qed (use live mv in \<open>auto simp: r'_def set_root_def\<close>)
  moreover have "counts_ok r'"
    by (rule counts_ok_move [OF assms(4)]) (use mv(3) in \<open>auto simp: r'_def rbuf_def set_root_def\<close>)
  moreover have "(if ridx r = 0 then (r\<lparr>rstack := st, ridx := d\<rparr>)\<lparr>r_reply := obj\<rparr> else r\<lparr>rstack := st, ridx := d\<rparr>) = r'"
    by (simp add: r'_def set_root_def)
  ultimately show ?thesis using root mv(1) by (auto simp: r'_def set_root_def)
qed

lemma live_pos:
  assumes "live r h" "r_buf r = Ptr s" "p \<le> length (sds_str s)"
  shows "live (r\<lparr>r_pos := int p\<rparr>) h"
proof -
  have "sds_ok s" "r_len r = int (length (sds_str s))"
    using buf_okE [OF liveD(4) [OF assms(1)]] assms(2) by (metis ptr.inject)+
  then have "buf_ok (r\<lparr>r_pos := int p\<rparr>)" using assms(2,3) by (intro buf_okI [of _ s]) (simp_all del: length_sds_str)
  with assms(1) show ?thesis by (auto simp: live_def open_arrays_def)
qed

lemma live_heap: "live r h \<Longrightarrow> hinv h' (open_arrays r) \<Longrightarrow> live r h'"
  by (auto simp: live_def)

lemma open_arrays_pos [simp]: "open_arrays (r\<lparr>r_pos := p\<rparr>) = open_arrays r"
  by (simp add: open_arrays_def)

lemma counts_ok_pos:
  assumes "counts_ok r" "t_type (rstack r ! nat (ridx r)) \<noteq> REDIS_REPLY_ARRAY"
  shows "counts_ok (r\<lparr>r_pos := p\<rparr>)"
  using assms by (auto simp: counts_ok_def stars_ok_def rbuf_def)

text \<open>A created object, or an error for want of memory, settles the item.\<close>

lemma settled_finish:
  assumes "live r1 h1" "0 \<le> ridx r1" "counts_ok r1" "r_buf r1 = r_buf r" "r_len r1 = r_len r" "r_pos r < r_pos r1"
  shows "settled r (if obj = 0 then fail_oom r1 h1
    else do { r2 \<leftarrow> moveToNextTask (set_root r1 obj); Some (REDIS_OK, r2, h1) })"
proof (cases "obj = 0")
  case True
  then show ?thesis using fail_oom_settled [OF assms(1,2)] by simp
next
  case False
  from finish_item [OF assms(1,2) False counts_ok_stars [OF assms(3)]] obtain r2 where
    "moveToNextTask (set_root r1 obj) = Some r2" "live r2 h1" "counts_ok r2" "r_buf r2 = r_buf r1"
    "r_len r2 = r_len r1" "r_pos r2 = r_pos r1" by blast
  with False assms(4-6) show ?thesis by (simp add: settled_def)
qed

lemma processLineItem_settled:
  assumes "live r h" "0 \<le> ridx r" "counts_ok r" "t_type (rstack r ! nat (ridx r)) \<in> {3, 5, 6}"
  shows "settled r (processLineItem r h)"
proof -
  note live = liveD [OF assms(1)]
  obtain s p where buf: "r_buf r = Ptr s" "sds_ok s" "rbuf r = Some (sh_buf s)" "r_pos r = int p"
    "p \<le> length (sds_str s)" "r_len r = int (length (sds_str s))" "int (length (sds_str s)) \<le> INT_MAX"
    using buf_okE [OF live(4)] by metis
  let ?cur = "rstack r ! nat (ridx r)"
  obtain par where cur: "cur_task r = Some (?cur, par)" and fits: "arg_fits (open_arrays r) (?cur, par)"
    using cur_task_ok [OF assms(1,2)] by blast
  from live(4) buf(1,4,5) show ?thesis
  proof (cases rule: readLine_cases)
    case none
    with assms(1-3) cur show ?thesis by (simp add: processLineItem_def settled_def)
  next
    case (line k)
    define r1 where "r1 = r\<lparr>r_pos := int (p + k + 2)\<rparr>"
    have l1: "live r1 h'" if "hinv h' (open_arrays r)" for h'
      using live_pos [OF assms(1) buf(1) line(3)] live_heap that unfolding r1_def by simp
    have c1: "counts_ok r1" using counts_ok_pos [OF assms(3)] assms(4) by (auto simp: r1_def)
    have r1: "rbuf r1 = Some (sh_buf s)" "r_fn r1 = fn" "readLine r = Some (Ptr (int p), int k, r1)"
      using buf(3) live(1) line(2) by (simp_all add: rbuf_def r1_def)
    let ?make = "if t_type ?cur = REDIS_REPLY_INTEGER then make_integer r1 h (?cur, par) (readLongLong (sh_buf s) (int p))
      else make_string r1 h (?cur, par) (drop p (sh_buf s)) (to_size (int k)) (to_size (t_type ?cur))"
    have "\<exists>obj h1. ?make = Some (obj, h1) \<and> hinv h1 (open_arrays r)"
    proof (cases "t_type ?cur = REDIS_REPLY_INTEGER")
      case True
      obtain v where "readLongLong (sh_buf s) (int p) = Some v"
        using readLongLong_total [of p "p + k" "sh_buf s"] line(4,5) by auto
      with True integer_law [OF r1(2) live(6) fits, of v] show ?thesis by simp
    next
      case False
      have "k \<le> length (drop p (sh_buf s))" "to_size (int k) = int k" "int k < INT_MAX"
        using line(3,5) buf(7) by simp_all
      with False string_law [OF r1(2) live(6) fits, of k "drop p (sh_buf s)" "to_size (t_type ?cur)"] assms(4)
      show ?thesis by auto
    qed
    then obtain obj h1 where mk: "?make = Some (obj, h1)" "hinv h1 (open_arrays r)" by blast
    have "processLineItem r h = (if obj = 0 then fail_oom r1 h1
        else do { r2 \<leftarrow> moveToNextTask (set_root r1 obj); Some (REDIS_OK, r2, h1) })"
      using cur r1 mk(1) by (cases "t_type ?cur = REDIS_REPLY_INTEGER") (simp_all add: processLineItem_def)
    with settled_finish [OF l1 [OF mk(2)], of r obj] assms(2) c1 buf(4) show ?thesis by (simp add: r1_def)
  qed
qed

lemma processBulkItem_settled:
  assumes "live r h" "0 \<le> ridx r" "counts_ok r" "t_type (rstack r ! nat (ridx r)) = REDIS_REPLY_STRING"
  shows "settled r (processBulkItem r h)"
proof -
  note live = liveD [OF assms(1)]
  obtain s p where buf: "r_buf r = Ptr s" "sds_ok s" "rbuf r = Some (sh_buf s)" "r_pos r = int p"
    "p \<le> length (sds_str s)" "r_len r = int (length (sds_str s))" "int (length (sds_str s)) \<le> INT_MAX"
    using buf_okE [OF live(4)] by metis
  let ?cur = "rstack r ! nat (ridx r)"
  obtain par where cur: "cur_task r = Some (?cur, par)" and fits: "arg_fits (open_arrays r) (?cur, par)"
    using cur_task_ok [OF assms(1,2)] by blast
  have stay: "settled r (Some (REDIS_ERR, r, h))" using assms by (simp add: settled_def)
  have fin: "settled r (if obj = 0 then fail_oom r h1
      else do { r2 \<leftarrow> moveToNextTask (set_root (r\<lparr>r_pos := int q\<rparr>) obj); Some (REDIS_OK, r2, h1) })"
    if "hinv h1 (open_arrays r)" "p < q" "q \<le> length (sds_str s)" for obj h1 q
  proof (cases "obj = 0")
    case True
    then show ?thesis using fail_oom_settled [OF live_heap [OF assms(1) that(1)] assms(2)] by simp
  next
    case False
    have "live (r\<lparr>r_pos := int q\<rparr>) h1" using live_pos [OF live_heap [OF assms(1) that(1)] buf(1) that(3)] .
    moreover have "counts_ok (r\<lparr>r_pos := int q\<rparr>)" using counts_ok_pos [OF assms(3)] assms(4) by simp
    ultimately show ?thesis
      using settled_finish [of "r\<lparr>r_pos := int q\<rparr>" h1 r obj] assms(2) that(2) buf(4) False by simp
  qed
  from buf(2,5,7) show ?thesis
  proof (cases rule: seek_cases)
    case none
    with cur buf stay show ?thesis by (simp add: processBulkItem_def)
  next
    case (line k)
    obtain len where len: "readLongLong (sh_buf s) (int p) = Some len" "len \<le> LONG_MAX"
      using readLongLong_total [of p "p + k" "sh_buf s"] line(4,5) by auto
    have bl: "to_size (int (p + k) - int p + 2) = int k + 2" using line(3) buf(7) by simp
    show ?thesis
    proof (cases "len < 0")
      case True
      obtain obj h1 where mk: "make_nil r h (?cur, par) = Some (obj, h1)" "hinv h1 (open_arrays r)"
        using nil_law [OF live(1,6) fits] by blast
      have "to_size (int p + (int k + 2)) = int (p + k + 2)" using line(3) buf(7) by simp
      then have "processBulkItem r h = (if obj = 0 then fail_oom r h1
          else do { r2 \<leftarrow> moveToNextTask (set_root (r\<lparr>r_pos := int (p + k + 2)\<rparr>) obj); Some (REDIS_OK, r2, h1) })"
        using line(2) cur buf len True mk(1) bl by (simp add: processBulkItem_def Let_def del: length_sds_str)
      also have "settled r \<dots>" using mk(2) line(3) by (intro fin) simp_all
      finally show ?thesis .
    next
      case False
      define l where "l = nat len"
      have l: "len = int l" using False by (simp add: l_def)
      have bl2: "to_size (int k + 2 + to_ll (len + 2)) = int k + 2 + (len + 2)"
      proof (cases "len + 2 \<le> LONG_MAX")
        case True
        then show ?thesis using l line(3) buf(7) by simp
      next
        case big: False
        have "to_size (to_ll (len + 2)) = to_size (len + 2)"
          by (simp add: to_size_def to_ll_def take_bit_signed_take_bit)
        then have "to_size (to_size (to_ll (len + 2)) + (int k + 2)) = to_size (len + 2 + (int k + 2))"
          by (simp only: to_size_to_size_add)
        then have "to_size (to_ll (len + 2) + (int k + 2)) = len + 2 + (int k + 2)"
          using l line(3) buf(7) len(2) by (simp only: to_size_to_size_add) simp
        then show ?thesis by (simp only: add.commute add.left_commute)
      qed
      have tot: "to_size (int p + (int k + 2 + (len + 2))) = int (p + k + l + 4)"
        using l len(2) line(3) buf(7) by simp
      show ?thesis
      proof (cases "p + k + l + 4 \<le> length (sds_str s)")
        case False
        with cur buf line(2) len bl bl2 tot stay \<open>\<not> len < 0\<close> show ?thesis
          by (simp add: processBulkItem_def Let_def del: length_sds_str)
      next
        case True
        have "length (sds_str s) < length (sh_buf s)" by (rule sds_str_bound [OF buf(2)])
        then have "l \<le> length (drop (p + k + 2) (sh_buf s))" "to_size len = int l" "int l < INT_MAX"
          using True l len(2) buf(7) by simp_all
        moreover then obtain obj h1 where
          mk: "make_string r h (?cur, par) (drop (p + k + 2) (sh_buf s)) (int l) 1 = Some (obj, h1)" "hinv h1 (open_arrays r)"
          using string_law [OF live(1,6) fits, of l "drop (p + k + 2) (sh_buf s)" 1] assms(4) by auto
        moreover have "nat (int (p + k) + 2) = p + k + 2" by simp
        ultimately have "processBulkItem r h = (if obj = 0 then fail_oom r h1
            else do { r2 \<leftarrow> moveToNextTask (set_root (r\<lparr>r_pos := int (p + k + l + 4)\<rparr>) obj); Some (REDIS_OK, r2, h1) })"
          using True cur buf line(2) len bl bl2 tot \<open>\<not> len < 0\<close>
          by (simp add: processBulkItem_def Let_def del: length_sds_str) (simp add: ac_simps)
        also have "settled r \<dots>" using mk(2) True by (intro fin) simp_all
        finally show ?thesis .
      qed
    qed
  qed
qed

lemma push_task_live:
  assumes "live r h" "0 \<le> ridx r" "ridx r < 8" "0 < n" "n \<le> INT_MAX" "obj \<noteq> 0"
    and "hinv h1 (open_arrays r @ [(obj, n)])" "t_type (rstack r ! nat (ridx r)) = REDIS_REPLY_ARRAY"
  shows "\<exists>st. push_task r (rstack r ! nat (ridx r)) n obj = Some (r\<lparr>rstack := st, ridx := ridx r + 1\<rparr>) \<and>
    st ! nat (ridx r) = (rstack r ! nat (ridx r))\<lparr>t_elements := n, t_obj := obj\<rparr> \<and>
    st ! Suc (nat (ridx r)) = fresh_task (Ptr (ridx r)) 0 (r_privdata r) \<and> (\<forall>i < nat (ridx r). st ! i = rstack r ! i) \<and>
    live (if ridx r = 0 then r\<lparr>rstack := st, ridx := ridx r + 1, r_reply := obj\<rparr> else r\<lparr>rstack := st, ridx := ridx r + 1\<rparr>) h1"
proof -
  note live = liveD [OF assms(1)] and ok = stack_okD [OF liveD(5) [OF assms(1)]]
  define d where "d = nat (ridx r)"
  have d: "ridx r = int d" "d < 8" using assms(2,3) by (simp_all add: d_def)
  define st where "st = (rstack r)[d := (rstack r ! d)\<lparr>t_elements := n, t_obj := obj\<rparr>,
    Suc d := fresh_task (Ptr (int d)) 0 (r_privdata r)]"
  have len: "length (rstack r) = 9" by (rule ok(1))
  have nat: "nat (int d + 1) = Suc d" by simp
  have push: "push_task r (rstack r ! d) n obj = Some (r\<lparr>rstack := st, ridx := int d + 1\<rparr>)"
    using d len assms(4,5) by (simp add: push_task_def set_task_def nat st_def)
  have nth: "st ! d = (rstack r ! d)\<lparr>t_elements := n, t_obj := obj\<rparr>" "st ! Suc d = fresh_task (Ptr (int d)) 0 (r_privdata r)"
    "\<And>i. i < d \<Longrightarrow> st ! i = rstack r ! i"
    using d len by (simp_all add: st_def nth_list_update)
  have stack: "stack_ok st (int d + 1)"
    unfolding stack_ok_def nat
  proof (intro conjI allI impI)
    fix i
    assume "i < Suc d"
    then consider "i = d" | "i < d" "Suc i = d" | "i < d" "Suc i < d" by linarith
    then have "t_type (st ! i) = 2 \<and> 0 \<le> t_idx (st ! Suc i) \<and> t_idx (st ! Suc i) < t_elements (st ! i) \<and>
      t_elements (st ! i) \<le> INT_MAX \<and> t_parent (st ! Suc i) = Ptr (int i)"
    proof cases
      case 1
      then show ?thesis using nth(1,2) assms(4,5,8) by (simp add: fresh_task_def flip: d_def)
    next
      case 2
      then show ?thesis using ok(6) [of i] nth(1) nth(3) [of i] by (simp flip: d_def)
    next
      case 3
      then show ?thesis using ok(6) [of i] nth(3) [of i] nth(3) [of "Suc i"] by (simp flip: d_def)
    qed
    then show "t_type (st ! i) = 2" "0 \<le> t_idx (st ! Suc i)" "t_idx (st ! Suc i) < t_elements (st ! i)"
      "t_elements (st ! i) \<le> INT_MAX" "t_parent (st ! Suc i) = Ptr (int i)" by blast+
  next
    show "t_parent (st ! 0) = NULL" using ok(4) assms(2) nth by (cases d) auto
    show "t_type (st ! Suc d) \<in> {- 1, 1, 2, 3, 5, 6}" using nth by (simp add: fresh_task_def)
  qed (use len d in \<open>simp_all add: st_def\<close>)
  have arrays: "map (\<lambda>i. (t_obj (st ! i), t_elements (st ! i))) [0..<Suc d] = open_arrays r @ [(obj, n)]"
    using nth d by (simp add: open_arrays_def)
  let ?r2 = "r\<lparr>rstack := st, ridx := int d + 1\<rparr>"
  have "buf_ok ?r2" "buf_ok (?r2\<lparr>r_reply := obj\<rparr>)" using live(4) by (simp_all add: buf_ok_def)
  moreover have "0 < d \<Longrightarrow> t_obj (st ! 0) = r_reply r \<and> r_reply r \<noteq> 0" using nth live(8) d by auto
  moreover have "d = 0 \<Longrightarrow> t_obj (st ! 0) = obj" using nth by simp
  moreover have "open_arrays ?r2 = map (\<lambda>i. (t_obj (st ! i), t_elements (st ! i))) [0..<Suc d]"
    "open_arrays (?r2\<lparr>r_reply := obj\<rparr>) = map (\<lambda>i. (t_obj (st ! i), t_elements (st ! i))) [0..<Suc d]"
    by (simp_all add: open_arrays_def nat)
  then have "hinv h1 (open_arrays ?r2)" "hinv h1 (open_arrays (?r2\<lparr>r_reply := obj\<rparr>))"
    using arrays assms(7) by simp_all
  ultimately have "live (if ridx r = 0 then ?r2\<lparr>r_reply := obj\<rparr> else ?r2) h1"
    using live(1-3) stack assms(6) d by (cases "d = 0") (simp_all add: live_def)
  then show ?thesis using push d nth by (intro exI [of _ st]) (cases "d = 0"; simp)
qed

lemma push_task_ok:
  assumes "live r h" "0 \<le> ridx r" "ridx r < 8" "0 < n" "n \<le> INT_MAX" "obj \<noteq> 0"
    and "hinv h1 (open_arrays r @ [(obj, n)])" "t_type (rstack r ! nat (ridx r)) = REDIS_REPLY_ARRAY" "stars_ok r"
  shows "\<exists>r2. push_task r (rstack r ! nat (ridx r)) n obj = Some r2 \<and> r_buf r2 = r_buf r \<and> r_len r2 = r_len r \<and>
    r_pos r2 = r_pos r \<and> counts_ok r2 \<and> live (if ridx r = 0 then r2\<lparr>r_reply := obj\<rparr> else r2) h1"
proof -
  obtain st where st: "push_task r (rstack r ! nat (ridx r)) n obj = Some (r\<lparr>rstack := st, ridx := ridx r + 1\<rparr>)"
    "st ! Suc (nat (ridx r)) = fresh_task (Ptr (ridx r)) 0 (r_privdata r)"
    "live (if ridx r = 0 then r\<lparr>rstack := st, ridx := ridx r + 1, r_reply := obj\<rparr> else r\<lparr>rstack := st, ridx := ridx r + 1\<rparr>) h1"
    using push_task_live [OF assms(1-8)] by (elim exE conjE) (rule that)
  have "nat (ridx r + 1) = Suc (nat (ridx r))" using assms(2) by (simp add: nat_add_distrib)
  then have "counts_ok (r\<lparr>rstack := st, ridx := ridx r + 1\<rparr>)"
    by (intro counts_ok_move [OF assms(9)]) (simp_all add: rbuf_def st(2) fresh_task_def)
  with st show ?thesis by simp
qed

lemma processMultiBulkItem_settled:
  assumes "live r h" "0 \<le> ridx r" "counts_ok r" "t_type (rstack r ! nat (ridx r)) = REDIS_REPLY_ARRAY"
  shows "settled r (processMultiBulkItem r h)"
proof -
  note live = liveD [OF assms(1)]
  obtain s p where buf: "r_buf r = Ptr s" "sds_ok s" "rbuf r = Some (sh_buf s)" "r_pos r = int p"
    "p \<le> length (sds_str s)" "r_len r = int (length (sds_str s))" "int (length (sds_str s)) \<le> INT_MAX"
    using buf_okE [OF live(4)] by metis
  let ?cur = "rstack r ! nat (ridx r)"
  obtain par where cur: "cur_task r = Some (?cur, par)" and fits: "arg_fits (open_arrays r) (?cur, par)"
    using cur_task_ok [OF assms(1,2)] by blast
  show ?thesis
  proof (cases "ridx r = 8")
    case True
    let ?msg = "cstr ''No support for nested multi bulk replies with depth > 7''"
    obtain r' h' where "redisReaderSetError r h REDIS_ERR_PROTOCOL ?msg = Some (r', h')" "dead r' h'"
      using set_error_dead [OF assms(1,2), of REDIS_ERR_PROTOCOL ?msg] by (auto simp: cstr_def)
    with True cur show ?thesis by (simp add: processMultiBulkItem_def settled_def)
  next
    case False
    from live(4) buf(1,4,5) show ?thesis
    proof (cases rule: readLine_cases)
      case none
      with assms(1-3) cur False show ?thesis by (simp add: processMultiBulkItem_def settled_def)
    next
      case (line k)
      define r1 where "r1 = r\<lparr>r_pos := int (p + k + 2)\<rparr>"
      have r1: "rbuf r1 = Some (sh_buf s)" "r_fn r1 = fn" "readLine r = Some (Ptr (int p), int k, r1)"
        "ridx r1 = ridx r" "rstack r1 = rstack r" "r_buf r1 = r_buf r" "r_len r1 = r_len r" "r_pos r < r_pos r1"
        "open_arrays r1 = open_arrays r"
        using buf(3,4) live(1) line(2) by (simp_all add: rbuf_def r1_def)
      have l1: "live r1 h'" if "hinv h' (open_arrays r)" for h'
        using live_pos [OF assms(1) buf(1) line(3)] live_heap that unfolding r1_def by simp
      have star: "stars_ok r1" using stars_ok_same [OF counts_ok_stars [OF assms(3)]] r1(1) buf(3) by simp
      obtain n where n: "readLongLong (sh_buf s) (int p) = Some n" "- 9223372036854775808 \<le> n"
        using readLongLong_total [of p "p + k" "sh_buf s"] line(4,5) by auto
      have nmax: "n \<le> INT_MAX" using assms(2-4) n(1) buf(3,4) by (auto simp: counts_ok_def)
      let ?root = "\<lambda>obj r2. if ridx r = 0 then r2\<lparr>r_reply := obj\<rparr> else r2"
      have move: "settled r (if obj = 0 then fail_oom r1 h1
          else do { r2 \<leftarrow> moveToNextTask r1; Some (REDIS_OK, ?root obj r2, h1) })"
        if hv: "hinv h1 (open_arrays r)" for obj h1
      proof (cases "obj = 0")
        case True
        then show ?thesis using fail_oom_settled [OF l1 [OF hv]] assms(2) r1(4) by simp
      next
        case nz: False
        obtain r2 r' where "moveToNextTask r1 = Some r2" "?root obj r2 = r'" "live r' h1" "counts_ok r'"
          "r_buf r' = r_buf r1" "r_len r' = r_len r1" "r_pos r' = r_pos r1"
          using finish_item [OF l1 [OF hv] _ nz star] assms(2) r1(4) by metis
        with nz r1 show ?thesis by (simp add: settled_def)
      qed
      show ?thesis
      proof (cases "n = - 1")
        case True
        obtain obj h1 where mk: "make_nil r1 h (?cur, par) = Some (obj, h1)" "hinv h1 (open_arrays r)"
          using nil_law [OF r1(2) live(6) fits] by blast
        then have "processMultiBulkItem r h = (if obj = 0 then fail_oom r1 h1
            else do { r2 \<leftarrow> moveToNextTask r1; Some (REDIS_OK, ?root obj r2, h1) })"
          using cur False r1 n True by (simp add: processMultiBulkItem_def Let_def)
        with move [OF mk(2), of obj] show ?thesis by simp
      next
        case neg: False
        have tn: "- 2147483648 \<le> to_int n" "to_int n \<le> INT_MAX" by (rule to_int_range)+
        obtain obj h1 where mk: "make_array r1 h (?cur, par) (to_int n) = Some (obj, h1)" "hinv h1 (open_arrays r)"
          "obj \<noteq> 0 \<longrightarrow> 0 < to_int n \<longrightarrow> hinv h1 (open_arrays r @ [(obj, to_int n)])"
          using array_law [OF r1(2) live(6) fits tn] by blast
        have step: "processMultiBulkItem r h = (if obj = 0 then fail_oom r1 h1
            else do { r2 \<leftarrow> (if n > 0 then push_task r1 ?cur n obj else moveToNextTask r1);
                      Some (REDIS_OK, ?root obj r2, h1) })"
          using cur False r1 n neg mk(1) by (simp add: processMultiBulkItem_def Let_def)
        show ?thesis
        proof (cases "0 < n \<and> obj \<noteq> 0")
          case False
          then have "processMultiBulkItem r h = (if obj = 0 then fail_oom r1 h1
              else do { r2 \<leftarrow> moveToNextTask r1; Some (REDIS_OK, ?root obj r2, h1) })"
            using step by auto
          with move [OF mk(2), of obj] show ?thesis by simp
        next
          case True
          then have "to_int n = n" using nmax by simp
          then have h1: "hinv h1 (open_arrays r1 @ [(obj, n)])" using mk(3) True r1(9) by simp
          have "ridx r < 8" using stack_okD(3) [OF live(5)] False by simp
          then obtain r2 where r2: "push_task r1 ?cur n obj = Some r2" "r_buf r2 = r_buf r1" "r_len r2 = r_len r1"
            "r_pos r2 = r_pos r1" "counts_ok r2" "live (?root obj r2) h1"
            using push_task_ok [OF l1 [OF mk(2)] _ _ _ nmax _ h1 _ star] assms(2,4) True r1(4,5) by auto
          have "counts_ok (?root obj r2)" using r2(5) by (auto simp: counts_ok_def stars_ok_def rbuf_def)
          with True step r2 r1 show ?thesis by (simp add: settled_def)
        qed
      qed
    qed
  qed
qed

lemma process_typed_settled:
  assumes "live r h" "0 \<le> ridx r" "counts_ok r" "t_type (rstack r ! nat (ridx r)) = ty" "0 \<le> ty"
  shows "settled r (process_typed r h ty)"
proof -
  have "ty \<in> {1, 2, 3, 5, 6}" using stack_okD(5) [OF liveD(5) [OF assms(1)] assms(2)] assms(4,5) by auto
  then show ?thesis
    using processLineItem_settled [OF assms(1-3)] processBulkItem_settled [OF assms(1-3)]
      processMultiBulkItem_settled [OF assms(1-3)] assms(4) by (auto simp: process_typed_def)
qed

text \<open>The type byte of an item.\<close>

lemma processItem_type:
  assumes "live r h" "0 \<le> ridx r" "t_type (rstack r ! nat (ridx r)) < 0" "r_buf r = Ptr s" "r_pos r = int p"
    "p < length (sds_str s)" "reply_type_of (sh_buf s ! p) = Some ty"
    and r2: "r2 = r\<lparr>r_pos := int (p + 1), rstack := (rstack r)[nat (ridx r) := (rstack r ! nat (ridx r))\<lparr>t_type := ty\<rparr>]\<rparr>"
  shows "live r2 h" "processItem r h = process_typed r2 h ty" "open_arrays r2 = open_arrays r"
proof -
  note live = liveD [OF assms(1)] and ok = stack_okD [OF liveD(5) [OF assms(1)]]
  obtain p' where buf: "sds_ok s" "rbuf r = Some (sh_buf s)" "r_len r = int (length (sds_str s))" "int (length (sds_str s)) \<le> INT_MAX"
    using buf_okE [OF live(4)] assms(4) by (metis ptr.inject)
  let ?cur = "rstack r ! nat (ridx r)"
  let ?st = "(rstack r)[nat (ridx r) := ?cur\<lparr>t_type := ty\<rparr>]"
  have at: "task_at (rstack r) (ridx r) = Some ?cur" using ok(1,3) assms(2) by (simp add: task_at_def)
  have rb: "readBytes r 1 = (Ptr (int p), r\<lparr>r_pos := int (p + 1)\<rparr>)"
    using buf(3,4) assms(5,6) by (simp add: readBytes_def add.commute del: length_sds_str)
  have c: "byte_at (sh_buf s) (int p) = Some (sh_buf s ! p)" using sh_buf_nth(2) [OF buf(1) assms(6)] by (simp add: byte_at_def)
  have ty: "ty \<in> {1, 2, 3, 5, 6}" using assms(7) by (auto simp: reply_type_of_def split: if_splits)
  have idx: "nat (ridx r) < 9" using ok(3) assms(2) by simp
  have stack: "stack_ok ?st (ridx r)" using live(5) ty idx by (auto simp: stack_ok_def nth_list_update)
  show arrays: "open_arrays r2 = open_arrays r" by (auto simp: open_arrays_def r2 nth_list_update)
  have "t_obj (?st ! 0) = t_obj (rstack r ! 0)" using idx ok(1) by (simp add: nth_list_update)
  moreover have "live (r\<lparr>r_pos := int (p + 1)\<rparr>) h" using live_pos [OF assms(1,4), of "p + 1"] assms(6) by simp
  ultimately show "live r2 h"
    using stack live(6) arrays unfolding live_def by (auto simp: buf_ok_def r2)
  have "set_task (rstack r) (ridx r) (?cur\<lparr>t_type := ty\<rparr>) = Some ?st"
    using assms(2) idx ok(1) by (simp add: set_task_def)
  then show "processItem r h = process_typed r2 h ty"
    using at assms(3,7) rb buf(2) c by (simp add: processItem_def r2 rbuf_def)
qed

lemma processItem_settled:
  assumes "live r h" "0 \<le> ridx r" "counts_ok r"
  shows "settled r (processItem r h)"
proof -
  note live = liveD [OF assms(1)] and ok = stack_okD [OF liveD(5) [OF assms(1)]]
  obtain s p where buf: "r_buf r = Ptr s" "sds_ok s" "rbuf r = Some (sh_buf s)" "r_pos r = int p"
    "p \<le> length (sds_str s)" "r_len r = int (length (sds_str s))" "int (length (sds_str s)) \<le> INT_MAX"
    using buf_okE [OF live(4)] by metis
  let ?cur = "rstack r ! nat (ridx r)"
  have at: "task_at (rstack r) (ridx r) = Some ?cur" using ok(1,3) assms(2) by (simp add: task_at_def)
  show ?thesis
  proof (cases "t_type ?cur < 0")
    case False
    with process_typed_settled [OF assms refl] at show ?thesis by (simp add: processItem_def)
  next
    case True
    show ?thesis
    proof (cases "p = length (sds_str s)")
      case end_of_buffer: True
      then have "readBytes r 1 = (NULL, r)" using buf(4,6) by (simp add: readBytes_def)
      with at True assms show ?thesis by (simp add: processItem_def settled_def)
    next
      case False
      define r1 where "r1 = r\<lparr>r_pos := int (p + 1)\<rparr>"
      have lt: "p < length (sds_str s)" using False buf(5) by simp
      then have rb: "readBytes r 1 = (Ptr (int p), r1)"
        using buf(4,6,7) by (simp add: readBytes_def r1_def add.commute del: length_sds_str)
      have r1: "rbuf r1 = Some (sh_buf s)" "live r1 h" "ridx r1 = ridx r" "rstack r1 = rstack r"
        using buf(3) live_pos [OF assms(1) buf(1), of "p + 1"] lt by (simp_all add: rbuf_def r1_def)
      let ?c = "sh_buf s ! p"
      have c: "byte_at (sh_buf s) (int p) = Some ?c" using sh_buf_nth(2) [OF buf(2) lt] by (simp add: byte_at_def)
      show ?thesis
      proof (cases "reply_type_of ?c")
        case None
        let ?msg = "c_snprintf 128 (''Protocol error, got '' @ takeWhile (\<lambda>c. c \<noteq> NUL) (chrtos 8 ?c) @ '' as reply type byte'')"
        obtain r' h' where "redisReaderSetError r1 h REDIS_ERR_PROTOCOL ?msg = Some (r', h')" "dead r' h'"
          using set_error_dead [OF r1(2), of REDIS_ERR_PROTOCOL ?msg] r1(3) assms(2)
          by (auto simp: c_snprintf_def cstr_def)
        with None at True rb r1 c show ?thesis
          by (simp add: processItem_def settled_def redisReaderSetErrorProtocolByte_def Let_def)
      next
        case (Some ty)
        let ?st = "(rstack r)[nat (ridx r) := ?cur\<lparr>t_type := ty\<rparr>]"
        let ?r2 = "r\<lparr>r_pos := int (p + 1), rstack := ?st\<rparr>"
        have ty: "ty \<in> {1, 2, 3, 5, 6}" using Some by (auto simp: reply_type_of_def split: if_splits)
        have idx: "nat (ridx r) < 9" using ok(3) assms(2) by simp
        note typed = processItem_type [OF assms(1,2) True buf(1,4) lt Some refl]
        have "live ?r2 h" by (rule typed(1))
        moreover have "counts_ok ?r2"
        proof -
          have "stars_ok ?r2" using stars_ok_same [OF counts_ok_stars [OF assms(3)], of ?r2] r1(1) buf(3)
            by (simp add: rbuf_def)
          moreover have "v \<le> INT_MAX" if "ty = REDIS_REPLY_ARRAY" "readLongLong (sh_buf s) (int p + 1) = Some v" for v
          proof -
            have "?c = CHR ''*''" using Some that(1) by (auto simp: reply_type_of_def split: if_splits)
            then show ?thesis using assms(3) c that(2) buf(3) by (auto simp: counts_ok_def stars_ok_def)
          qed
          moreover have "rbuf ?r2 = Some (sh_buf s)" using buf(1) by (simp add: rbuf_def)
          ultimately show ?thesis
            using idx ok(1) r1(3) by (auto simp: counts_ok_def r1_def add.commute)
        qed
        ultimately have "settled ?r2 (process_typed ?r2 h ty)"
          using process_typed_settled [of ?r2 h ty] assms(2) ty idx ok(1) by auto
        then have "settled r (process_typed ?r2 h ty)"
          using buf(4) by (auto simp: settled_def)
        then show ?thesis using typed(2) by simp
      qed
    qed
  qed
qed

text \<open>The loop ends because every item it accepts consumes input.\<close>

lemma process_loop_ok:
  assumes "live r h" "counts_ok r"
  shows "\<exists>r' h'. process_loop r h = Some (r', h') \<and>
    (live r' h' \<and> counts_ok r' \<and> r_buf r' = r_buf r \<and> r_len r' = r_len r \<and> r_pos r \<le> r_pos r' \<or> dead r' h')"
  using assms
proof (induction "nat (r_len r - r_pos r)" arbitrary: r h rule: less_induct)
  case less
  show ?case
  proof (cases "0 \<le> ridx r")
    case False
    with less.prems show ?thesis by (subst process_loop.simps) auto
  next
    case True
    from processItem_settled [OF less.prems(1) True less.prems(2)] obtain rc r1 h1 where
      it: "processItem r h = Some (rc, r1, h1)" and out:
      "rc = REDIS_OK \<and> live r1 h1 \<and> counts_ok r1 \<and> r_buf r1 = r_buf r \<and> r_len r1 = r_len r \<and> r_pos r < r_pos r1 \<or>
       rc = REDIS_ERR \<and> live r1 h1 \<and> counts_ok r1 \<and> 0 \<le> ridx r1 \<and> r_buf r1 = r_buf r \<and> r_len r1 = r_len r \<and> r_pos r \<le> r_pos r1 \<or>
       rc = REDIS_ERR \<and> dead r1 h1"
      by (auto simp: settled_def)
    have unf: "process_loop r h = (if rc \<noteq> 0 then Some (r1, h1) else process_loop r1 h1)"
      using True it by (subst process_loop.simps) simp
    show ?thesis
    proof (cases "rc = 0")
      case False
      with out unf show ?thesis by auto
    next
      case ok: True
      with out have l1: "live r1 h1" "counts_ok r1" "r_buf r1 = r_buf r" "r_len r1 = r_len r" "r_pos r < r_pos r1" by auto
      have "r_pos r1 \<le> r_len r1" using liveD(4) [OF l1(1)] by (auto simp: buf_ok_def)
      then have "nat (r_len r1 - r_pos r1) < nat (r_len r - r_pos r)" using l1(4,5) by simp
      from less.hyps [OF this l1(1,2)] l1 unf ok show ?thesis by fastforce
    qed
  qed
qed

text \<open>The state between two calls: no error and nothing pending, or an item that waits for more input, or an error.\<close>

definition reader_inv :: "'h redisReader \<Rightarrow> 'h \<Rightarrow> bool" where
  "reader_inv r h \<longleftrightarrow> live r h \<and> (ridx r = - 1 \<longrightarrow> r_reply r = 0) \<or> dead r h"

lemma discard_consumed_ok:
  assumes "live r h"
  shows "\<exists>r'. discard_consumed r = Some r' \<and> live r' h \<and> ridx r' = ridx r \<and> r_reply r' = r_reply r"
proof -
  note live = liveD [OF assms]
  obtain s p where buf: "r_buf r = Ptr s" "sds_ok s" "rbuf r = Some (sh_buf s)" "r_pos r = int p"
    "p \<le> length (sds_str s)" "r_len r = int (length (sds_str s))" "int (length (sds_str s)) \<le> INT_MAX"
    using buf_okE [OF live(4)] by metis
  show ?thesis
  proof (cases "1024 \<le> p")
    case False
    with assms buf(4) show ?thesis by (simp add: discard_consumed_def)
  next
    case True
    have "int p \<le> sh_len s" using buf(5) length_sds_str [OF buf(2)] by linarith
    then obtain s' where s': "sdsrange s (int p) (- 1) = Some s'" "sds_ok s'"
      using sdsrange_drop [OF buf(2), of "int p"] by auto
    define r' where "r' = r\<lparr>r_buf := Ptr s', r_pos := 0, r_len := sdslen s'\<rparr>"
    have "to_int (int p) = int p" using buf(5,7) by simp
    then have "discard_consumed r = Some r'"
      using True buf(1,4) s'(1) by (simp add: discard_consumed_def r'_def)
    moreover have "buf_ok r'" using s'(2) sds_okD(1) [OF s'(2)] by (simp add: buf_ok_def r'_def)
    then have "live r' h" using assms by (auto simp: live_def r'_def open_arrays_def)
    ultimately show ?thesis by (simp add: r'_def)
  qed
qed

lemma start_root:
  assumes "live r h" "ridx r = - 1" "r_reply r = 0" "counts_ok r"
  shows "\<exists>st. set_task (rstack r) 0 (fresh_task NULL (- 1) (r_privdata r)) = Some st \<and>
    live (r\<lparr>rstack := st, ridx := 0\<rparr>) h \<and> counts_ok (r\<lparr>rstack := st, ridx := 0\<rparr>)"
proof -
  note live = liveD [OF assms(1)]
  have len: "length (rstack r) = 9" by (rule stack_okD(1) [OF live(5)])
  let ?st = "(rstack r)[0 := fresh_task NULL (- 1) (r_privdata r)]"
  have st: "set_task (rstack r) 0 (fresh_task NULL (- 1) (r_privdata r)) = Some ?st"
    using len by (simp add: set_task_def)
  have "hinv h []" using live(6) assms(2) by (simp add: open_arrays_def)
  moreover have "stack_ok ?st 0" using len by (simp add: stack_ok_def fresh_task_def)
  moreover have "buf_ok (r\<lparr>rstack := ?st, ridx := 0\<rparr>)" using live(4) by (simp add: buf_ok_def)
  ultimately have "live (r\<lparr>rstack := ?st, ridx := 0\<rparr>) h"
    using live assms(3) by (simp add: live_def open_arrays_def)
  moreover have "counts_ok (r\<lparr>rstack := ?st, ridx := 0\<rparr>)"
    by (rule counts_ok_move [OF counts_ok_stars [OF assms(4)]]) (use len in \<open>simp_all add: rbuf_def fresh_task_def\<close>)
  ultimately show ?thesis using st by blast
qed

lemma redisReaderGetReply_safe:
  assumes "reader_inv r h" "counts_ok r"
  shows "\<exists>rc reply r' h'. redisReaderGetReply r h = Some (rc, reply, r', h') \<and> reader_inv r' h' \<and>
    (rc = REDIS_OK \<and> r_err r' = 0 \<or> rc = REDIS_ERR \<and> r_err r' \<noteq> 0 \<and> reply = 0)"
proof (cases "r_err r = 0")
  case False
  with assms(1) show ?thesis by (auto simp: redisReaderGetReply_def)
next
  case True
  with assms(1) have live: "live r h" "ridx r = - 1 \<longrightarrow> r_reply r = 0" by (auto simp: reader_inv_def dead_def)
  show ?thesis
  proof (cases "r_len r = 0")
    case True
    with live assms(1) \<open>r_err r = 0\<close> show ?thesis by (simp add: redisReaderGetReply_def)
  next
    case False
    obtain r1 where r1: "(if ridx r = - 1
          then do { st \<leftarrow> set_task (rstack r) 0 (fresh_task NULL (- 1) (r_privdata r)); Some (r\<lparr>rstack := st, ridx := 0\<rparr>) }
          else Some r) = Some r1" "live r1 h" "counts_ok r1"
      using start_root [OF live(1)] live assms(2) by (cases "ridx r = - 1") auto
    obtain r2 h2 where r2: "process_loop r1 h = Some (r2, h2)" "live r2 h2 \<or> dead r2 h2"
      using process_loop_ok [OF r1(2,3)] by blast
    have unf: "redisReaderGetReply r h = (if r_err r2 \<noteq> 0 then Some (REDIS_ERR, 0, r2, h2)
        else do { r3 \<leftarrow> discard_consumed r2;
          Some (if ridx r3 = - 1 then (REDIS_OK, r_reply r3, r3\<lparr>r_reply := 0\<rparr>, h2) else (REDIS_OK, 0, r3, h2)) })"
      using \<open>r_err r = 0\<close> False r1(1) r2(1) by (simp add: redisReaderGetReply_def)
    show ?thesis
    proof (cases "r_err r2 = 0")
      case False
      then have "dead r2 h2" using r2(2) by (auto simp: live_def)
      with False unf show ?thesis by (simp add: reader_inv_def)
    next
      case ok: True
      then have "live r2 h2" using r2(2) by (auto simp: dead_def)
      then obtain r3 where r3: "discard_consumed r2 = Some r3" "live r3 h2" "ridx r3 = ridx r2"
        using discard_consumed_ok by blast
      have "live (r3\<lparr>r_reply := 0\<rparr>) h2" if "ridx r3 = - 1"
        using r3(2) that by (auto simp: live_def buf_ok_def open_arrays_def)
      with r3 unf ok show ?thesis by (cases "ridx r3 = - 1") (auto simp: reader_inv_def live_def)
    qed
  qed
qed

lemma set_error_idle:
  assumes "live r h" "ridx r = - 1 \<Longrightarrow> r_reply r = 0" "ty \<in> {REDIS_ERR_PROTOCOL, REDIS_ERR_OOM}" "NUL \<in> set str"
  shows "\<exists>r' h'. redisReaderSetError r h ty str = Some (r', h') \<and> dead r' h' \<and> r_err r' = ty"
proof (cases "0 \<le> ridx r")
  case True
  from set_error_dead [OF assms(1) this assms(3,4)] show ?thesis by blast
next
  case False
  note live = liveD [OF assms(1)]
  have d: "ridx r = - 1" using stack_okD(2) [OF live(5)] False by simp
  then have h: "hinv h []" using live(6) by (simp add: open_arrays_def)
  obtain es where "put_errstr (r_errstr r) str = Some es" "length es = 128" "NUL \<in> set es"
    using put_errstr_ok [OF live(3) assms(4)] by blast
  moreover obtain s where "r_buf r = Ptr s" using live(4) by (auto simp: buf_ok_def)
  ultimately show ?thesis
    using assms(2) [OF d] assms(3) h live(1)
    by (cases "fn_of r freeObject") (simp_all add: redisReaderSetError_def dead_def Let_def)
qed

text \<open>
  Feeding appends the bytes to the buffer, unless memory is short; a large buffer that is empty is
  replaced by a new one first.
\<close>

lemma redisReaderFeed_ok:
  assumes "reader_inv r h" "plenty e" "t \<noteq> []" "r_len r + int (length t) \<le> SDS_LIMIT"
  shows "\<exists>rc r' h'. redisReaderFeed e r h (Ptr (t @ rest)) (int (length t)) = Some (rc, r', h') \<and> reader_inv r' h' \<and>
    (r_err r = 0 \<longrightarrow> rc = REDIS_OK \<and> h' = h \<and> r_pos r' = r_pos r \<and> rstack r' = rstack r \<and> ridx r' = ridx r \<and>
      r_fn r' = r_fn r \<and> r_err r' = 0 \<and> r_privdata r' = r_privdata r \<and> r_reply r' = r_reply r \<and>
      (\<exists>s s'. r_buf r = Ptr s \<and> r_buf r' = Ptr s' \<and> sds_str s' = sds_str s @ t))"
proof (cases "r_err r = 0")
  case False
  with assms(1) show ?thesis by (simp add: redisReaderFeed_def)
next
  case True
  then have live: "live r h" "ridx r = - 1 \<longrightarrow> r_reply r = 0" using assms(1) by (auto simp: reader_inv_def dead_def)
  obtain s where buf: "r_buf r = Ptr s" "sds_ok s" "0 \<le> r_pos r" "r_pos r \<le> r_len r" "r_len r = sh_len s"
    using liveD(4) [OF live(1)] by (auto simp: buf_ok_def)
  have len: "1 \<le> int (length t)" using assms(3) by (simp add: Suc_leI)
  define r1 where "r1 = (if r_len r = 0 \<and> r_maxbuf r \<noteq> 0 \<and> sdsavail s > r_maxbuf r
     then r\<lparr>r_buf := Ptr (deref (the (sdsempty e))), r_pos := 0\<rparr> else r)"
  obtain s0 where s0: "sdsempty e = Some (Ptr s0)" "sds_ok s0" "sds_str s0 = []"
    using sdsempty_yields [of e] sdsempty_plenty [OF assms(2)] by (auto simp: yields_def)
  obtain s1 where s1: "r_buf r1 = Ptr s1" "sds_ok s1" "sds_str s1 = sds_str s" "sh_len s1 = r_len r" "r_pos r1 = r_pos r"
  proof (cases "r_len r = 0 \<and> r_maxbuf r \<noteq> 0 \<and> sdsavail s > r_maxbuf r")
    case True
    then have "sds_str s = []" using buf(5) by (simp add: sds_str_def)
    moreover have "sh_len s0 = 0" using length_sds_str [OF s0(2)] s0(3) by simp
    ultimately show thesis using True s0 buf by (intro that [of s0]) (simp_all add: r1_def)
  next
    case False
    with buf show thesis by (intro that [of s]) (auto simp: r1_def)
  qed
  have "sh_len s1 + int (length t) \<le> SDS_LIMIT" using s1(4) assms(4) by simp
  then obtain nb where nb: "sdscatlen e s1 (t @ rest) (int (length t)) = Some (Ptr nb)" "sds_ok nb"
    "sds_str nb = sds_str s @ t"
    using sdscatlen_yields [OF s1(2), of t e rest] sdscatlen_plenty [OF assms(2) s1(2), of t rest] s1(3)
    by (auto simp: yields_def)
  define r' where "r' = r1\<lparr>r_buf := Ptr nb, r_len := sdslen nb\<rparr>"
  have "redisReaderFeed e r h (Ptr (t @ rest)) (int (length t)) = Some (REDIS_OK, r', h)"
    using True len buf(1) s0(1) s1(1) nb(1)
    by (cases "r_len r = 0 \<and> r_maxbuf r \<noteq> 0 \<and> sdsavail s > r_maxbuf r") (auto simp: redisReaderFeed_def r'_def r1_def)
  moreover have same: "rstack r' = rstack r" "ridx r' = ridx r" "r_fn r' = r_fn r" "r_err r' = 0" "r_reply r' = r_reply r"
    "r_errstr r' = r_errstr r" "r_pos r' = r_pos r" "r_privdata r' = r_privdata r"
    using True s1(5) by (simp_all add: r'_def r1_def)
  moreover have "buf_ok r'"
  proof (rule buf_okI)
    show "r_buf r' = Ptr nb" "sds_ok nb" by (simp_all add: r'_def nb)
    show "r_len r' = int (length (sds_str nb))" using sds_okD(1-3) [OF nb(2)] length_sds_str [OF nb(2)] by (simp add: r'_def sdslen_def)
    have "sh_len s = int (length (sds_str s))" using length_sds_str [OF buf(2)] by simp
    then show "0 \<le> r_pos r'" "r_pos r' \<le> int (length (sds_str nb))" using same(7) buf(3-5) nb(3) by simp_all
  qed
  moreover from this have "live r' h"
    using live(1) same unfolding live_def by (auto simp: open_arrays_def)
  ultimately show ?thesis using live(2) buf(1) nb(3) True by (auto simp: reader_inv_def r'_def)
qed

lemma redisReaderCreate_ok:
  assumes "redisReaderCreateWithFunctions e fn = Some (Ptr r)" "hinv h []"
  shows "reader_inv r h" "r_err r = 0" "r_len r = 0"
proof -
  obtain s where s: "sdsempty e = Some (Ptr s)"
    "r = \<lparr>r_err = 0, r_errstr = zeros 128, r_buf = Ptr s, r_pos = 0, r_len = 0,
       r_maxbuf = REDIS_READER_MAX_BUF, rstack = replicate 9 (fresh_task NULL 0 0\<lparr>t_type := 0, t_elements := 0\<rparr>),
       ridx = - 1, r_reply = 0, r_fn = fn, r_privdata = 0\<rparr>"
    using assms(1) sdsempty_yields [of e]
    by (auto simp: redisReaderCreateWithFunctions_def yields_def split: if_splits)
  then have ok: "sds_ok s" "sds_str s = []" using sdsempty_yields [of e] by (auto simp: yields_def)
  have "buf_ok r" by (rule buf_okI [of _ s]) (simp_all add: s(2) ok)
  then have "live r h" using assms(2) by (simp add: live_def s(2) stack_ok_def open_arrays_def)
  then show "reader_inv r h" "r_err r = 0" "r_len r = 0" by (simp_all add: reader_inv_def s(2))
qed

lemma redisReaderFree_ok:
  assumes "reader_inv r h"
  shows "\<exists>h'. redisReaderFree r h = Some h' \<and> hinv h' []"
proof (cases "r_err r = 0")
  case True
  then have live: "live r h" "ridx r = - 1 \<longrightarrow> r_reply r = 0" using assms by (auto simp: reader_inv_def dead_def)
  show ?thesis
  proof (cases "0 < ridx r")
    case False
    then have "r_reply r = 0" "open_arrays r = []"
      using live liveD(7) [OF live(1)] stack_okD(2) [OF liveD(5) [OF live(1)]] by (cases "ridx r = 0"; simp add: open_arrays_def)+
    with liveD(6) [OF live(1)] show ?thesis by (simp add: redisReaderFree_def split: option.split)
  next
    case pos: True
    then have "[0..<nat (ridx r)] = 0 # [1..<nat (ridx r)]" by (simp add: upt_conv_Cons)
    then obtain n os where "open_arrays r = (r_reply r, n) # os"
      using liveD(8) [OF live(1) pos] by (simp add: open_arrays_def)
    with free_law [OF liveD(1) [OF live(1)]] liveD(6,8) [OF live(1)] pos
    have "\<exists>h'. free_reply r h (r_reply r) = Some h' \<and> hinv h' []" by simp
    with liveD(8) [OF live(1) pos] show ?thesis
      by (cases "fn_of r freeObject") (auto simp: redisReaderFree_def free_reply_def)
  qed
next
  case False
  then have "dead r h" using assms by (auto simp: reader_inv_def live_def)
  then show ?thesis by (auto simp: dead_def redisReaderFree_def split: option.split)
qed

end

end
