(* ===== verification/Reply.thy ===== *)
theory Reply
  imports Reader_Safe
begin

text \<open>
  The default reply objects of \<open>redis/hiredis/hiredis.c\<close>: the functions that build a tree of
  \<open>redisReply\<close> structures while the reader parses, and \<open>freeReplyObject\<close>.

  The heap maps addresses to reply structures; an address that is not allocated is a dangling
  pointer, and using it gives \<open>None\<close>. A structure holds its string buffer and its element vector,
  which the code allocates apart from it. The theory shows that the functions meet the laws of
  the interface \<open>reply_objects\<close>: building never goes wrong, the objects form a forest, and freeing
  a reply releases exactly its tree, every structure once.
\<close>

section \<open>Data\<close>

record redisReply =
  ry_type :: int
  ry_integer :: int
  ry_len :: int
  ry_str :: "bytes ptr"
  ry_elements :: int
  ry_element :: "int list ptr"

record reply_heap =
  h_env :: cenv
  h_next :: int
  h_objs :: "int \<Rightarrow> redisReply option"

section \<open>Building\<close>

text \<open>\<open>calloc\<close> clears the structure, then the type is set. The result is the address, 0 for \<open>NULL\<close>.\<close>

definition createReplyObject :: "reply_heap \<Rightarrow> int \<Rightarrow> int \<times> reply_heap" where
  "createReplyObject h type =
     (if granted (h_env h) 48
      then (h_next h, h\<lparr>h_next := h_next h + 1, h_objs := (h_objs h)(h_next h \<mapsto>
         \<lparr>ry_type = type, ry_integer = 0, ry_len = 0, ry_str = NULL, ry_elements = 0, ry_element = NULL\<rparr>)\<rparr>)
      else (0, h))"

definition set_obj :: "reply_heap \<Rightarrow> int \<Rightarrow> redisReply \<Rightarrow> reply_heap" where
  "set_obj h a ob = h\<lparr>h_objs := (h_objs h)(a \<mapsto> ob)\<rparr>"

text \<open>\<open>if (task->parent) ... parent->element[task->idx] = r\<close>.\<close>

definition link_parent :: "reply_heap \<Rightarrow> task_arg \<Rightarrow> int \<Rightarrow> reply_heap option" where
  "link_parent h arg r = (case snd arg of
      NULL \<Rightarrow> Some h
    | Ptr ptask \<Rightarrow> do {
        parent \<leftarrow> h_objs h (t_obj ptask);
        c_assert (ry_type parent = REDIS_REPLY_ARRAY);
        (case ry_element parent of
           NULL \<Rightarrow> None
         | Ptr es \<Rightarrow>
             if 0 \<le> t_idx (fst arg) \<and> t_idx (fst arg) < int (length es)
             then Some (set_obj h (t_obj ptask) (parent\<lparr>ry_element := Ptr (es[nat (t_idx (fst arg)) := r])\<rparr>))
             else None)
      })"

text \<open>
  Freeing. The recursion of \<open>freeReplyObject\<close> over the elements is a list of pending work:
  \<open>FreeReply a\<close> is a call on \<open>a\<close>, \<open>FreeCell a\<close> the release of the structure at the end of its call.
\<close>

datatype free_item = FreeReply int | FreeCell int

definition reply_children :: "redisReply \<Rightarrow> int list option" where
  "reply_children r =
     (if ry_type r = REDIS_REPLY_ARRAY
      then (case ry_element r of
          NULL \<Rightarrow> Some []
        | Ptr es \<Rightarrow> if ry_elements r \<le> int (length es)
                    then Some (filter (\<lambda>k. k \<noteq> 0) (take (nat (ry_elements r)) es)) else None)
      else Some [])"

partial_function (option) free_loop :: "free_item list \<Rightarrow> reply_heap \<Rightarrow> reply_heap option" where
  "free_loop ws h = (case ws of
      [] \<Rightarrow> Some h
    | FreeCell a # ws' \<Rightarrow> (case h_objs h a of
          None \<Rightarrow> None
        | Some ob \<Rightarrow> free_loop ws' (h\<lparr>h_objs := (h_objs h)(a := None)\<rparr>))
    | FreeReply a # ws' \<Rightarrow>
        if a = 0 then free_loop ws' h
        else (case h_objs h a of
            None \<Rightarrow> None
          | Some ob \<Rightarrow> (case reply_children ob of
              None \<Rightarrow> None
            | Some ks \<Rightarrow> free_loop (map FreeReply ks @ FreeCell a # ws') h)))"

declare free_loop.simps [code]

definition freeReplyObject :: "reply_heap \<Rightarrow> int \<Rightarrow> reply_heap option" where
  "freeReplyObject h reply = free_loop [FreeReply reply] h"

definition createStringObject :: "reply_heap \<Rightarrow> task_arg \<Rightarrow> bytes \<Rightarrow> int \<Rightarrow> (int \<times> reply_heap) option" where
  "createStringObject h arg str len = (case createReplyObject h (t_type (fst arg)) of (r, h1) \<Rightarrow>
     if r = 0 then Some (0, h1)
     else if \<not> granted (h_env h1) (to_size (len + 1))
     then do { h2 \<leftarrow> freeReplyObject h1 r; Some (0, h2) }
     else do {
       c_assert (t_type (fst arg) = REDIS_REPLY_ERROR \<or> t_type (fst arg) = REDIS_REPLY_STATUS \<or>
         t_type (fst arg) = REDIS_REPLY_STRING);
       d \<leftarrow> mem_read str 0 len;
       b \<leftarrow> mem_write (fresh (h_env h1) (to_size (len + 1))) 0 d;
       b' \<leftarrow> mem_write b len [NUL];
       ob \<leftarrow> h_objs h1 r;
       h2 \<leftarrow> link_parent (set_obj h1 r (ob\<lparr>ry_str := Ptr b', ry_len := to_int len\<rparr>)) arg r;
       Some (r, h2)
     })"

definition createArrayObject :: "reply_heap \<Rightarrow> task_arg \<Rightarrow> int \<Rightarrow> (int \<times> reply_heap) option" where
  "createArrayObject h arg elements = (case createReplyObject h REDIS_REPLY_ARRAY of (r, h1) \<Rightarrow>
     if r = 0 then Some (0, h1)
     else if elements > 0 \<and> \<not> granted (h_env h1) (to_size (8 * elements))
     then do { h2 \<leftarrow> freeReplyObject h1 r; Some (0, h2) }
     else do {
       ob \<leftarrow> h_objs h1 r;
       let vec = (if elements > 0 then Ptr (replicate (nat elements) 0) else ry_element ob);
       h2 \<leftarrow> link_parent (set_obj h1 r (ob\<lparr>ry_element := vec, ry_elements := to_size elements\<rparr>)) arg r;
       Some (r, h2)
     })"

definition createIntegerObject :: "reply_heap \<Rightarrow> task_arg \<Rightarrow> int \<Rightarrow> (int \<times> reply_heap) option" where
  "createIntegerObject h arg value = (case createReplyObject h REDIS_REPLY_INTEGER of (r, h1) \<Rightarrow>
     if r = 0 then Some (0, h1)
     else do {
       ob \<leftarrow> h_objs h1 r;
       h2 \<leftarrow> link_parent (set_obj h1 r (ob\<lparr>ry_integer := value\<rparr>)) arg r;
       Some (r, h2)
     })"

definition createNilObject :: "reply_heap \<Rightarrow> task_arg \<Rightarrow> (int \<times> reply_heap) option" where
  "createNilObject h arg = (case createReplyObject h REDIS_REPLY_NIL of (r, h1) \<Rightarrow>
     if r = 0 then Some (0, h1)
     else do { h2 \<leftarrow> link_parent h1 arg r; Some (r, h2) })"

definition defaultFunctions :: "reply_heap redisReplyObjectFunctions" where
  "defaultFunctions = \<lparr>createString = Some createStringObject, createArray = Some createArrayObject,
     createInteger = Some createIntegerObject, createNil = Some createNilObject, freeObject = Some freeReplyObject\<rparr>"

definition redisReaderCreate :: "cenv \<Rightarrow> reply_heap redisReader ptr option" where
  "redisReaderCreate e = redisReaderCreateWithFunctions e (Ptr defaultFunctions)"

section \<open>The forest of replies\<close>

definition kids :: "redisReply \<Rightarrow> int list" where
  "kids ob = (if ry_type ob = REDIS_REPLY_ARRAY
     then (case ry_element ob of NULL \<Rightarrow> [] | Ptr es \<Rightarrow> filter (\<lambda>k. k \<noteq> 0) es) else [])"

definition obj_ok :: "reply_heap \<Rightarrow> int \<Rightarrow> redisReply \<Rightarrow> bool" where
  "obj_ok h a ob \<longleftrightarrow> 0 < a \<and> a < h_next h \<and> distinct (kids ob) \<and>
     (\<forall>k \<in> set (kids ob). a < k \<and> h_objs h k \<noteq> None) \<and>
     (\<forall>es. ry_element ob = Ptr es \<longrightarrow> ry_elements ob = int (length es))"

definition heap_ok :: "reply_heap \<Rightarrow> bool" where
  "heap_ok h \<longleftrightarrow> 0 < h_next h \<and> (\<forall>a ob. h_objs h a = Some ob \<longrightarrow> obj_ok h a ob) \<and>
     (\<forall>a b oa ob k. h_objs h a = Some oa \<longrightarrow> h_objs h b = Some ob \<longrightarrow>
        k \<in> set (kids oa) \<longrightarrow> k \<in> set (kids ob) \<longrightarrow> a = b)"

definition kid_of :: "reply_heap \<Rightarrow> int \<Rightarrow> int \<Rightarrow> bool" where
  "kid_of h a k \<longleftrightarrow> (\<exists>ob. h_objs h a = Some ob \<and> k \<in> set (kids ob))"

definition tree_of :: "reply_heap \<Rightarrow> int \<Rightarrow> int set" where
  "tree_of h a = {b. (kid_of h)\<^sup>*\<^sup>* a b}"

definition without :: "reply_heap \<Rightarrow> int set \<Rightarrow> reply_heap" where
  "without h S = h\<lparr>h_objs := (\<lambda>a. if a \<in> S then None else h_objs h a)\<rparr>"

lemma heap_okD:
  assumes "heap_ok h"
  shows "0 < h_next h" "h_objs h a = Some ob \<Longrightarrow> obj_ok h a ob"
    "kid_of h a k \<Longrightarrow> kid_of h b k \<Longrightarrow> a = b"
  using assms by (auto simp: heap_ok_def kid_of_def)

lemma kids_cases:
  obtains "kids ob = []" | es where "kids ob = filter (\<lambda>k. k \<noteq> 0) es"
  by (cases "ry_element ob"; cases "ry_type ob = REDIS_REPLY_ARRAY") (simp_all add: kids_def)

lemma kids_nonzero: "k \<in> set (kids ob) \<Longrightarrow> k \<noteq> 0"
  by (cases ob rule: kids_cases) auto

lemma kid_greater:
  assumes "heap_ok h" "kid_of h a k"
  shows "a < k \<and> k \<noteq> 0 \<and> h_objs h k \<noteq> None"
proof -
  obtain ob where ob: "h_objs h a = Some ob" "k \<in> set (kids ob)" using assms(2) by (auto simp: kid_of_def)
  with heap_okD(2) [OF assms(1) ob(1)] kids_nonzero [OF ob(2)] show ?thesis unfolding obj_ok_def by blast
qed

lemma tree_ge:
  assumes "heap_ok h" "b \<in> tree_of h a"
  shows "a \<le> b"
proof -
  have "(kid_of h)\<^sup>*\<^sup>* a b" using assms(2) by (simp add: tree_of_def)
  then show ?thesis by (induction rule: rtranclp_induct) (use kid_greater [OF assms(1)] in fastforce)+
qed

lemma tree_allocated:
  assumes "heap_ok h" "h_objs h a \<noteq> None" "b \<in> tree_of h a"
  shows "h_objs h b \<noteq> None"
proof -
  have "(kid_of h)\<^sup>*\<^sup>* a b" using assms(3) by (simp add: tree_of_def)
  then show ?thesis using assms(2) by (induction rule: rtranclp_induct) (use kid_greater [OF assms(1)] in blast)+
qed

lemma tree_self [simp]: "a \<in> tree_of h a"
  by (simp add: tree_of_def)

lemma tree_unfold:
  assumes "h_objs h a = Some ob"
  shows "tree_of h a = insert a (\<Union>k \<in> set (kids ob). tree_of h k)"
proof -
  have kid: "kid_of h a k \<longleftrightarrow> k \<in> set (kids ob)" for k using assms by (simp add: kid_of_def)
  have "(kid_of h)\<^sup>*\<^sup>* a b \<longleftrightarrow> b = a \<or> (\<exists>k. kid_of h a k \<and> (kid_of h)\<^sup>*\<^sup>* k b)" for b
    by (rule iffI) (erule converse_rtranclpE, blast, blast, meson converse_rtranclp_into_rtranclp rtranclp.rtrancl_refl)
  then show ?thesis unfolding tree_of_def kid by blast
qed

text \<open>Two elements of one array have disjoint trees.\<close>

lemma tree_step_back:
  assumes "heap_ok h" "b \<in> tree_of h k" "kid_of h c b" "b \<noteq> k"
  shows "c \<in> tree_of h k"
  using assms(2-4) heap_okD(3) [OF assms(1)] unfolding tree_of_def mem_Collect_eq
  by (metis rtranclp.cases)

lemma trees_disjoint:
  assumes "heap_ok h" "kid_of h a k1" "kid_of h a k2" "k1 \<noteq> k2"
  shows "tree_of h k1 \<inter> tree_of h k2 = {}"
proof -
  have a: "a \<notin> tree_of h k1" "a \<notin> tree_of h k2"
    using tree_ge [OF assms(1)] kid_greater [OF assms(1)] assms(2,3) by force+
  have "b \<notin> tree_of h k2" if "(kid_of h)\<^sup>*\<^sup>* k1 b" for b
    using that
  proof (induction rule: rtranclp_induct)
    case base
    show ?case using tree_step_back [OF assms(1) _ assms(2), of k2] a(2) assms(4) by blast
  next
    case (step c b)
    have "b \<noteq> k2"
    proof
      assume "b = k2"
      then have "c = a" using step(2) assms(3) heap_okD(3) [OF assms(1)] by blast
      with step(1) a(1) show False by (simp add: tree_of_def)
    qed
    then show ?case using tree_step_back [OF assms(1) _ step(2), of k2] step(3) by blast
  qed
  then show ?thesis by (auto simp: tree_of_def)
qed

section \<open>Freeing\<close>

lemma reply_children_ok:
  assumes "obj_ok h a ob"
  shows "reply_children ob = Some (kids ob)"
proof -
  have "ry_elements ob = int (length es)" if "ry_element ob = Ptr es" for es
    using assms that by (simp add: obj_ok_def)
  then show ?thesis by (cases "ry_element ob") (simp_all add: reply_children_def kids_def)
qed

lemma without_objs [simp]:
  "h_objs (without h S) a = (if a \<in> S then None else h_objs h a)" "h_next (without h S) = h_next h"
  "h_env (without h S) = h_env h"
  by (simp_all add: without_def)

lemma without_cell: "(without h S)\<lparr>h_objs := (h_objs (without h S))(a := None)\<rparr> = without h (insert a S)"
  by (auto simp: without_def fun_eq_iff)

lemma free_kids:
  assumes "heap_ok h" "\<forall>k \<in> set ks. kid_of h a k" "distinct ks" "\<forall>k \<in> set ks. S \<inter> tree_of h k = {}"
    and step: "\<And>k S ws. kid_of h a k \<Longrightarrow> S \<inter> tree_of h k = {} \<Longrightarrow>
      free_loop (FreeReply k # ws) (without h S) = free_loop ws (without h (S \<union> tree_of h k))"
  shows "free_loop (map FreeReply ks @ ws) (without h S) = free_loop ws (without h (S \<union> (\<Union>k \<in> set ks. tree_of h k)))"
  using assms(2-4)
proof (induction ks arbitrary: S)
  case (Cons k ks)
  have "free_loop (map FreeReply (k # ks) @ ws) (without h S) = free_loop (map FreeReply ks @ ws) (without h (S \<union> tree_of h k))"
    using step [of k S "map FreeReply ks @ ws"] Cons.prems by simp
  also have "\<forall>j \<in> set ks. (S \<union> tree_of h k) \<inter> tree_of h j = {}"
  proof
    fix j
    assume j: "j \<in> set ks"
    then have "tree_of h k \<inter> tree_of h j = {}"
      using trees_disjoint [OF assms(1), of a k j] Cons.prems by auto
    with j Cons.prems(3) show "(S \<union> tree_of h k) \<inter> tree_of h j = {}" by auto
  qed
  then have "free_loop (map FreeReply ks @ ws) (without h (S \<union> tree_of h k)) =
      free_loop ws (without h (S \<union> tree_of h k \<union> (\<Union>j \<in> set ks. tree_of h j)))"
    using Cons.prems by (intro Cons.IH) auto
  finally show ?case by (simp add: Un_assoc)
qed simp

text \<open>One call frees the whole tree under its argument and nothing else, each structure once.\<close>

lemma free_tree:
  assumes "heap_ok h" "h_objs h a \<noteq> None" "S \<inter> tree_of h a = {}"
  shows "free_loop (FreeReply a # ws) (without h S) = free_loop ws (without h (S \<union> tree_of h a))"
  using assms(2,3)
proof (induction "nat (h_next h - a)" arbitrary: a S ws rule: less_induct)
  case less
  obtain ob where ob: "h_objs h a = Some ob" using less.prems(1) by blast
  have ok: "obj_ok h a ob" by (rule heap_okD(2) [OF assms(1) ob])
  then have a: "0 < a" "a < h_next h" by (auto simp: obj_ok_def)
  have tree: "tree_of h a = insert a (\<Union>k \<in> set (kids ob). tree_of h k)" by (rule tree_unfold [OF ob])
  have notS: "a \<notin> S" using less.prems(2) tree by auto
  have step: "free_loop (FreeReply k # ws) (without h S) = free_loop ws (without h (S \<union> tree_of h k))"
    if kd: "kid_of h a k" and dis: "S \<inter> tree_of h k = {}" for k S ws
  proof -
    have "a < k" "h_objs h k \<noteq> None" using kid_greater [OF assms(1) kd] by auto
    then show ?thesis using less.hyps [of k S ws] dis a by auto
  qed
  have "free_loop (FreeReply a # ws) (without h S) = free_loop (map FreeReply (kids ob) @ FreeCell a # ws) (without h S)"
    using a notS ob reply_children_ok [OF ok] by (subst free_loop.simps) simp
  also have "\<dots> = free_loop (FreeCell a # ws) (without h (S \<union> (\<Union>k \<in> set (kids ob). tree_of h k)))"
    using ok ob less.prems(2) tree step
    by (intro free_kids [OF assms(1), of _ a]) (auto simp: kid_of_def obj_ok_def)
  also have "a \<notin> (\<Union>k \<in> set (kids ob). tree_of h k)"
    using tree_ge [OF assms(1)] ok by (force simp: obj_ok_def)
  then have "free_loop (FreeCell a # ws) (without h (S \<union> (\<Union>k \<in> set (kids ob). tree_of h k))) =
      free_loop ws (without h (S \<union> tree_of h a))"
    using notS ob by (subst free_loop.simps) (simp add: without_cell tree)
  finally show ?case .
qed

lemma without_none: "without h {} = h"
  by (simp add: without_def)

lemma freeReplyObject_eq:
  assumes "heap_ok h" "h_objs h a \<noteq> None"
  shows "freeReplyObject h a = Some (without h (tree_of h a))"
  using free_tree [OF assms, of "{}" "[]"] by (simp add: freeReplyObject_def without_none free_loop.simps)

lemma heap_ok_without:
  assumes "heap_ok h" "\<And>b. \<not> kid_of h b a"
  shows "heap_ok (without h (tree_of h a))"
proof -
  have keep: "k \<notin> tree_of h a" if "b \<notin> tree_of h a" "h_objs h b = Some ob" "k \<in> set (kids ob)" for b ob k
    using tree_step_back [OF assms(1), of k a b] assms(2) that by (auto simp: kid_of_def)
  have "obj_ok (without h (tree_of h a)) b ob" if "b \<notin> tree_of h a" "h_objs h b = Some ob" for b ob
    using heap_okD(2) [OF assms(1) that(2)] keep [OF that] by (auto simp: obj_ok_def)
  with assms(1) show ?thesis unfolding heap_ok_def by (auto split: if_splits)
qed

section \<open>Building\<close>

text \<open>
  The invariant between the calls of the reader: a forest, in which every open array has its
  vector and the outermost one is nobody's element.
\<close>

definition is_open :: "reply_heap \<Rightarrow> int \<Rightarrow> int \<Rightarrow> bool" where
  "is_open h a n \<longleftrightarrow> (\<exists>ob es. h_objs h a = Some ob \<and> ry_type ob = REDIS_REPLY_ARRAY \<and>
     ry_element ob = Ptr es \<and> int (length es) = n)"

definition replies_inv :: "reply_heap \<Rightarrow> (int \<times> int) list \<Rightarrow> bool" where
  "replies_inv h os \<longleftrightarrow> heap_ok h \<and> (\<forall>(a, n) \<in> set os. is_open h a n) \<and>
     (os \<noteq> [] \<longrightarrow> (\<forall>b. \<not> kid_of h b (fst (hd os))))"

definition alloc_reply :: "reply_heap \<Rightarrow> redisReply \<Rightarrow> reply_heap" where
  "alloc_reply h ob = h\<lparr>h_next := h_next h + 1, h_objs := (h_objs h)(h_next h \<mapsto> ob)\<rparr>"

lemma heap_ok_bound: "heap_ok h \<Longrightarrow> h_objs h a = Some ob \<Longrightarrow> 0 < a \<and> a < h_next h"
  by (auto dest: heap_okD(2) simp: obj_ok_def)

lemma alloc_reply_simps [simp]:
  "h_objs (alloc_reply h ob) = (h_objs h)(h_next h \<mapsto> ob)" "h_next (alloc_reply h ob) = h_next h + 1"
  "h_env (alloc_reply h ob) = h_env h"
  by (simp_all add: alloc_reply_def)

lemma kid_of_alloc:
  assumes "heap_ok h" "kids ob = []"
  shows "kid_of (alloc_reply h ob) a k \<longleftrightarrow> kid_of h a k"
  using assms heap_ok_bound [OF assms(1), of "h_next h"] by (auto simp: kid_of_def)

lemma fresh_not_kid: "heap_ok h \<Longrightarrow> \<not> kid_of h a (h_next h)"
  using kid_greater [of h a "h_next h"] heap_ok_bound [of h "h_next h"] by auto

lemma alloc_reply_ok:
  assumes "replies_inv h os" "kids ob = []" "\<And>es. ry_element ob = Ptr es \<Longrightarrow> ry_elements ob = int (length es)"
  shows "replies_inv (alloc_reply h ob) os"
proof -
  have hok: "heap_ok h" using assms(1) by (simp add: replies_inv_def)
  have old: "a \<noteq> h_next h" if "h_objs h a = Some oa" for a oa using heap_ok_bound [OF hok that] by simp
  have obj: "obj_ok (alloc_reply h ob) a oa" if "h_objs h a = Some oa" for a oa
    using heap_okD(2) [OF hok that] by (auto simp: obj_ok_def)
  have new: "obj_ok (alloc_reply h ob) (h_next h) ob" using hok assms(2,3) by (simp add: obj_ok_def heap_ok_def)
  have inj: "a = b" if "kid_of (alloc_reply h ob) a k" "kid_of (alloc_reply h ob) b k" for a b k
    using that heap_okD(3) [OF hok] by (simp add: kid_of_alloc [OF hok assms(2)])
  have "heap_ok (alloc_reply h ob)"
    unfolding heap_ok_def
  proof (intro conjI allI impI)
    show "obj_ok (alloc_reply h ob) a oa" if "h_objs (alloc_reply h ob) a = Some oa" for a oa
      using that obj new by (auto split: if_splits)
    show "a = b" if "h_objs (alloc_reply h ob) a = Some oa" "h_objs (alloc_reply h ob) b = Some ob'"
      "k \<in> set (kids oa)" "k \<in> set (kids ob')" for a b oa ob' k
      using inj [of a k b] that unfolding kid_of_def by blast
  qed (use heap_okD(1) [OF hok] in simp)
  moreover have "is_open (alloc_reply h ob) a n" if "is_open h a n" for a n
    using that old by (fastforce simp: is_open_def)
  ultimately show ?thesis
    using assms(1) by (auto simp: replies_inv_def kid_of_alloc [OF hok assms(2)])
qed

lemma distinct_filter_update:
  assumes "distinct (filter P es)" "r \<notin> set es"
  shows "distinct (filter P (es[i := r]))"
proof (cases "i < length es")
  case True
  have "distinct (filter P (take i es @ es ! i # drop (Suc i) es))"
    using assms(1) id_take_nth_drop [OF True] by simp
  moreover have "r \<notin> set (take i es)" "r \<notin> set (drop (Suc i) es)"
    using assms(2) by (meson in_set_takeD, meson in_set_dropD)
  ultimately show ?thesis
    by (simp add: upd_conv_take_nth_drop [OF True] split: if_splits)
next
  case False
  with assms(1) show ?thesis by (simp add: list_update_beyond)
qed

text \<open>Linking an object that is nobody's element yet, and younger than the array.\<close>

lemma link_reply:
  assumes "heap_ok h" "h_objs h a = Some ob" "ry_type ob = REDIS_REPLY_ARRAY" "ry_element ob = Ptr es"
    "h_objs h r \<noteq> None" "a < r" "\<And>b. \<not> kid_of h b r"
    and h': "h' = set_obj h a (ob\<lparr>ry_element := Ptr (es[i := r])\<rparr>)"
  shows "heap_ok h'" "kid_of h' b k \<Longrightarrow> kid_of h b k \<or> k = r"
proof -
  let ?ob = "ob\<lparr>ry_element := Ptr (es[i := r])\<rparr>"
  have r0: "r \<noteq> 0" using heap_ok_bound [OF assms(1)] assms(5) by auto
  have kobs: "kids ob = filter (\<lambda>k. k \<noteq> 0) es" "kids ?ob = filter (\<lambda>k. k \<noteq> 0) (es[i := r])"
    using assms(3,4) by (simp_all add: kids_def)
  have res: "r \<notin> set es" using assms(7) [of a] assms(2) r0 by (auto simp: kid_of_def kobs)
  have sub: "set (kids ?ob) \<subseteq> insert r (set (kids ob))"
    using set_update_subset_insert [of es i r] by (auto simp: kobs)
  have objs: "h_objs h' b = (if b = a then Some ?ob else h_objs h b)" "h_next h' = h_next h" for b
    by (simp_all add: h' set_obj_def)
  have kid: "kid_of h b k \<or> k = r \<and> b = a" if "kid_of h' b k" for b k
    using that sub assms(2) by (cases "b = a") (auto simp: kid_of_def objs)
  then show "kid_of h' b k \<Longrightarrow> kid_of h b k \<or> k = r" by blast
  note aok = heap_okD(2) [OF assms(1,2)]
  have "obj_ok h' b ob'" if "h_objs h' b = Some ob'" for b ob'
  proof (cases "b = a")
    case True
    then have "ob' = ?ob" using that by (simp add: objs)
    moreover have "distinct (kids ?ob)"
      using aok distinct_filter_update [OF _ res] by (simp add: obj_ok_def kobs)
    moreover have "\<forall>k \<in> set (kids ?ob). a < k \<and> h_objs h' k \<noteq> None"
      using aok sub assms(5,6) by (auto simp: obj_ok_def objs)
    ultimately show ?thesis using True aok assms(4) by (simp add: obj_ok_def objs)
  next
    case False
    then have "h_objs h b = Some ob'" using that by (simp add: objs)
    from heap_okD(2) [OF assms(1) this] show ?thesis by (simp add: obj_ok_def objs)
  qed
  moreover have "b = c" if "kid_of h' b k" "kid_of h' c k" for b c k
    using kid [OF that(1)] kid [OF that(2)] heap_okD(3) [OF assms(1)] assms(7) by auto
  ultimately show "heap_ok h'"
    using heap_okD(1) [OF assms(1)] unfolding heap_ok_def kid_of_def objs(2) by blast
qed

lemma link_parent_ok:
  assumes "replies_inv h os'" "arg_fits os arg" "set os \<subseteq> set os'" "os \<noteq> [] \<Longrightarrow> hd os' = hd os"
    "h_objs h r \<noteq> None" "\<And>b. \<not> kid_of h b r" "\<And>a n. (a, n) \<in> set os \<Longrightarrow> a < r"
  shows "\<exists>h'. link_parent h arg r = Some h' \<and> replies_inv h' os'"
proof (cases "snd arg")
  case NULL
  with assms(1) show ?thesis by (simp add: link_parent_def)
next
  case (Ptr par)
  have ne: "os \<noteq> []" and idx: "0 \<le> t_idx (fst arg)" "t_idx (fst arg) < snd (last os)" "t_obj par = fst (last os)"
    using assms(2) Ptr by (auto simp: arg_fits_def)
  have last: "(fst (last os), snd (last os)) \<in> set os" using ne by simp
  then have "is_open h (t_obj par) (snd (last os))"
    using assms(1,3) idx(3) unfolding replies_inv_def by fastforce
  then obtain ob es where ob: "h_objs h (t_obj par) = Some ob" "ry_type ob = REDIS_REPLY_ARRAY"
    "ry_element ob = Ptr es" "int (length es) = snd (last os)" by (auto simp: is_open_def)
  define h' where "h' = set_obj h (t_obj par) (ob\<lparr>ry_element := Ptr (es[nat (t_idx (fst arg)) := r])\<rparr>)"
  have hok: "heap_ok h" using assms(1) by (simp add: replies_inv_def)
  have "t_obj par < r" using assms(7) [OF last] idx(3) by simp
  note new = link_reply [OF hok ob(1-3) assms(5) this assms(6) h'_def]
  have "link_parent h arg r = Some h'" using Ptr ob idx by (simp add: link_parent_def h'_def)
  moreover have "is_open h' a n" if "is_open h a n" for a n
    using that ob by (auto simp: is_open_def h'_def set_obj_def)
  moreover have "\<not> kid_of h' b (fst (hd os'))" if "os' \<noteq> []" for b
  proof -
    have "fst (hd os) \<noteq> r" using assms(7) [of "fst (hd os)" "snd (hd os)"] ne by auto
    then show ?thesis using new(2) [of b "fst (hd os')"] assms(1,4) ne that by (auto simp: replies_inv_def)
  qed
  ultimately show ?thesis using new(1) assms(1) by (auto simp: replies_inv_def)
qed

text \<open>A fresh object, linked to its array.\<close>

lemma build_reply:
  assumes "replies_inv h os" "arg_fits os arg" "kids ob = []"
    "\<And>es. ry_element ob = Ptr es \<Longrightarrow> ry_elements ob = int (length es)"
  shows "\<exists>h'. link_parent (alloc_reply h ob) arg (h_next h) = Some h' \<and> replies_inv h' os \<and>
    (is_open (alloc_reply h ob) (h_next h) n \<longrightarrow> replies_inv h' (os @ [(h_next h, n)]))"
proof -
  let ?h = "alloc_reply h ob"
  have hok: "heap_ok h" using assms(1) by (simp add: replies_inv_def)
  have inv: "replies_inv ?h os" using alloc_reply_ok [OF assms(1,3,4)] .
  have nokid: "\<not> kid_of ?h b (h_next h)" for b using fresh_not_kid [OF hok] by (simp add: kid_of_alloc [OF hok assms(3)])
  have less: "a < h_next h" if "(a, m) \<in> set os" for a m
    using assms(1) that heap_ok_bound [OF hok] by (fastforce simp: replies_inv_def is_open_def)
  have at: "h_objs ?h (h_next h) \<noteq> None" by simp
  obtain h' where h': "link_parent ?h arg (h_next h) = Some h'" "replies_inv h' os"
    using link_parent_ok [OF inv assms(2) subset_refl refl at nokid] less by blast
  have "replies_inv h' (os @ [(h_next h, n)])" if op: "is_open ?h (h_next h) n"
  proof -
    have "replies_inv ?h (os @ [(h_next h, n)])"
      using inv op nokid by (cases os) (auto simp: replies_inv_def)
    then have "\<exists>h''. link_parent ?h arg (h_next h) = Some h'' \<and> replies_inv h'' (os @ [(h_next h, n)])"
      by (rule link_parent_ok [OF _ assms(2) _ _ at nokid]) (auto intro: less)
    with h'(1) show ?thesis by simp
  qed
  with h' show ?thesis by blast
qed

lemma free_reply_inv:
  assumes "replies_inv h os" "h_objs h a \<noteq> None" "\<And>b. \<not> kid_of h b a" "\<And>b n. (b, n) \<in> set os \<Longrightarrow> b \<notin> tree_of h a"
  shows "\<exists>h'. freeReplyObject h a = Some h' \<and> replies_inv h' os"
proof -
  have hok: "heap_ok h" using assms(1) by (simp add: replies_inv_def)
  let ?h = "without h (tree_of h a)"
  have "kid_of h b k" if "kid_of ?h b k" for b k using that by (auto simp: kid_of_def split: if_splits)
  moreover have "is_open ?h b n" if "(b, n) \<in> set os" for b n
    using assms(1) assms(4) [OF that] that by (fastforce simp: replies_inv_def is_open_def)
  ultimately have "replies_inv ?h os"
    using assms(1) heap_ok_without [OF hok assms(3)] unfolding replies_inv_def by blast
  then show ?thesis using freeReplyObject_eq [OF hok assms(2)] by blast
qed

text \<open>Giving up on an object right after its structure was allocated.\<close>

lemma abandon_reply:
  assumes "replies_inv h os" "kids ob = []" "ry_element ob = NULL"
  shows "\<exists>h'. freeReplyObject (alloc_reply h ob) (h_next h) = Some h' \<and> replies_inv h' os"
proof -
  have hok: "heap_ok h" using assms(1) by (simp add: replies_inv_def)
  have inv: "replies_inv (alloc_reply h ob) os" using assms by (intro alloc_reply_ok) auto
  have "tree_of (alloc_reply h ob) (h_next h) = {h_next h}" using tree_unfold [of "alloc_reply h ob" "h_next h" ob] assms(2) by simp
  moreover have "b \<noteq> h_next h" if "(b, n) \<in> set os" for b n
    using assms(1) that heap_ok_bound [OF hok, of b] by (fastforce simp: replies_inv_def is_open_def)
  ultimately show ?thesis
    using fresh_not_kid [OF hok] by (intro free_reply_inv [OF inv]) (auto simp: kid_of_alloc [OF hok assms(2)])
qed

lemma createReplyObject_eq:
  "createReplyObject h ty = (if granted (h_env h) 48 then (h_next h, alloc_reply h
     \<lparr>ry_type = ty, ry_integer = 0, ry_len = 0, ry_str = NULL, ry_elements = 0, ry_element = NULL\<rparr>) else (0, h))"
  by (simp add: createReplyObject_def alloc_reply_def)

lemma set_obj_alloc: "set_obj (alloc_reply h ob) (h_next h) ob' = alloc_reply h ob'"
  by (simp add: set_obj_def alloc_reply_def)

lemmas create_simps = createReplyObject_eq set_obj_alloc

lemma replies_inv_next: "replies_inv h os \<Longrightarrow> h_next h \<noteq> 0"
  by (auto simp: replies_inv_def heap_ok_def)

lemma createIntegerObject_ok:
  assumes "replies_inv h os" "arg_fits os arg"
  shows "\<exists>obj h'. createIntegerObject h arg v = Some (obj, h') \<and> replies_inv h' os"
proof (cases "granted (h_env h) 48")
  case True
  let ?ob = "\<lparr>ry_type = 3, ry_integer = v, ry_len = 0, ry_str = NULL, ry_elements = 0, ry_element = NULL\<rparr>"
  have "kids ?ob = []" by (simp add: kids_def)
  from build_reply [OF assms this, of 0] True replies_inv_next [OF assms(1)] show ?thesis
    by (auto simp: createIntegerObject_def create_simps)
qed (use assms(1) in \<open>simp add: createIntegerObject_def create_simps\<close>)

lemma createNilObject_ok:
  assumes "replies_inv h os" "arg_fits os arg"
  shows "\<exists>obj h'. createNilObject h arg = Some (obj, h') \<and> replies_inv h' os"
proof (cases "granted (h_env h) 48")
  case True
  let ?ob = "\<lparr>ry_type = 4, ry_integer = 0, ry_len = 0, ry_str = NULL, ry_elements = 0, ry_element = NULL\<rparr>"
  have "kids ?ob = []" by (simp add: kids_def)
  from build_reply [OF assms this, of 0] True replies_inv_next [OF assms(1)] show ?thesis
    by (auto simp: createNilObject_def create_simps)
qed (use assms(1) in \<open>simp add: createNilObject_def create_simps\<close>)

lemma string_buffer:
  assumes "len \<le> length str" "int len < INT_MAX"
  shows "mem_read str 0 (int len) = Some (take len str)"
    "\<exists>b. mem_write (fresh e (to_size (int len + 1))) 0 (take len str) = Some b \<and>
      mem_write b (int len) [NUL] = Some (take len str @ [NUL])"
proof -
  have sz: "nat (to_size (int len + 1)) = Suc len" using assms(2) by simp
  have fr: "fresh e (to_size (int len + 1)) = [] @ map (junk e) [0..<len] @ [junk e len]" by (simp add: fresh_def sz)
  show "mem_read str 0 (int len) = Some (take len str)" using assms(1) by (simp add: mem_read_def)
  have "mem_write (fresh e (to_size (int len + 1))) 0 (take len str) = Some ([] @ take len str @ [junk e len])"
    unfolding fr by (rule mem_write_block) (use assms(1) in simp_all)
  moreover have "mem_write (take len str @ [junk e len]) (int len) [NUL] = Some (take len str @ [NUL])"
    by (rule mem_write_byte) (use assms(1) in simp)
  ultimately show "\<exists>b. mem_write (fresh e (to_size (int len + 1))) 0 (take len str) = Some b \<and>
      mem_write b (int len) [NUL] = Some (take len str @ [NUL])" by simp
qed

lemma createStringObject_ok:
  assumes "replies_inv h os" "arg_fits os arg" "t_type (fst arg) \<in> {1, 5, 6}" "len \<le> length str" "int len < INT_MAX"
  shows "\<exists>obj h'. createStringObject h arg str (int len) = Some (obj, h') \<and> replies_inv h' os"
proof (cases "granted (h_env h) 48")
  case g1: True
  let ?ob = "\<lambda>s l. \<lparr>ry_type = t_type (fst arg), ry_integer = 0, ry_len = l, ry_str = s, ry_elements = 0, ry_element = NULL\<rparr>"
  have nk: "kids (?ob s l) = []" for s l using assms(3) by (auto simp: kids_def)
  note next0 = replies_inv_next [OF assms(1)]
  show ?thesis
  proof (cases "granted (h_env h) (to_size (int len + 1))")
    case True
    obtain b where b: "mem_write (fresh (h_env h) (to_size (int len + 1))) 0 (take len str) = Some b"
      "mem_write b (int len) [NUL] = Some (take len str @ [NUL])"
      using string_buffer(2) [OF assms(4,5)] by blast
    have tt: "t_type (fst arg) = 6 \<or> t_type (fst arg) = 5 \<or> t_type (fst arg) = 1" using assms(3) by auto
    have "createStringObject h arg str (int len) =
        do { h2 \<leftarrow> link_parent (alloc_reply h (?ob (Ptr (take len str @ [NUL])) (to_int (int len)))) arg (h_next h); Some (h_next h, h2) }"
      using g1 True next0 b string_buffer(1) [OF assms(4,5)] tt
      by (simp add: createStringObject_def create_simps)
    with build_reply [OF assms(1,2) nk, of "to_int (int len)" "Ptr (take len str @ [NUL])" 0] show ?thesis
      by auto
  next
    case False
    with g1 next0 abandon_reply [OF assms(1) nk, of 0 NULL] show ?thesis
      by (auto simp: createStringObject_def create_simps)
  qed
qed (use assms(1) in \<open>simp add: createStringObject_def create_simps\<close>)

lemma createArrayObject_ok:
  assumes "replies_inv h os" "arg_fits os arg" "n \<le> INT_MAX"
  shows "\<exists>obj h'. createArrayObject h arg n = Some (obj, h') \<and> replies_inv h' os \<and>
    (obj \<noteq> 0 \<longrightarrow> 0 < n \<longrightarrow> replies_inv h' (os @ [(obj, n)]))"
proof (cases "granted (h_env h) 48")
  case g1: True
  let ?ob = "\<lambda>v l. \<lparr>ry_type = 2, ry_integer = 0, ry_len = 0, ry_str = NULL, ry_elements = l, ry_element = v\<rparr>"
  note next0 = replies_inv_next [OF assms(1)]
  show ?thesis
  proof (cases "0 < n \<and> \<not> granted (h_env h) (to_size (8 * n))")
    case True
    with g1 next0 abandon_reply [OF assms(1), of "?ob NULL 0"] show ?thesis
      by (auto simp: createArrayObject_def create_simps kids_def)
  next
    case False
    let ?vec = "if 0 < n then Ptr (replicate (nat n) 0) else NULL"
    let ?new = "?ob ?vec (to_size n)"
    have nk: "kids ?new = []" by (simp add: kids_def)
    have el: "ry_elements ?new = int (length es)" if "ry_element ?new = Ptr es" for es
      using that assms(3) by (auto split: if_splits)
    have op: "is_open (alloc_reply h ?new) (h_next h) n" if "0 < n" using that by (simp add: is_open_def)
    have "createArrayObject h arg n = do { h2 \<leftarrow> link_parent (alloc_reply h ?new) arg (h_next h); Some (h_next h, h2) }"
      using g1 False next0 by (auto simp: createArrayObject_def create_simps Let_def)
    with build_reply [OF assms(1,2) nk el, of n] op show ?thesis by auto
  qed
qed (use assms(1) in \<open>simp add: createArrayObject_def create_simps\<close>)

text \<open>The default functions meet the laws the reader relies on.\<close>

interpretation rd: reply_objects "Ptr defaultFunctions" replies_inv
proof
  fix r :: "reply_heap redisReader" and h os arg and v n :: int and str :: bytes and len :: nat and dflt :: int
  assume fn: "r_fn r = Ptr defaultFunctions" and inv: "replies_inv h os" and fits: "arg_fits os arg"
  note fns = fn_of_def fn defaultFunctions_def
  show "\<exists>obj h'. make_integer r h arg (Some v) = Some (obj, h') \<and> replies_inv h' os"
    using createIntegerObject_ok [OF inv fits] by (simp add: make_integer_def fns)
  show "\<exists>obj h'. make_nil r h arg = Some (obj, h') \<and> replies_inv h' os"
    using createNilObject_ok [OF inv fits] by (simp add: make_nil_def fns)
  show "\<exists>obj h'. make_string r h arg str (int len) dflt = Some (obj, h') \<and> replies_inv h' os"
    if "t_type (fst arg) \<in> {1, 5, 6}" "len \<le> length str" "int len < INT_MAX"
    using createStringObject_ok [OF inv fits that] by (simp add: make_string_def fns)
  show "\<exists>obj h'. make_array r h arg n = Some (obj, h') \<and> replies_inv h' os \<and>
      (obj \<noteq> 0 \<longrightarrow> 0 < n \<longrightarrow> replies_inv h' (os @ [(obj, n)]))" if "n \<le> INT_MAX"
    using createArrayObject_ok [OF inv fits that] by (simp add: make_array_def fns)
next
  fix h os x
  assume "replies_inv h (os @ [x])"
  then show "replies_inv h os" by (cases os) (auto simp: replies_inv_def)
next
  fix r :: "reply_heap redisReader" and h root n os
  assume fn: "r_fn r = Ptr defaultFunctions" and inv: "replies_inv h ((root, n) # os)"
  then have "replies_inv h []" "h_objs h root \<noteq> None" "\<And>b. \<not> kid_of h b root"
    by (auto simp: replies_inv_def is_open_def)
  with free_reply_inv [of h "[]" root] fn show "\<exists>h'. free_reply r h root = Some h' \<and> replies_inv h' []"
    by (simp add: free_reply_def fn_of_def defaultFunctions_def)
qed

end
