(* ===== verification/Resp.thy ===== *)
theory Resp
  imports C_Base
begin

text \<open>
  The wire protocol as a specification: the values a server can send and their encoding. The
  reader, the formatters of commands and the connection are all stated against it.
\<close>

datatype rval =
    VInt int
  | VStr bytes
  | VStatus bytes
  | VError bytes
  | VNil
  | VArr "rval list"

abbreviation crlf :: bytes where "crlf \<equiv> [CR, LF]"

fun encode :: "rval \<Rightarrow> bytes" where
  "encode (VInt i) = CHR '':'' # dec_int i @ crlf"
| "encode (VStr s) = CHR ''$'' # dec_string (length s) @ crlf @ s @ crlf"
| "encode (VStatus s) = CHR ''+'' # s @ crlf"
| "encode (VError s) = CHR ''-'' # s @ crlf"
| "encode VNil = ''$-1'' @ crlf"
| "encode (VArr vs) = CHR ''*'' # dec_string (length vs) @ crlf @ concat (map encode vs)"

text \<open>The values the protocol can carry: 64-bit integers, lines without a line end in status and error texts.\<close>

fun rval_ok :: "rval \<Rightarrow> bool" where
  "rval_ok (VInt i) \<longleftrightarrow> - 9223372036854775808 \<le> i \<and> i \<le> LONG_MAX"
| "rval_ok (VStr s) \<longleftrightarrow> True"
| "rval_ok (VStatus s) \<longleftrightarrow> CR \<notin> set s"
| "rval_ok (VError s) \<longleftrightarrow> CR \<notin> set s"
| "rval_ok VNil \<longleftrightarrow> True"
| "rval_ok (VArr vs) \<longleftrightarrow> list_all rval_ok vs"

text \<open>How deeply arrays are nested.\<close>

fun depth :: "rval \<Rightarrow> nat" where
  "depth (VArr vs) = Suc (foldr max (map depth vs) 0)"
| "depth _ = 0"

lemma depth_element: "v \<in> set vs \<Longrightarrow> depth v < depth (VArr vs)"
  by (induction vs) auto

text \<open>A command is sent as an array of strings.\<close>

definition encode_arg :: "bytes \<Rightarrow> bytes" where
  "encode_arg s = encode (VStr s)"

primrec encode_args :: "bytes list \<Rightarrow> bytes" where
  "encode_args [] = []"
| "encode_args (a # as) = encode_arg a @ encode_args as"

definition encode_command :: "bytes list \<Rightarrow> bytes" where
  "encode_command args = encode (VArr (map VStr args))"

lemma encode_command_eq:
  "encode_command args = CHR ''*'' # dec_string (length args) @ crlf @ encode_args args"
proof -
  have "concat (map (\<lambda>s. encode (VStr s)) args) = encode_args args"
    by (induction args) (simp_all add: encode_arg_def)
  then show ?thesis by (simp add: encode_command_def comp_def del: encode.simps(2))
qed

lemma length_encode_arg: "length (encode_arg s) = length (dec_string (length s)) + length s + 5"
  by (simp add: encode_arg_def)

lemma length_encode_args: "length args \<le> length (encode_args args)"
  by (induction args) (simp_all add: length_encode_arg)

lemma length_encode_command:
  "length (encode_command args) = length (dec_string (length args)) + 3 + length (encode_args args)"
  by (simp add: encode_command_eq)

lemma encode_nonempty [simp]: "encode v \<noteq> []"
  by (cases v) auto

end
