(* ===== verification/Reader_Round.thy ===== *)
theory Reader_Round
  imports Reply Resp
begin

text \<open>
  The reader against the protocol: the encoding of a value, fed to a reader with the default reply
  objects, is parsed into a tree of reply structures that represents the value.
\<close>

section \<open>What a reply represents\<close>

primrec represents :: "rval \<Rightarrow> reply_heap \<Rightarrow> int \<Rightarrow> bool" where
  "represents (VInt i) h a \<longleftrightarrow> (\<exists>ob. h_objs h a = Some ob \<and> ry_type ob = REDIS_REPLY_INTEGER \<and> ry_integer ob = i)"
| "represents (VStr s) h a \<longleftrightarrow> (\<exists>ob. h_objs h a = Some ob \<and> ry_type ob = REDIS_REPLY_STRING \<and>
     ry_len ob = int (length s) \<and> ry_str ob = Ptr (cstr s))"
| "represents (VStatus s) h a \<longleftrightarrow> (\<exists>ob. h_objs h a = Some ob \<and> ry_type ob = REDIS_REPLY_STATUS \<and>
     ry_len ob = int (length s) \<and> ry_str ob = Ptr (cstr s))"
| "represents (VError s) h a \<longleftrightarrow> (\<exists>ob. h_objs h a = Some ob \<and> ry_type ob = REDIS_REPLY_ERROR \<and>
     ry_len ob = int (length s) \<and> ry_str ob = Ptr (cstr s))"
| "represents VNil h a \<longleftrightarrow> (\<exists>ob. h_objs h a = Some ob \<and> ry_type ob = REDIS_REPLY_NIL \<and> ry_str ob = NULL)"
| "represents (VArr vs) h a \<longleftrightarrow> (\<exists>ob. h_objs h a = Some ob \<and> ry_type ob = REDIS_REPLY_ARRAY \<and>
     ry_elements ob = int (length vs) \<and>
     (if vs = [] then ry_element ob = NULL
      else \<exists>es. ry_element ob = Ptr es \<and> list_all2 (\<lambda>k P. a < k \<and> P h k) es (map represents vs)))"

text \<open>A representation only depends on the structures from its address on.\<close>

lemma represents_frame:
  assumes "represents v h a" "\<And>b ob. a \<le> b \<Longrightarrow> h_objs h b = Some ob \<Longrightarrow> h_objs h' b = Some ob"
  shows "represents v h' a"
  using assms
proof (induction v arbitrary: a)
  case (VArr vs)
  obtain ob where ob: "h_objs h a = Some ob" "ry_type ob = REDIS_REPLY_ARRAY" "ry_elements ob = int (length vs)"
    "if vs = [] then ry_element ob = NULL else \<exists>es. ry_element ob = Ptr es \<and> list_all2 (\<lambda>k P. a < k \<and> P h k) es (map represents vs)"
    using VArr.prems(1) by auto
  have step: "represents v h' k" if "v \<in> set vs" "a < k" "represents v h k" for v k
    using VArr.IH [OF that(1,3)] VArr.prems(2) that(2) by simp
  have "list_all2 (\<lambda>k P. a < k \<and> P h' k) es (map represents vs)" if "list_all2 (\<lambda>k P. a < k \<and> P h k) es (map represents vs)" for es
    using that step by (auto simp: list_all2_conv_all_nth)
  with ob VArr.prems(2) [OF order_refl ob(1)] show ?case by auto
qed auto

section \<open>The default functions when memory is there\<close>

abbreviation blank_reply :: "int \<Rightarrow> redisReply" where
  "blank_reply ty \<equiv> \<lparr>ry_type = ty, ry_integer = 0, ry_len = 0, ry_str = NULL, ry_elements = 0, ry_element = NULL\<rparr>"

definition make_reply :: "reply_heap \<Rightarrow> task_arg \<Rightarrow> redisReply \<Rightarrow> (int \<times> reply_heap) option" where
  "make_reply h arg ob = do { h' \<leftarrow> link_parent (alloc_reply h ob) arg (h_next h); Some (h_next h, h') }"

lemma create_plenty:
  assumes "plenty (h_env h)" "h_next h \<noteq> 0"
  shows "createIntegerObject h arg i = make_reply h arg ((blank_reply 3)\<lparr>ry_integer := i\<rparr>)"
    "createNilObject h arg = make_reply h arg (blank_reply 4)"
    "n \<le> INT_MAX \<Longrightarrow> createArrayObject h arg n = make_reply h arg ((blank_reply 2)\<lparr>
       ry_element := if n > 0 then Ptr (replicate (nat n) 0) else NULL, ry_elements := to_size n\<rparr>)"
    "t_type (fst arg) \<in> {1, 5, 6} \<Longrightarrow> len \<le> length str \<Longrightarrow> int len < INT_MAX \<Longrightarrow>
     createStringObject h arg str (int len) = make_reply h arg ((blank_reply (t_type (fst arg)))\<lparr>
       ry_len := int len, ry_str := Ptr (cstr (take len str))\<rparr>)"
proof -
  note simps = make_reply_def create_simps
  show "createIntegerObject h arg i = make_reply h arg ((blank_reply 3)\<lparr>ry_integer := i\<rparr>)"
    using assms by (simp add: createIntegerObject_def simps plenty_def)
  show "createNilObject h arg = make_reply h arg (blank_reply 4)"
    using assms by (simp add: createNilObject_def simps plenty_def)
  show "n \<le> INT_MAX \<Longrightarrow> createArrayObject h arg n = make_reply h arg ((blank_reply 2)\<lparr>
       ry_element := if n > 0 then Ptr (replicate (nat n) 0) else NULL, ry_elements := to_size n\<rparr>)"
    using assms by (auto simp: createArrayObject_def simps plenty_def Let_def)
  assume ty: "t_type (fst arg) \<in> {1, 5, 6}" and len: "len \<le> length str" "int len < INT_MAX"
  obtain b where b: "mem_write (fresh (h_env h) (to_size (int len + 1))) 0 (take len str) = Some b"
    "mem_write b (int len) [NUL] = Some (take len str @ [NUL])"
    using string_buffer(2) [OF len] by blast
  have tt: "t_type (fst arg) = 6 \<or> t_type (fst arg) = 5 \<or> t_type (fst arg) = 1" using ty by auto
  have "to_int (int len) = int len" using len(2) by simp
  then show "createStringObject h arg str (int len) = make_reply h arg ((blank_reply (t_type (fst arg)))\<lparr>
       ry_len := int len, ry_str := Ptr (cstr (take len str))\<rparr>)"
    using assms b string_buffer(1) [OF len] tt
    by (simp add: createStringObject_def simps plenty_def cstr_def)
qed

text \<open>
  The effect of one new object on the older ones: the open array at the level above, if there is
  one, gets it at the index of the current task.
\<close>

definition linked :: "'h redisReader \<Rightarrow> nat \<Rightarrow> int \<Rightarrow> reply_heap \<Rightarrow> reply_heap \<Rightarrow> bool" where
  "linked r d a h h' \<longleftrightarrow> (\<forall>b < h_next h. h_objs h' b =
     (if 0 < d \<and> b = t_obj (rstack r ! (d - 1))
      then map_option (\<lambda>ob. ob\<lparr>ry_element := Ptr ((deref (ry_element ob))[nat (t_idx (rstack r ! d)) := a])\<rparr>) (h_objs h b)
      else h_objs h b))"

lemma make_reply_ok:
  assumes "rd.live r h" "ridx r = int d" "cur_task r = Some arg" "kids ob = []"
    "\<And>es. ry_element ob = Ptr es \<Longrightarrow> ry_elements ob = int (length es)"
  shows "\<exists>h'. make_reply h arg ob = Some (h_next h, h') \<and> replies_inv h' (open_arrays r) \<and> h_env h' = h_env h \<and>
    h_next h' = h_next h + 1 \<and> h_objs h' (h_next h) = Some ob \<and> linked r d (h_next h) h h' \<and>
    (is_open (alloc_reply h ob) (h_next h) n \<longrightarrow> replies_inv h' (open_arrays r @ [(h_next h, n)]))"
proof -
  have inv: "replies_inv h (open_arrays r)" by (rule rd.liveD(6) [OF assms(1)])
  have hok: "heap_ok h" using inv by (simp add: replies_inv_def)
  have st: "stack_ok (rstack r) (ridx r)" by (rule rd.liveD(5) [OF assms(1)])
  have d: "0 \<le> ridx r" using assms(2) by simp
  have cur: "fst arg = rstack r ! d" and fits: "arg_fits (open_arrays r) arg"
    using rd.cur_task_ok [OF assms(1) d] assms(2,3) by (metis fst_conv nat_int option.inject, metis option.inject)
  from build_reply [OF inv fits assms(4,5), of n] obtain h' where h': "link_parent (alloc_reply h ob) arg (h_next h) = Some h'"
    "replies_inv h' (open_arrays r)" "is_open (alloc_reply h ob) (h_next h) n \<longrightarrow> replies_inv h' (open_arrays r @ [(h_next h, n)])"
    by blast
  have "h_env h' = h_env h \<and> h_next h' = h_next h + 1 \<and> h_objs h' (h_next h) = Some ob \<and> linked r d (h_next h) h h'"
  proof (cases d)
    case 0
    then have "snd arg = NULL" using assms(2,3) stack_okD(1,4) [OF st] by (auto simp: cur_task_def task_at_def)
    then have "h' = alloc_reply h ob" using h'(1) by (simp add: link_parent_def)
    with 0 show ?thesis by (simp add: linked_def)
  next
    case (Suc i)
    have i: "t_parent (rstack r ! Suc i) = Ptr (int i)" "0 \<le> t_idx (rstack r ! Suc i)"
      "t_idx (rstack r ! Suc i) < t_elements (rstack r ! i)"
      using stack_okD(6) [OF st, of i] assms(2) Suc by simp_all
    have "d \<le> 8" using stack_okD(3) [OF st] assms(2) by simp
    moreover have "nat (1 + int i) = Suc i" by simp
    ultimately have par: "snd arg = Ptr (rstack r ! i)"
      using assms(2,3) stack_okD(1) [OF st] i Suc by (auto simp: cur_task_def task_at_def)
    have "(t_obj (rstack r ! i), t_elements (rstack r ! i)) \<in> set (open_arrays r)"
      using Suc assms(2) by (auto simp: open_arrays_def)
    then obtain po es where po: "h_objs h (t_obj (rstack r ! i)) = Some po" "ry_type po = REDIS_REPLY_ARRAY"
      "ry_element po = Ptr es" "int (length es) = t_elements (rstack r ! i)"
      using inv by (auto simp: replies_inv_def is_open_def)
    have lt: "t_obj (rstack r ! i) < h_next h" using heap_ok_bound [OF hok po(1)] by simp
    have "h' = set_obj (alloc_reply h ob) (t_obj (rstack r ! i)) (po\<lparr>ry_element := Ptr (es[nat (t_idx (rstack r ! Suc i)) := h_next h])\<rparr>)"
      using h'(1) par cur Suc po i lt by (simp add: link_parent_def)
    with lt po Suc show ?thesis by (auto simp: linked_def set_obj_def)
  qed
  with h' show ?thesis by (auto simp: make_reply_def)
qed

section \<open>One item\<close>

definition item_ready :: "reply_heap redisReader \<Rightarrow> reply_heap \<Rightarrow> sds \<Rightarrow> nat \<Rightarrow> nat \<Rightarrow> bytes \<Rightarrow> bool" where
  "item_ready r h s p d txt \<longleftrightarrow> rd.live r h \<and> plenty (h_env h) \<and> r_buf r = Ptr s \<and> r_pos r = int p \<and>
     (\<exists>rest. drop p (sds_str s) = txt @ rest) \<and> ridx r = int d \<and> t_type (rstack r ! d) = - 1"

text \<open>
  The loop from the beginning of an item on: it reaches the state behind the item, where the task
  is finished and the object is there and linked.
\<close>

definition item_done :: "reply_heap redisReader \<Rightarrow> reply_heap \<Rightarrow> nat \<Rightarrow> nat \<Rightarrow> rval \<Rightarrow> bool" where
  "item_done r h q d v \<longleftrightarrow> (\<exists>st h'. process_loop r h =
       do { r2 \<leftarrow> moveToNextTask (set_root (r\<lparr>rstack := st, r_pos := int q\<rparr>) (h_next h)); process_loop r2 h' } \<and>
     rd.live (r\<lparr>rstack := st, r_pos := int q\<rparr>) h' \<and> take d st = take d (rstack r) \<and> t_idx (st ! d) = t_idx (rstack r ! d) \<and>
     h_env h' = h_env h \<and> h_next h < h_next h' \<and> represents v h' (h_next h) \<and> linked r d (h_next h) h h')"

lemma live_next: "rd.live r h \<Longrightarrow> h_next h \<noteq> 0"
  using replies_inv_next rd.liveD(6) by blast

lemma live_buf:
  assumes "rd.live r h" "r_buf r = Ptr s"
  shows "sds_ok s" "rbuf r = Some (sh_buf s)" "r_len r = int (length (sds_str s))" "int (length (sds_str s)) \<le> INT_MAX"
  using buf_okE [OF rd.liveD(4) [OF assms(1)]] assms(2) by (metis ptr.inject)+

lemma move_root:
  assumes "0 \<le> ridx r"
  shows "do { r1 \<leftarrow> moveToNextTask r; Some (f (if ridx r = 0 then r1\<lparr>r_reply := obj\<rparr> else r1)) } =
    do { r1 \<leftarrow> moveToNextTask (set_root r obj); Some (f r1) }"
proof (cases "ridx r = 0")
  case True
  then show ?thesis by (simp add: set_root_def moveToNextTask.simps) (rule arg_cong [where f = f], simp)
qed (simp add: set_root_def)

text \<open>The state behind the type byte.\<close>

definition typed :: "'h redisReader \<Rightarrow> nat \<Rightarrow> nat \<Rightarrow> int \<Rightarrow> 'h redisReader" where
  "typed r p d ty = r\<lparr>r_pos := int (p + 1), rstack := (rstack r)[d := (rstack r ! d)\<lparr>t_type := ty\<rparr>]\<rparr>"

lemma typed_step:
  assumes "item_ready r h s p d (c # body)" "reply_type_of c = Some ty"
  obtains rest where "processItem r h = process_typed (typed r p d ty) h ty" "rd.live (typed r p d ty) h"
    "drop (p + 1) (sds_str s) = body @ rest" "p + 1 \<le> length (sds_str s)" "t_type (rstack (typed r p d ty) ! d) = ty"
    "d \<le> 8" "length (rstack r) = 9" "open_arrays (typed r p d ty) = open_arrays r"
proof -
  have ready: "rd.live r h" "r_buf r = Ptr s" "r_pos r = int p" "ridx r = int d" "t_type (rstack r ! d) = - 1"
    using assms(1) by (auto simp: item_ready_def)
  obtain rest where drop: "drop p (sds_str s) = c # body @ rest" using assms(1) by (auto simp: item_ready_def)
  then have lt: "p < length (sds_str s)" by (metis drop_all leI list.distinct(1))
  have "sh_buf s ! p = c" using sh_buf_nth(1) [OF live_buf(1) [OF ready(1,2)] lt] nth_via_drop [OF drop] by simp
  then have c: "reply_type_of (sh_buf s ! p) = Some ty" using assms(2) by simp
  have idx: "0 \<le> ridx r" "t_type (rstack r ! nat (ridx r)) < 0" using ready(4,5) by simp_all
  have r2: "typed r p d ty = r\<lparr>r_pos := int (p + 1), rstack := (rstack r)[nat (ridx r) := (rstack r ! nat (ridx r))\<lparr>t_type := ty\<rparr>]\<rparr>"
    by (simp add: typed_def ready(4))
  note ty = rd.processItem_type [OF ready(1) idx ready(2,3) lt c r2]
  have len: "length (rstack r) = 9" "d \<le> 8" using stack_okD(1,3) [OF rd.liveD(5) [OF ready(1)]] ready(4) by simp_all
  have "drop (p + 1) (sds_str s) = body @ rest" using drop by (metis Suc_eq_plus1 drop_Suc list.sel(3) tl_drop)
  with ty len lt show thesis by (intro that [of rest]) (auto simp: typed_def)
qed

text \<open>An item without elements: one object is made, then the task is finished.\<close>

lemma leaf_done:
  assumes "item_ready r h s p d (c # body)" "reply_type_of c = Some ty" "cur_task (typed r p d ty) = Some arg"
    "kids ob = []" "\<And>es. ry_element ob = Ptr es \<Longrightarrow> ry_elements ob = int (length es)"
    and run: "process_typed (typed r p d ty) h ty = do { (a, h') \<leftarrow> make_reply h arg ob;
      if a = 0 then fail_oom r0 h'
      else do { r2 \<leftarrow> moveToNextTask (set_root ((typed r p d ty)\<lparr>r_pos := int q\<rparr>) a); Some (REDIS_OK, r2, h') } }"
    and rep: "\<And>h'. h_objs h' (h_next h) = Some ob \<Longrightarrow> represents v h' (h_next h)" and q: "q \<le> length (sds_str s)"
  shows "item_done r h q d v"
proof -
  have ready: "rd.live r h" "r_buf r = Ptr s" "ridx r = int d"
    using assms(1) by (auto simp: item_ready_def)
  obtain rest where ty: "processItem r h = process_typed (typed r p d ty) h ty" "rd.live (typed r p d ty) h"
    "d \<le> 8" "length (rstack r) = 9" "open_arrays (typed r p d ty) = open_arrays r"
    using typed_step [OF assms(1,2)] by metis
  have same: "ridx (typed r p d ty) = int d" "r_buf (typed r p d ty) = Ptr s" "rstack (typed r p d ty) = (rstack r)[d := (rstack r ! d)\<lparr>t_type := ty\<rparr>]"
    using ready by (simp_all add: typed_def)
  obtain h' where h': "make_reply h arg ob = Some (h_next h, h')" "replies_inv h' (open_arrays r)" "h_env h' = h_env h"
    "h_next h' = h_next h + 1" "h_objs h' (h_next h) = Some ob" "linked (typed r p d ty) d (h_next h) h h'"
    using make_reply_ok [OF ty(2) same(1) assms(3-5)] ty(5) by auto
  let ?st = "(rstack r)[d := (rstack r ! d)\<lparr>t_type := ty\<rparr>]"
  have eq: "(typed r p d ty)\<lparr>r_pos := int q\<rparr> = r\<lparr>rstack := ?st, r_pos := int q\<rparr>" by (simp add: typed_def)
  have "rd.live (typed r p d ty) h'" using rd.live_heap [OF ty(2)] h'(2) ty(5) by simp
  from rd.live_pos [OF this same(2) q] have live: "rd.live (r\<lparr>rstack := ?st, r_pos := int q\<rparr>) h'" unfolding eq .
  have "process_loop r h = do { r2 \<leftarrow> moveToNextTask (set_root (r\<lparr>rstack := ?st, r_pos := int q\<rparr>) (h_next h)); process_loop r2 h' }"
    using ready(3) ty(1) run h'(1) live_next [OF ready(1)]
    by (subst process_loop.simps) (simp add: eq bind_assoc)
  moreover have "linked r d (h_next h) h h'" using h'(6) ty(3,4) by (auto simp: linked_def same(3) nth_list_update)
  ultimately show ?thesis
    unfolding item_done_def using live h' rep ty(3,4) by (intro exI [of _ ?st] exI [of _ h']) simp
qed

section \<open>The kinds of items\<close>

lemma buf_split:
  assumes "sds_ok s" "drop p (sds_str s) = txt @ rest" "p \<le> length (sds_str s)"
  obtains more where "sh_buf s = take p (sds_str s) @ txt @ more" "length (take p (sds_str s)) = p"
    "drop p (sh_buf s) = txt @ more" "p + length txt \<le> length (sds_str s)"
proof -
  obtain z where "sh_buf s = sds_str s @ NUL # z" using sds_ok_elim [OF assms(1)] by blast
  then have "sh_buf s = take p (sds_str s) @ txt @ (rest @ NUL # z)"
    using assms(2) by (metis append.assoc append_take_drop_id)
  moreover have "length (drop p (sds_str s)) = length txt + length rest" using assms(2) by simp
  ultimately show thesis using assms(3) by (intro that [of "rest @ NUL # z"]) simp_all
qed

text \<open>A reader in front of a typed item, as the three kinds of items see it.\<close>

lemma typed_line:
  assumes "item_ready r h s p d (c # line @ crlf)" "reply_type_of c = Some ty" "CR \<notin> set line"
  obtains arg more where "cur_task (typed r p d ty) = Some arg" "t_type (fst arg) = ty" "rd.live (typed r p d ty) h"
    "find_crlf (drop (p + 1) (sds_str s)) = Some (length line)" "rbuf (typed r p d ty) = Some (sh_buf s)"
    "sh_buf s = take (p + 1) (sds_str s) @ line @ crlf @ more" "length (take (p + 1) (sds_str s)) = p + 1"
    "drop (p + 1) (sh_buf s) = line @ crlf @ more" "p + length line + 3 \<le> length (sds_str s)" "length (sds_str s) \<le> 2147483647"
    "readLine (typed r p d ty) = Some (Ptr (int (p + 1)), int (length line), (typed r p d ty)\<lparr>r_pos := int (p + length line + 3)\<rparr>)"
proof -
  let ?r = "typed r p d ty"
  obtain rest where ty: "rd.live ?r h" "drop (p + 1) (sds_str s) = (line @ crlf) @ rest" "p + 1 \<le> length (sds_str s)"
    "t_type (rstack ?r ! d) = ty"
    using typed_step [OF assms(1,2)] by metis
  have same: "r_buf ?r = Ptr s" "r_pos ?r = int (p + 1)" "ridx ?r = int d" using assms(1) by (simp_all add: item_ready_def typed_def)
  note buf = live_buf [OF ty(1) same(1)]
  obtain par where cur: "cur_task ?r = Some (rstack ?r ! d, par)" using rd.cur_task_ok [OF ty(1)] same(3) by (metis nat_int of_nat_0_le_iff)
  obtain more where sp: "sh_buf s = take (p + 1) (sds_str s) @ (line @ crlf) @ more" "length (take (p + 1) (sds_str s)) = p + 1"
    "drop (p + 1) (sh_buf s) = (line @ crlf) @ more" "p + 1 + length (line @ crlf) \<le> length (sds_str s)"
    using buf_split [OF buf(1) ty(2,3)] by blast
  have fc: "find_crlf (drop (p + 1) (sds_str s)) = Some (length line)"
    unfolding ty(2) using find_crlf_line [OF assms(3), of rest] by simp
  have "readLine ?r = Some (Ptr (int (p + 1)), int (length line), ?r\<lparr>r_pos := int (p + length line + 3)\<rparr>)"
    using rd.liveD(4) [OF ty(1)] same(1,2) ty(3)
  proof (cases rule: readLine_cases)
    case none
    with fc show ?thesis by simp
  next
    case (line k)
    moreover have "k = length line" using line(1) fc by simp
    moreover have "p + 1 + length line + 2 = p + length line + 3" by simp
    ultimately show ?thesis by (simp only:)
  qed
  moreover have "length (sds_str s) \<le> 2147483647" using buf(4) by linarith
  ultimately show thesis using cur ty(1,4) fc buf(2) sp by (intro that [of "(rstack ?r ! d, par)" more]) simp_all
qed

lemma fn_default:
  assumes "rd.live r h"
  shows "fn_of r createInteger = Some createIntegerObject" "fn_of r createString = Some createStringObject"
    "fn_of r createNil = Some createNilObject" "fn_of r createArray = Some createArrayObject"
  using rd.liveD(1) [OF assms] by (simp_all add: fn_of_def defaultFunctions_def)

lemma dec_no_CR: "CR \<notin> set (dec_string n)" "CR \<notin> set (dec_int i)"
  using dec_string_isdigit by (auto simp: dec_int_def c_isdigit_def dest!: dec_string_isdigit)

lemma line_text_done:
  assumes "item_ready r h s p d (c # line @ crlf)" "reply_type_of c = Some ty" "ty \<in> {5, 6}" "CR \<notin> set line"
    and rep: "\<And>h' a ob. h_objs h' a = Some ob \<Longrightarrow> ry_type ob = ty \<Longrightarrow> ry_len ob = int (length line) \<Longrightarrow>
      ry_str ob = Ptr (cstr line) \<Longrightarrow> represents v h' a"
  shows "item_done r h (p + length line + 3) d v"
proof -
  let ?r = "typed r p d ty"
  obtain arg more where f: "cur_task ?r = Some arg" "t_type (fst arg) = ty" "rd.live ?r h" "rbuf ?r = Some (sh_buf s)"
    "drop (p + 1) (sh_buf s) = line @ crlf @ more" "p + length line + 3 \<le> length (sds_str s)" "length (sds_str s) \<le> 2147483647"
    "readLine ?r = Some (Ptr (int (p + 1)), int (length line), ?r\<lparr>r_pos := int (p + length line + 3)\<rparr>)"
    using typed_line [OF assms(1,2,4)] by metis
  define q where "q = p + length line + 3"
  let ?ob = "(blank_reply ty)\<lparr>ry_len := int (length line), ry_str := Ptr (cstr line)\<rparr>"
  have pl: "plenty (h_env h)" using assms(1) by (simp add: item_ready_def)
  have tt: "ty \<noteq> 3" "ty \<noteq> 2" "ty = 6 \<or> ty = 5" using assms(3) by auto
  have len: "int (length line) < INT_MAX" using f(6,7) by linarith
  have "createStringObject h arg (drop (p + 1) (sh_buf s)) (int (length line)) = make_reply h arg ?ob"
    unfolding f(5) using create_plenty(4) [OF pl live_next [OF f(3)], of arg "length line" "line @ crlf @ more"] f(2) assms(3) len by auto
  moreover have "fn_of (?r\<lparr>r_pos := x\<rparr>) createString = Some createStringObject" for x
    using fn_default(2) [OF f(3)] by (simp add: fn_of_def)
  moreover have "rbuf (?r\<lparr>r_pos := x\<rparr>) = Some (sh_buf s)" for x using f(4) by (simp add: rbuf_def)
  moreover have "to_size (int (length line)) = int (length line)" "nat (int (p + 1)) = p + 1" using len by simp_all
  moreover obtain cur par where arg: "arg = (cur, par)" by (cases arg)
  ultimately have run: "process_typed ?r h ty = do { (a, h') \<leftarrow> make_reply h arg ?ob;
      if a = 0 then fail_oom (?r\<lparr>r_pos := int q\<rparr>) h'
      else do { r2 \<leftarrow> moveToNextTask (set_root (?r\<lparr>r_pos := int q\<rparr>) a); Some (REDIS_OK, r2, h') } }"
    using f(1,2) f(8) [folded q_def] tt by (simp add: process_typed_def processLineItem_def make_string_def)
  show ?thesis
    unfolding q_def [symmetric]
    by (rule leaf_done [OF assms(1,2) f(1) _ _ run]) (use tt f(6) rep in \<open>simp_all add: kids_def q_def\<close>)
qed

lemma integer_done:
  assumes "item_ready r h s p d (CHR '':'' # dec_int i @ crlf)" "- 9223372036854775808 \<le> i" "i \<le> LONG_MAX"
  shows "item_done r h (p + length (dec_int i) + 3) d (VInt i)"
proof -
  let ?r = "typed r p d 3"
  have ty: "reply_type_of (CHR '':'') = Some 3" by (simp add: reply_type_of_def)
  obtain arg more where f: "cur_task ?r = Some arg" "t_type (fst arg) = 3" "rd.live ?r h" "rbuf ?r = Some (sh_buf s)"
    "sh_buf s = take (p + 1) (sds_str s) @ dec_int i @ crlf @ more" "length (take (p + 1) (sds_str s)) = p + 1"
    "p + length (dec_int i) + 3 \<le> length (sds_str s)"
    "readLine ?r = Some (Ptr (int (p + 1)), int (length (dec_int i)), ?r\<lparr>r_pos := int (p + length (dec_int i) + 3)\<rparr>)"
    using typed_line [OF assms(1) ty dec_no_CR(2)] by metis
  define q where "q = p + length (dec_int i) + 3"
  let ?ob = "(blank_reply 3)\<lparr>ry_integer := i\<rparr>"
  have pl: "plenty (h_env h)" using assms(1) by (simp add: item_ready_def)
  have "readLongLong (sh_buf s) (int (p + 1)) = Some i"
    using readLongLong_dec_int [OF assms(2,3), of "sh_buf s" "take (p + 1) (sds_str s)" "LF # more"] f(5,6) by simp
  moreover have "fn_of (?r\<lparr>r_pos := x\<rparr>) createInteger = Some createIntegerObject" for x
    using fn_default(1) [OF f(3)] by (simp add: fn_of_def)
  moreover have "rbuf (?r\<lparr>r_pos := x\<rparr>) = Some (sh_buf s)" for x using f(4) by (simp add: rbuf_def)
  moreover note create_plenty(1) [OF pl live_next [OF f(3)], of arg i]
  moreover obtain cur par where arg: "arg = (cur, par)" by (cases arg)
  ultimately have run: "process_typed ?r h 3 = do { (a, h') \<leftarrow> make_reply h arg ?ob;
      if a = 0 then fail_oom (?r\<lparr>r_pos := int q\<rparr>) h'
      else do { r2 \<leftarrow> moveToNextTask (set_root (?r\<lparr>r_pos := int q\<rparr>) a); Some (REDIS_OK, r2, h') } }"
    using f(1,2) f(8) [folded q_def] by (simp add: process_typed_def processLineItem_def make_integer_def)
  show ?thesis
    unfolding q_def [symmetric]
    by (rule leaf_done [OF assms(1) ty f(1) _ _ run]) (use f(7) in \<open>simp_all add: kids_def q_def\<close>)
qed

lemma bind_case_prod: "Option.bind (case x of (a, b) \<Rightarrow> f a b) g = (case x of (a, b) \<Rightarrow> Option.bind (f a b) g)"
  by (cases x) simp

lemma item_ready_prefix: "item_ready r h s p d (xs @ ys) \<Longrightarrow> item_ready r h s p d xs"
  by (auto simp: item_ready_def)

text \<open>A bulk item up to its length: the end of the line and the number on it.\<close>

lemma bulk_header:
  assumes "item_ready r h s p d (CHR ''$'' # dec_int n @ crlf)" "- 9223372036854775808 \<le> n" "n \<le> LONG_MAX"
  obtains arg where "cur_task (typed r p d 1) = Some arg" "t_type (fst arg) = 1" "rd.live (typed r p d 1) h"
    "rbuf (typed r p d 1) = Some (sh_buf s)" "p + length (dec_int n) + 3 \<le> length (sds_str s)" "length (sds_str s) \<le> 2147483647"
    "r_pos (typed r p d 1) = int (p + 1)" "r_len (typed r p d 1) = int (length (sds_str s))"
    "seekNewline (sh_buf s) (int (p + 1)) (to_size (int (length (sds_str s)) - int (p + 1))) = Some (Ptr (int (p + 1 + length (dec_int n))))"
    "readLongLong (sh_buf s) (int (p + 1)) = Some n"
proof -
  let ?r = "typed r p d 1"
  have ty: "reply_type_of (CHR ''$'') = Some 1" by (simp add: reply_type_of_def)
  obtain arg more where f: "cur_task ?r = Some arg" "t_type (fst arg) = 1" "rd.live ?r h"
    "find_crlf (drop (p + 1) (sds_str s)) = Some (length (dec_int n))" "rbuf ?r = Some (sh_buf s)"
    "sh_buf s = take (p + 1) (sds_str s) @ dec_int n @ crlf @ more" "length (take (p + 1) (sds_str s)) = p + 1"
    "p + length (dec_int n) + 3 \<le> length (sds_str s)" "length (sds_str s) \<le> 2147483647"
    using typed_line [OF assms(1) ty dec_no_CR(2)] by metis
  have same: "r_buf ?r = Ptr s" "r_pos ?r = int (p + 1)" using assms(1) by (simp_all add: item_ready_def typed_def)
  note buf = live_buf [OF f(3) same(1)]
  have le: "p + 1 \<le> length (sds_str s)" using f(8) by simp
  from buf(1) le buf(4) have "seekNewline (sh_buf s) (int (p + 1)) (to_size (int (length (sds_str s)) - int (p + 1))) = Some (Ptr (int (p + 1 + length (dec_int n))))"
  proof (cases rule: seek_cases)
    case none
    with f(4) show ?thesis by simp
  next
    case (line k)
    with f(4) show ?thesis by simp
  qed
  moreover have "readLongLong (sh_buf s) (int (p + 1)) = Some n"
    using readLongLong_dec_int [OF assms(2,3), of "sh_buf s" "take (p + 1) (sds_str s)" "LF # more"] f(6,7) by simp
  ultimately show thesis using f same(2) buf(3) by (intro that [of arg])
qed

lemma nil_done:
  assumes "item_ready r h s p d (encode VNil)"
  shows "item_done r h (p + 5) d VNil"
proof -
  let ?r = "typed r p d 1"
  have enc: "encode VNil = CHR ''$'' # dec_int (- 1) @ crlf" "length (dec_int (- 1)) = 2"
    by code_simp+
  have ty: "reply_type_of (CHR ''$'') = Some 1" by (simp add: reply_type_of_def)
  obtain arg where f: "cur_task ?r = Some arg" "t_type (fst arg) = 1" "rd.live ?r h"
    "rbuf ?r = Some (sh_buf s)" "p + length (dec_int (- 1)) + 3 \<le> length (sds_str s)" "length (sds_str s) \<le> 2147483647"
    "r_pos ?r = int (p + 1)" "r_len ?r = int (length (sds_str s))"
    "seekNewline (sh_buf s) (int (p + 1)) (to_size (int (length (sds_str s)) - int (p + 1))) = Some (Ptr (int (p + 1 + length (dec_int (- 1)))))"
    "readLongLong (sh_buf s) (int (p + 1)) = Some (- 1)"
    by (rule bulk_header [OF assms [unfolded enc(1)]]) simp_all
  have pl: "plenty (h_env h)" using assms by (simp add: item_ready_def)
  obtain cur par where arg: "arg = (cur, par)" by (cases arg)
  define q where "q = p + 5"
  have pb: "process_typed ?r h 1 = processBulkItem ?r h" by (simp add: process_typed_def)
  have neg: "((- 1 :: int) < 0) = True" by simp
  note mk = create_plenty(2) [OF pl live_next [OF f(3)], of arg]
  have "to_size (int (p + 1) + to_size (int (p + 1 + length (dec_int (- 1))) - int (p + 1) + 2)) = int q"
    using f(5,6) enc(2) by (simp add: q_def)
  then have run: "process_typed ?r h 1 = do { (a, h') \<leftarrow> make_reply h arg (blank_reply 4);
      if a = 0 then fail_oom ?r h'
      else do { r2 \<leftarrow> moveToNextTask (set_root (?r\<lparr>r_pos := int q\<rparr>) a); Some (REDIS_OK, r2, h') } }"
    unfolding pb processBulkItem_def make_nil_def
    by (simp only: f(1) [unfolded arg] f(4) f(7-10) fn_default(3) [OF f(3)] mk [unfolded arg] neg arg Option.bind.simps option.case prod.case
        ptr.case if_True if_False bind_assoc bind_case_prod Let_def simp_thms)
  show ?thesis
    unfolding q_def [symmetric]
    by (rule leaf_done [OF assms [unfolded enc(1)] ty f(1) _ _ run]) (use f(5) enc(2) in \<open>simp_all add: kids_def q_def\<close>)
qed

lemma string_done:
  assumes "item_ready r h s p d (encode (VStr x))"
  shows "item_done r h (p + length (encode (VStr x))) d (VStr x)"
proof -
  let ?r = "typed r p d 1" and ?n = "int (length x)"
  have dec: "dec_int ?n = dec_string (length x)" by (simp add: dec_int_def)
  have enc: "encode (VStr x) = (CHR ''$'' # dec_int ?n @ crlf) @ x @ crlf" by (simp add: dec)
  have ty: "reply_type_of (CHR ''$'') = Some 1" by (simp add: reply_type_of_def)
  note ready = item_ready_prefix [OF assms [unfolded enc]]
  have ok: "sds_ok s" "int (length (sds_str s)) \<le> INT_MAX"
    using assms live_buf [of r h s] by (auto simp: item_ready_def)
  obtain rest where dr: "drop p (sds_str s) = encode (VStr x) @ rest" using assms by (auto simp: item_ready_def)
  then have ple: "p \<le> length (sds_str s)" by (metis append_is_Nil_conv drop_all encode_nonempty nle_le)
  obtain more where sp: "drop p (sh_buf s) = encode (VStr x) @ more" "p + length (encode (VStr x)) \<le> length (sds_str s)"
    using buf_split [OF ok(1) dr ple] by metis
  have le: "?n \<le> INT_MAX" using sp(2) ok(2) by simp
  obtain arg where f: "cur_task ?r = Some arg" "t_type (fst arg) = 1" "rd.live ?r h" "rbuf ?r = Some (sh_buf s)"
    "r_pos ?r = int (p + 1)" "r_len ?r = int (length (sds_str s))"
    "seekNewline (sh_buf s) (int (p + 1)) (to_size (int (length (sds_str s)) - int (p + 1))) = Some (Ptr (int (p + 1 + length (dec_int ?n))))"
    "readLongLong (sh_buf s) (int (p + 1)) = Some ?n"
  proof (rule bulk_header [OF ready])
    show "- 9223372036854775808 \<le> ?n" "?n \<le> LONG_MAX" using le by simp_all
  qed
  have pl: "plenty (h_env h)" using assms by (simp add: item_ready_def)
  obtain cur par where arg: "arg = (cur, par)" by (cases arg)
  define q where "q = p + length (encode (VStr x))"
  let ?k = "length (dec_int ?n)" and ?len = "length (sds_str s)"
  have q: "q = p + 1 + ?k + 2 + length x + 2" "q \<le> ?len" using sp(2) by (simp_all add: q_def dec)
  have sz: "to_size (int (p + 1 + ?k) - int (p + 1) + 2) = int (?k + 2)" "to_ll (?n + 2) = ?n + 2" "to_size ?n = ?n"
    "to_size (int (?k + 2) + (?n + 2)) = int (?k + 2 + length x + 2)"
    "to_size (int (p + 1) + int (?k + 2 + length x + 2)) = int q" "nat (int (p + 1 + ?k) + 2) = p + 1 + ?k + 2"
    using q ok(2) le by simp_all
  have "drop (p + 1 + ?k + 2) (sh_buf s) = drop (1 + ?k + 2) (drop p (sh_buf s))" by (simp add: add.commute add.left_commute)
  also have "\<dots> = x @ crlf @ more" unfolding sp(1) enc by simp
  finally have str: "drop (p + 1 + ?k + 2) (sh_buf s) = x @ crlf @ more" .
  let ?ob = "(blank_reply 1)\<lparr>ry_len := ?n, ry_str := Ptr (cstr x)\<rparr>"
  have "?n < INT_MAX" using q ok(2) by linarith
  then have mk: "createStringObject h arg (drop (p + 1 + ?k + 2) (sh_buf s)) ?n = make_reply h arg ?ob"
    unfolding str using create_plenty(4) [OF pl live_next [OF f(3)], of arg "length x" "x @ crlf @ more"] f(2) by simp
  have nn: "\<not> ?n < 0" "int q \<le> int ?len" using q(2) by simp_all
  have run: "process_typed ?r h 1 = do { (a, h') \<leftarrow> make_reply h arg ?ob;
      if a = 0 then fail_oom ?r h'
      else do { r2 \<leftarrow> moveToNextTask (set_root (?r\<lparr>r_pos := int q\<rparr>) a); Some (REDIS_OK, r2, h') } }"
  proof -
    have "process_typed ?r h 1 = processBulkItem ?r h" by (simp add: process_typed_def)
    then show ?thesis
      unfolding processBulkItem_def make_string_def
      by (simp only: f(1)[unfolded arg] f(4-8) fn_default(2) [OF f(3)] mk [unfolded arg] nn sz arg Option.bind.simps option.case prod.case
          ptr.case if_True if_False bind_assoc bind_case_prod Let_def simp_thms)
  qed
  show ?thesis
    unfolding q_def [symmetric]
    by (rule leaf_done [OF ready ty f(1) _ _ run]) (use q(2) in \<open>simp_all add: kids_def\<close>)
qed

text \<open>An empty array.\<close>

lemma empty_array_done:
  assumes "item_ready r h s p d (encode (VArr []))" "d < 8"
  shows "item_done r h (p + length (encode (VArr []))) d (VArr [])"
proof -
  let ?r = "typed r p d 2"
  have enc: "encode (VArr []) = CHR ''*'' # dec_int 0 @ crlf" "length (dec_int 0) = 1" "length (encode (VArr [])) = 4" by code_simp+
  have ty: "reply_type_of (CHR ''*'') = Some 2" by (simp add: reply_type_of_def)
  obtain arg more where f: "cur_task ?r = Some arg" "t_type (fst arg) = 2" "rd.live ?r h" "rbuf ?r = Some (sh_buf s)"
    "sh_buf s = take (p + 1) (sds_str s) @ dec_int 0 @ crlf @ more" "length (take (p + 1) (sds_str s)) = p + 1"
    "p + length (dec_int 0) + 3 \<le> length (sds_str s)"
    "readLine ?r = Some (Ptr (int (p + 1)), int (length (dec_int 0)), ?r\<lparr>r_pos := int (p + length (dec_int 0) + 3)\<rparr>)"
    using typed_line [OF assms(1) [unfolded enc(1)] ty dec_no_CR(2)] by metis
  have ridx: "ridx ?r = int d" using assms(1) by (simp add: item_ready_def typed_def)
  have pl: "plenty (h_env h)" using assms(1) by (simp add: item_ready_def)
  obtain cur par where arg: "arg = (cur, par)" by (cases arg)
  define q where "q = p + 4"
  define r1 where "r1 = ?r\<lparr>r_pos := int q\<rparr>"
  have rl: "readLine ?r = Some (Ptr (int (p + 1)), 1, r1)" using f(8) by (simp add: enc(2) r1_def q_def)
  have r1: "rbuf r1 = Some (sh_buf s)" "ridx r1 = int d" "fn_of r1 createArray = Some createArrayObject"
    using f(4) ridx fn_default(4) [OF f(3)] by (simp_all add: r1_def rbuf_def fn_of_def)
  have rll: "readLongLong (sh_buf s) (int (p + 1)) = Some 0"
    using readLongLong_dec_int [of 0 "sh_buf s" "take (p + 1) (sds_str s)" "LF # more"] f(5,6) by simp
  have mk: "createArrayObject h arg 0 = make_reply h arg (blank_reply 2)"
    using create_plenty(3) [OF pl live_next [OF f(3)], of 0 arg] by simp
  have run: "process_typed ?r h 2 = do { (a, h') \<leftarrow> make_reply h arg (blank_reply 2);
      if a = 0 then fail_oom r1 h'
      else do { r2 \<leftarrow> moveToNextTask (set_root r1 a); Some (REDIS_OK, r2, h') } }"
  proof -
    have "process_typed ?r h 2 = processMultiBulkItem ?r h" by (simp add: process_typed_def)
    moreover have "(ridx ?r = 8) = False" "((0 :: int) = - 1) = False" "((0 :: int) < 0) = False" "to_int 0 = 0" using ridx assms(2) by simp_all
    moreover have "moveToNextTask r1 \<bind> (\<lambda>r2. Some (REDIS_OK, if ridx r1 = 0 then r2\<lparr>r_reply := obj\<rparr> else r2, h1)) =
        moveToNextTask (set_root r1 obj) \<bind> (\<lambda>r2. Some (REDIS_OK, r2, h1))" for obj and h1 :: reply_heap
      using move_root [of r1 "\<lambda>r. (REDIS_OK, r, h1)" obj] r1(2) by simp
    ultimately show ?thesis
      unfolding processMultiBulkItem_def make_array_def
      by (simp only: f(1) [unfolded arg] rl r1(1,3) rll mk [unfolded arg] arg Option.bind.simps option.case prod.case
          ptr.case if_True if_False bind_assoc bind_case_prod Let_def simp_thms)
  qed
  show ?thesis
    unfolding enc(3) q_def [symmetric]
    by (rule leaf_done [OF assms(1) [unfolded enc(1)] ty f(1) _ _ run [unfolded r1_def]])
      (use f(7) in \<open>simp_all add: kids_def q_def enc\<close>)
qed

section \<open>Arrays\<close>

abbreviation array_reply :: "int \<Rightarrow> int list \<Rightarrow> redisReply" where
  "array_reply n es \<equiv> (blank_reply 2)\<lparr>ry_element := Ptr es, ry_elements := n\<rparr>"

text \<open>The header of an array: the object with its empty vector, and a task for the first element.\<close>

lemma array_start:
  assumes "item_ready r h s p d (CHR ''*'' # dec_int n @ crlf)" "0 < n" "n \<le> INT_MAX" "d < 8"
  defines "q \<equiv> p + length (dec_int n) + 3" and "a \<equiv> h_next h"
  obtains st h1 rj where "processItem r h = Some (REDIS_OK, rj, h1)" "rd.live rj h1"
    "rj = r\<lparr>rstack := st, r_pos := int q, ridx := int (Suc d), r_reply := if d = 0 then a else r_reply r\<rparr>"
    "\<And>i. i < d \<Longrightarrow> st ! i = rstack r ! i" "t_idx (st ! d) = t_idx (rstack r ! d)" "t_obj (st ! d) = a" "t_elements (st ! d) = n"
    "t_type (st ! Suc d) = - 1" "t_idx (st ! Suc d) = 0" "h_objs h1 a = Some (array_reply n (replicate (nat n) 0))"
    "linked r d a h h1" "h_env h1 = h_env h" "h_next h1 = a + 1"
proof -
  let ?r = "typed r p d 2"
  have ty: "reply_type_of (CHR ''*'') = Some 2" by (simp add: reply_type_of_def)
  obtain arg more where f: "cur_task ?r = Some arg" "t_type (fst arg) = 2" "rd.live ?r h" "rbuf ?r = Some (sh_buf s)"
    "sh_buf s = take (p + 1) (sds_str s) @ dec_int n @ crlf @ more" "length (take (p + 1) (sds_str s)) = p + 1"
    "p + length (dec_int n) + 3 \<le> length (sds_str s)"
    "readLine ?r = Some (Ptr (int (p + 1)), int (length (dec_int n)), ?r\<lparr>r_pos := int (p + length (dec_int n) + 3)\<rparr>)"
    using typed_line [OF assms(1) ty dec_no_CR(2)] by metis
  have ready: "plenty (h_env h)" "ridx ?r = int d" "r_buf ?r = Ptr s" "ridx r = int d" "rd.live r h"
    using assms(1) by (simp_all add: item_ready_def typed_def)
  obtain rest where ts: "processItem r h = process_typed ?r h 2" "t_type (rstack ?r ! d) = 2" "d \<le> 8" "length (rstack r) = 9"
    using typed_step [OF assms(1) ty] by metis
  obtain cur par where arg: "arg = (cur, par)" by (cases arg)
  have cur: "cur = rstack ?r ! d"
    using f(1) ready(2) rd.cur_task_ok [OF f(3)] arg by (metis Pair_inject nat_int of_nat_0_le_iff option.inject)
  define r1 where "r1 = ?r\<lparr>r_pos := int q\<rparr>"
  have rl: "readLine ?r = Some (Ptr (int (p + 1)), int (length (dec_int n)), r1)" using f(8) by (simp add: r1_def q_def)
  have r1: "rbuf r1 = Some (sh_buf s)" "ridx r1 = int d" "fn_of r1 createArray = Some createArrayObject" "rstack r1 = rstack ?r"
    using f(4) ready(2) fn_default(4) [OF f(3)] by (simp_all add: r1_def rbuf_def fn_of_def)
  have live1: "rd.live r1 h" unfolding r1_def by (rule rd.live_pos [OF f(3) ready(3)]) (use f(7) in \<open>simp add: q_def\<close>)
  have n: "- 9223372036854775808 \<le> n" "n \<le> LONG_MAX" "to_int n = n" using assms(2,3) by simp_all
  have rll: "readLongLong (sh_buf s) (int (p + 1)) = Some n"
    using readLongLong_dec_int [OF n(1,2), of "sh_buf s" "take (p + 1) (sds_str s)" "LF # more"] f(5,6) by simp
  let ?ob = "array_reply n (replicate (nat n) 0)"
  have mk: "createArrayObject h arg n = make_reply h arg ?ob"
    using create_plenty(3) [OF ready(1) live_next [OF f(3)] assms(3), of arg] assms(2,3) by simp
  have "is_open (alloc_reply h ?ob) (h_next h) n" using assms(2) by (simp add: is_open_def)
  then obtain h1 where h1: "make_reply h arg ?ob = Some (a, h1)" "h_env h1 = h_env h" "h_next h1 = a + 1"
    "h_objs h1 a = Some ?ob" "linked ?r d a h h1" "replies_inv h1 (open_arrays ?r @ [(a, n)])"
    using make_reply_ok [OF f(3) ready(2) f(1), of ?ob n] assms(2) by (auto simp: a_def kids_def)
  have opn: "open_arrays r1 = open_arrays ?r" by (simp add: r1_def)
  have a0: "a \<noteq> 0" unfolding a_def by (rule live_next [OF f(3)])
  have idx: "0 \<le> ridx r1" "ridx r1 < 8" "t_type (rstack r1 ! nat (ridx r1)) = 2" using r1(2,4) assms(4) ts(2) by simp_all
  obtain st where st: "push_task r1 (rstack r1 ! nat (ridx r1)) n a = Some (r1\<lparr>rstack := st, ridx := ridx r1 + 1\<rparr>)"
    "st ! nat (ridx r1) = (rstack r1 ! nat (ridx r1))\<lparr>t_elements := n, t_obj := a\<rparr>"
    "st ! Suc (nat (ridx r1)) = fresh_task (Ptr (ridx r1)) 0 (r_privdata r1)" "\<forall>i < nat (ridx r1). st ! i = rstack r1 ! i"
    "rd.live (if ridx r1 = 0 then r1\<lparr>rstack := st, ridx := ridx r1 + 1, r_reply := a\<rparr> else r1\<lparr>rstack := st, ridx := ridx r1 + 1\<rparr>) h1"
    using rd.push_task_live [OF live1 idx(1,2) assms(2,3) a0 h1(6) [folded opn] idx(3)] by (elim exE conjE) (rule that)
  define rj where "rj = (if ridx r1 = 0 then r1\<lparr>rstack := st, ridx := ridx r1 + 1, r_reply := a\<rparr> else r1\<lparr>rstack := st, ridx := ridx r1 + 1\<rparr>)"
  have rj: "rj = r\<lparr>rstack := st, r_pos := int q, ridx := int (Suc d), r_reply := if d = 0 then a else r_reply r\<rparr>"
    unfolding rj_def by (simp add: r1(2) add.commute) (simp add: r1_def typed_def)
  have run: "processItem r h = Some (REDIS_OK, rj, h1)"
  proof -
    have "process_typed ?r h 2 = processMultiBulkItem ?r h" by (simp add: process_typed_def)
    moreover have "(ridx ?r = 8) = False" "(n = - 1) = False" "(0 < n) = True" "(a = 0) = False" using ready(2) assms(2,4) a0 by simp_all
    moreover have "push_task r1 cur n a = Some (r1\<lparr>rstack := st, ridx := ridx r1 + 1\<rparr>)" using st(1) cur r1(2,4) by simp
    moreover have "(if ridx r1 = 0 then r1\<lparr>rstack := st, ridx := ridx r1 + 1\<rparr>\<lparr>r_reply := a\<rparr> else r1\<lparr>rstack := st, ridx := ridx r1 + 1\<rparr>) = rj"
      by (simp add: rj_def)
    ultimately show ?thesis
      unfolding ts(1) processMultiBulkItem_def make_array_def
      by (simp only: f(1) [unfolded arg] rl r1(1,3) rll mk [unfolded arg] h1(1) [unfolded arg] arg n(3) Option.bind.simps option.case prod.case
          ptr.case if_True if_False bind_assoc bind_case_prod Let_def simp_thms)
  qed
  have nd: "nat (ridx r1) = d" "rstack ?r ! d = (rstack r ! d)\<lparr>t_type := 2\<rparr>" using r1(2) ts(3,4) by (simp_all add: typed_def)
  have "rstack ?r ! i = rstack r ! i" if "i < d" for i using that by (simp add: typed_def)
  moreover have "linked r d a h h1" using h1(5) ts(3,4) by (auto simp: linked_def typed_def nth_list_update)
  ultimately show thesis
    using run st(2-5) rj h1 r1(4) nd by (intro that [of rj h1 st]) (simp_all add: rj_def fresh_task_def)
qed

text \<open>Behind an element: the array is complete, or its next element follows.\<close>

lemma next_element:
  assumes "rd.live r h" "ridx r = int (Suc d)" "t_elements (rstack r ! d) = int n" "t_idx (rstack r ! Suc d) = int j" "j < n"
  shows "Suc j = n \<Longrightarrow> moveToNextTask r = moveToNextTask (r\<lparr>ridx := int d\<rparr>)"
    "Suc j < n \<Longrightarrow> \<exists>st. moveToNextTask r = Some (r\<lparr>rstack := st\<rparr>) \<and> rd.live (r\<lparr>rstack := st\<rparr>) h \<and>
      take (Suc d) st = take (Suc d) (rstack r) \<and> t_type (st ! Suc d) = - 1 \<and> t_idx (st ! Suc d) = int (Suc j)"
proof -
  let ?st = "rstack r"
  note live = rd.liveD [OF assms(1)]
  note ok = stack_okD [OF live(5)]
  have d: "d < 8" "nat (int (Suc d)) = Suc d" "nat (int (Suc d) - 1) = d" using ok(3) assms(2) by simp_all
  have lev: "t_type (?st ! d) = 2" "int n \<le> INT_MAX" using ok(6) [of d] assms(2,3) by auto
  have at: "task_at ?st (ridx r) = Some (?st ! Suc d)" "task_at ?st (ridx r - 1) = Some (?st ! d)"
    using ok(1) d by (simp_all add: task_at_def assms(2))
  note unf = moveToNextTask.simps [of r]
  have conv: "to_int (int n - 1) = int n - 1" using lev(2) by simp
  have idx: "0 \<le> ridx r" "ridx r \<noteq> 0" "ridx r - 1 = int d" using assms(2) by simp_all
  show "moveToNextTask r = moveToNextTask (r\<lparr>ridx := int d\<rparr>)" if "Suc j = n"
  proof -
    have "t_idx (?st ! Suc d) = to_int (t_elements (?st ! d) - 1)" using that assms(3,4) conv by simp
    then show ?thesis using at lev(1) assms(2) by (subst unf) simp
  qed
  assume j: "Suc j < n"
  define st where "st = ?st[Suc d := (?st ! Suc d)\<lparr>t_type := - 1, t_elements := - 1, t_idx := int (Suc j)\<rparr>]"
  have "to_int (t_idx (?st ! Suc d) + 1) = int (Suc j)" "t_idx (?st ! Suc d) \<noteq> to_int (t_elements (?st ! d) - 1)"
    "t_idx (?st ! Suc d) < t_elements (?st ! d)" using lev(2) j assms(3-5) conv by simp_all
  moreover have "set_task ?st (ridx r) x = Some (?st[Suc d := x])" for x
    using ok(1) d assms(2) by (simp add: set_task_def nat_add_distrib)
  ultimately have mv: "moveToNextTask r = Some (r\<lparr>rstack := st\<rparr>)"
    using at lev(1) idx(1,2) by (subst unf) (simp add: st_def)
  obtain st' e where mv': "moveToNextTask r = Some (r\<lparr>rstack := st', ridx := e\<rparr>)" "stack_ok st' e"
    using moveToNextTask_ok [OF live(5) idx(1)] by blast
  have eq: "r\<lparr>rstack := st\<rparr> = r\<lparr>rstack := st', ridx := e\<rparr>" using mv mv'(1) by simp
  have "stack_ok st (ridx r)" using mv'(2) arg_cong [OF eq, of rstack] arg_cong [OF eq, of ridx] by simp
  moreover have arr: "open_arrays (r\<lparr>rstack := st\<rparr>) = open_arrays r"
    using assms(2) by (auto simp: open_arrays_def st_def nth_list_update)
  moreover have "buf_ok (r\<lparr>rstack := st\<rparr>)" using live(4) by (simp add: buf_ok_def)
  moreover have "t_obj (st ! 0) = t_obj (?st ! 0)" by (simp add: st_def)
  ultimately have "rd.live (r\<lparr>rstack := st\<rparr>) h" using live idx by (simp add: rd.live_def)
  moreover have "take (Suc d) st = take (Suc d) ?st" by (simp add: st_def)
  ultimately show "\<exists>st. moveToNextTask r = Some (r\<lparr>rstack := st\<rparr>) \<and> rd.live (r\<lparr>rstack := st\<rparr>) h \<and>
      take (Suc d) st = take (Suc d) (rstack r) \<and> t_type (st ! Suc d) = - 1 \<and> t_idx (st ! Suc d) = int (Suc j)"
    using mv ok(1) d by (intro exI [of _ st]) (simp add: st_def)
qed

definition parses :: "rval \<Rightarrow> bool" where
  "parses v \<longleftrightarrow> (\<forall>r h s p d. item_ready r h s p d (encode v) \<longrightarrow> d + depth v \<le> 8 \<longrightarrow>
     item_done r h (p + length (encode v)) d v)"

text \<open>The vector of an open array with its first \<open>j\<close> elements in place.\<close>

definition filled :: "reply_heap \<Rightarrow> int \<Rightarrow> rval list \<Rightarrow> nat \<Rightarrow> int list \<Rightarrow> bool" where
  "filled h a vs j es \<longleftrightarrow> h_objs h a = Some (array_reply (int (length vs)) es) \<and> length es = length vs \<and> j \<le> length vs \<and>
     (\<forall>i < j. a < es ! i \<and> represents (vs ! i) h (es ! i))"

lemma filled_step:
  assumes "filled h a vs j es" "heap_ok h" "linked r (Suc d) (h_next h) h h'" "t_obj (rstack r ! d) = a"
    "t_idx (rstack r ! Suc d) = int j" "j < length vs" "represents (vs ! j) h' (h_next h)"
  shows "filled h' a vs (Suc j) (es[j := h_next h])" "\<And>b. b < h_next h \<Longrightarrow> b \<noteq> a \<Longrightarrow> h_objs h' b = h_objs h b"
proof -
  have a: "h_objs h a = Some (array_reply (int (length vs)) es)" "length es = length vs" using assms(1) by (simp_all add: filled_def)
  have lt: "a < h_next h" using heap_ok_bound [OF assms(2) a(1)] by simp
  show same: "h_objs h' b = h_objs h b" if "b < h_next h" "b \<noteq> a" for b using assms(3,4) that by (simp add: linked_def)
  have "h_objs h' a = Some (array_reply (int (length vs)) (es[j := h_next h]))"
    using assms(3-5) lt a(1) by (simp add: linked_def)
  moreover have "represents v h' k" if "represents v h k" "a < k" for v k
    using represents_frame [OF that(1), of h'] same heap_ok_bound [OF assms(2)] that(2) by (metis less_le_trans less_irrefl)
  ultimately show "filled h' a vs (Suc j) (es[j := h_next h])"
    using assms(1,6,7) lt by (auto simp: filled_def less_Suc_eq nth_list_update)
qed

lemma elements_done:
  assumes "\<forall>u \<in> set us. parses u" "us \<noteq> []" "rd.live r h" "plenty (h_env h)" "r_buf r = Ptr s" "r_pos r = int q"
    "drop q (sds_str s) = concat (map encode us) @ rest" "ridx r = int (Suc d)" "t_type (rstack r ! Suc d) = - 1"
    "t_obj (rstack r ! d) = a" "t_elements (rstack r ! d) = int (length vs)" "t_idx (rstack r ! Suc d) = int j"
    "drop j vs = us" "\<forall>u \<in> set us. Suc d + depth u \<le> 8" "filled h a vs j es"
  shows "\<exists>st h' es'. process_loop r h = do {
      r2 \<leftarrow> moveToNextTask (r\<lparr>rstack := st, r_pos := int (q + length (concat (map encode us))), ridx := int d\<rparr>); process_loop r2 h' } \<and>
    rd.live (r\<lparr>rstack := st, r_pos := int (q + length (concat (map encode us)))\<rparr>) h' \<and> take (Suc d) st = take (Suc d) (rstack r) \<and>
    h_env h' = h_env h \<and> h_next h \<le> h_next h' \<and> filled h' a vs (length vs) es' \<and> (\<forall>b < h_next h. b \<noteq> a \<longrightarrow> h_objs h' b = h_objs h b)"
  using assms
proof (induction us arbitrary: r h q j es)
  case (Cons u us)
  let ?q = "q + length (encode u)"
  have pu: "parses u" and du: "Suc d + depth u \<le> 8" using Cons.prems(1,14) by simp_all
  have ready: "item_ready r h s q (Suc d) (encode u)" using Cons.prems by (simp add: item_ready_def)
  have jlt: "j < length vs" using Cons.prems(13) by (metis drop_all leI list.distinct(1))
  have vj: "vs ! j = u" "drop (Suc j) vs = us" using nth_via_drop [OF Cons.prems(13)] Cons.prems(13) by (simp, metis drop_Suc list.sel(3) tl_drop)
  obtain st1 h1 where it: "process_loop r h = do {
        r2 \<leftarrow> moveToNextTask (set_root (r\<lparr>rstack := st1, r_pos := int ?q\<rparr>) (h_next h)); process_loop r2 h1 }"
      "rd.live (r\<lparr>rstack := st1, r_pos := int ?q\<rparr>) h1" "take (Suc d) st1 = take (Suc d) (rstack r)"
      "t_idx (st1 ! Suc d) = t_idx (rstack r ! Suc d)" "h_env h1 = h_env h" "h_next h < h_next h1"
      "represents u h1 (h_next h)" "linked r (Suc d) (h_next h) h h1"
    using pu ready du unfolding parses_def item_done_def by blast
  define r1 where "r1 = r\<lparr>rstack := st1, r_pos := int ?q\<rparr>"
  have r1: "ridx r1 = int (Suc d)" "rstack r1 = st1" "r_buf r1 = Ptr s" "r_pos r1 = int ?q" "rd.live r1 h1"
    using Cons.prems(5,8) it(2) by (simp_all add: r1_def)
  have loop: "process_loop r h = do { r2 \<leftarrow> moveToNextTask r1; process_loop r2 h1 }"
    using it(1) Cons.prems(8) by (simp add: r1_def set_root_def)
  have std: "st1 ! d = rstack r ! d" using arg_cong [OF it(3), of "\<lambda>x. x ! d"] stack_okD(1) [OF rd.liveD(5) [OF r1(5)]] by simp
  have hok: "heap_ok h" using rd.liveD(6) [OF Cons.prems(3)] by (simp add: replies_inv_def)
  have rep: "represents (vs ! j) h1 (h_next h)" using it(7) vj(1) by simp
  have fill: "filled h1 a vs (Suc j) (es[j := h_next h])" and same: "\<And>b. b < h_next h \<Longrightarrow> b \<noteq> a \<Longrightarrow> h_objs h1 b = h_objs h b"
    using filled_step [OF Cons.prems(15) hok it(8) Cons.prems(10,12) jlt rep] by blast+
  have el: "t_elements (rstack r1 ! d) = int (length vs)" "t_idx (rstack r1 ! Suc d) = int j"
    using std it(4) Cons.prems(11,12) r1(2) by simp_all
  note nx = next_element [OF r1(5,1) el jlt]
  show ?case
  proof (cases "us = []")
    case True
    then have "Suc j = length vs" using vj(2) jlt by simp
    then have "process_loop r h = do { r2 \<leftarrow> moveToNextTask (r\<lparr>rstack := st1, r_pos := int ?q, ridx := int d\<rparr>); process_loop r2 h1 }"
      and "filled h1 a vs (length vs) (es[j := h_next h])"
      using loop nx(1) fill by (simp_all add: r1_def)
    with True it same r1(5) show ?thesis
      by (intro exI [of _ st1] exI [of _ h1] exI [of _ "es[j := h_next h]"]) (simp add: r1_def)
  next
    case False
    then have "Suc j < length vs" using vj(2) jlt by (metis Suc_lessI drop_all order_refl)
    from nx(2) [OF this] obtain st2 where st2: "moveToNextTask r1 = Some (r1\<lparr>rstack := st2\<rparr>)" "rd.live (r1\<lparr>rstack := st2\<rparr>) h1"
      "take (Suc d) st2 = take (Suc d) st1" "t_type (st2 ! Suc d) = - 1" "t_idx (st2 ! Suc d) = int (Suc j)"
      using r1(2) by auto
    let ?r2 = "r1\<lparr>rstack := st2\<rparr>"
    have st2d: "st2 ! d = rstack r ! d"
      using arg_cong [OF st2(3), of "\<lambda>x. x ! d"] std stack_okD(1) [OF rd.liveD(5) [OF r1(5)]] stack_okD(1) [OF rd.liveD(5) [OF st2(2)]] r1(2) by simp
    have dr: "drop ?q (sds_str s) = concat (map encode us) @ rest"
    proof -
      have "drop ?q (sds_str s) = drop (length (encode u)) (drop q (sds_str s))" by (simp add: add.commute)
      then show ?thesis unfolding Cons.prems(7) by simp
    qed
    have "\<exists>st h' es'. process_loop ?r2 h1 = do {
          r3 \<leftarrow> moveToNextTask (?r2\<lparr>rstack := st, r_pos := int (?q + length (concat (map encode us))), ridx := int d\<rparr>); process_loop r3 h' } \<and>
        rd.live (?r2\<lparr>rstack := st, r_pos := int (?q + length (concat (map encode us)))\<rparr>) h' \<and> take (Suc d) st = take (Suc d) (rstack ?r2) \<and>
        h_env h' = h_env h1 \<and> h_next h1 \<le> h_next h' \<and> filled h' a vs (length vs) es' \<and> (\<forall>b < h_next h1. b \<noteq> a \<longrightarrow> h_objs h' b = h_objs h1 b)"
    proof (rule Cons.IH [OF _ False st2(2) _ _ _ dr])
      show "\<forall>u \<in> set us. parses u" "\<forall>u \<in> set us. Suc d + depth u \<le> 8" using Cons.prems(1,14) by simp_all
      show "plenty (h_env h1)" using Cons.prems(4) it(5) by simp
      show "r_buf ?r2 = Ptr s" "r_pos ?r2 = int ?q" "ridx ?r2 = int (Suc d)" using r1 by simp_all
      show "t_type (rstack ?r2 ! Suc d) = - 1" "t_idx (rstack ?r2 ! Suc d) = int (Suc j)" using st2 by simp_all
      show "t_obj (rstack ?r2 ! d) = a" "t_elements (rstack ?r2 ! d) = int (length vs)" using st2d Cons.prems(10,11) by simp_all
      show "drop (Suc j) vs = us" "filled h1 a vs (Suc j) (es[j := h_next h])" using vj(2) fill by blast+
    qed
    then obtain st h' es' where fin: "process_loop ?r2 h1 = do {
          r3 \<leftarrow> moveToNextTask (?r2\<lparr>rstack := st, r_pos := int (?q + length (concat (map encode us))), ridx := int d\<rparr>); process_loop r3 h' }"
        "rd.live (?r2\<lparr>rstack := st, r_pos := int (?q + length (concat (map encode us)))\<rparr>) h'" "take (Suc d) st = take (Suc d) (rstack ?r2)"
        "h_env h' = h_env h1" "h_next h1 \<le> h_next h'" "filled h' a vs (length vs) es'" "\<forall>b < h_next h1. b \<noteq> a \<longrightarrow> h_objs h' b = h_objs h1 b"
      by blast
    have "\<forall>b < h_next h. b \<noteq> a \<longrightarrow> h_objs h' b = h_objs h b" using fin(7) same it(6) by simp
    moreover have "process_loop r h = process_loop ?r2 h1" using loop st2(1) by simp
    ultimately show ?thesis
      using fin(1-6) it(3,5,6) st2(3)
      by (intro exI [of _ st] exI [of _ h'] exI [of _ es']) (simp add: r1_def add.assoc)
  qed
qed simp

text \<open>Back at the level of the array itself.\<close>

lemma live_pop:
  assumes "rd.live rj h'" "ridx rj = int (Suc d)" "rd.live r h" "ridx r = int d"
    "r0 = r\<lparr>rstack := rstack rj, r_pos := r_pos rj\<rparr>" "r_buf rj = r_buf r" "r_len rj = r_len r"
    "\<And>i. i < d \<Longrightarrow> t_obj (rstack rj ! i) = t_obj (rstack r ! i)"
  shows "rd.live r0 h'"
proof -
  note j = rd.liveD [OF assms(1)] and r = rd.liveD [OF assms(3)]
  note ok = stack_okD [OF j(5)]
  have nat: "nat (1 + int d) = Suc d" by simp
  have lev: "t_type (rstack rj ! i) = 2 \<and> 0 \<le> t_idx (rstack rj ! Suc i) \<and> t_idx (rstack rj ! Suc i) < t_elements (rstack rj ! i) \<and>
      t_elements (rstack rj ! i) \<le> INT_MAX \<and> t_parent (rstack rj ! Suc i) = Ptr (int i)" if "i \<le> d" for i
    using ok(6) [of i] that assms(2) nat by simp
  have "stack_ok (rstack rj) (int d)"
    unfolding stack_ok_def using ok(1,3,4) lev assms(2) by auto
  moreover have "open_arrays r0 = take d (open_arrays rj)"
    using assms(2,4) nat by (auto simp: open_arrays_def assms(5) take_map intro!: map_cong)
  then have "replies_inv h' (open_arrays r0)" using rd.hinv_take [OF j(6)] by simp
  moreover have "buf_ok r0" using j(4) assms(6,7) by (auto simp: buf_ok_def assms(5))
  moreover have "0 < d \<Longrightarrow> t_obj (rstack rj ! 0) = r_reply r \<and> r_reply r \<noteq> 0" using r(8) assms(4,8) by simp
  ultimately show ?thesis using r(1,2,3,7) assms(4) by (auto simp: rd.live_def assms(5))
qed

lemma array_done:
  assumes "\<forall>v \<in> set vs. parses v" "vs \<noteq> []" "item_ready r h s p d (encode (VArr vs))" "d + depth (VArr vs) \<le> 8"
  shows "item_done r h (p + length (encode (VArr vs))) d (VArr vs)"
proof -
  let ?n = "int (length vs)" and ?a = "h_next h"
  have dec: "dec_int ?n = dec_string (length vs)" by (simp add: dec_int_def)
  have enc: "encode (VArr vs) = (CHR ''*'' # dec_int ?n @ crlf) @ concat (map encode vs)" by (simp add: dec)
  have ready: "rd.live r h" "plenty (h_env h)" "r_buf r = Ptr s" "ridx r = int d" using assms(3) by (simp_all add: item_ready_def)
  note ok = live_buf [OF ready(1,3)]
  obtain rest where dr: "drop p (sds_str s) = encode (VArr vs) @ rest" using assms(3) by (auto simp: item_ready_def)
  then have "length (encode (VArr vs)) \<le> length (sds_str s)" by (metis length_append length_drop diff_le_self le_add1 order_trans)
  moreover have "length vs \<le> length (concat (map encode vs))"
  proof (induction vs)
    case (Cons v vs)
    have "0 < length (encode v)" by simp
    with Cons show ?case by (simp only: list.map concat.simps length_append list.size)
  qed simp
  ultimately have n: "0 < ?n" "?n \<le> INT_MAX" using assms(2) ok(4) by (simp_all add: enc)
  have d8: "d < 8" using assms(4) by simp
  let ?q = "p + length (dec_int ?n) + 3" and ?q' = "p + length (encode (VArr vs))"
  obtain st h1 rj where s: "processItem r h = Some (REDIS_OK, rj, h1)" "rd.live rj h1"
    "rj = r\<lparr>rstack := st, r_pos := int ?q, ridx := int (Suc d), r_reply := if d = 0 then ?a else r_reply r\<rparr>"
    "\<And>i. i < d \<Longrightarrow> st ! i = rstack r ! i" "t_idx (st ! d) = t_idx (rstack r ! d)" "t_obj (st ! d) = ?a" "t_elements (st ! d) = ?n"
    "t_type (st ! Suc d) = - 1" "t_idx (st ! Suc d) = 0" "h_objs h1 ?a = Some (array_reply ?n (replicate (nat ?n) 0))"
    "linked r d ?a h h1" "h_env h1 = h_env h" "h_next h1 = ?a + 1"
    by (rule array_start [OF item_ready_prefix [OF assms(3) [unfolded enc]] n d8]) (rule that)
  have loop: "process_loop r h = process_loop rj h1" using ready(4) s(1) by (subst process_loop.simps) simp
  have rj: "r_buf rj = Ptr s" "r_pos rj = int ?q" "ridx rj = int (Suc d)" "rstack rj = st" "r_len rj = r_len r" using ready(3) by (simp_all add: s(3))
  have dq: "drop ?q (sds_str s) = concat (map encode vs) @ rest"
  proof -
    have "drop ?q (sds_str s) = drop (length (dec_int ?n) + 3) (drop p (sds_str s))" by (simp add: add.commute add.left_commute)
    then show ?thesis unfolding dr enc by (simp add: numeral_3_eq_3)
  qed
  have fill: "filled h1 ?a vs 0 (replicate (length vs) 0)" using s(10) by (simp add: filled_def)
  have qq: "?q + length (concat (map encode vs)) = ?q'" by (simp add: dec)
  have "\<exists>st' h' es. process_loop rj h1 = do {
      r2 \<leftarrow> moveToNextTask (rj\<lparr>rstack := st', r_pos := int (?q + length (concat (map encode vs))), ridx := int d\<rparr>); process_loop r2 h' } \<and>
    rd.live (rj\<lparr>rstack := st', r_pos := int (?q + length (concat (map encode vs)))\<rparr>) h' \<and> take (Suc d) st' = take (Suc d) (rstack rj) \<and>
    h_env h' = h_env h1 \<and> h_next h1 \<le> h_next h' \<and> filled h' ?a vs (length vs) es \<and> (\<forall>b < h_next h1. b \<noteq> ?a \<longrightarrow> h_objs h' b = h_objs h1 b)"
  proof (rule elements_done [OF assms(1,2) s(2) _ rj(1,2) dq rj(3)])
    show "\<forall>u \<in> set vs. Suc d + depth u \<le> 8" using depth_element assms(4) by fastforce
    show "plenty (h_env h1)" using ready(2) s(12) by simp
  qed (use s(6-9) rj(4) fill in simp_all)
  then obtain st' h' es where e: "process_loop rj h1 = do {
      r2 \<leftarrow> moveToNextTask (rj\<lparr>rstack := st', r_pos := int ?q', ridx := int d\<rparr>); process_loop r2 h' }"
    "rd.live (rj\<lparr>rstack := st', r_pos := int ?q'\<rparr>) h'" "take (Suc d) st' = take (Suc d) st"
    "h_env h' = h_env h1" "h_next h1 \<le> h_next h'" "filled h' ?a vs (length vs) es" "\<forall>b < h_next h1. b \<noteq> ?a \<longrightarrow> h_objs h' b = h_objs h1 b"
    unfolding qq rj(4) by blast
  have len: "length st' = 9" "length st = 9" using stack_okD(1) [OF rd.liveD(5) [OF e(2)]] stack_okD(1) [OF rd.liveD(5) [OF s(2)]] rj(4) by simp_all
  have nth: "st' ! i = st ! i" if "i < Suc d" for i using arg_cong [OF e(3), of "\<lambda>x. x ! i"] that by simp
  have root: "rj\<lparr>rstack := st', r_pos := int ?q', ridx := int d\<rparr> = set_root (r\<lparr>rstack := st', r_pos := int ?q'\<rparr>) ?a"
    using ready(4) by (cases r) (simp add: s(3) set_root_def)
  have "rd.live (r\<lparr>rstack := st', r_pos := int ?q'\<rparr>) h'"
    by (rule live_pop [OF e(2) _ ready(1,4)]) (use rj ready(3) nth s(4) in simp_all)
  moreover have "take d st' = take d (rstack r)"
  proof (rule nth_equalityI)
    show "length (take d st') = length (take d (rstack r))" using len stack_okD(1) [OF rd.liveD(5) [OF ready(1)]] by simp
    show "take d st' ! i = take d (rstack r) ! i" if "i < length (take d st')" for i using that nth s(4) by simp
  qed
  moreover have "represents (VArr vs) h' ?a"
    using e(6) assms(2) by (auto simp: filled_def list_all2_conv_all_nth)
  moreover have "linked r d ?a h h'" using s(11,13) e(7) by (simp add: linked_def)
  ultimately show ?thesis
    unfolding item_done_def using loop e(1) [unfolded root] e(4,5) s(5,12,13) nth [of d]
    by (intro exI [of _ st'] exI [of _ h']) simp
qed

lemma line_items:
  "encode (VInt i) = CHR '':'' # dec_int i @ crlf" "encode (VStatus x) = CHR ''+'' # x @ crlf"
  "encode (VError x) = CHR ''-'' # x @ crlf" "p + length (c # x @ crlf) = p + length x + 3"
  by simp_all

lemma parses_all: "rval_ok v \<Longrightarrow> parses v"
proof (induction v)
  case (VInt i)
  then have "- 9223372036854775808 \<le> i" "i \<le> LONG_MAX" by simp_all
  then show ?case using integer_done unfolding parses_def line_items by blast
next
  case (VStr s)
  then show ?case using string_done unfolding parses_def by blast
next
  case (VStatus x)
  have "reply_type_of (CHR ''+'') = Some 5" by (simp add: reply_type_of_def)
  then show ?case using line_text_done [of _ _ _ _ _ "CHR ''+''" x 5 "VStatus x"] VStatus unfolding parses_def line_items by auto
next
  case (VError x)
  have "reply_type_of (CHR ''-'') = Some 6" by (simp add: reply_type_of_def)
  then show ?case using line_text_done [of _ _ _ _ _ "CHR ''-''" x 6 "VError x"] VError unfolding parses_def line_items by auto
next
  case VNil
  have "length (encode VNil) = 5" by simp
  with nil_done show ?case unfolding parses_def by metis
next
  case (VArr vs)
  then have vs: "\<forall>v \<in> set vs. parses v" by (simp add: list_all_iff)
  show ?case
  proof (cases "vs = []")
    case True
    then show ?thesis using empty_array_done unfolding parses_def by (simp del: encode.simps)
  next
    case False
    then show ?thesis using array_done [OF vs] unfolding parses_def by blast
  qed
qed

section \<open>Whole replies\<close>

definition unread :: "'h redisReader \<Rightarrow> bytes" where
  "unread r = (case r_buf r of NULL \<Rightarrow> [] | Ptr s \<Rightarrow> drop (nat (r_pos r)) (sds_str s))"

text \<open>
  A reader between two replies, without an error: no task is open, or an earlier call has opened the
  root task and found no byte to read.
\<close>

definition idle :: "reply_heap redisReader \<Rightarrow> reply_heap \<Rightarrow> bool" where
  "idle r h \<longleftrightarrow> rd.live r h \<and> (ridx r = - 1 \<and> r_reply r = 0 \<or> ridx r = 0 \<and> t_type (rstack r ! 0) = - 1)"

lemma idle_inv: "idle r h \<Longrightarrow> rd.reader_inv r h \<and> r_err r = 0"
  by (auto simp: idle_def rd.reader_inv_def rd.live_def)

lemma discard_unread:
  assumes "rd.live r h"
  shows "\<exists>r'. discard_consumed r = Some r' \<and> rd.live r' h \<and> ridx r' = ridx r \<and> r_reply r' = r_reply r \<and> unread r' = unread r"
proof -
  obtain r' where r': "discard_consumed r = Some r'" "rd.live r' h" "ridx r' = ridx r" "r_reply r' = r_reply r"
    using rd.discard_consumed_ok [OF assms] by blast
  obtain s p where buf: "r_buf r = Ptr s" "sds_ok s" "r_pos r = int p" "p \<le> length (sds_str s)" "int (length (sds_str s)) \<le> INT_MAX"
    using buf_okE [OF rd.liveD(4) [OF assms]] by metis
  have "unread r' = unread r"
  proof (cases "1024 \<le> p")
    case False
    then show ?thesis using r'(1) buf(3) by (simp add: discard_consumed_def)
  next
    case True
    have le: "int p \<le> sh_len s" using buf(4) length_sds_str [OF buf(2)] by linarith
    obtain s' where "sdsrange s (int p) (- 1) = Some s'" "sds_str s' = drop p (sds_str s)"
      using sdsrange_drop [OF buf(2) _ le] by auto
    moreover have "to_int (int p) = int p" using buf(4,5) by simp
    ultimately show ?thesis using r'(1) True buf(1,3) by (auto simp: discard_consumed_def unread_def)
  qed
  with r' show ?thesis by blast
qed

text \<open>The root task is opened unless it is open already.\<close>

lemma open_root:
  assumes "idle r h"
  obtains r1 where "(if ridx r = - 1
      then do { st \<leftarrow> set_task (rstack r) 0 (fresh_task NULL (- 1) (r_privdata r)); Some (r\<lparr>rstack := st, ridx := 0\<rparr>) } else Some r) = Some r1"
    "rd.live r1 h" "ridx r1 = 0" "t_type (rstack r1 ! 0) = - 1" "r_buf r1 = r_buf r" "r_pos r1 = r_pos r"
proof (cases "ridx r = - 1")
  case False
  then show thesis using assms by (intro that [of r]) (auto simp: idle_def)
next
  case True
  have live: "rd.live r h" "r_reply r = 0" using assms True by (auto simp: idle_def)
  let ?t = "fresh_task NULL (- 1) (r_privdata r)"
  define st where "st = (rstack r)[0 := ?t]"
  have len: "length (rstack r) = 9" by (rule stack_okD(1) [OF rd.liveD(5) [OF live(1)]])
  have "replies_inv h []" using rd.liveD(6) [OF live(1)] True by (simp add: open_arrays_def)
  moreover have "stack_ok st 0" using len by (simp add: stack_ok_def fresh_task_def st_def)
  moreover have "buf_ok (r\<lparr>rstack := st, ridx := 0\<rparr>)" using rd.liveD(4) [OF live(1)] by (simp add: buf_ok_def)
  ultimately have "rd.live (r\<lparr>rstack := st, ridx := 0\<rparr>) h"
    using rd.liveD(1-3) [OF live(1)] live(2) by (simp add: rd.live_def open_arrays_def)
  moreover have "set_task (rstack r) 0 ?t = Some st" using len by (simp add: set_task_def st_def)
  ultimately show thesis using True len by (intro that [of "r\<lparr>rstack := st, ridx := 0\<rparr>"]) (simp_all add: st_def fresh_task_def)
qed

lemma GetReply_parses:
  assumes "idle r h" "plenty (h_env h)" "rval_ok v" "depth v \<le> 8" "unread r = encode v @ rest"
  shows "\<exists>r' h'. redisReaderGetReply r h = Some (REDIS_OK, h_next h, r', h') \<and> idle r' h' \<and> unread r' = rest \<and>
    represents v h' (h_next h) \<and> h_next h \<noteq> 0 \<and> h_env h' = h_env h \<and> h_next h < h_next h' \<and> (\<forall>b < h_next h. h_objs h' b = h_objs h b)"
proof -
  have live: "rd.live r h" using assms(1) by (simp add: idle_def)
  obtain s p where buf: "r_buf r = Ptr s" "sds_ok s" "r_pos r = int p" "p \<le> length (sds_str s)" "r_len r = int (length (sds_str s))"
    using buf_okE [OF rd.liveD(4) [OF live]] by metis
  have dr: "drop p (sds_str s) = encode v @ rest" using assms(5) buf(1,3) by (simp add: unread_def)
  then have "drop p (sds_str s) \<noteq> []" by simp
  then have nonempty: "r_len r \<noteq> 0" using buf(5) by auto
  obtain r1 where r1: "(if ridx r = - 1
      then do { st \<leftarrow> set_task (rstack r) 0 (fresh_task NULL (- 1) (r_privdata r)); Some (r\<lparr>rstack := st, ridx := 0\<rparr>) } else Some r) = Some r1"
    "rd.live r1 h" "ridx r1 = 0" "t_type (rstack r1 ! 0) = - 1" "r_buf r1 = r_buf r" "r_pos r1 = r_pos r"
    by (rule open_root [OF assms(1)])
  have "item_ready r1 h s p 0 (encode v)"
    using r1 assms(2) buf(1,3) dr by (auto simp: item_ready_def)
  then have "item_done r1 h (p + length (encode v)) 0 v"
    using parses_all [OF assms(3)] assms(4) unfolding parses_def by simp
  then obtain st2 h' where it: "process_loop r1 h = do {
        r2 \<leftarrow> moveToNextTask (set_root (r1\<lparr>rstack := st2, r_pos := int (p + length (encode v))\<rparr>) (h_next h)); process_loop r2 h' }"
      "rd.live (r1\<lparr>rstack := st2, r_pos := int (p + length (encode v))\<rparr>) h'" "h_env h' = h_env h" "h_next h < h_next h'"
      "represents v h' (h_next h)" "linked r1 0 (h_next h) h h'"
    unfolding item_done_def by blast
  define r2 where "r2 = r1\<lparr>rstack := st2, r_pos := int (p + length (encode v)), r_reply := h_next h, ridx := - 1\<rparr>"
  have "moveToNextTask (set_root (r1\<lparr>rstack := st2, r_pos := int (p + length (encode v))\<rparr>) (h_next h)) = Some r2"
    using r1(3) rd.liveD(7) [OF r1(2)] by (subst moveToNextTask.simps) (simp add: set_root_def r2_def)
  moreover have "process_loop r2 h' = Some (r2, h')" by (subst process_loop.simps) (simp add: r2_def)
  ultimately have loop: "process_loop r1 h = Some (r2, h')" using it(1) by simp
  have stk: "length st2 = 9" using stack_okD(1) [OF rd.liveD(5) [OF it(2)]] by simp
  have live2: "rd.live r2 h'"
    using it(2) stk r1(3) by (auto simp: rd.live_def r2_def buf_ok_def open_arrays_def stack_ok_def)
  have un2: "unread r2 = rest"
  proof -
    have "unread r2 = drop (length (encode v)) (drop p (sds_str s))" using buf(1) r1(5) by (simp add: unread_def r2_def nat_int_add add.commute)
    then show ?thesis by (simp add: dr)
  qed
  obtain r3 where r3: "discard_consumed r2 = Some r3" "rd.live r3 h'" "ridx r3 = - 1" "r_reply r3 = h_next h" "unread r3 = rest"
    using discard_unread [OF live2] un2 by (auto simp: r2_def)
  let ?r' = "r3\<lparr>r_reply := 0\<rparr>"
  have "rd.live ?r' h'" using r3(2,3) by (auto simp: rd.live_def buf_ok_def open_arrays_def)
  then have "idle ?r' h'" using r3(3) by (simp add: idle_def)
  moreover have "unread ?r' = rest" using r3(5) by (cases "r_buf r3") (simp_all add: unread_def)
  moreover have "redisReaderGetReply r h = Some (REDIS_OK, h_next h, ?r', h')"
    using rd.liveD(2) [OF live] rd.liveD(2) [OF live2] nonempty r1(1) loop r3(1,3,4)
    by (simp only: redisReaderGetReply_def) simp
  moreover have "\<forall>b < h_next h. h_objs h' b = h_objs h b" using it(6) by (simp add: linked_def)
  ultimately show ?thesis using it(3-5) live_next [OF live] by blast
qed

text \<open>Reading one reply after the other.\<close>

fun get_replies :: "nat \<Rightarrow> reply_heap redisReader \<Rightarrow> reply_heap \<Rightarrow> (int list \<times> reply_heap redisReader \<times> reply_heap) option" where
  "get_replies 0 r h = Some ([], r, h)"
| "get_replies (Suc n) r h = do {
     (rc, a, r1, h1) \<leftarrow> redisReaderGetReply r h;
     (as, r2, h2) \<leftarrow> get_replies n r1 h1;
     Some (a # as, r2, h2)
   }"

lemma get_replies_stream:
  assumes "idle r h" "plenty (h_env h)" "list_all (\<lambda>v. rval_ok v \<and> depth v \<le> 8) vs" "unread r = concat (map encode vs) @ rest"
  shows "\<exists>as r' h'. get_replies (length vs) r h = Some (as, r', h') \<and> idle r' h' \<and> unread r' = rest \<and>
    list_all2 (\<lambda>a v. h_next h \<le> a \<and> represents v h' a) as vs \<and> (\<forall>b < h_next h. h_objs h' b = h_objs h b) \<and> h_next h \<le> h_next h'"
  using assms
proof (induction vs arbitrary: r h)
  case (Cons v vs)
  obtain r1 h1 where g: "redisReaderGetReply r h = Some (REDIS_OK, h_next h, r1, h1)" "idle r1 h1"
    "unread r1 = concat (map encode vs) @ rest" "represents v h1 (h_next h)" "h_env h1 = h_env h" "h_next h < h_next h1"
    "\<forall>b < h_next h. h_objs h1 b = h_objs h b"
    using GetReply_parses [OF Cons.prems(1,2), of v "concat (map encode vs) @ rest"] Cons.prems(3,4) by auto
  obtain as r' h' where rest: "get_replies (length vs) r1 h1 = Some (as, r', h')" "idle r' h'" "unread r' = rest"
    "list_all2 (\<lambda>a v. h_next h1 \<le> a \<and> represents v h' a) as vs" "\<forall>b < h_next h1. h_objs h' b = h_objs h1 b" "h_next h1 \<le> h_next h'"
    using Cons.IH [OF g(2) _ _ g(3)] Cons.prems(2,3) g(5) by auto
  have hok: "heap_ok h1" using g(2) rd.liveD(6) [of r1 h1] by (auto simp: idle_def replies_inv_def)
  have "represents v h' (h_next h)"
    using represents_frame [OF g(4)] rest(5) heap_ok_bound [OF hok] by metis
  moreover have "list_all2 (\<lambda>a v. h_next h \<le> a \<and> represents v h' a) as vs"
    using rest(4) g(6) by (auto elim!: list_all2_mono)
  moreover have "\<forall>b < h_next h. h_objs h' b = h_objs h b" using g(6,7) rest(5) by simp
  ultimately show ?case using g rest by simp
qed simp

end
