(* ===== verification/Format.thy ===== *)
theory Format
  imports Sds_Text Resp
begin

text \<open>
  The formatters of commands, \<open>redis/hiredis/hiredis.c\<close> lines 191 to 570: from a format string with
  arguments or from a vector of arguments to the bytes that are sent.

  A variable argument list is a list of typed values; taking a value of another type is undefined
  in C and gives \<open>None\<close>. The text that the C library prints for one conversion is the parameter
  \<open>pf\<close>, a function of the conversion and its argument. A format string is the list of its bytes with
  the terminator; running over its end is \<open>None\<close>. The pointer \<open>target\<close> for the result is never \<open>NULL\<close>,
  as in every call of the library; the result is returned beside the return value.
\<close>

section \<open>Lengths\<close>

function count_digits :: "int \<Rightarrow> int \<Rightarrow> int" where
  "count_digits v res =
     (if v < 10 then res else if v < 100 then to_uint (res + 1) else if v < 1000 then to_uint (res + 2)
      else if v < 10000 then to_uint (res + 3) else count_digits (v div 10000) (to_uint (res + 4)))"
  by pat_completeness auto
termination
  by (relation "measure (\<lambda>(v, res). nat v)") (auto intro!: int_div_less_self)

declare count_digits.simps [simp del]

definition countDigits :: "int \<Rightarrow> int" where
  "countDigits v = count_digits v 1"

definition bulklen :: "int \<Rightarrow> int" where
  "bulklen len = to_size (1 + countDigits len + 2 + len + 2)"

section \<open>Building the command\<close>

text \<open>\<open>sprintf\<close> of a marker, a number and a line end, and the copy of one argument behind it.\<close>

definition emit_header :: "bytes \<Rightarrow> int \<Rightarrow> char \<Rightarrow> int \<Rightarrow> (bytes \<times> int) option" where
  "emit_header cmd pos mark n = do {
     b \<leftarrow> mem_write cmd pos (cstr (mark # dec_int n @ crlf));
     Some (b, to_int (pos + int (length (mark # dec_int n @ crlf))))
   }"

definition emit_arg :: "bytes \<times> int \<Rightarrow> bytes \<times> int \<Rightarrow> (bytes \<times> int) option" where
  "emit_arg = (\<lambda>(arg, len) (cmd, pos). do {
     (b1, p1) \<leftarrow> emit_header cmd pos (CHR ''$'') len;
     d \<leftarrow> mem_read arg 0 len;
     b2 \<leftarrow> mem_write b1 p1 d;
     let p2 = to_int (p1 + len);
     b3 \<leftarrow> mem_write b2 p2 [CR];
     b4 \<leftarrow> mem_write b3 (to_int (p2 + 1)) [LF];
     Some (b4, to_int (p2 + 2))
   })"

fun emit_args :: "(bytes \<times> int) list \<Rightarrow> bytes \<times> int \<Rightarrow> (bytes \<times> int) option" where
  "emit_args [] bp = Some bp"
| "emit_args (a # as) bp = do { bp' \<leftarrow> emit_arg a bp; emit_args as bp' }"

text \<open>The end of both formatters: the block of \<open>totlen + 1\<close> bytes, or \<open>NULL\<close>.\<close>

definition build_command :: "cenv \<Rightarrow> int \<Rightarrow> int \<Rightarrow> (bytes \<times> int) list \<Rightarrow> bytes ptr option" where
  "build_command e argc totlen args =
     (let sz = to_size (to_int (totlen + 1)) in
      if \<not> granted e sz then Some NULL
      else do {
        bp \<leftarrow> emit_header (fresh e sz) 0 (CHR ''*'') argc;
        (b, pos) \<leftarrow> emit_args args bp;
        c_assert (pos = totlen);
        b' \<leftarrow> mem_write b pos [NUL];
        Some (Ptr b')
      })"

section \<open>Format strings\<close>

datatype cmd_arg = CStr bytes | CSize int | CInt int | CLong int | CLLong int | CDouble "64 word"

record format_state =
  curarg :: sds
  touched :: bool
  curargv :: "sds list"
  ftotlen :: int

definition is_flag :: "char \<Rightarrow> bool" where "is_flag c \<longleftrightarrow> c \<in> set ''#0-+ ''"
definition is_intfmt :: "char \<Rightarrow> bool" where "is_intfmt c \<longleftrightarrow> c \<in> set ''diouxX''"
definition is_dblfmt :: "char \<Rightarrow> bool" where "is_dblfmt c \<longleftrightarrow> c \<in> set ''eEfFgGaA''"

text \<open>\<open>while (*_p != '\0' && P(*_p)) _p++\<close>.\<close>

fun skip_while :: "(char \<Rightarrow> bool) \<Rightarrow> bytes \<Rightarrow> bytes option" where
  "skip_while P [] = None"
| "skip_while P (c # p) = (if c \<noteq> NUL \<and> P c then skip_while P p else Some (c # p))"

definition skip_prefix :: "bytes \<Rightarrow> bytes option" where
  "skip_prefix p = do {
     p1 \<leftarrow> skip_while is_flag p;
     p2 \<leftarrow> skip_while c_isdigit p1;
     (case p2 of [] \<Rightarrow> None | c # p3 \<Rightarrow> if c = CHR ''.'' then skip_while c_isdigit p3 else Some p2)
   }"

text \<open>
  The type of the conversion at \<open>_p\<close>: \<open>Inr\<close> is \<open>fmt_valid\<close> with the new \<open>_p\<close>, the value taken and the
  rest of the arguments, \<open>Inl\<close> is \<open>fmt_invalid\<close>. The first two searches by \<open>strchr\<close> also find the
  terminator of the format.
\<close>

type_synonym conversion = "unit + bytes \<times> cmd_arg \<times> cmd_arg list"

definition sized_int :: "bytes \<Rightarrow> (cmd_arg \<Rightarrow> bool) \<Rightarrow> cmd_arg list \<Rightarrow> conversion option" where
  "sized_int p fits ap = (case p of
      [] \<Rightarrow> None
    | c # _ \<Rightarrow>
        if c \<noteq> NUL \<and> is_intfmt c
        then (case ap of [] \<Rightarrow> None | a # ap' \<Rightarrow> if fits a then Some (Inr (p, a, ap')) else None)
        else Some (Inl ()))"

definition is_CInt :: "cmd_arg \<Rightarrow> bool" where "is_CInt a \<longleftrightarrow> (\<exists>i. a = CInt i)"
definition is_CLong :: "cmd_arg \<Rightarrow> bool" where "is_CLong a \<longleftrightarrow> (\<exists>i. a = CLong i)"
definition is_CLLong :: "cmd_arg \<Rightarrow> bool" where "is_CLLong a \<longleftrightarrow> (\<exists>i. a = CLLong i)"
definition is_CDouble :: "cmd_arg \<Rightarrow> bool" where "is_CDouble a \<longleftrightarrow> (\<exists>d. a = CDouble d)"

lemma arg_kind_code [code, simp]:
  "is_CInt a = (case a of CInt _ \<Rightarrow> True | _ \<Rightarrow> False)" "is_CLong a = (case a of CLong _ \<Rightarrow> True | _ \<Rightarrow> False)"
  "is_CLLong a = (case a of CLLong _ \<Rightarrow> True | _ \<Rightarrow> False)" "is_CDouble a = (case a of CDouble _ \<Rightarrow> True | _ \<Rightarrow> False)"
  by (auto simp: is_CInt_def is_CLong_def is_CLLong_def is_CDouble_def split: cmd_arg.split)

definition conversion_at :: "bytes \<Rightarrow> cmd_arg list \<Rightarrow> conversion option" where
  "conversion_at p ap = (case p of
      [] \<Rightarrow> None
    | c # p1 \<Rightarrow>
        if c = NUL \<or> is_intfmt c
        then (case ap of [] \<Rightarrow> None | a # ap' \<Rightarrow> if is_CInt a then Some (Inr (p, a, ap')) else None)
        else if is_dblfmt c
        then (case ap of [] \<Rightarrow> None | a # ap' \<Rightarrow> if is_CDouble a then Some (Inr (p, a, ap')) else None)
        else if c = CHR ''h''
        then (case p1 of [] \<Rightarrow> None
          | d # p2 \<Rightarrow> if d = CHR ''h'' then sized_int p2 is_CInt ap else sized_int p1 is_CInt ap)
        else if c = CHR ''l''
        then (case p1 of [] \<Rightarrow> None
          | d # p2 \<Rightarrow> if d = CHR ''l'' then sized_int p2 is_CLLong ap else sized_int p1 is_CLong ap)
        else Some (Inl ()))"

text \<open>
  Steps of the loop. A step gives the new argument (\<open>newarg\<close>), the rest of the arguments and the rest
  of the format behind both increments of \<open>c\<close>, or an error code.
\<close>

type_synonym printf_text = "bytes \<Rightarrow> cmd_arg \<Rightarrow> bytes"

definition put_bytes :: "cenv \<Rightarrow> sds \<Rightarrow> bytes \<Rightarrow> int \<Rightarrow> sds ptr option" where
  "put_bytes e s arg n = (if n > 0 then sdscatlen e s arg n else Some (Ptr s))"

definition percent_step :: "cenv \<Rightarrow> printf_text \<Rightarrow> bytes \<Rightarrow> cmd_arg list \<Rightarrow> sds \<Rightarrow>
    (int + sds ptr \<times> cmd_arg list \<times> bytes) option" where
  "percent_step e pf c ap cur = (case c of
      _ # d # rest \<Rightarrow>
        if d = CHR ''s'' then (case ap of
            CStr arg # ap' \<Rightarrow> do { n \<leftarrow> c_strlen arg; na \<leftarrow> put_bytes e cur arg n; Some (Inr (na, ap', rest)) }
          | _ \<Rightarrow> None)
        else if d = CHR ''b'' then (case ap of
            CStr arg # CSize n # ap' \<Rightarrow> do { na \<leftarrow> put_bytes e cur arg n; Some (Inr (na, ap', rest)) }
          | _ \<Rightarrow> None)
        else if d = CHR ''%'' then do { na \<leftarrow> sdscat e cur (cstr ''%''); Some (Inr (na, ap, rest)) }
        else do {
          p \<leftarrow> skip_prefix (d # rest);
          cv \<leftarrow> conversion_at p ap;
          (case cv of
             Inl _ \<Rightarrow> Some (Inl (- 2))
           | Inr (p', a, ap') \<Rightarrow>
               let l = length c - length p' + 1 in
               if l < 14
               then do {
                 na \<leftarrow> sdscatvprintf e cur (pf (takeWhile (\<lambda>x. x \<noteq> NUL) (take l c)) a);
                 Some (Inr (na, ap', tl p')) }
               else Some (Inr (Ptr cur, ap', rest)))
        }
    | _ \<Rightarrow> None)"

text \<open>The two places that move the current argument into the vector.\<close>

definition push_arg :: "cenv \<Rightarrow> format_state \<Rightarrow> format_state option" where
  "push_arg e st =
     (if \<not> granted e (to_size (8 * (int (length (curargv st)) + 1))) then None
      else Some (st\<lparr>curargv := curargv st @ [curarg st], ftotlen := to_int (ftotlen st + bulklen (sdslen (curarg st)))\<rparr>))"

definition format_step :: "cenv \<Rightarrow> printf_text \<Rightarrow> bytes \<Rightarrow> cmd_arg list \<Rightarrow> format_state \<Rightarrow>
    (int + format_state \<times> cmd_arg list \<times> bytes) option" where
  "format_step e pf c ap st = (case c of
      x # y # rest \<Rightarrow>
        if x \<noteq> CHR ''%'' \<or> y = NUL
        then if x = CHR '' ''
          then if touched st
            then (case push_arg e st of
                None \<Rightarrow> Some (Inl (- 1))
              | Some st1 \<Rightarrow> do {
                  new \<leftarrow> sdsempty e;
                  Some (case new of NULL \<Rightarrow> Inl (- 1) | Ptr s \<Rightarrow> Inr (st1\<lparr>curarg := s, touched := False\<rparr>, ap, y # rest)) })
            else Some (Inr (st, ap, y # rest))
          else do {
            na \<leftarrow> sdscatlen e (curarg st) c 1;
            Some (case na of NULL \<Rightarrow> Inl (- 1) | Ptr s \<Rightarrow> Inr (st\<lparr>curarg := s, touched := True\<rparr>, ap, y # rest)) }
        else do {
          r \<leftarrow> percent_step e pf c ap (curarg st);
          Some (case r of
              Inl err \<Rightarrow> Inl err
            | Inr (NULL, _, _) \<Rightarrow> Inl (- 1)
            | Inr (Ptr s, ap', c') \<Rightarrow> Inr (st\<lparr>curarg := s, touched := True\<rparr>, ap', c')) }
    | _ \<Rightarrow> None)"

lemma skip_while_length: "skip_while P p = Some q \<Longrightarrow> length q \<le> length p \<and> q \<noteq> []"
  by (induction p) (auto split: if_splits)

lemma skip_prefix_length:
  assumes "skip_prefix p = Some q"
  shows "length q \<le> length p \<and> q \<noteq> []"
proof -
  obtain p1 p2 where p: "skip_while is_flag p = Some p1" "skip_while c_isdigit p1 = Some p2"
    and q: "(case p2 of [] \<Rightarrow> None | c # p3 \<Rightarrow> if c = CHR ''.'' then skip_while c_isdigit p3 else Some p2) = Some q"
    using assms by (auto simp: skip_prefix_def bind_eq_Some_conv)
  from q have "length q \<le> length p2 \<and> q \<noteq> []"
    by (auto split: list.split_asm if_splits dest!: skip_while_length)
  with skip_while_length [OF p(1)] skip_while_length [OF p(2)] show ?thesis by linarith
qed

lemma conversion_at_length: "conversion_at p ap = Some (Inr (q, a, ap')) \<Longrightarrow> length q \<le> length p \<and> q \<noteq> []"
  by (auto simp: conversion_at_def sized_int_def split: list.split_asm if_splits)

lemma percent_step_length:
  assumes "percent_step e pf c ap s = Some (Inr (na, ap', c'))"
  shows "length c' < length c"
proof -
  obtain x d rest where c: "c = x # d # rest" using assms by (auto simp: percent_step_def split: list.split_asm)
  show ?thesis
  proof (cases "d \<in> {CHR ''s'', CHR ''b'', CHR ''%''}")
    case True
    with assms have "c' = rest"
      by (auto simp: percent_step_def c bind_eq_Some_conv split: if_splits list.split_asm cmd_arg.split_asm)
    then show ?thesis by (simp add: c)
  next
    case False
    obtain p where sp: "skip_prefix (d # rest) = Some p"
      using assms False by (cases "skip_prefix (d # rest)") (auto simp: percent_step_def c)
    obtain cv where cv: "conversion_at p ap = Some cv"
      using assms False sp by (cases "conversion_at p ap") (auto simp: percent_step_def c)
    obtain p' a aq where p: "cv = Inr (p', a, aq)" "c' = tl p' \<or> c' = rest"
    proof (cases cv)
      case (Inl u)
      then show thesis using assms False sp cv by (simp add: percent_step_def c)
    next
      case (Inr t)
      obtain p' a aq where t: "t = (p', a, aq)" by (cases t) auto
      have "c' = tl p' \<or> c' = rest"
        using assms False sp cv Inr t by (auto simp: percent_step_def c Let_def bind_eq_Some_conv split: if_splits)
      with Inr t show thesis by (intro that) auto
    qed
    have "length p' \<le> Suc (length rest)" "p' \<noteq> []"
      using skip_prefix_length [OF sp] conversion_at_length [of p ap p' a aq] cv p(1) by auto
    with p(2) show ?thesis by (auto simp: c)
  qed
qed

lemma format_step_percent:
  "y \<noteq> NUL \<Longrightarrow> format_step e pf (CHR ''%'' # y # rest) ap st =
    do { r \<leftarrow> percent_step e pf (CHR ''%'' # y # rest) ap (curarg st);
      Some (case r of
          Inl err \<Rightarrow> Inl err
        | Inr (NULL, _, _) \<Rightarrow> Inl (- 1)
        | Inr (Ptr s, ap', c') \<Rightarrow> Inr (st\<lparr>curarg := s, touched := True\<rparr>, ap', c')) }"
  by (simp add: format_step_def)

lemma format_step_length:
  assumes "format_step e pf c ap st = Some (Inr (st', ap', c'))"
  shows "length c' < length c"
proof -
  obtain x y rest where c: "c = x # y # rest" using assms by (auto simp: format_step_def split: list.split_asm)
  show ?thesis
  proof (cases "x \<noteq> CHR ''%'' \<or> y = NUL")
    case True
    then have "c' = y # rest"
      using assms by (auto simp: format_step_def c bind_eq_Some_conv split: if_splits option.split_asm ptr.split_asm)
        (metis ptr.exhaust)+
    then show ?thesis by (simp add: c)
  next
    case False
    then obtain r where r: "percent_step e pf c ap (curarg st) = Some r"
      using assms by (cases "percent_step e pf c ap (curarg st)") (auto simp: c format_step_percent)
    show ?thesis
    proof (cases r)
      case (Inl err)
      then show ?thesis using assms False r by (simp add: c format_step_percent)
    next
      case (Inr t)
      obtain na aq d where t: "t = (na, aq, d)" by (cases t) auto
      have "d = c'" using assms False r Inr t by (cases na) (simp_all add: c format_step_percent)
      with percent_step_length [of e pf c ap "curarg st" na aq d] r Inr t show ?thesis by simp
    qed
  qed
qed

function format_loop :: "cenv \<Rightarrow> printf_text \<Rightarrow> bytes \<Rightarrow> cmd_arg list \<Rightarrow> format_state \<Rightarrow> (int + format_state) option" where
  "format_loop e pf c ap st = (case byte_at c 0 of
      None \<Rightarrow> None
    | Some x \<Rightarrow>
        if x = NUL then Some (Inr st)
        else (case format_step e pf c ap st of
            None \<Rightarrow> None
          | Some (Inl err) \<Rightarrow> Some (Inl err)
          | Some (Inr (st', ap', c')) \<Rightarrow> format_loop e pf c' ap' st'))"
  by pat_completeness auto
termination
  by (relation "measure (\<lambda>(e, pf, c, ap, st). length c)") (auto dest: format_step_length)

declare format_loop.simps [simp del]

text \<open>The result: the return value and what was stored in \<open>*target\<close>, if anything.\<close>

definition format_finish :: "cenv \<Rightarrow> format_state \<Rightarrow> (int \<times> bytes ptr) option" where
  "format_finish e st =
     (case (if touched st then push_arg e st else Some st) of
        None \<Rightarrow> Some (- 1, NULL)
      | Some st1 \<Rightarrow> do {
          let argc = int (length (curargv st1));
          let totlen = to_int (ftotlen st1 + (1 + countDigits argc + 2));
          cmd \<leftarrow> build_command e argc totlen (map (\<lambda>s. (sh_buf s, sdslen s)) (curargv st1));
          Some (case cmd of NULL \<Rightarrow> (- 1, NULL) | Ptr b \<Rightarrow> (totlen, Ptr b)) })"

definition redisvFormatCommand :: "cenv \<Rightarrow> printf_text \<Rightarrow> bytes \<Rightarrow> cmd_arg list \<Rightarrow> (int \<times> bytes ptr) option" where
  "redisvFormatCommand e pf format ap = do {
     new \<leftarrow> sdsempty e;
     (case new of
        NULL \<Rightarrow> Some (- 1, NULL)
      | Ptr s \<Rightarrow> do {
          r \<leftarrow> format_loop e pf format ap \<lparr>curarg = s, touched = False, curargv = [], ftotlen = 0\<rparr>;
          (case r of
             Inl err \<Rightarrow> Some (err, NULL)
           | Inr st \<Rightarrow> format_finish e st)
        })
   }"

definition redisFormatCommand :: "cenv \<Rightarrow> printf_text \<Rightarrow> bytes \<Rightarrow> cmd_arg list \<Rightarrow> (int \<times> bytes ptr) option" where
  "redisFormatCommand e pf format ap = do {
     (len, cmd) \<leftarrow> redisvFormatCommand e pf format ap;
     Some (if len < 0 then - 1 else len, cmd)
   }"

section \<open>Argument vectors\<close>

definition arg_at :: "bytes list \<Rightarrow> int list ptr \<Rightarrow> nat \<Rightarrow> (bytes \<times> int) option" where
  "arg_at argv argvlen j =
     (if j < length argv
      then (case argvlen of
          NULL \<Rightarrow> do { n \<leftarrow> c_strlen (argv ! j); Some (argv ! j, n) }
        | Ptr ls \<Rightarrow> if j < length ls then Some (argv ! j, ls ! j) else None)
      else None)"

fun args_from :: "bytes list \<Rightarrow> int list ptr \<Rightarrow> nat list \<Rightarrow> (bytes \<times> int) list option" where
  "args_from argv argvlen [] = Some []"
| "args_from argv argvlen (j # js) = do {
     a \<leftarrow> arg_at argv argvlen j;
     as \<leftarrow> args_from argv argvlen js;
     Some (a # as)
   }"

definition add_lens :: "(int \<Rightarrow> int) \<Rightarrow> int \<Rightarrow> (bytes \<times> int) list \<Rightarrow> int" where
  "add_lens conv totlen args = foldl (\<lambda>t (a, len). conv (t + bulklen len)) totlen args"

definition redisFormatCommandArgv :: "cenv \<Rightarrow> int \<Rightarrow> bytes list \<Rightarrow> int list ptr \<Rightarrow> (int \<times> bytes ptr) option" where
  "redisFormatCommandArgv e argc argv argvlen = do {
     args \<leftarrow> args_from argv argvlen [0..<nat argc];
     let totlen = add_lens to_int (to_int (1 + countDigits (to_size argc) + 2)) args;
     cmd \<leftarrow> build_command e argc totlen args;
     Some (case cmd of NULL \<Rightarrow> (- 1, NULL) | Ptr b \<Rightarrow> (totlen, Ptr b))
   }"

fun catargs_loop :: "cenv \<Rightarrow> (bytes \<times> int) list \<Rightarrow> sds \<Rightarrow> sds option" where
  "catargs_loop e [] cmd = Some cmd"
| "catargs_loop e ((arg, len) # args) cmd = do {
     c1 \<leftarrow> sdscatfmt e cmd (cstr (''$%T'' @ crlf)) [VaSize (nat len)];
     c2 \<leftarrow> must (sdscatlen e c1 arg len);
     c3 \<leftarrow> must (sdscatlen e c2 (cstr crlf) 2);
     catargs_loop e args c3
   }"

definition redisFormatSdsCommandArgv :: "cenv \<Rightarrow> int \<Rightarrow> bytes list \<Rightarrow> int list ptr \<Rightarrow> (int \<times> sds ptr) option" where
  "redisFormatSdsCommandArgv e argc argv argvlen = do {
     args \<leftarrow> args_from argv argvlen [0..<nat argc];
     let totlen = add_lens to_size (to_size (1 + countDigits (to_size argc) + 2)) args;
     new \<leftarrow> sdsempty e;
     (case new of
        NULL \<Rightarrow> Some (- 1, NULL)
      | Ptr s \<Rightarrow> do {
          room \<leftarrow> sdsMakeRoomFor e s totlen;
          (case room of
             NULL \<Rightarrow> Some (- 1, NULL)
           | Ptr s1 \<Rightarrow> do {
               c1 \<leftarrow> sdscatfmt e s1 (cstr (''*%i'' @ crlf)) [VaInt argc];
               cmd \<leftarrow> catargs_loop e args c1;
               c_assert (sdslen cmd = totlen);
               Some (to_int totlen, Ptr cmd)
             })
        })
   }"

end
