(* ===== verification/Format_Correct.thy ===== *)
theory Format_Correct
  imports Format Sds_Correct
begin

text \<open>
  The formatters of commands against the protocol: both vector formatters produce the encoding of
  their arguments, and the format string formatter the encoding of the words the format denotes.
\<close>

section \<open>Lengths\<close>

lemma length_dec_string_step: "\<not> n < 10 \<Longrightarrow> length (dec_string n) = Suc (length (dec_string (n div 10)))"
  by (simp add: dec_string_big)

lemma length_dec_string_bounds:
  "10 \<le> n \<Longrightarrow> n < 100 \<Longrightarrow> length (dec_string n) = 2"
  "100 \<le> n \<Longrightarrow> n < 1000 \<Longrightarrow> length (dec_string n) = 3"
  "1000 \<le> n \<Longrightarrow> n < 10000 \<Longrightarrow> length (dec_string n) = 4"
  "10000 \<le> n \<Longrightarrow> length (dec_string n) = 4 + length (dec_string (n div 10000))"
proof -
  show two: "length (dec_string n) = 2" if "10 \<le> n" "n < 100" for n
    using that by (simp add: length_dec_string_step dec_string_small)
  show three: "length (dec_string n) = 3" if "100 \<le> n" "n < 1000" for n
    using that two [of "n div 10"] by (simp add: length_dec_string_step)
  show "length (dec_string n) = 4" if "1000 \<le> n" "n < 10000"
    using that three [of "n div 10"] by (simp add: length_dec_string_step)
  assume "10000 \<le> n"
  moreover from this have "1000 \<le> n div 10" "100 \<le> n div 10 div 10" "10 \<le> n div 10 div 10 div 10"
    by (simp_all add: div_mult2_eq [symmetric])
  ultimately show "length (dec_string n) = 4 + length (dec_string (n div 10000))"
    by (simp add: length_dec_string_step div_mult2_eq [symmetric])
qed

lemma count_digits_eq:
  assumes "0 \<le> res" "res + int (length (dec_string n)) < 4294967296"
  shows "count_digits (int n) res = res + int (length (dec_string n)) - 1"
  using assms
proof (induction n arbitrary: res rule: less_induct)
  case (less n)
  consider "n < 10" | "10 \<le> n" "n < 100" | "100 \<le> n" "n < 1000" | "1000 \<le> n" "n < 10000" | "10000 \<le> n" by linarith
  then show ?case
  proof cases
    case 1
    then show ?thesis by (simp add: count_digits.simps dec_string_small)
  next
    case 5
    have len: "length (dec_string n) = 4 + length (dec_string (n div 10000))" by (rule length_dec_string_bounds(4) [OF 5])
    then have "count_digits (int n) res = count_digits (int (n div 10000)) (res + 4)"
      using 5 less.prems by (subst count_digits.simps) (simp add: zdiv_int)
    also have "\<dots> = res + 4 + int (length (dec_string (n div 10000))) - 1"
      using 5 less.prems len by (intro less.IH) auto
    finally show ?thesis using len by simp
  qed (use less.prems in \<open>simp_all add: count_digits.simps [of "int n"] length_dec_string_bounds(1-3)\<close>)
qed

lemma countDigits_eq:
  assumes "n < 10 ^ 30"
  shows "countDigits (int n) = int (length (dec_string n))"
  using count_digits_eq [of 1 n] dec_string_length_le [OF assms] by (simp add: countDigits_def)

lemma bulklen_eq:
  assumes "int (length s) \<le> INT_MAX"
  shows "bulklen (int (length s)) = int (length (encode_arg s))"
proof -
  have "length s < 10 ^ 30" using assms by simp
  moreover have "length (dec_string (length s)) \<le> 10" using assms by (intro dec_string_length_le) simp_all
  ultimately show ?thesis using assms by (simp add: bulklen_def countDigits_eq length_encode_arg)
qed

section \<open>Building the command\<close>

lemma mem_write_front:
  assumes "pos = int (length xs)" "length src \<le> length old"
  shows "mem_write (xs @ old) pos src = Some (xs @ src @ drop (length src) old)"
  using assms by (simp add: mem_write_def)

definition arg_text :: "bytes \<times> int \<Rightarrow> bytes" where
  "arg_text a = take (nat (snd a)) (fst a)"

definition arg_in :: "bytes \<times> int \<Rightarrow> bool" where
  "arg_in a \<longleftrightarrow> 0 \<le> snd a \<and> snd a \<le> int (length (fst a))"

lemma emit_header_eq:
  assumes "0 \<le> n" "t = mark # dec_string (nat n) @ crlf" "length t < length old" "int (length xs + length t) \<le> INT_MAX"
  shows "emit_header (xs @ old) (int (length xs)) mark n =
    Some ((xs @ t) @ NUL # drop (Suc (length t)) old, int (length (xs @ t)))"
proof -
  have d: "mark # dec_int n @ crlf = t" using assms(1,2) by (simp add: dec_int_def)
  have "mem_write (xs @ old) (int (length xs)) (cstr t) = Some (xs @ cstr t @ drop (length (cstr t)) old)"
    by (rule mem_write_front) (use assms(3) in \<open>simp_all add: cstr_def\<close>)
  then show ?thesis using assms(4) unfolding emit_header_def d by (simp add: cstr_def)
qed

lemma emit_arg_eq:
  assumes "arg_in a" "length (encode_arg (arg_text a)) < length old"
    "int (length xs + length (encode_arg (arg_text a))) \<le> INT_MAX"
  shows "\<exists>old'. emit_arg a (xs @ old, int (length xs)) = Some ((xs @ encode_arg (arg_text a)) @ old', int (length (xs @ encode_arg (arg_text a)))) \<and>
    length old' + length (encode_arg (arg_text a)) = length old"
proof -
  obtain buf len where a: "a = (buf, len)" by (cases a)
  let ?s = "arg_text a"
  have len: "0 \<le> len" "nat len = length ?s" "len = int (length ?s)" using assms(1) by (auto simp: a arg_in_def arg_text_def)
  let ?t = "CHR ''$'' # dec_string (nat len) @ crlf"
  have enc: "encode_arg ?s = ?t @ ?s @ crlf" by (simp add: encode_arg_def len)
  have el: "length (encode_arg ?s) = length ?t + length ?s + 2" by (simp add: enc)
  define r1 where "r1 = NUL # drop (Suc (length ?t)) old"
  have r1: "length r1 = length old - length ?t" using assms(2) el by (simp add: r1_def)
  have h: "emit_header (xs @ old) (int (length xs)) (CHR ''$'') len = Some ((xs @ ?t) @ r1, int (length (xs @ ?t)))"
    unfolding r1_def by (rule emit_header_eq) (use len assms(2,3) el in simp_all)
  have rd: "mem_read buf 0 len = Some ?s" using assms(1) by (simp add: a arg_in_def arg_text_def mem_read_def)
  define r2 where "r2 = drop (length ?s) r1"
  have w2: "mem_write ((xs @ ?t) @ r1) (int (length (xs @ ?t))) ?s = Some ((xs @ ?t @ ?s) @ r2)"
    using mem_write_front [of "int (length (xs @ ?t))" "xs @ ?t" ?s r1] r1 assms(2) el by (simp add: r2_def)
  have p2: "to_int (int (length (xs @ ?t)) + len) = int (length (xs @ ?t @ ?s))"
    "to_int (int (length (xs @ ?t @ ?s)) + 1) = int (length (xs @ ?t @ ?s @ [CR]))"
    "to_int (int (length (xs @ ?t @ ?s)) + 2) = int (length (xs @ ?t @ ?s @ crlf))"
    using assms(3) el len(3) by simp_all
  have r2: "3 \<le> length r2" using r1 assms(2) el by (simp add: r2_def)
  have w3: "mem_write ((xs @ ?t @ ?s) @ r2) (int (length (xs @ ?t @ ?s))) [CR] = Some ((xs @ ?t @ ?s @ [CR]) @ drop 1 r2)"
    using mem_write_front [of "int (length (xs @ ?t @ ?s))" "xs @ ?t @ ?s" "[CR]" r2] r2 by simp
  have w4: "mem_write ((xs @ ?t @ ?s @ [CR]) @ drop 1 r2) (int (length (xs @ ?t @ ?s @ [CR]))) [LF] = Some ((xs @ ?t @ ?s @ crlf) @ drop 2 r2)"
    using mem_write_front [of "int (length (xs @ ?t @ ?s @ [CR]))" "xs @ ?t @ ?s @ [CR]" "[LF]" "drop 1 r2"] r2 by (simp add: drop_drop numeral_2_eq_2)
  have "emit_arg (buf, len) (xs @ old, int (length xs)) = Some ((xs @ ?t @ ?s @ crlf) @ drop 2 r2, int (length (xs @ ?t @ ?s @ crlf)))"
    unfolding emit_arg_def prod.case h Option.bind.simps rd w2 Let_def p2 w3 w4 by (rule refl)
  moreover have "length (drop 2 r2) + length (encode_arg ?s) = length old" using r1 r2 el assms(2) by (simp add: r2_def)
  ultimately show ?thesis unfolding enc append_assoc a [symmetric] by blast
qed

lemma emit_args_eq:
  assumes "list_all arg_in as" "length (encode_args (map arg_text as)) < length old"
    "int (length xs + length (encode_args (map arg_text as))) \<le> INT_MAX"
  shows "\<exists>old'. emit_args as (xs @ old, int (length xs)) =
      Some ((xs @ encode_args (map arg_text as)) @ old', int (length (xs @ encode_args (map arg_text as)))) \<and>
    length old' + length (encode_args (map arg_text as)) = length old"
  using assms
proof (induction as arbitrary: xs old)
  case (Cons a as)
  let ?e = "encode_arg (arg_text a)" and ?r = "encode_args (map arg_text as)"
  obtain old1 where o1: "emit_arg a (xs @ old, int (length xs)) = Some ((xs @ ?e) @ old1, int (length (xs @ ?e)))"
    "length old1 + length ?e = length old"
    using emit_arg_eq [of a old xs] Cons.prems by auto
  obtain old' where o2: "emit_args as ((xs @ ?e) @ old1, int (length (xs @ ?e))) = Some (((xs @ ?e) @ ?r) @ old', int (length ((xs @ ?e) @ ?r)))"
    "length old' + length ?r = length old1"
    using Cons.IH [of old1 "xs @ ?e"] Cons.prems o1(2) by auto
  have "emit_args (a # as) (xs @ old, int (length xs)) = Some (((xs @ ?e) @ ?r) @ old', int (length ((xs @ ?e) @ ?r)))"
    unfolding emit_args.simps o1(1) Option.bind.simps by (rule o2(1))
  with o1(2) o2(2) show ?case by (intro exI [of _ old']) simp
qed simp

lemma build_command_eq:
  assumes "granted e (int (length (encode_command (map arg_text as))) + 1)" "list_all arg_in as"
    "int (length (encode_command (map arg_text as))) < INT_MAX"
  shows "build_command e (int (length as)) (int (length (encode_command (map arg_text as)))) as =
    Some (Ptr (cstr (encode_command (map arg_text as))))"
proof -
  let ?c = "encode_command (map arg_text as)" and ?t = "CHR ''*'' # dec_string (length as) @ crlf"
  let ?body = "encode_args (map arg_text as)"
  have c: "?c = ?t @ ?body" by (simp add: encode_command_eq)
  have sz: "to_size (to_int (int (length ?c) + 1)) = int (length ?c) + 1" using assms(3) by simp
  define old where "old = fresh e (int (length ?c) + 1)"
  have lo: "length old = Suc (length ?c)" by (simp add: old_def nat_add_distrib)
  have h: "emit_header old 0 (CHR ''*'') (int (length as)) = Some (?t @ NUL # drop (Suc (length ?t)) old, int (length ?t))"
    using emit_header_eq [of "int (length as)" ?t "CHR ''*''" old "[]"] lo c assms(3) by simp
  define r1 where "r1 = NUL # drop (Suc (length ?t)) old"
  have r1: "length r1 = Suc (length ?body)" using lo c by (simp add: r1_def)
  obtain old' where o: "emit_args as (?t @ r1, int (length ?t)) = Some ((?t @ ?body) @ old', int (length (?t @ ?body)))"
    "length old' + length ?body = length r1"
    using emit_args_eq [OF assms(2), of r1 ?t] r1 assms(3) c by auto
  then have "length old' = Suc 0" using r1 by simp
  then obtain z where z: "old' = [z]" by (auto simp: length_Suc_conv)
  have "mem_write (?c @ [z]) (int (length ?c)) [NUL] = Some (cstr ?c)"
    using mem_write_byte [of "int (length ?c)" ?c z "[]" NUL] by (simp add: cstr_def)
  then have w: "mem_write ((?t @ ?body) @ [z]) (int (length (?t @ ?body))) [NUL] = Some (cstr ?c)" by (simp only: c)
  have "build_command e (int (length as)) (int (length ?c)) as = do {
      bp \<leftarrow> emit_header old 0 (CHR ''*'') (int (length as));
      (b, pos) \<leftarrow> emit_args as bp;
      c_assert (pos = int (length ?c));
      b' \<leftarrow> mem_write b pos [NUL];
      Some (Ptr b') }"
    unfolding build_command_def Let_def sz old_def using assms(1) by (simp only: not_True_eq_False if_False)
  also have "\<dots> = Some (Ptr (cstr ?c))"
    unfolding h r1_def [symmetric] Option.bind.simps o(1) prod.case z w by (simp add: c)
  finally show ?thesis .
qed

section \<open>Argument vectors\<close>

lemma add_lens_eq:
  assumes "list_all arg_in as" "\<And>x. 0 \<le> x \<Longrightarrow> x \<le> INT_MAX \<Longrightarrow> conv x = x" "0 \<le> t"
    "t + int (length (encode_args (map arg_text as))) \<le> INT_MAX"
  shows "add_lens conv t as = t + int (length (encode_args (map arg_text as)))"
  using assms(1,3,4)
proof (induction as arbitrary: t)
  case (Cons a as)
  obtain b n where a: "a = (b, n)" by (cases a)
  have n: "n = int (length (arg_text a))" using Cons.prems(1) by (auto simp: a arg_in_def arg_text_def)
  have "bulklen n = int (length (encode_arg (arg_text a)))"
    unfolding n using Cons.prems(2,3) by (intro bulklen_eq) (simp add: length_encode_arg)
  then have "add_lens conv t (a # as) = add_lens conv (t + int (length (encode_arg (arg_text a)))) as"
    using assms(2) Cons.prems by (simp add: add_lens_def a)
  also have "\<dots> = t + int (length (encode_arg (arg_text a))) + int (length (encode_args (map arg_text as)))"
    using Cons.prems by (intro Cons.IH) simp_all
  finally show ?case by simp
qed (simp add: add_lens_def)

lemma totlen_eq:
  assumes "list_all arg_in as" "\<And>x. 0 \<le> x \<Longrightarrow> x \<le> INT_MAX \<Longrightarrow> conv x = x"
    "int (length (encode_command (map arg_text as))) \<le> INT_MAX"
  shows "add_lens conv (conv (1 + countDigits (to_size (int (length as))) + 2)) as = int (length (encode_command (map arg_text as)))"
proof -
  let ?b = "encode_args (map arg_text as)"
  have c: "length (encode_command (map arg_text as)) = 3 + length (dec_string (length as)) + length ?b"
    by (simp add: encode_command_eq)
  have "length as \<le> length ?b" using length_encode_args [of "map arg_text as"] by simp
  then have n: "int (length as) \<le> INT_MAX" using assms(3) c by linarith
  then have "countDigits (to_size (int (length as))) = int (length (dec_string (length as)))"
    by (simp add: countDigits_eq)
  then show ?thesis using assms(3) c add_lens_eq [OF assms(1,2), of "3 + int (length (dec_string (length as)))"] assms(2) by simp
qed

lemma args_from_map:
  assumes "\<And>j. j \<in> set js \<Longrightarrow> arg_at argv argvlen j = Some (f j)"
  shows "args_from argv argvlen js = Some (map f js)"
  using assms by (induction js) simp_all

lemma args_from_lens:
  assumes "length argv = length ls"
  shows "args_from argv (Ptr ls) [0..<length argv] = Some (zip argv ls)"
proof -
  have "args_from argv (Ptr ls) [0..<length argv] = Some (map (\<lambda>j. (argv ! j, ls ! j)) [0..<length argv])"
    using assms by (intro args_from_map) (simp add: arg_at_def)
  also have "map (\<lambda>j. (argv ! j, ls ! j)) [0..<length argv] = zip argv ls"
    using assms by (intro nth_equalityI) simp_all
  finally show ?thesis .
qed

lemma args_from_strlen:
  assumes "list_all (\<lambda>a. NUL \<notin> set a) args"
  shows "args_from (map cstr args) NULL [0..<length args] = Some (map (\<lambda>a. (cstr a, int (length a))) args)"
proof -
  have "args_from (map cstr args) NULL [0..<length args] = Some (map (\<lambda>j. (cstr (args ! j), int (length (args ! j)))) [0..<length args])"
    using assms by (intro args_from_map) (simp add: arg_at_def list_all_length)
  also have "map (\<lambda>j. (cstr (args ! j), int (length (args ! j)))) [0..<length args] = map (\<lambda>a. (cstr a, int (length a))) args"
    by (intro nth_equalityI) simp_all
  finally show ?thesis .
qed

lemma redisFormatCommandArgv_eq:
  assumes "plenty e" "args_from argv argvlen [0..<argc] = Some as" "length as = argc" "list_all arg_in as"
    "int (length (encode_command (map arg_text as))) < INT_MAX"
  shows "redisFormatCommandArgv e (int argc) argv argvlen =
    Some (int (length (encode_command (map arg_text as))), Ptr (cstr (encode_command (map arg_text as))))"
proof -
  have "add_lens to_int (to_int (1 + countDigits (to_size (int argc)) + 2)) as = int (length (encode_command (map arg_text as)))"
    using totlen_eq [OF assms(4), of to_int] assms(3,5) by simp
  moreover have "build_command e (int argc) (int (length (encode_command (map arg_text as)))) as =
      Some (Ptr (cstr (encode_command (map arg_text as))))"
    using build_command_eq [OF _ assms(4,5), of e] assms(1,3) by (simp add: plenty_def)
  ultimately show ?thesis using assms(2) by (simp add: redisFormatCommandArgv_def)
qed

lemma catargs_loop_eq:
  assumes "plenty e" "list_all arg_in as" "sds_ok cmd"
    "sh_len cmd + int (length (encode_args (map arg_text as))) + 1 \<le> SDS_LIMIT"
  shows "\<exists>cmd'. catargs_loop e as cmd = Some cmd' \<and> sds_ok cmd' \<and> sds_str cmd' = sds_str cmd @ encode_args (map arg_text as)"
  using assms(2-4)
proof (induction as arbitrary: cmd)
  case (Cons a as)
  obtain buf len where a: "a = (buf, len)" by (cases a)
  let ?s = "arg_text a"
  have len: "len = int (length ?s)" "nat len = length ?s" and bf: "buf = ?s @ drop (nat len) buf"
    using Cons.prems(1) by (auto simp: a arg_in_def arg_text_def)
  let ?t = "CHR ''$'' # dec_string (length ?s) @ crlf"
  have enc: "encode_arg ?s = ?t @ ?s @ crlf" by (simp add: encode_arg_def)
  have lim: "sh_len cmd + int (length ?t) + int (length ?s) + 3 + int (length (encode_args (map arg_text as))) \<le> SDS_LIMIT"
    using Cons.prems(3) by (simp add: enc)
  have sl: "sh_len s = int (length (sds_str s))" if "sds_ok s" for s using length_sds_str [OF that] by simp
  have rn: "fmt_render (''$%T'' @ crlf) [VaSize (length ?s)] = Some ?t" by (simp add: render_spec_def)
  obtain c1 where c1: "sdscatfmt e cmd (cstr (''$%T'' @ crlf)) [VaSize (nat len)] = Some c1" "sds_ok c1" "sds_str c1 = sds_str cmd @ ?t"
    using sdscatfmt_makes [OF assms(1) Cons.prems(2) _ rn] lim len(2) sds_okD(1) [OF Cons.prems(2)] by auto
  have "sh_len c1 = sh_len cmd + int (length ?t)" using sl [OF c1(2)] sl [OF Cons.prems(2)] c1(3) by simp
  then have "makes (sdscatlen e c1 (?s @ drop (nat len) buf) (int (length ?s))) (sds_str c1 @ ?s)"
    using lim by (intro sdscatlen_makes [OF assms(1) c1(2)]) simp
  then obtain c2 where c2: "must (sdscatlen e c1 buf len) = Some c2" "sds_ok c2" "sds_str c2 = sds_str c1 @ ?s"
    using must_makes bf len(1) by metis
  have l2: "sh_len c2 = sh_len cmd + int (length ?t) + int (length ?s)"
    using sl [OF c2(2)] sl [OF Cons.prems(2)] c2(3) c1(3) by simp
  then have "makes (sdscatlen e c2 (crlf @ [NUL]) (int (length crlf))) (sds_str c2 @ crlf)"
    using lim by (intro sdscatlen_makes [OF assms(1) c2(2)]) simp
  then obtain c3 where c3: "must (sdscatlen e c2 (cstr crlf) 2) = Some c3" "sds_ok c3" "sds_str c3 = sds_str c2 @ crlf"
    using must_makes [of "sdscatlen e c2 (cstr crlf) 2" "sds_str c2 @ crlf"] by (auto simp: cstr_def)
  have "sh_len c3 + int (length (encode_args (map arg_text as))) + 1 \<le> SDS_LIMIT"
    using sl [OF c3(2)] sl [OF c2(2)] l2 c3(3) lim by simp
  then obtain cmd' where "catargs_loop e as c3 = Some cmd'" "sds_ok cmd'" "sds_str cmd' = sds_str c3 @ encode_args (map arg_text as)"
    using Cons.IH [OF _ c3(2)] Cons.prems(1) by auto
  with c1 c2 c3 show ?case by (simp add: a [symmetric] enc) (simp add: a)
qed simp

lemma redisFormatSdsCommandArgv_eq:
  assumes "plenty e" "args_from argv argvlen [0..<argc] = Some as" "length as = argc" "list_all arg_in as"
    "int (length (encode_command (map arg_text as))) < SDS_LIMIT"
  shows "\<exists>cmd. redisFormatSdsCommandArgv e (int argc) argv argvlen = Some (int (length (encode_command (map arg_text as))), Ptr cmd) \<and>
    sds_ok cmd \<and> sds_str cmd = encode_command (map arg_text as)"
proof -
  let ?c = "encode_command (map arg_text as)" and ?t = "CHR ''*'' # dec_string argc @ crlf"
  have c: "?c = ?t @ encode_args (map arg_text as)" by (simp add: encode_command_eq assms(3))
  have tot: "add_lens to_size (to_size (1 + countDigits (to_size (int argc)) + 2)) as = int (length ?c)"
    using totlen_eq [OF assms(4), of to_size] assms(3,5) by simp
  obtain s where s: "sdsempty e = Some (Ptr s)" "sds_ok s" "sds_str s = []"
    using sdsempty_yields [of e] sdsempty_plenty [OF assms(1)] by (auto simp: yields_def)
  have sl: "sh_len s = int (length (sds_str s))" if "sds_ok s" for s using length_sds_str [OF that] by simp
  have "sh_len s + int (length ?c) \<le> SDS_LIMIT" using sl [OF s(2)] s(3) assms(5) by simp
  with s(2) of_nat_0_le_iff obtain s1 where s1: "sdsMakeRoomFor e s (int (length ?c)) = Some (Ptr s1)" "sds_ok s1" "sds_str s1 = []"
    using s(3) assms(1) by (cases rule: sdsMakeRoomFor_cases [where e = e]) auto
  have "argc \<le> length (encode_args (map arg_text as))" using length_encode_args [of "map arg_text as"] assms(3) by simp
  then have n: "int argc \<le> INT_MAX" using assms(5) unfolding c by simp
  have rn: "fmt_render (''*%i'' @ crlf) [VaInt (int argc)] = Some ?t" by (simp add: render_spec_def dec_int_def)
  obtain c1 where c1: "sdscatfmt e s1 (cstr (''*%i'' @ crlf)) [VaInt (int argc)] = Some c1" "sds_ok c1" "sds_str c1 = ?t"
    using sdscatfmt_makes [OF assms(1) s1(2) _ rn] n sl [OF s1(2)] s1(3) assms(5) unfolding c by auto
  have "sh_len c1 + int (length (encode_args (map arg_text as))) + 1 \<le> SDS_LIMIT"
    using sl [OF c1(2)] c1(3) assms(5) unfolding c by simp
  then obtain cmd where cmd: "catargs_loop e as c1 = Some cmd" "sds_ok cmd" "sds_str cmd = ?c"
    using catargs_loop_eq [OF assms(1,4) c1(2)] c1(3) by (auto simp: c)
  have "sdslen cmd = int (length ?c)" using sl [OF cmd(2)] cmd(3) assms(5) by (simp add: sdslen_def)
  then show ?thesis
    using assms(2,5) tot s(1) s1(1) c1(1) cmd by (simp add: redisFormatSdsCommandArgv_def Let_def)
qed

lemma arg_views:
  "map arg_text (zip args (map (\<lambda>a. int (length a)) args)) = args"
  "map arg_text (map (\<lambda>a. (cstr a, int (length a))) args) = args"
  "list_all arg_in (zip args (map (\<lambda>a. int (length a)) args))"
  "list_all arg_in (map (\<lambda>a. (cstr a, int (length a))) args)"
  by (induction args) (simp_all add: arg_text_def arg_in_def cstr_def)

text \<open>
  C26. The vector formatter returns the length of the encoded command and a block that holds exactly
  the encoding and its terminator; the length computed in advance from the digit counts is exact, so
  that no write leaves the block. This holds for explicit lengths (arguments may contain any byte)
  and for lengths taken with \<open>strlen\<close>.
\<close>

theorem redisFormatCommandArgv_exact:
  assumes "plenty e" "int (length (encode_command args)) < INT_MAX"
  shows "redisFormatCommandArgv e (int (length args)) args (Ptr (map (\<lambda>a. int (length a)) args)) =
      Some (int (length (encode_command args)), Ptr (cstr (encode_command args))) \<and>
    (list_all (\<lambda>a. NUL \<notin> set a) args \<longrightarrow>
      redisFormatCommandArgv e (int (length args)) (map cstr args) NULL =
      Some (int (length (encode_command args)), Ptr (cstr (encode_command args))))"
proof (intro conjI impI)
  show "redisFormatCommandArgv e (int (length args)) args (Ptr (map (\<lambda>a. int (length a)) args)) =
      Some (int (length (encode_command args)), Ptr (cstr (encode_command args)))"
    using redisFormatCommandArgv_eq [OF assms(1) args_from_lens, of args "map (\<lambda>a. int (length a)) args"] assms(2)
    by (simp add: arg_views)
  show "redisFormatCommandArgv e (int (length args)) (map cstr args) NULL =
      Some (int (length (encode_command args)), Ptr (cstr (encode_command args)))" if "list_all (\<lambda>a. NUL \<notin> set a) args"
    using redisFormatCommandArgv_eq [OF assms(1) args_from_strlen [OF that]] assms(2) by (simp add: arg_views del: map_map)
qed

theorem redisFormatCommandArgv_exact_witness:
  "redisFormatCommandArgv demo_env 2 [''GET'', ''k''] (Ptr [3, 1]) =
     Some (20, Ptr (cstr (''*2'' @ crlf @ ''$3'' @ crlf @ ''GET'' @ crlf @ ''$1'' @ crlf @ ''k'' @ crlf)))"
proof -
  have "encode_command [''GET'', ''k''] = ''*2'' @ crlf @ ''$3'' @ crlf @ ''GET'' @ crlf @ ''$1'' @ crlf @ ''k'' @ crlf" by code_simp
  then show ?thesis using redisFormatCommandArgv_exact [of demo_env "[''GET'', ''k'']"] by simp
qed

text \<open>
  The two vector formatters agree: \<open>redisFormatSdsCommandArgv\<close>, which builds the command by
  appending to a string with \<open>sdscatfmt\<close>, and \<open>redisFormatCommandArgv\<close>, which writes into a block of
  computed size, return the same number and the same bytes.
\<close>

theorem redisFormatSdsCommandArgv_agrees:
  assumes "plenty e" "length lens = length argv" "list_all2 (\<lambda>a n. 0 \<le> n \<and> n \<le> int (length a)) argv lens"
    "int (length (encode_command (map2 (\<lambda>a n. take (nat n) a) argv lens))) < SDS_LIMIT"
  shows "\<exists>n cmd text. redisFormatSdsCommandArgv e (int (length argv)) argv (Ptr lens) = Some (n, Ptr cmd) \<and>
    redisFormatCommandArgv e (int (length argv)) argv (Ptr lens) = Some (n, Ptr (cstr text)) \<and>
    sds_ok cmd \<and> sds_str cmd = text \<and> n = int (length text)"
proof -
  have at: "map arg_text (zip argv lens) = map2 (\<lambda>a n. take (nat n) a) argv lens"
    by (simp add: arg_text_def case_prod_beta)
  have ok: "list_all arg_in (zip argv lens)"
    using assms(3) by (auto simp: list_all2_iff list_all_iff arg_in_def)
  note from_lens = args_from_lens [OF assms(2) [symmetric]]
  have len: "length (zip argv lens) = length argv" using assms(2) by simp
  have lt: "int (length (encode_command (map arg_text (zip argv lens)))) < SDS_LIMIT" unfolding at by (rule assms(4))
  then have "int (length (encode_command (map arg_text (zip argv lens)))) < INT_MAX" by simp
  from redisFormatCommandArgv_eq [OF assms(1) from_lens len ok this]
    redisFormatSdsCommandArgv_eq [OF assms(1) from_lens len ok lt] show ?thesis by blast
qed

theorem redisFormatSdsCommandArgv_agrees_witness:
  "\<exists>n cmd text. redisFormatSdsCommandArgv demo_env 1 [''PING''] (Ptr [4]) = Some (n, Ptr cmd) \<and>
    redisFormatCommandArgv demo_env 1 [''PING''] (Ptr [4]) = Some (n, Ptr (cstr text)) \<and>
    sds_ok cmd \<and> sds_str cmd = text \<and> n = int (length text)"
proof -
  have "length (encode_command [''PING'']) = 14" by code_simp
  then show ?thesis using redisFormatSdsCommandArgv_agrees [of demo_env "[4]" "[''PING'']"] by simp
qed

end
