(* ===== verification/Reader_Stream.thy ===== *)
theory Reader_Stream
  imports Reader_Round Reader_Correct Format_Correct
begin

text \<open>
  The reader and the formatter against the protocol, end to end: a stream of encoded values, cut
  into pieces in any way, is read back value by value, and a command built by the formatter is read
  back as the array of its arguments.
\<close>

section \<open>Feeding in pieces\<close>

fun feed_all :: "cenv \<Rightarrow> reply_heap redisReader \<Rightarrow> reply_heap \<Rightarrow> bytes list \<Rightarrow> (reply_heap redisReader \<times> reply_heap) option" where
  "feed_all e r h [] = Some (r, h)"
| "feed_all e r h (t # ts) = do {
     (rc, r', h') \<leftarrow> redisReaderFeed e r h (Ptr t) (int (length t));
     feed_all e r' h' ts
   }"

lemma idle_len:
  assumes "idle r h"
  shows "r_len r = r_pos r + int (length (unread r))"
proof -
  obtain s p where "r_buf r = Ptr s" "r_pos r = int p" "p \<le> length (sds_str s)" "r_len r = int (length (sds_str s))"
    using assms buf_okE [OF rd.liveD(4)] unfolding idle_def by metis
  then show ?thesis by (simp add: unread_def)
qed

lemma feed_idle:
  assumes "idle r h" "plenty e" "t \<noteq> []" "r_len r + int (length t) \<le> SDS_LIMIT"
  shows "\<exists>r'. redisReaderFeed e r h (Ptr t) (int (length t)) = Some (REDIS_OK, r', h) \<and> idle r' h \<and>
    unread r' = unread r @ t \<and> r_pos r' = r_pos r"
proof -
  have inv: "rd.reader_inv r h" "r_err r = 0" using idle_inv [OF assms(1)] by simp_all
  obtain r' s s' where r': "redisReaderFeed e r h (Ptr t) (int (length t)) = Some (REDIS_OK, r', h)" "rd.reader_inv r' h"
    "r_pos r' = r_pos r" "ridx r' = ridx r" "r_err r' = 0" "r_reply r' = r_reply r \<and> rstack r' = rstack r"
    "r_buf r = Ptr s" "r_buf r' = Ptr s'" "sds_str s' = sds_str s @ t"
    using rd.redisReaderFeed_ok [OF inv(1) assms(2-4), of "[]"] inv(2) by auto
  have "idle r' h" using r'(2,4-6) assms(1) by (auto simp: idle_def rd.reader_inv_def rd.dead_def)
  moreover have "unread r' = unread r @ t"
  proof -
    obtain p where "r_pos r = int p" "p \<le> length (sds_str s)"
      using assms(1) buf_okE [OF rd.liveD(4)] r'(7) unfolding idle_def by (metis ptr.inject)
    then show ?thesis using r'(3,7-9) by (simp add: unread_def)
  qed
  ultimately show ?thesis using r'(1,3) by blast
qed

lemma feed_all_idle:
  assumes "idle r h" "plenty e" "[] \<notin> set ts" "r_len r + int (length (concat ts)) \<le> SDS_LIMIT"
  shows "\<exists>r'. feed_all e r h ts = Some (r', h) \<and> idle r' h \<and> unread r' = unread r @ concat ts"
  using assms
proof (induction ts arbitrary: r)
  case (Cons t ts)
  obtain r1 where r1: "redisReaderFeed e r h (Ptr t) (int (length t)) = Some (REDIS_OK, r1, h)" "idle r1 h"
    "unread r1 = unread r @ t" "r_pos r1 = r_pos r"
    using feed_idle [OF Cons.prems(1,2), of t] Cons.prems(3,4) by auto
  have "r_len r1 = r_len r + int (length t)" using idle_len [OF Cons.prems(1)] idle_len [OF r1(2)] r1(3,4) by simp
  then show ?case using Cons.IH [OF r1(2) Cons.prems(2)] Cons.prems(3,4) r1(1,3) by auto
qed auto

lemma created_idle:
  assumes "redisReaderCreate e = Some (Ptr r)" "heap_ok h"
  shows "idle r h" "unread r = []" "r_len r = 0"
proof -
  have cr: "redisReaderCreateWithFunctions e (Ptr defaultFunctions) = Some (Ptr r)" "replies_inv h []"
    using assms by (simp_all add: redisReaderCreate_def)
  have inv: "rd.reader_inv r h" "r_err r = 0" "r_len r = 0" using rd.redisReaderCreate_ok [OF cr] by simp_all
  have "ridx r = - 1" using cr(1) by (auto simp: redisReaderCreateWithFunctions_def split: if_splits bind_splits ptr.splits)
  then show idle: "idle r h" using inv(1,2) by (auto simp: idle_def rd.reader_inv_def rd.dead_def)
  show "r_len r = 0" by (rule inv(3))
  have "0 \<le> r_pos r" using idle rd.liveD(4) [of r h] by (auto simp: idle_def buf_ok_def)
  then have "int (length (unread r)) = 0" using idle_len [OF idle] inv(3) by linarith
  then show "unread r = []" by simp
qed

text \<open>Asking an idle reader for a reply when all its input is consumed changes nothing that matters.\<close>

lemma discard_keeps:
  assumes "discard_consumed r = Some r'"
  shows "rstack r' = rstack r" "r_pos r' = r_pos r \<or> r_pos r' = 0"
  using assms by (auto simp: discard_consumed_def bind_eq_Some_conv split: if_splits ptr.splits)

lemma GetReply_nothing:
  assumes "idle r h" "unread r = []"
  shows "\<exists>r'. redisReaderGetReply r h = Some (REDIS_OK, 0, r', h) \<and> idle r' h \<and> unread r' = [] \<and> r_len r' \<le> r_len r"
proof (cases "r_len r = 0")
  case True
  then show ?thesis using assms rd.liveD(2) [of r h] by (auto simp: redisReaderGetReply_def idle_def)
next
  case False
  have live: "rd.live r h" using assms(1) by (simp add: idle_def)
  obtain r1 where r1: "(if ridx r = - 1
      then do { st \<leftarrow> set_task (rstack r) 0 (fresh_task NULL (- 1) (r_privdata r)); Some (r\<lparr>rstack := st, ridx := 0\<rparr>) } else Some r) = Some r1"
    "rd.live r1 h" "ridx r1 = 0" "t_type (rstack r1 ! 0) = - 1" "r_buf r1 = r_buf r" "r_pos r1 = r_pos r"
    by (rule open_root [OF assms(1)])
  have idle1: "idle r1 h" using r1(2-4) by (simp add: idle_def)
  have un1: "unread r1 = []" using assms(2) r1(5,6) by (cases "r_buf r") (simp_all add: unread_def)
  have len1: "r_len r1 = r_pos r1" using idle_len [OF idle1] un1 by simp
  have "readBytes r1 1 = (NULL, r1)" by (simp add: readBytes_def len1)
  moreover have "length (rstack r1) = 9" by (rule stack_okD(1) [OF rd.liveD(5) [OF r1(2)]])
  ultimately have "processItem r1 h = Some (REDIS_ERR, r1, h)" using r1(3,4) by (simp add: processItem_def task_at_def)
  then have loop: "process_loop r1 h = Some (r1, h)" by (subst process_loop.simps) (simp add: r1(3))
  obtain r2 where r2: "discard_consumed r1 = Some r2" "rd.live r2 h" "ridx r2 = 0" "unread r2 = []"
    using discard_unread [OF r1(2)] un1 r1(3) by auto
  note keeps = discard_keeps [OF r2(1)]
  have idle2: "idle r2 h" using r2(2,3) keeps(1) r1(4) by (simp add: idle_def)
  have "0 \<le> r_pos r" using rd.liveD(4) [OF live] by (auto simp: buf_ok_def)
  then have "r_len r2 \<le> r_len r" using idle_len [OF idle2] idle_len [OF assms(1)] r2(4) assms(2) keeps(2) r1(6) by auto
  moreover have "redisReaderGetReply r h = Some (REDIS_OK, 0, r2, h)"
    using False rd.liveD(2) [OF live] rd.liveD(2) [OF r1(2)] r1(1) loop r2(1,3)
    by (simp only: redisReaderGetReply_def) simp
  ultimately show ?thesis using idle2 r2(4) by blast
qed

section \<open>Round trips\<close>

text \<open>
  C22. A sequence of protocol values, encoded one after the other and fed to a fresh reader in pieces
  of any size, is read back: as many calls of \<open>redisReaderGetReply\<close> as there are values all
  return, and their replies are trees of structures that represent the values, in order. The
  values may hold any bytes and arrays nested up to the depth of the stack of the reader.
\<close>

theorem reader_stream_roundtrip:
  assumes "redisReaderCreate e = Some (Ptr r)" "heap_ok h" "plenty e" "plenty (h_env h)"
    "list_all (\<lambda>v. rval_ok v \<and> depth v \<le> 8) vs" "concat pieces = concat (map encode vs)" "[] \<notin> set pieces"
    "int (length (concat (map encode vs))) \<le> SDS_LIMIT"
  shows "\<exists>r1 as r2 h'. feed_all e r h pieces = Some (r1, h) \<and> get_replies (length vs) r1 h = Some (as, r2, h') \<and>
    list_all2 (\<lambda>a v. represents v h' a) as vs \<and> r_err r2 = 0 \<and> unread r2 = []"
proof -
  note cr = created_idle [OF assms(1,2)]
  obtain r1 where r1: "feed_all e r h pieces = Some (r1, h)" "idle r1 h" "unread r1 = concat (map encode vs)"
    using feed_all_idle [OF cr(1) assms(3,7)] assms(6,8) cr(2,3) by auto
  obtain as r2 h' where "get_replies (length vs) r1 h = Some (as, r2, h')" "idle r2 h'" "unread r2 = []"
    "list_all2 (\<lambda>a v. h_next h \<le> a \<and> represents v h' a) as vs"
    using get_replies_stream [OF r1(2) assms(4,5), of "[]"] r1(3) by auto
  moreover from this have "list_all2 (\<lambda>a v. represents v h' a) as vs" by (auto elim: list_all2_mono)
  ultimately show ?thesis using r1(1) idle_inv by blast
qed

theorem reader_stream_roundtrip_witness:
  "\<exists>r1 as r2 h'. feed_all demo_env demo_reader demo_heap ['':1'', [CR], [LF] @ ''*2'' @ crlf @ ''$-'', ''1'' @ crlf @ ''+OK'' @ crlf] = Some (r1, demo_heap) \<and>
    get_replies 2 r1 demo_heap = Some (as, r2, h') \<and>
    list_all2 (\<lambda>a v. represents v h' a) as [VInt 1, VArr [VNil, VStatus ''OK'']] \<and> r_err r2 = 0 \<and> unread r2 = []"
proof -
  let ?vs = "[VInt 1, VArr [VNil, VStatus ''OK'']]"
  let ?ps = "['':1'', [CR], [LF] @ ''*2'' @ crlf @ ''$-'', ''1'' @ crlf @ ''+OK'' @ crlf]"
  have pieces: "concat ?ps = concat (map encode ?vs)" "[] \<notin> set ?ps" by (code_simp, simp)
  have len: "int (length (concat (map encode ?vs))) \<le> SDS_LIMIT" by code_simp
  have vals: "list_all (\<lambda>v. rval_ok v \<and> depth v \<le> 8) ?vs" by (simp add: list_all_iff)
  have mem: "plenty demo_env" "plenty (h_env demo_heap)" by (simp_all add: demo_heap_def)
  have two: "2 = length ?vs" by simp
  show ?thesis
    by (subst two) (rule reader_stream_roundtrip [OF demo_reader_created demo_heap_ok mem vals pieces len])
qed

text \<open>
  The client's two directions fit together: the block that \<open>redisFormatCommandArgv\<close> builds for a
  vector of arguments of any bytes, fed to a fresh reader, is parsed as one array reply that
  consists of exactly these arguments as strings.
\<close>

theorem command_roundtrip:
  assumes "redisReaderCreate e = Some (Ptr r)" "heap_ok h" "plenty e" "plenty (h_env h)"
    "int (length (encode_command args)) \<le> SDS_LIMIT"
  shows "\<exists>len cmd r1 a r2 h'. redisFormatCommandArgv e (int (length args)) args (Ptr (map (\<lambda>a. int (length a)) args)) = Some (len, Ptr cmd) \<and>
    redisReaderFeed e r h (Ptr (take (nat len) cmd)) len = Some (REDIS_OK, r1, h) \<and>
    redisReaderGetReply r1 h = Some (REDIS_OK, a, r2, h') \<and> represents (VArr (map VStr args)) h' a"
proof -
  note cr = created_idle [OF assms(1,2)]
  let ?c = "encode_command args"
  have v: "rval_ok (VArr (map VStr args))" "depth (VArr (map VStr args)) \<le> 8"
    by (simp_all add: list_all_iff, induction args) auto
  have ne: "?c \<noteq> []" by (simp add: encode_command_def del: encode.simps)
  obtain r1 where r1: "redisReaderFeed e r h (Ptr ?c) (int (length ?c)) = Some (REDIS_OK, r1, h)" "idle r1 h" "unread r1 = ?c"
    using feed_idle [OF cr(1) assms(3) ne] assms(5) cr(2,3) by auto
  have "unread r1 = encode (VArr (map VStr args)) @ []" using r1(3) by (simp add: encode_command_def del: encode.simps)
  then obtain r2 h' where "redisReaderGetReply r1 h = Some (REDIS_OK, h_next h, r2, h')" "represents (VArr (map VStr args)) h' (h_next h)"
    using GetReply_parses [OF r1(2) assms(4) v, of "[]"] by auto
  moreover have "redisFormatCommandArgv e (int (length args)) args (Ptr (map (\<lambda>a. int (length a)) args)) = Some (int (length ?c), Ptr (cstr ?c))"
    using redisFormatCommandArgv_eq [OF assms(3) args_from_lens, of args "map (\<lambda>a. int (length a)) args"] assms(5)
    by (simp add: arg_views)
  moreover have "take (nat (int (length ?c))) (cstr ?c) = ?c" by (simp add: cstr_def)
  ultimately show ?thesis using r1(1) by metis
qed

theorem command_roundtrip_witness:
  "\<exists>len cmd r1 a r2 h'. redisFormatCommandArgv demo_env 2 [''SET'', [NUL, CR]] (Ptr [3, 2]) = Some (len, Ptr cmd) \<and>
    redisReaderFeed demo_env demo_reader demo_heap (Ptr (take (nat len) cmd)) len = Some (REDIS_OK, r1, demo_heap) \<and>
    redisReaderGetReply r1 demo_heap = Some (REDIS_OK, a, r2, h') \<and> represents (VArr [VStr ''SET'', VStr [NUL, CR]]) h' a"
proof -
  have "int (length (encode_command [''SET'', [NUL, CR]])) \<le> SDS_LIMIT" by code_simp
  then show ?thesis
    using command_roundtrip [OF demo_reader_created demo_heap_ok, of "[''SET'', [NUL, CR]]"] by (simp add: demo_heap_def)
qed

end
