(* ===== verification/Format_String.thy ===== *)
theory Format_String
  imports Format_Correct
begin

text \<open>
  What a format string denotes. A format is a sequence of pieces; the words it denotes are separated
  by blanks, and a word exists as soon as something was put into it, even an empty string. The theory
  shows that \<open>redisvFormatCommand\<close> sends exactly these words.
\<close>

section \<open>Pieces and words\<close>

datatype piece = Blank | Lit char | Str bytes | Bin bytes | Percent | Conv bytes cmd_arg

primrec piece_fmt :: "piece \<Rightarrow> bytes" where
  "piece_fmt Blank = '' ''"
| "piece_fmt (Lit c) = [c]"
| "piece_fmt (Str s) = ''%s''"
| "piece_fmt (Bin s) = ''%b''"
| "piece_fmt Percent = ''%%''"
| "piece_fmt (Conv spec a) = CHR ''%'' # spec"

primrec piece_args :: "piece \<Rightarrow> cmd_arg list" where
  "piece_args Blank = []"
| "piece_args (Lit c) = []"
| "piece_args (Str s) = [CStr (cstr s)]"
| "piece_args (Bin s) = [CStr s, CSize (int (length s))]"
| "piece_args Percent = []"
| "piece_args (Conv spec a) = [a]"

primrec piece_text :: "printf_text \<Rightarrow> piece \<Rightarrow> bytes" where
  "piece_text pf Blank = []"
| "piece_text pf (Lit c) = [c]"
| "piece_text pf (Str s) = s"
| "piece_text pf (Bin s) = s"
| "piece_text pf Percent = ''%''"
| "piece_text pf (Conv spec a) = pf (CHR ''%'' # spec) a"

text \<open>A conversion: flags, width, precision, size and type.\<close>

definition kind_ok :: "bytes \<Rightarrow> char \<Rightarrow> cmd_arg \<Rightarrow> bool" where
  "kind_ok m ch a \<longleftrightarrow>
     m = '''' \<and> is_intfmt ch \<and> is_CInt a \<or> m = '''' \<and> is_dblfmt ch \<and> is_CDouble a \<or>
     m = ''h'' \<and> is_intfmt ch \<and> is_CInt a \<or> m = ''hh'' \<and> is_intfmt ch \<and> is_CInt a \<or>
     m = ''l'' \<and> is_intfmt ch \<and> is_CLong a \<or> m = ''ll'' \<and> is_intfmt ch \<and> is_CLLong a"

definition conv_ok :: "bytes \<Rightarrow> cmd_arg \<Rightarrow> bool" where
  "conv_ok spec a \<longleftrightarrow> (\<exists>fs ws ps m ch. spec = fs @ ws @ ps @ m @ [ch] \<and> list_all is_flag fs \<and> list_all c_isdigit ws \<and>
     (ps = [] \<or> (\<exists>ds. ps = CHR ''.'' # ds \<and> list_all c_isdigit ds)) \<and> kind_ok m ch a)"

primrec piece_ok :: "printf_text \<Rightarrow> piece \<Rightarrow> bool" where
  "piece_ok pf Blank \<longleftrightarrow> True"
| "piece_ok pf (Lit c) \<longleftrightarrow> c \<noteq> CHR '' '' \<and> c \<noteq> CHR ''%'' \<and> c \<noteq> NUL"
| "piece_ok pf (Str s) \<longleftrightarrow> NUL \<notin> set s"
| "piece_ok pf (Bin s) \<longleftrightarrow> True"
| "piece_ok pf Percent \<longleftrightarrow> True"
| "piece_ok pf (Conv spec a) \<longleftrightarrow> conv_ok spec a \<and> length spec < 13 \<and> NUL \<notin> set (pf (CHR ''%'' # spec) a)"

fun words_of :: "printf_text \<Rightarrow> piece list \<Rightarrow> bytes \<Rightarrow> bool \<Rightarrow> bytes list" where
  "words_of pf [] cur t = (if t then [cur] else [])"
| "words_of pf (Blank # ps) cur t = (if t then cur # words_of pf ps [] False else words_of pf ps cur False)"
| "words_of pf (p # ps) cur t = words_of pf ps (cur @ piece_text pf p) True"

definition format_of :: "piece list \<Rightarrow> bytes" where
  "format_of ps = concat (map piece_fmt ps)"

definition args_of :: "piece list \<Rightarrow> cmd_arg list" where
  "args_of ps = concat (map piece_args ps)"

lemma words_of_piece: "p \<noteq> Blank \<Longrightarrow> words_of pf (p # ps) cur t = words_of pf ps (cur @ piece_text pf p) True"
  by (cases p) simp_all

lemma words_of_bound: "length cur < length (encode_args (words_of pf ps cur True))"
proof (induction ps arbitrary: cur)
  case Nil
  show ?case by (simp add: length_encode_arg)
next
  case (Cons p ps)
  show ?case
  proof (cases "p = Blank")
    case True
    then show ?thesis by (simp add: length_encode_arg)
  next
    case False
    then show ?thesis using Cons [of "cur @ piece_text pf p"] by (simp add: words_of_piece)
  qed
qed

section \<open>Conversions\<close>

lemma skip_while_all:
  assumes "list_all P xs" "NUL \<notin> set xs" "\<not> P y"
  shows "skip_while P (xs @ y # ys) = Some (y # ys)"
  using assms by (induction xs) auto

lemma digit_facts: "c_isdigit c \<Longrightarrow> c \<noteq> NUL" "is_flag c \<Longrightarrow> c \<noteq> NUL"
  by (auto simp: c_isdigit_def is_flag_def)

lemma skip_flags:
  assumes "list_all is_flag fs" "list_all c_isdigit ws" "\<not> is_flag y"
  shows "\<exists>vs. skip_while is_flag (fs @ ws @ y # ys) = Some (vs @ y # ys) \<and> list_all c_isdigit vs"
proof -
  have ws: "\<exists>vs. skip_while is_flag (ws @ y # ys) = Some (vs @ y # ys) \<and> list_all c_isdigit vs"
    using assms(2)
  proof (induction ws)
    case Nil
    then show ?case using assms(3) by (intro exI [of _ "[]"]) simp
  next
    case (Cons w ws)
    show ?case
    proof (cases "is_flag w")
      case True
      then show ?thesis using Cons digit_facts by auto
    next
      case False
      then show ?thesis using Cons by (intro exI [of _ "w # ws"]) simp
    qed
  qed
  have "skip_while is_flag (fs @ xs) = skip_while is_flag xs" for xs
    using assms(1) digit_facts(2) by (induction fs) auto
  with ws show ?thesis by simp
qed

definition stops :: "char \<Rightarrow> bool" where
  "stops y \<longleftrightarrow> \<not> is_flag y \<and> \<not> c_isdigit y \<and> y \<noteq> CHR ''.''"

lemma skip_prefix_eq:
  assumes "list_all is_flag fs" "list_all c_isdigit ws" "ps = [] \<or> (\<exists>ds. ps = CHR ''.'' # ds \<and> list_all c_isdigit ds)" "stops y"
  shows "skip_prefix (fs @ ws @ ps @ y # ys) = Some (y # ys)"
proof -
  have nd: "NUL \<notin> set ds" if "list_all c_isdigit ds" for ds using that digit_facts(1) by (auto simp: list_all_iff)
  have dot: "\<not> is_flag (CHR ''.'')" "\<not> c_isdigit (CHR ''.'')" by (simp_all add: is_flag_def c_isdigit_def)
  from assms(3) show ?thesis
  proof (elim disjE exE conjE)
    assume ps: "ps = []"
    obtain vs where "skip_while is_flag (fs @ ws @ y # ys) = Some (vs @ y # ys)" "list_all c_isdigit vs"
      using skip_flags [OF assms(1,2)] assms(4) by (auto simp: stops_def)
    with ps nd assms(4) show ?thesis by (simp add: skip_prefix_def stops_def skip_while_all)
  next
    fix ds
    assume ps: "ps = CHR ''.'' # ds" "list_all c_isdigit ds"
    obtain vs where "skip_while is_flag (fs @ ws @ CHR ''.'' # ds @ y # ys) = Some (vs @ CHR ''.'' # ds @ y # ys)" "list_all c_isdigit vs"
      using skip_flags [OF assms(1,2) dot(1)] by blast
    with ps nd assms(4) dot show ?thesis by (simp add: skip_prefix_def stops_def skip_while_all)
  qed
qed

lemma kind_first:
  assumes "kind_ok m ch a" "m @ [ch] = y # ys"
  shows "stops y \<and> y \<notin> {CHR ''s'', CHR ''b'', CHR ''%'', NUL}"
  using assms by (auto simp: kind_ok_def stops_def is_intfmt_def is_dblfmt_def is_flag_def c_isdigit_def)

lemma kind_no_NUL:
  assumes "kind_ok m ch a"
  shows "NUL \<notin> set (m @ [ch])"
proof -
  have "\<not> is_intfmt NUL" "\<not> is_dblfmt NUL" by (simp_all add: is_intfmt_def is_dblfmt_def)
  then have "ch \<noteq> NUL" using assms unfolding kind_ok_def by blast
  moreover have "m \<in> {[], ''h'', ''hh'', ''l'', ''ll''}" using assms unfolding kind_ok_def by blast
  ultimately show ?thesis by auto
qed

lemma conversion_at_eq:
  assumes "kind_ok m ch a"
  shows "conversion_at (m @ ch # rest) (a # ap) = Some (Inr (ch # rest, a, ap))"
proof -
  have hl: "\<not> is_intfmt (CHR ''h'')" "\<not> is_intfmt (CHR ''l'')" "\<not> is_dblfmt (CHR ''h'')" "\<not> is_dblfmt (CHR ''l'')"
    by (simp_all add: is_intfmt_def is_dblfmt_def)
  have i: "ch \<noteq> NUL \<and> ch \<noteq> CHR ''h'' \<and> ch \<noteq> CHR ''l''" if "is_intfmt ch" using that by (auto simp: is_intfmt_def)
  have db: "ch \<noteq> NUL \<and> \<not> is_intfmt ch" if "is_dblfmt ch" using that by (auto simp: is_intfmt_def is_dblfmt_def)
  have sized: "sized_int (ch # rest) fits (a # ap) = Some (Inr (ch # rest, a, ap))" if "is_intfmt ch" "fits a" for fits
    using that i by (simp add: sized_int_def)
  note simps = conversion_at_def hl sized
  from assms[unfolded kind_ok_def] consider (int) "m = []" "is_intfmt ch" "is_CInt a" | (dbl) "m = []" "is_dblfmt ch" "is_CDouble a"
    | (h) "m = ''h''" "is_intfmt ch" "is_CInt a" | (hh) "m = ''hh''" "is_intfmt ch" "is_CInt a"
    | (l) "m = ''l''" "is_intfmt ch" "is_CLong a" | (ll) "m = ''ll''" "is_intfmt ch" "is_CLLong a" by blast
  then show ?thesis
  proof cases
    case int
    then show ?thesis by (simp add: conversion_at_def del: arg_kind_code)
  next
    case dbl
    then show ?thesis using db by (simp add: conversion_at_def del: arg_kind_code)
  next
    case h
    then show ?thesis using i by (simp add: simps del: arg_kind_code)
  next
    case hh
    then show ?thesis using i by (simp add: simps del: arg_kind_code)
  next
    case l
    then show ?thesis using i by (simp add: simps del: arg_kind_code)
  next
    case ll
    then show ?thesis using i by (simp add: simps del: arg_kind_code)
  qed
qed

lemma conv_ok_first:
  assumes "conv_ok spec a"
  obtains d ds where "spec = d # ds" "d \<notin> {CHR ''s'', CHR ''b'', CHR ''%'', NUL}" "NUL \<notin> set spec"
proof -
  obtain fs ws ps m ch where s: "spec = fs @ ws @ ps @ m @ [ch]" "list_all is_flag fs" "list_all c_isdigit ws"
    "ps = [] \<or> (\<exists>ds. ps = CHR ''.'' # ds \<and> list_all c_isdigit ds)" "kind_ok m ch a"
    using assms unfolding conv_ok_def by blast
  have m: "NUL \<notin> set (m @ [ch])"
    using kind_no_NUL [OF s(5)] .
  have pre: "\<forall>x \<in> set (fs @ ws @ ps). x \<notin> {CHR ''s'', CHR ''b'', CHR ''%'', NUL}"
  proof
    fix x
    assume "x \<in> set (fs @ ws @ ps)"
    then have "is_flag x \<or> c_isdigit x \<or> x = CHR ''.''" using s(2-4) unfolding list_all_iff by fastforce
    then show "x \<notin> {CHR ''s'', CHR ''b'', CHR ''%'', NUL}" by (auto simp: is_flag_def c_isdigit_def)
  qed
  have "spec \<noteq> []" using s(1) by simp
  then obtain d ds where d: "spec = d # ds" by (cases spec) auto
  have "d \<notin> {CHR ''s'', CHR ''b'', CHR ''%'', NUL}"
  proof (cases "fs @ ws @ ps")
    case Nil
    with s(1) d have "m @ [ch] = d # ds" by simp
    with kind_first [OF s(5)] show ?thesis by blast
  next
    case (Cons x xs)
    then have "d \<in> set (fs @ ws @ ps)" using s(1) d by (metis append_assoc append_Cons list.inject list.set_intros(1))
    with pre show ?thesis by blast
  qed
  moreover have "NUL \<notin> set spec" using m pre s(1) by auto
  ultimately show thesis using that d by blast
qed

lemma percent_step_conv:
  assumes "conv_ok spec a" "length spec < 13"
  shows "percent_step e pf (CHR ''%'' # spec @ rest) (a # ap) cur =
    do { na \<leftarrow> sdscatvprintf e cur (pf (CHR ''%'' # spec) a); Some (Inr (na, ap, rest)) }"
proof -
  obtain fs ws ps m ch where s: "spec = fs @ ws @ ps @ m @ [ch]" "list_all is_flag fs" "list_all c_isdigit ws"
    "ps = [] \<or> (\<exists>ds. ps = CHR ''.'' # ds \<and> list_all c_isdigit ds)" "kind_ok m ch a"
    using assms(1) unfolding conv_ok_def by blast
  obtain d ds where d: "spec = d # ds" "d \<notin> {CHR ''s'', CHR ''b'', CHR ''%'', NUL}" "NUL \<notin> set spec"
    using conv_ok_first [OF assms(1)] by blast
  obtain y ys where y: "m @ [ch] = y # ys" by (cases "m @ [ch]") auto
  have "m @ ch # rest = y # ys @ rest" using arg_cong [OF y, of "\<lambda>x. x @ rest"] by simp
  then have sp: "skip_prefix (d # ds @ rest) = Some (m @ ch # rest)"
    using skip_prefix_eq [OF s(2-4), of y "ys @ rest"] kind_first [OF s(5) y] s(1) d(1) by (metis append_assoc append_Cons append_Nil)
  have l: "length (CHR ''%'' # spec @ rest) - length (ch # rest) + 1 = length (CHR ''%'' # spec)"
    using s(1) by simp
  have t: "takeWhile (\<lambda>x. x \<noteq> NUL) (take (length (CHR ''%'' # spec)) (CHR ''%'' # spec @ rest)) = CHR ''%'' # spec"
    using d(3) by (simp add: takeWhile_eq_all_conv)
  have "percent_step e pf (CHR ''%'' # d # ds @ rest) (a # ap) cur =
      (let l = length (CHR ''%'' # spec @ rest) - length (ch # rest) + 1 in
       if l < 14 then do {
         na \<leftarrow> sdscatvprintf e cur (pf (takeWhile (\<lambda>x. x \<noteq> NUL) (take l (CHR ''%'' # spec @ rest))) a);
         Some (Inr (na, ap, rest)) }
       else Some (Inr (Ptr cur, ap, ds @ rest)))"
    using d(2) sp conversion_at_eq [OF s(5)] by (simp add: percent_step_def d(1) Let_def)
  also have "\<dots> = do { na \<leftarrow> sdscatvprintf e cur (pf (CHR ''%'' # spec) a); Some (Inr (na, ap, rest)) }"
    unfolding l Let_def t using assms(2) by simp
  finally show ?thesis by (simp add: d(1))
qed

section \<open>The loop\<close>

lemma sds_len_str: "sds_ok s \<Longrightarrow> sh_len s = int (length (sds_str s))"
  by simp

text \<open>One piece other than a blank appends its text to the current word.\<close>

lemma piece_step:
  assumes "plenty e" "p \<noteq> Blank" "piece_ok pf p" "tail \<noteq> []" "sds_ok (curarg st)"
    "sh_len (curarg st) + int (length (piece_text pf p)) \<le> SDS_LIMIT"
  shows "\<exists>s'. format_step e pf (piece_fmt p @ tail) (piece_args p @ ap) st = Some (Inr (st\<lparr>curarg := s', touched := True\<rparr>, ap, tail)) \<and>
    sds_ok s' \<and> sds_str s' = sds_str (curarg st) @ piece_text pf p"
proof -
  let ?s = "curarg st"
  obtain y rest where tl: "tail = y # rest" using assms(4) by (cases tail) auto
  have put: "makes (put_bytes e ?s (x @ r) (int (length x))) (sds_str ?s @ x)" if "sh_len ?s + int (length x) \<le> SDS_LIMIT" for x r
  proof (cases "x = []")
    case True
    then show ?thesis using assms(5) by (simp add: put_bytes_def makes_def)
  next
    case False
    then show ?thesis using sdscatlen_makes [OF assms(1,5) that, of r] by (simp add: put_bytes_def)
  qed
  show ?thesis
  proof (cases p)
    case (Lit c)
    have "makes (sdscatlen e ?s ([c] @ tail) (int (length [c]))) (sds_str ?s @ [c])"
      using sdscatlen_makes [OF assms(1,5), of "[c]" tail] assms(6) Lit by simp
    then obtain s' where "sdscatlen e ?s (c # y # rest) 1 = Some (Ptr s')" "sds_ok s'" "sds_str s' = sds_str ?s @ [c]"
      by (auto simp: makes_def tl)
    with Lit assms(3) show ?thesis by (intro exI [of _ s']) (simp add: format_step_def tl)
  next
    case (Str x)
    obtain s' where "put_bytes e ?s (x @ [NUL]) (int (length x)) = Some (Ptr s')" "sds_ok s'" "sds_str s' = sds_str ?s @ x"
      using put [of x "[NUL]"] assms(6) Str by (auto simp: makes_def)
    with Str assms(3) show ?thesis
      by (intro exI [of _ s']) (simp add: format_step_percent percent_step_def, simp add: cstr_def)
  next
    case (Bin x)
    obtain s' where "put_bytes e ?s x (int (length x)) = Some (Ptr s')" "sds_ok s'" "sds_str s' = sds_str ?s @ x"
      using put [of x "[]"] assms(6) Bin by (auto simp: makes_def)
    with Bin show ?thesis by (intro exI [of _ s']) (simp add: format_step_percent percent_step_def)
  next
    case Percent
    have "makes (sdscat e ?s (cstr ''%'')) (sds_str ?s @ ''%'')"
      using sdscat_makes [OF assms(1,5), of "''%''"] assms(6) Percent by simp
    then obtain s' where "sdscat e ?s (cstr ''%'') = Some (Ptr s')" "sds_ok s'" "sds_str s' = sds_str ?s @ ''%''"
      by (auto simp: makes_def)
    with Percent show ?thesis by (intro exI [of _ s']) (simp add: format_step_percent percent_step_def)
  next
    case (Conv spec a)
    have "conv_ok spec a" using assms(3) Conv by simp
    then obtain d ds where d: "spec = d # ds" "d \<noteq> NUL" by (rule conv_ok_first) blast
    have "makes (sdscatvprintf e ?s (pf (CHR ''%'' # spec) a)) (sds_str ?s @ pf (CHR ''%'' # spec) a)"
      using sdscatvprintf_makes [OF assms(1,5)] assms(3,6) Conv by simp
    then obtain s' where "sdscatvprintf e ?s (pf (CHR ''%'' # spec) a) = Some (Ptr s')" "sds_ok s'"
      "sds_str s' = sds_str ?s @ pf (CHR ''%'' # spec) a" by (auto simp: makes_def)
    with percent_step_conv [of spec a e pf tail ap ?s] assms(3) Conv show ?thesis
      using d(2) by (intro exI [of _ s']) (simp add: d(1) format_step_percent)
  qed (use assms(2) in simp)
qed

text \<open>The state of the loop after the words \<open>ws\<close> with the current word \<open>cur\<close>.\<close>

definition loop_rep :: "format_state \<Rightarrow> bytes list \<Rightarrow> bytes \<Rightarrow> bool \<Rightarrow> bool" where
  "loop_rep st ws cur t \<longleftrightarrow> list_all sds_ok (curargv st) \<and> map sds_str (curargv st) = ws \<and> sds_ok (curarg st) \<and>
     sds_str (curarg st) = cur \<and> touched st = t \<and> (\<not> t \<longrightarrow> cur = []) \<and> ftotlen st = int (length (encode_args ws))"

lemma encode_args_append [simp]: "encode_args (xs @ ys) = encode_args xs @ encode_args ys"
  by (induction xs) simp_all

lemma push_arg_rep:
  assumes "plenty e" "loop_rep st ws cur t" "int (length (encode_args (ws @ [cur]))) \<le> INT_MAX"
  shows "\<exists>st'. push_arg e st = Some st' \<and> curarg st' = curarg st \<and> list_all sds_ok (curargv st') \<and>
    map sds_str (curargv st') = ws @ [cur] \<and> ftotlen st' = int (length (encode_args (ws @ [cur])))"
proof -
  have "length cur \<le> length (encode_arg cur)" by (simp add: length_encode_arg)
  then have c: "int (length cur) \<le> INT_MAX" using assms(3) by simp
  have "sdslen (curarg st) = int (length cur)"
    using assms(2) c sds_len_str [of "curarg st"] by (auto simp: loop_rep_def sdslen_def)
  then have "bulklen (sdslen (curarg st)) = int (length (encode_arg cur))" using bulklen_eq [OF c] by simp
  then show ?thesis using assms by (auto simp: push_arg_def plenty_def loop_rep_def)
qed

lemma format_loop_unfold:
  assumes "c \<noteq> []" "hd c \<noteq> NUL"
  shows "format_loop e pf c ap st = (case format_step e pf c ap st of
      None \<Rightarrow> None | Some (Inl err) \<Rightarrow> Some (Inl err) | Some (Inr (st', ap', c')) \<Rightarrow> format_loop e pf c' ap' st')"
  using assms by (subst format_loop.simps) (cases c, simp_all add: byte_at_def)

lemma piece_fmt_first: "piece_ok pf p \<Longrightarrow> piece_fmt p \<noteq> [] \<and> hd (piece_fmt p) \<noteq> NUL"
  by (cases p) auto

lemma format_loop_words:
  assumes "plenty e" "list_all (piece_ok pf) ps" "loop_rep st ws cur t"
    "int (length (encode_args (ws @ words_of pf ps cur t))) \<le> SDS_LIMIT"
  shows "\<exists>st' ws' cur' t'. format_loop e pf (format_of ps @ [NUL]) (args_of ps) st = Some (Inr st') \<and>
    loop_rep st' ws' cur' t' \<and> ws' @ (if t' then [cur'] else []) = ws @ words_of pf ps cur t"
  using assms(2-4)
proof (induction ps arbitrary: st ws cur t)
  case Nil
  then show ?case
    by (intro exI [of _ st] exI [of _ ws] exI [of _ cur] exI [of _ t])
      (simp add: format_of_def args_of_def format_loop.simps byte_at_def)
next
  case (Cons p ps)
  let ?tail = "format_of ps @ [NUL]"
  have fmt: "format_of (p # ps) @ [NUL] = piece_fmt p @ ?tail" and args: "args_of (p # ps) = piece_args p @ args_of ps"
    by (simp_all add: format_of_def args_of_def)
  have first: "piece_fmt p @ ?tail \<noteq> []" "hd (piece_fmt p @ ?tail) \<noteq> NUL"
    using piece_fmt_first [of pf p] Cons.prems(1) by auto
  note unf = format_loop_unfold [OF first]
  obtain y rest where tl: "?tail = y # rest" by (cases ?tail) auto
  show ?case
  proof (cases "p = Blank")
    case blank: True
    show ?thesis
    proof (cases t)
      case True
      have le: "int (length (encode_args (ws @ [cur]))) \<le> INT_MAX" using Cons.prems(3) blank True by simp
      obtain st1 where st1: "push_arg e st = Some st1" "list_all sds_ok (curargv st1)" "map sds_str (curargv st1) = ws @ [cur]"
        "ftotlen st1 = int (length (encode_args (ws @ [cur])))"
        using push_arg_rep [OF assms(1) Cons.prems(2) le] by blast
      obtain s where s: "sdsempty e = Some (Ptr s)" "sds_ok s" "sds_str s = []"
        using sdsempty_yields [of e] sdsempty_plenty [OF assms(1)] by (auto simp: yields_def)
      have rep: "loop_rep (st1\<lparr>curarg := s, touched := False\<rparr>) (ws @ [cur]) [] False"
        using st1 s by (simp add: loop_rep_def)
      have "format_step e pf (piece_fmt p @ ?tail) (args_of ps) st = Some (Inr (st1\<lparr>curarg := s, touched := False\<rparr>, args_of ps, ?tail))"
        using Cons.prems(2) True st1(1) s(1) by (simp add: blank tl format_step_def loop_rep_def)
      then show ?thesis
        using Cons.IH [OF _ rep] Cons.prems(1,3) unfolding fmt args unf by (simp add: blank True)
    next
      case False
      have "format_step e pf (piece_fmt p @ ?tail) (args_of ps) st = Some (Inr (st, args_of ps, ?tail))"
        using Cons.prems(2) False by (simp add: blank tl format_step_def loop_rep_def)
      then show ?thesis
        using Cons.IH [OF _ Cons.prems(2)] Cons.prems(1,3) False unfolding fmt args unf by (simp add: blank)
    qed
  next
    case False
    let ?cur = "cur @ piece_text pf p"
    have w: "words_of pf (p # ps) cur t = words_of pf ps ?cur True" by (rule words_of_piece [OF False])
    have "length ?cur < length (encode_args (words_of pf ps ?cur True))" by (rule words_of_bound)
    then have lim: "int (length ?cur) \<le> SDS_LIMIT" using Cons.prems(3) unfolding w by simp
    have cur: "sds_ok (curarg st)" "sds_str (curarg st) = cur" using Cons.prems(2) by (simp_all add: loop_rep_def)
    then obtain s' where s': "format_step e pf (piece_fmt p @ ?tail) (piece_args p @ args_of ps) st =
        Some (Inr (st\<lparr>curarg := s', touched := True\<rparr>, args_of ps, ?tail))" "sds_ok s'" "sds_str s' = ?cur"
      using piece_step [OF assms(1) False, of pf ?tail st "args_of ps"] Cons.prems(1) lim sds_len_str [OF cur(1)] by auto
    have rep: "loop_rep (st\<lparr>curarg := s', touched := True\<rparr>) ws ?cur True"
      using Cons.prems(2) s' by (simp add: loop_rep_def)
    show ?thesis
      using Cons.IH [OF _ rep] Cons.prems(1,3) s'(1) unfolding fmt args unf w by simp
  qed
qed

lemma format_words:
  assumes "plenty e" "list_all (piece_ok pf) ps"
    "int (length (encode_command (words_of pf ps [] False))) < SDS_LIMIT"
  shows "redisvFormatCommand e pf (cstr (format_of ps)) (args_of ps) =
    Some (int (length (encode_command (words_of pf ps [] False))), Ptr (cstr (encode_command (words_of pf ps [] False))))"
proof -
  let ?ws = "words_of pf ps [] False" and ?c = "encode_command (words_of pf ps [] False)"
  obtain s where s: "sdsempty e = Some (Ptr s)" "sds_ok s" "sds_str s = []"
    using sdsempty_yields [of e] sdsempty_plenty [OF assms(1)] by (auto simp: yields_def)
  let ?st = "\<lparr>curarg = s, touched = False, curargv = [], ftotlen = 0\<rparr>"
  have rep: "loop_rep ?st [] [] False" using s by (simp add: loop_rep_def)
  have lim: "int (length (encode_args ?ws)) \<le> SDS_LIMIT" using assms(3) by (simp add: length_encode_command)
  obtain st ws cur t where st: "format_loop e pf (format_of ps @ [NUL]) (args_of ps) ?st = Some (Inr st)"
    "loop_rep st ws cur t" "ws @ (if t then [cur] else []) = ?ws"
    using format_loop_words [OF assms(1,2) rep] lim by auto
  obtain st1 where st1: "(if touched st then push_arg e st else Some st) = Some st1" "list_all sds_ok (curargv st1)"
    "map sds_str (curargv st1) = ?ws" "ftotlen st1 = int (length (encode_args ?ws))"
  proof (cases t)
    case True
    then have "ws @ [cur] = ?ws" using st(3) by simp
    with push_arg_rep [OF assms(1) st(2)] lim True st(2) that show thesis by (auto simp: loop_rep_def)
  next
    case False
    with st(2,3) that [of st] show thesis by (simp add: loop_rep_def)
  qed
  let ?as = "map (\<lambda>s. (sh_buf s, sdslen s)) (curargv st1)"
  have view: "arg_text (sh_buf s, sdslen s) = sds_str s \<and> arg_in (sh_buf s, sdslen s)" if "sds_ok s" for s
    using sds_okD [OF that] by (simp add: arg_text_def arg_in_def sds_str_def sdslen_def)
  then have "map arg_text ?as = map sds_str (curargv st1)" and ok: "list_all arg_in ?as"
    using st1(2) by (auto simp: list_all_iff)
  then have as: "map arg_text ?as = ?ws" using st1(3) by simp
  have len: "length (curargv st1) = length ?ws" using st1(3) by (metis length_map)
  have "length ?ws \<le> length (encode_args ?ws)" by (rule length_encode_args)
  then have "length ?ws < 10 ^ 30" using lim by simp
  then have tot: "to_int (ftotlen st1 + (1 + countDigits (int (length (curargv st1))) + 2)) = int (length ?c)"
    using st1(4) assms(3) by (simp add: len countDigits_eq length_encode_command)
  have "build_command e (int (length (curargv st1))) (int (length ?c)) ?as = Some (Ptr (cstr ?c))"
    using build_command_eq [OF _ ok, of e] assms(1,3) unfolding as by (simp add: plenty_def)
  then show ?thesis
    using s(1) st(1) st1(1) tot by (simp add: redisvFormatCommand_def format_finish_def cstr_def Let_def)
qed

text \<open>
  C27. A format that consists of blanks, literal characters, \<open>%s\<close>, \<open>%b\<close>, \<open>%%\<close> and \<open>printf\<close> conversions of
  integers and doubles, with arguments of the matching types, is sent as the command whose words the
  format denotes: the returned length is exact and the block holds the encoding of the words.
\<close>

theorem redisvFormatCommand_words:
  assumes "plenty e" "list_all (piece_ok pf) ps"
    "int (length (encode_command (words_of pf ps [] False))) < SDS_LIMIT"
  shows "redisvFormatCommand e pf (cstr (format_of ps)) (args_of ps) =
    Some (int (length (encode_command (words_of pf ps [] False))), Ptr (cstr (encode_command (words_of pf ps [] False))))"
  by (rule format_words [OF assms])

definition demo_pieces :: "piece list" where
  "demo_pieces = [Lit (CHR ''S''), Lit (CHR ''E''), Lit (CHR ''T''), Blank, Str ''k'', Blank, Conv ''d'' (CInt 7)]"

theorem redisvFormatCommand_words_witness:
  "redisvFormatCommand demo_env (\<lambda>f a. ''7'') (cstr ''SET %s %d'') [CStr (cstr ''k''), CInt 7] =
     Some (27, Ptr (cstr (encode_command [''SET'', ''k'', ''7''])))"
proof -
  have "conv_ok ''d'' (CInt 7)"
    unfolding conv_ok_def
    by (intro exI [of _ "[]"] exI [of _ "CHR ''d''"]) (simp add: kind_ok_def is_intfmt_def)
  then have ok: "list_all (piece_ok (\<lambda>f a. ''7'')) demo_pieces" by (simp add: demo_pieces_def)
  have "words_of (\<lambda>f a. ''7'') demo_pieces [] False = [''SET'', ''k'', ''7'']"
    "format_of demo_pieces = ''SET %s %d''" "args_of demo_pieces = [CStr (cstr ''k''), CInt 7]"
    by (simp_all add: demo_pieces_def format_of_def args_of_def)
  moreover have "length (encode_command [''SET'', ''k'', ''7'']) = 27" by code_simp
  ultimately show ?thesis using redisvFormatCommand_words [OF demo_plenty ok] by simp
qed

text \<open>
  A format that ends inside a conversion makes the formatter run over the end of the format: the
  search for an integer conversion by \<open>strchr\<close> finds the terminator, the format is taken as
  valid and the loop goes on behind the terminator.
\<close>

theorem redisvFormatCommand_overread:
  "redisvFormatCommand demo_env (\<lambda>f a. '' 1'') (cstr ''GET %5'') [CInt 1] = None"
  by code_simp

end
