(* ===== verification/Socket.thy ===== *)
theory Socket
  imports Reply
begin

text \<open>
  The connection context of \<open>redis/hiredis/hiredis.h\<close>, the system calls the library makes on it, and
  the function that records an error (\<open>__redisSetError\<close> in \<open>hiredis.c\<close>).

  The operating system is a parameter: a record of functions over a state of any type, one for each
  call, that return what the call returns and the new state. \<open>errno\<close> is a part of the state. The
  texts of \<open>strerror\<close> and \<open>gai_strerror\<close> are functions of the error number. As \<open>fmacros.h\<close> does not ask for
  the GNU variant, \<open>__redis_strerror_r\<close> is the POSIX function, which leaves a text cut to the buffer.
\<close>

unbundle bit_operations_syntax

section \<open>Constants\<close>

abbreviation (input) REDIS_BLOCK :: int where "REDIS_BLOCK \<equiv> 1"
abbreviation (input) REDIS_CONNECTED :: int where "REDIS_CONNECTED \<equiv> 2"
abbreviation (input) REDIS_DISCONNECTING :: int where "REDIS_DISCONNECTING \<equiv> 4"
abbreviation (input) REDIS_FREEING :: int where "REDIS_FREEING \<equiv> 8"
abbreviation (input) REDIS_IN_CALLBACK :: int where "REDIS_IN_CALLBACK \<equiv> 16"
abbreviation (input) REDIS_SUBSCRIBED :: int where "REDIS_SUBSCRIBED \<equiv> 32"
abbreviation (input) REDIS_MONITORING :: int where "REDIS_MONITORING \<equiv> 64"
abbreviation (input) REDIS_REUSEADDR :: int where "REDIS_REUSEADDR \<equiv> 128"
abbreviation (input) REDIS_KEEPALIVE_INTERVAL :: int where "REDIS_KEEPALIVE_INTERVAL \<equiv> 15"
abbreviation (input) REDIS_CONNECT_RETRIES :: int where "REDIS_CONNECT_RETRIES \<equiv> 10"

text \<open>Error numbers and address families of Linux.\<close>

abbreviation (input) EINTR :: int where "EINTR \<equiv> 4"
abbreviation (input) EAGAIN :: int where "EAGAIN \<equiv> 11"
abbreviation (input) EADDRNOTAVAIL :: int where "EADDRNOTAVAIL \<equiv> 99"
abbreviation (input) ETIMEDOUT :: int where "ETIMEDOUT \<equiv> 110"
abbreviation (input) EHOSTUNREACH :: int where "EHOSTUNREACH \<equiv> 113"
abbreviation (input) EINPROGRESS :: int where "EINPROGRESS \<equiv> 115"
abbreviation (input) AF_LOCAL :: int where "AF_LOCAL \<equiv> 1"
abbreviation (input) AF_INET :: int where "AF_INET \<equiv> 2"
abbreviation (input) AF_INET6 :: int where "AF_INET6 \<equiv> 10"
abbreviation (input) O_NONBLOCK :: int where "O_NONBLOCK \<equiv> 2048"

section \<open>The context\<close>

datatype redisConnectionType = REDIS_CONN_TCP | REDIS_CONN_UNIX

record timeval =
  tv_sec :: int
  tv_usec :: int

record redisContext =
  c_err :: int
  c_errstr :: bytes
  c_fd :: int
  c_flags :: int
  c_obuf :: "sds ptr"
  c_reader :: "reply_heap redisReader ptr"
  c_connection_type :: redisConnectionType
  c_timeout :: "timeval ptr"
  c_host :: "bytes ptr"
  c_source_addr :: "bytes ptr"
  c_port :: int
  c_path :: "bytes ptr"

section \<open>The operating system\<close>

datatype sockopt =
    SO_REUSEADDR int | SO_KEEPALIVE int | TCP_KEEPIDLE int | TCP_KEEPINTVL int | TCP_KEEPCNT int
  | TCP_NODELAY int | SO_RCVTIMEO timeval | SO_SNDTIMEO timeval

record addrinfo =
  ai_family :: int
  ai_addr :: int

datatype sockaddr = Inet int | Local bytes

record 'o os =
  os_errno :: "'o \<Rightarrow> int"
  os_set_errno :: "int \<Rightarrow> 'o \<Rightarrow> 'o"
  os_strerror :: "int \<Rightarrow> bytes"
  os_gai_strerror :: "int \<Rightarrow> bytes"
  os_read :: "int \<Rightarrow> int \<Rightarrow> 'o \<Rightarrow> int \<times> bytes \<times> 'o"
  os_write :: "int \<Rightarrow> bytes \<Rightarrow> 'o \<Rightarrow> int \<times> 'o"
  os_close :: "int \<Rightarrow> 'o \<Rightarrow> 'o"
  os_socket :: "int \<Rightarrow> 'o \<Rightarrow> int \<times> 'o"
  os_setsockopt :: "int \<Rightarrow> sockopt \<Rightarrow> 'o \<Rightarrow> int \<times> 'o"
  os_getsockerr :: "int \<Rightarrow> 'o \<Rightarrow> int \<times> int \<times> 'o"
  os_getfl :: "int \<Rightarrow> 'o \<Rightarrow> int \<times> 'o"
  os_setfl :: "int \<Rightarrow> int \<Rightarrow> 'o \<Rightarrow> int \<times> 'o"
  os_connect :: "int \<Rightarrow> sockaddr \<Rightarrow> 'o \<Rightarrow> int \<times> 'o"
  os_bind :: "int \<Rightarrow> int \<Rightarrow> 'o \<Rightarrow> int \<times> 'o"
  os_poll :: "int \<Rightarrow> int \<Rightarrow> 'o \<Rightarrow> int \<times> 'o"
  os_getaddrinfo :: "bytes ptr \<Rightarrow> bytes ptr \<Rightarrow> int \<Rightarrow> 'o \<Rightarrow> int \<times> addrinfo list \<times> 'o"

section \<open>Flags\<close>

definition has_flag :: "redisContext \<Rightarrow> int \<Rightarrow> bool" where
  "has_flag c f \<longleftrightarrow> c_flags c AND f \<noteq> 0"

definition set_flag :: "int \<Rightarrow> redisContext \<Rightarrow> redisContext" where
  "set_flag f c = c\<lparr>c_flags := c_flags c OR f\<rparr>"

definition clear_flag :: "int \<Rightarrow> redisContext \<Rightarrow> redisContext" where
  "clear_flag f c = c\<lparr>c_flags := c_flags c AND NOT f\<rparr>"

named_theorems flag_simps "each flag is one bit"

lemma has_flag_bit [flag_simps]:
  "has_flag c 1 = bit (c_flags c) 0" "has_flag c 2 = bit (c_flags c) 1" "has_flag c 4 = bit (c_flags c) 2"
  "has_flag c 8 = bit (c_flags c) 3" "has_flag c 16 = bit (c_flags c) 4" "has_flag c 32 = bit (c_flags c) 5"
  "has_flag c 64 = bit (c_flags c) 6" "has_flag c 128 = bit (c_flags c) 7"
  using and_exp_eq_0_iff_not_bit [of "c_flags c" 0] and_exp_eq_0_iff_not_bit [of "c_flags c" 1]
    and_exp_eq_0_iff_not_bit [of "c_flags c" 2] and_exp_eq_0_iff_not_bit [of "c_flags c" 3]
    and_exp_eq_0_iff_not_bit [of "c_flags c" 4] and_exp_eq_0_iff_not_bit [of "c_flags c" 5]
    and_exp_eq_0_iff_not_bit [of "c_flags c" 6] and_exp_eq_0_iff_not_bit [of "c_flags c" 7]
  by (simp_all add: has_flag_def)

lemmas flag_ops [flag_simps] = set_flag_def clear_flag_def bit_or_iff bit_and_iff bit_not_iff

section \<open>Errors\<close>

text \<open>The POSIX \<open>strerror_r\<close> into the part of \<open>buf\<close> from \<open>off\<close> on, of \<open>len\<close> bytes.\<close>

definition redis_strerror_r :: "('o, 'm) os_scheme \<Rightarrow> int \<Rightarrow> bytes \<Rightarrow> int \<Rightarrow> int \<Rightarrow> bytes option" where
  "redis_strerror_r sys err buf off len = mem_write buf off (c_snprintf (nat len) (os_strerror sys err))"

definition redisSetError :: "('o, 'm) os_scheme \<Rightarrow> redisContext \<Rightarrow> 'o \<Rightarrow> int \<Rightarrow> bytes ptr \<Rightarrow> redisContext option" where
  "redisSetError sys c s type str = (case str of
      Ptr t \<Rightarrow> do {
        es \<leftarrow> put_errstr (c_errstr c) t;
        Some (c\<lparr>c_err := type, c_errstr := es\<rparr>) }
    | NULL \<Rightarrow> do {
        c_assert (type = REDIS_ERR_IO);
        es \<leftarrow> redis_strerror_r sys (os_errno sys s) (c_errstr c) 0 128;
        Some (c\<lparr>c_err := type, c_errstr := es\<rparr>) })"

text \<open>
  Recording an error never goes wrong on a context whose text buffer has its 128 bytes; the text is
  the message, cut to the buffer, and nothing else of the context changes.
\<close>

abbreviation errtext :: "bytes \<Rightarrow> bytes" where
  "errtext b \<equiv> takeWhile (\<lambda>x. x \<noteq> NUL) b"

definition with_error :: "redisContext \<Rightarrow> int \<Rightarrow> redisContext \<Rightarrow> bool" where
  "with_error c type c' \<longleftrightarrow> (\<exists>es. c' = c\<lparr>c_err := type, c_errstr := es\<rparr> \<and> length es = 128 \<and> NUL \<in> set es)"

lemma c_snprintf_errtext:
  assumes "0 < n"
  shows "errtext (c_snprintf n t @ rest) = take (n - 1) (errtext t)" "NUL \<in> set (c_snprintf n t)" "length (c_snprintf n t) \<le> n"
proof -
  have "errtext (take k u @ NUL # rest) = take k (errtext u)" for k u
    by (induction u arbitrary: k) (auto simp: take_Cons')
  then show "errtext (c_snprintf n t @ rest) = take (n - 1) (errtext t)" by (simp add: c_snprintf_def cstr_def)
qed (use assms in \<open>auto simp: c_snprintf_def cstr_def\<close>)

lemma redisSetError_text:
  assumes "length (c_errstr c) = 128" "NUL \<in> set t"
  shows "\<exists>c'. redisSetError sys c s type (Ptr t) = Some c' \<and> with_error c type c' \<and> errtext (c_errstr c') = take 127 (errtext t)"
  using put_errstr_ok [OF assms] by (auto simp: redisSetError_def with_error_def)

lemma redis_strerror_r_ok:
  assumes "length buf = 128" "0 \<le> off" "off < 128" "NUL \<notin> set (take (nat off) buf)"
  shows "\<exists>es. redis_strerror_r sys err buf off (128 - off) = Some es \<and> length es = 128 \<and> NUL \<in> set es \<and>
    errtext es = take (nat off) buf @ take (nat (127 - off)) (errtext (os_strerror sys err))"
proof -
  let ?t = "c_snprintf (nat (128 - off)) (os_strerror sys err)"
  have cut: "nat (128 - off) - Suc 0 = nat (127 - off)" by simp
  have len: "length ?t \<le> nat (128 - off)" "NUL \<in> set ?t" using c_snprintf_errtext(2,3) [of "nat (128 - off)"] assms(3) by simp_all
  then have w: "mem_write buf off ?t = Some (take (nat off) buf @ ?t @ drop (nat off + length ?t) buf)"
    using assms(1-3) by (simp add: mem_write_def)
  have "errtext (take (nat off) buf @ ?t @ drop (nat off + length ?t) buf) =
      take (nat off) buf @ errtext (?t @ drop (nat off + length ?t) buf)"
    using assms(4) by (auto simp: takeWhile_append)
  also have "\<dots> = take (nat off) buf @ take (nat (127 - off)) (errtext (os_strerror sys err))"
    using assms(3) c_snprintf_errtext(1) [of "nat (128 - off)"] by (simp add: cut)
  finally show ?thesis
    using w len mem_write_length [OF w] assms(1) by (auto simp: redis_strerror_r_def)
qed

lemma redisSetError_errno:
  assumes "length (c_errstr c) = 128"
  shows "\<exists>c'. redisSetError sys c s 1 NULL = Some c' \<and> with_error c 1 c' \<and>
    errtext (c_errstr c') = take 127 (errtext (os_strerror sys (os_errno sys s)))"
  using redis_strerror_r_ok [OF assms, of 0 sys "os_errno sys s"] by (auto simp: redisSetError_def with_error_def)

lemma with_error_simps:
  assumes "with_error c type c'"
  shows "c_err c' = type" "length (c_errstr c') = 128" "NUL \<in> set (c_errstr c')" "c_fd c' = c_fd c" "c_flags c' = c_flags c"
    "c_obuf c' = c_obuf c" "c_reader c' = c_reader c"
  using assms by (auto simp: with_error_def)

end
