(* ===== verification/Net.thy ===== *)
theory Net
  imports Socket
begin

text \<open>
  Making a connection, \<open>redis/hiredis/net.c\<close>: socket options, the wait for a connection in progress
  and the two ways to connect. Each operation returns its status, the new context and the new
  state of the operating system.

  A pointer argument that the code compares with the pointer stored in the context is of type
  \<open>borrowed\<close>: \<open>Stored\<close> is that very pointer, \<open>Passed\<close> another one.
\<close>

section \<open>Socket helpers\<close>

datatype 'a borrowed = Stored | Passed 'a

definition redisContextCloseFd :: "('o, 'm) os_scheme \<Rightarrow> redisContext \<Rightarrow> 'o \<Rightarrow> redisContext \<times> 'o" where
  "redisContextCloseFd sys c s =
     (if c_fd c \<ge> 0 then (c\<lparr>c_fd := - 1\<rparr>, os_close sys (c_fd c) s) else (c, s))"

definition redisSetErrorFromErrno :: "('o, 'm) os_scheme \<Rightarrow> redisContext \<Rightarrow> 'o \<Rightarrow> int \<Rightarrow> bytes ptr \<Rightarrow> redisContext option" where
  "redisSetErrorFromErrno sys c s type prefix = do {
     let buf = zeros 128;
     (buf1, len) \<leftarrow> (case prefix of
         NULL \<Rightarrow> Some (buf, 0)
       | Ptr p \<Rightarrow> do { b \<leftarrow> mem_write buf 0 (c_snprintf 128 (p @ '': '')); Some (b, int (length (p @ '': ''))) });
     buf2 \<leftarrow> redis_strerror_r sys (os_errno sys s) buf1 len (to_size (128 - len));
     redisSetError sys c s type (Ptr buf2)
   }"

text \<open>The error exit of most helpers: record the error, close the socket, return \<open>REDIS_ERR\<close>.\<close>

definition fail_close :: "('o, 'm) os_scheme \<Rightarrow> redisContext \<Rightarrow> 'o \<Rightarrow> bytes ptr \<Rightarrow> (int \<times> redisContext \<times> 'o) option" where
  "fail_close sys c s prefix = do {
     c1 \<leftarrow> redisSetErrorFromErrno sys c s REDIS_ERR_IO prefix;
     Some (REDIS_ERR, redisContextCloseFd sys c1 s)
   }"

definition redisSetReuseAddr :: "('o, 'm) os_scheme \<Rightarrow> redisContext \<Rightarrow> 'o \<Rightarrow> (int \<times> redisContext \<times> 'o) option" where
  "redisSetReuseAddr sys c s = (case os_setsockopt sys (c_fd c) (SO_REUSEADDR 1) s of (r, s1) \<Rightarrow>
     if r = - 1 then fail_close sys c s1 NULL else Some (REDIS_OK, c, s1))"

definition redisCreateSocket :: "('o, 'm) os_scheme \<Rightarrow> redisContext \<Rightarrow> 'o \<Rightarrow> int \<Rightarrow> (int \<times> redisContext \<times> 'o) option" where
  "redisCreateSocket sys c s type = (case os_socket sys type s of (fd, s1) \<Rightarrow>
     if fd = - 1
     then do { c1 \<leftarrow> redisSetErrorFromErrno sys c s1 REDIS_ERR_IO NULL; Some (REDIS_ERR, c1, s1) }
     else do {
       let c1 = c\<lparr>c_fd := fd\<rparr>;
       if type = AF_INET
       then do {
         (rc, c2, s2) \<leftarrow> redisSetReuseAddr sys c1 s1;
         if rc = REDIS_ERR then Some (REDIS_ERR, c2, s2) else Some (REDIS_OK, c2, s2) }
       else Some (REDIS_OK, c1, s1) })"

definition redisSetBlocking :: "('o, 'm) os_scheme \<Rightarrow> redisContext \<Rightarrow> 'o \<Rightarrow> bool \<Rightarrow> (int \<times> redisContext \<times> 'o) option" where
  "redisSetBlocking sys c s blocking = (case os_getfl sys (c_fd c) s of (flags, s1) \<Rightarrow>
     if flags = - 1 then fail_close sys c s1 (Ptr ''fcntl(F_GETFL)'')
     else (case os_setfl sys (c_fd c) (if blocking then flags AND NOT O_NONBLOCK else flags OR O_NONBLOCK) s1 of (r, s2) \<Rightarrow>
       if r = - 1 then fail_close sys c s2 (Ptr ''fcntl(F_SETFL)'') else Some (REDIS_OK, c, s2)))"

text \<open>One option of \<open>redisKeepAlive\<close>, with the test of the result that means failure; the division of C cuts towards zero.\<close>

definition c_div :: "int \<Rightarrow> int \<Rightarrow> int" where
  "c_div a b = sgn a * sgn b * (\<bar>a\<bar> div \<bar>b\<bar>)"

definition keep_opt :: "('o, 'm) os_scheme \<Rightarrow> redisContext \<Rightarrow> 'o \<Rightarrow> (int \<Rightarrow> bool) \<times> sockopt \<Rightarrow> (int \<times> redisContext \<times> 'o) option" where
  "keep_opt sys c s opt = (case os_setsockopt sys (c_fd c) (snd opt) s of (r, s1) \<Rightarrow>
     if fst opt r
     then do {
       c1 \<leftarrow> redisSetError sys c s1 REDIS_ERR_OTHER (Ptr (cstr (os_strerror sys (os_errno sys s1))));
       Some (REDIS_ERR, c1, s1) }
     else Some (REDIS_OK, c, s1))"

fun keep_opts :: "('o, 'm) os_scheme \<Rightarrow> ((int \<Rightarrow> bool) \<times> sockopt) list \<Rightarrow> redisContext \<Rightarrow> 'o \<Rightarrow> (int \<times> redisContext \<times> 'o) option" where
  "keep_opts sys [] c s = Some (REDIS_OK, c, s)"
| "keep_opts sys (opt # opts) c s = do {
     (rc, c1, s1) \<leftarrow> keep_opt sys c s opt;
     if rc = REDIS_ERR then Some (REDIS_ERR, c1, s1) else keep_opts sys opts c1 s1
   }"

definition redisKeepAlive :: "('o, 'm) os_scheme \<Rightarrow> redisContext \<Rightarrow> 'o \<Rightarrow> int \<Rightarrow> (int \<times> redisContext \<times> 'o) option" where
  "redisKeepAlive sys c s interval = keep_opts sys
     [(\<lambda>r. r = - 1, SO_KEEPALIVE 1), (\<lambda>r. r < 0, TCP_KEEPIDLE interval),
      (\<lambda>r. r < 0, TCP_KEEPINTVL (if c_div interval 3 = 0 then 1 else c_div interval 3)),
      (\<lambda>r. r < 0, TCP_KEEPCNT 3)] c s"

definition redisSetTcpNoDelay :: "('o, 'm) os_scheme \<Rightarrow> redisContext \<Rightarrow> 'o \<Rightarrow> (int \<times> redisContext \<times> 'o) option" where
  "redisSetTcpNoDelay sys c s = (case os_setsockopt sys (c_fd c) (TCP_NODELAY 1) s of (r, s1) \<Rightarrow>
     if r = - 1 then fail_close sys c s1 (Ptr ''setsockopt(TCP_NODELAY)'') else Some (REDIS_OK, c, s1))"

definition redisCheckSocketError :: "('o, 'm) os_scheme \<Rightarrow> redisContext \<Rightarrow> 'o \<Rightarrow> (int \<times> redisContext \<times> 'o) option" where
  "redisCheckSocketError sys c s = (case os_getsockerr sys (c_fd c) s of (r, err, s1) \<Rightarrow>
     if r = - 1
     then do {
       c1 \<leftarrow> redisSetErrorFromErrno sys c s1 REDIS_ERR_IO (Ptr ''getsockopt(SO_ERROR)'');
       Some (REDIS_ERR, c1, s1) }
     else if err \<noteq> 0
     then do {
       let s2 = os_set_errno sys err s1;
       c1 \<leftarrow> redisSetErrorFromErrno sys c s2 REDIS_ERR_IO NULL;
       Some (REDIS_ERR, c1, s2) }
     else Some (REDIS_OK, c, s1))"

section \<open>Waiting for a connection\<close>

abbreviation (input) MAX_MSEC :: int where "MAX_MSEC \<equiv> 9223372036854774"

text \<open>The argument of \<open>poll\<close>: \<open>None\<close> for a timeout that is refused.\<close>

definition wait_msec :: "timeval ptr \<Rightarrow> int option" where
  "wait_msec timeout = (case timeout of
      NULL \<Rightarrow> Some (- 1)
    | Ptr tv \<Rightarrow>
        if tv_usec tv > 1000000 \<or> tv_sec tv > MAX_MSEC then None
        else let msec = to_ll (to_ll (tv_sec tv * 1000) + c_div (to_ll (tv_usec tv + 999)) 1000)
          in Some (if msec < 0 \<or> msec > INT_MAX then INT_MAX else msec))"

definition redisContextWaitReady :: "('o, 'm) os_scheme \<Rightarrow> redisContext \<Rightarrow> 'o \<Rightarrow> timeval ptr \<Rightarrow> (int \<times> redisContext \<times> 'o) option" where
  "redisContextWaitReady sys c s timeout = (case wait_msec timeout of
      None \<Rightarrow> fail_close sys c s NULL
    | Some msec \<Rightarrow>
        if os_errno sys s = EINPROGRESS
        then (case os_poll sys (c_fd c) msec s of (res, s1) \<Rightarrow>
          if res = - 1 then fail_close sys c s1 (Ptr ''poll(2)'')
          else if res = 0 then fail_close sys c (os_set_errno sys ETIMEDOUT s1) NULL
          else do {
            (rc, c1, s2) \<leftarrow> redisCheckSocketError sys c s1;
            if rc \<noteq> REDIS_OK then Some (REDIS_ERR, c1, s2) else Some (REDIS_OK, c1, s2) })
        else fail_close sys c s NULL)"

definition redisContextSetTimeout :: "('o, 'm) os_scheme \<Rightarrow> redisContext \<Rightarrow> 'o \<Rightarrow> timeval \<Rightarrow> (int \<times> redisContext \<times> 'o) option" where
  "redisContextSetTimeout sys c s tv = (case os_setsockopt sys (c_fd c) (SO_RCVTIMEO tv) s of (r, s1) \<Rightarrow>
     if r = - 1
     then do {
       c1 \<leftarrow> redisSetErrorFromErrno sys c s1 REDIS_ERR_IO (Ptr ''setsockopt(SO_RCVTIMEO)'');
       Some (REDIS_ERR, c1, s1) }
     else (case os_setsockopt sys (c_fd c) (SO_SNDTIMEO tv) s1 of (r2, s2) \<Rightarrow>
       if r2 = - 1
       then do {
         c1 \<leftarrow> redisSetErrorFromErrno sys c s2 REDIS_ERR_IO (Ptr ''setsockopt(SO_SNDTIMEO)'');
         Some (REDIS_ERR, c1, s2) }
       else Some (REDIS_OK, c, s2)))"

section \<open>Connecting over TCP\<close>

text \<open>Taking possession of the parameters for a later reconnect.\<close>

definition c_strdup :: "cenv \<Rightarrow> bytes \<Rightarrow> bytes ptr option" where
  "c_strdup e t = do { n \<leftarrow> c_strlen t; Some (if granted e (n + 1) then Ptr (take (nat n + 1) t) else NULL) }"

definition keep_host :: "cenv \<Rightarrow> redisContext \<Rightarrow> bytes borrowed \<Rightarrow> redisContext option" where
  "keep_host e c addr = (case addr of
      Stored \<Rightarrow> Some c
    | Passed a \<Rightarrow> do { host \<leftarrow> c_strdup e a; Some (c\<lparr>c_host := host\<rparr>) })"

definition keep_timeout :: "cenv \<Rightarrow> redisContext \<Rightarrow> timeval borrowed ptr \<Rightarrow> redisContext option" where
  "keep_timeout e c timeout = (case timeout of
      NULL \<Rightarrow> Some (c\<lparr>c_timeout := NULL\<rparr>)
    | Ptr Stored \<Rightarrow> Some c
    | Ptr (Passed tv) \<Rightarrow>
        if c_timeout c = NULL \<and> \<not> granted e 16 then None else Some (c\<lparr>c_timeout := Ptr tv\<rparr>))"

definition keep_source :: "cenv \<Rightarrow> redisContext \<Rightarrow> bytes borrowed ptr \<Rightarrow> redisContext option" where
  "keep_source e c source_addr = (case source_addr of
      NULL \<Rightarrow> Some (c\<lparr>c_source_addr := NULL\<rparr>)
    | Ptr Stored \<Rightarrow> Some c
    | Ptr (Passed a) \<Rightarrow> do { src \<leftarrow> c_strdup e a; Some (c\<lparr>c_source_addr := src\<rparr>) })"

text \<open>The lookup of the server: the addresses found and the family they were found with.\<close>

definition resolve :: "('o, 'm) os_scheme \<Rightarrow> redisContext \<Rightarrow> 'o \<Rightarrow> bytes ptr \<Rightarrow> int \<Rightarrow>
    (redisContext \<times> 'o + int \<times> addrinfo list \<times> 'o) option" where
  "resolve sys c s addr port =
     (let pt = Ptr (c_snprintf 6 (dec_int port)) in
      case os_getaddrinfo sys (c_host c) pt AF_INET s of (rv, info, s1) \<Rightarrow>
        if rv \<noteq> 0
        then (case os_getaddrinfo sys addr pt AF_INET6 s1 of (rv2, info2, s2) \<Rightarrow>
          if rv2 \<noteq> 0
          then do {
            c1 \<leftarrow> redisSetError sys c s2 REDIS_ERR_OTHER (Ptr (cstr (os_gai_strerror sys rv2)));
            Some (Inl (c1, s2)) }
          else Some (Inr (AF_INET6, info2, s2)))
        else Some (Inr (AF_INET, info, s1)))"

fun bind_any :: "('o, 'm) os_scheme \<Rightarrow> int \<Rightarrow> addrinfo list \<Rightarrow> 'o \<Rightarrow> bool \<times> 'o" where
  "bind_any sys fd [] s = (False, s)"
| "bind_any sys fd (b # bs) s = (case os_bind sys fd (ai_addr b) s of (r, s1) \<Rightarrow>
     if r \<noteq> - 1 then (True, s1) else bind_any sys fd bs s1)"

text \<open>Binding the socket to the source address; \<open>False\<close> stands for \<open>goto error\<close>.\<close>

definition bind_source :: "('o, 'm) os_scheme \<Rightarrow> int \<Rightarrow> bool \<Rightarrow> redisContext \<Rightarrow> 'o \<Rightarrow> (bool \<times> redisContext \<times> 'o) option" where
  "bind_source sys family reuseaddr c s = (case c_source_addr c of
      NULL \<Rightarrow> Some (True, c, s)
    | Ptr src \<Rightarrow> (case os_getaddrinfo sys (Ptr src) NULL family s of (rv, info, s1) \<Rightarrow>
        if rv \<noteq> 0
        then do {
          c1 \<leftarrow> redisSetError sys c s1 REDIS_ERR_OTHER (Ptr (c_snprintf 128 (''Can't get addr: '' @ os_gai_strerror sys rv)));
          Some (False, c1, s1) }
        else (case (if reuseaddr then os_setsockopt sys (c_fd c) (SO_REUSEADDR 1) s1 else (0, s1)) of (r, s2) \<Rightarrow>
          if r < 0 then Some (False, c, s2)
          else (case bind_any sys (c_fd c) info s2 of (bound, s3) \<Rightarrow>
            if \<not> bound
            then do {
              c1 \<leftarrow> redisSetError sys c s3 REDIS_ERR_OTHER
                (Ptr (c_snprintf 128 (''Can't bind socket: '' @ os_strerror sys (os_errno sys s3))));
              Some (False, c1, s3) }
            else Some (True, c, s3)))))"

text \<open>How one pass of the loop over the addresses ends.\<close>

datatype attempt = Connected | NextAddr | RetryAddr | Failed

definition tcp_finish :: "('o, 'm) os_scheme \<Rightarrow> bool \<Rightarrow> redisContext \<Rightarrow> 'o \<Rightarrow> (attempt \<times> redisContext \<times> 'o) option" where
  "tcp_finish sys blocking c s = do {
     (rc, c1, s1) \<leftarrow> (if blocking then redisSetBlocking sys c s True else Some (REDIS_OK, c, s));
     if rc \<noteq> REDIS_OK then Some (Failed, c1, s1)
     else do {
       (rc2, c2, s2) \<leftarrow> redisSetTcpNoDelay sys c1 s1;
       if rc2 \<noteq> REDIS_OK then Some (Failed, c2, s2) else Some (Connected, set_flag REDIS_CONNECTED c2, s2) }
   }"

definition tcp_connect :: "('o, 'm) os_scheme \<Rightarrow> bool \<Rightarrow> bool \<Rightarrow> addrinfo \<Rightarrow> redisContext \<Rightarrow> 'o \<Rightarrow> (attempt \<times> redisContext \<times> 'o) option" where
  "tcp_connect sys blocking reuseaddr p c s = (case os_connect sys (c_fd c) (Inet (ai_addr p)) s of (r, s1) \<Rightarrow>
     if r = - 1
     then if os_errno sys s1 = EHOSTUNREACH then Some (NextAddr, redisContextCloseFd sys c s1)
       else if os_errno sys s1 = EINPROGRESS \<and> \<not> blocking then tcp_finish sys blocking c s1
       else if os_errno sys s1 = EADDRNOTAVAIL \<and> reuseaddr then Some (RetryAddr, c, s1)
       else do {
         (rc, c1, s2) \<leftarrow> redisContextWaitReady sys c s1 (c_timeout c);
         if rc \<noteq> REDIS_OK then Some (Failed, c1, s2) else tcp_finish sys blocking c1 s2 }
     else tcp_finish sys blocking c s1)"

definition tcp_attempt :: "('o, 'm) os_scheme \<Rightarrow> int \<Rightarrow> bool \<Rightarrow> bool \<Rightarrow> addrinfo \<Rightarrow> redisContext \<Rightarrow> 'o \<Rightarrow> (attempt \<times> redisContext \<times> 'o) option" where
  "tcp_attempt sys family blocking reuseaddr p c s = (case os_socket sys (ai_family p) s of (fd, s1) \<Rightarrow>
     if fd = - 1 then Some (NextAddr, c, s1)
     else do {
       (rc, c1, s2) \<leftarrow> redisSetBlocking sys (c\<lparr>c_fd := fd\<rparr>) s1 False;
       if rc \<noteq> REDIS_OK then Some (Failed, c1, s2)
       else do {
         (ok, c2, s3) \<leftarrow> bind_source sys family reuseaddr c1 s2;
         if \<not> ok then Some (Failed, c2, s3) else tcp_connect sys blocking reuseaddr p c2 s3 } })"

text \<open>The loop; an address is tried again, on a new socket, at most \<open>REDIS_CONNECT_RETRIES\<close> times in all.\<close>

function tcp_loop :: "('o, 'm) os_scheme \<Rightarrow> int \<Rightarrow> bool \<Rightarrow> bool \<Rightarrow> addrinfo list \<Rightarrow> int \<Rightarrow> redisContext \<Rightarrow> 'o \<Rightarrow>
    (int \<times> redisContext \<times> 'o) option" where
  "tcp_loop sys family blocking reuseaddr [] reuses c s = do {
     c1 \<leftarrow> redisSetError sys c s REDIS_ERR_OTHER
       (Ptr (c_snprintf 128 (''Can't create socket: '' @ os_strerror sys (os_errno sys s))));
     Some (REDIS_ERR, c1, s) }"
| "tcp_loop sys family blocking reuseaddr (p # ps) reuses c s = (case tcp_attempt sys family blocking reuseaddr p c s of
      None \<Rightarrow> None
    | Some (Connected, c1, s1) \<Rightarrow> Some (REDIS_OK, c1, s1)
    | Some (NextAddr, c1, s1) \<Rightarrow> tcp_loop sys family blocking reuseaddr ps reuses c1 s1
    | Some (RetryAddr, c1, s1) \<Rightarrow>
        if reuses + 1 \<ge> REDIS_CONNECT_RETRIES then Some (REDIS_ERR, c1, s1)
        else tcp_loop sys family blocking reuseaddr (p # ps) (reuses + 1) c1 s1
    | Some (Failed, c1, s1) \<Rightarrow> Some (REDIS_ERR, c1, s1))"
  by pat_completeness auto
termination
  by (relation "measures [\<lambda>(sys, f, b, ra, ps, n, c, s). length ps, \<lambda>(sys, f, b, ra, ps, n, c, s). nat (10 - n)]") auto

definition redisContextConnectTcp0 :: "cenv \<Rightarrow> ('o, 'm) os_scheme \<Rightarrow> redisContext \<Rightarrow> 'o \<Rightarrow> bytes borrowed \<Rightarrow> int \<Rightarrow>
    timeval borrowed ptr \<Rightarrow> bytes borrowed ptr \<Rightarrow> (int \<times> redisContext \<times> 'o) option" where
  "redisContextConnectTcp0 e sys c s addr port timeout source_addr = do {
     let blocking = has_flag c REDIS_BLOCK;
     let reuseaddr = has_flag c REDIS_REUSEADDR;
     let c0 = c\<lparr>c_connection_type := REDIS_CONN_TCP, c_port := port\<rparr>;
     c1 \<leftarrow> keep_host e c0 addr;
     c2 \<leftarrow> keep_timeout e c1 timeout;
     c3 \<leftarrow> keep_source e c2 source_addr;
     r \<leftarrow> resolve sys c3 s (case addr of Stored \<Rightarrow> c_host c3 | Passed a \<Rightarrow> Ptr a) port;
     (case r of
        Inl (c4, s1) \<Rightarrow> Some (REDIS_ERR, c4, s1)
      | Inr (family, info, s1) \<Rightarrow> tcp_loop sys family blocking reuseaddr info 0 c3 s1)
   }"

definition redisContextConnectTcp :: "cenv \<Rightarrow> ('o, 'm) os_scheme \<Rightarrow> redisContext \<Rightarrow> 'o \<Rightarrow> bytes borrowed \<Rightarrow> int \<Rightarrow>
    timeval borrowed ptr \<Rightarrow> (int \<times> redisContext \<times> 'o) option" where
  "redisContextConnectTcp e sys c s addr port timeout = redisContextConnectTcp0 e sys c s addr port timeout NULL"

definition redisContextConnectBindTcp :: "cenv \<Rightarrow> ('o, 'm) os_scheme \<Rightarrow> redisContext \<Rightarrow> 'o \<Rightarrow> bytes borrowed \<Rightarrow> int \<Rightarrow>
    timeval borrowed ptr \<Rightarrow> bytes borrowed ptr \<Rightarrow> (int \<times> redisContext \<times> 'o) option" where
  "redisContextConnectBindTcp e sys c s addr port timeout source_addr =
     redisContextConnectTcp0 e sys c s addr port timeout source_addr"

section \<open>Connecting over a local socket\<close>

text \<open>The address is the path, cut by \<open>strncpy\<close> to the 107 bytes before the last one of \<open>sun_path\<close>.\<close>

definition keep_path :: "cenv \<Rightarrow> redisContext \<Rightarrow> bytes borrowed \<Rightarrow> redisContext option" where
  "keep_path e c path = (case path of
      Stored \<Rightarrow> Some c
    | Passed p \<Rightarrow> do { p' \<leftarrow> c_strdup e p; Some (c\<lparr>c_path := p'\<rparr>) })"

definition local_address :: "redisContext \<Rightarrow> bytes borrowed \<Rightarrow> sockaddr option" where
  "local_address c path = (case (case path of Stored \<Rightarrow> c_path c | Passed p \<Rightarrow> Ptr p) of
      NULL \<Rightarrow> None
    | Ptr p \<Rightarrow> Some (Local (take 107 (takeWhile (\<lambda>x. x \<noteq> NUL) p))))"

definition redisContextConnectUnix :: "cenv \<Rightarrow> ('o, 'm) os_scheme \<Rightarrow> redisContext \<Rightarrow> 'o \<Rightarrow> bytes borrowed \<Rightarrow>
    timeval borrowed ptr \<Rightarrow> (int \<times> redisContext \<times> 'o) option" where
  "redisContextConnectUnix e sys c s path timeout = do {
     let blocking = has_flag c REDIS_BLOCK;
     (rc, c1, s1) \<leftarrow> redisCreateSocket sys c s AF_LOCAL;
     if rc < 0 then Some (REDIS_ERR, c1, s1)
     else do {
       (rc2, c2, s2) \<leftarrow> redisSetBlocking sys c1 s1 False;
       if rc2 \<noteq> REDIS_OK then Some (REDIS_ERR, c2, s2)
       else do {
         c3 \<leftarrow> keep_path e (c2\<lparr>c_connection_type := REDIS_CONN_UNIX\<rparr>) path;
         c4 \<leftarrow> keep_timeout e c3 timeout;
         sa \<leftarrow> local_address c4 path;
         let (r, s3) = os_connect sys (c_fd c4) sa s2;
         (rc3, c5, s4) \<leftarrow> (if r = - 1 \<and> \<not> (os_errno sys s3 = EINPROGRESS \<and> \<not> blocking)
           then redisContextWaitReady sys c4 s3 (c_timeout c4) else Some (REDIS_OK, c4, s3));
         if rc3 \<noteq> REDIS_OK then Some (REDIS_ERR, c5, s4)
         else do {
           (rc4, c6, s5) \<leftarrow> (if blocking then redisSetBlocking sys c5 s4 True else Some (REDIS_OK, c5, s4));
           if rc4 \<noteq> REDIS_OK then Some (REDIS_ERR, c6, s5)
           else Some (REDIS_OK, set_flag REDIS_CONNECTED c6, s5) } } }
   }"

end
