(* ===== verification/Context.thy ===== *)
theory Context
  imports Net Format
begin

text \<open>
  The synchronous client, \<open>redis/hiredis/hiredis.c\<close> from line 591 on: contexts, the two buffers of a
  connection, commands and replies.

  The state is the context, the heap of reply objects and the operating system; the allocator is the
  environment of the heap. A reply is the address of its object, 0 for \<open>NULL\<close>. The loops of
  \<open>redisGetReply\<close> are partial functions over options: a run that never ends is \<open>None\<close>.
\<close>

section \<open>Creating and freeing contexts\<close>

definition redisFree :: "('o, 'm) os_scheme \<Rightarrow> redisContext \<Rightarrow> reply_heap \<Rightarrow> 'o \<Rightarrow> (reply_heap \<times> 'o) option" where
  "redisFree sys c h s = do {
     let s1 = (if c_fd c > 0 then os_close sys (c_fd c) s else s);
     h1 \<leftarrow> (case c_reader c of NULL \<Rightarrow> Some h | Ptr r \<Rightarrow> redisReaderFree r h);
     Some (h1, s1)
   }"

definition redisContextInit :: "('o, 'm) os_scheme \<Rightarrow> reply_heap \<Rightarrow> 'o \<Rightarrow> (redisContext ptr \<times> reply_heap \<times> 'o) option" where
  "redisContextInit sys h s =
     (if \<not> granted (h_env h) 208 then Some (NULL, h, s)
      else do {
        obuf \<leftarrow> sdsempty (h_env h);
        reader \<leftarrow> redisReaderCreate (h_env h);
        let c = \<lparr>c_err = 0, c_errstr = zeros 128, c_fd = 0, c_flags = 0, c_obuf = obuf, c_reader = reader,
          c_connection_type = REDIS_CONN_TCP, c_timeout = NULL, c_host = NULL, c_source_addr = NULL, c_port = 0, c_path = NULL\<rparr>;
        if obuf = NULL \<or> reader = NULL
        then do { (h1, s1) \<leftarrow> redisFree sys c h s; Some (NULL, h1, s1) }
        else Some (Ptr c, h, s) })"

definition redisFreeKeepFd :: "('o, 'm) os_scheme \<Rightarrow> redisContext \<Rightarrow> reply_heap \<Rightarrow> 'o \<Rightarrow> (int \<times> reply_heap \<times> 'o) option" where
  "redisFreeKeepFd sys c h s = do {
     (h1, s1) \<leftarrow> redisFree sys (c\<lparr>c_fd := - 1\<rparr>) h s;
     Some (c_fd c, h1, s1)
   }"

text \<open>The pointer stored in the context, as an argument.\<close>

definition stored :: "'a ptr \<Rightarrow> 'b borrowed ptr" where
  "stored p = (case p of NULL \<Rightarrow> NULL | Ptr _ \<Rightarrow> Ptr Stored)"

definition redisReconnect :: "('o, 'm) os_scheme \<Rightarrow> redisContext \<Rightarrow> reply_heap \<Rightarrow> 'o \<Rightarrow> (int \<times> redisContext \<times> reply_heap \<times> 'o) option" where
  "redisReconnect sys c h s = do {
     n \<leftarrow> c_strlen (c_errstr c);
     es \<leftarrow> mem_write (c_errstr c) 0 (replicate (nat n) NUL);
     let s1 = (if c_fd c > 0 then os_close sys (c_fd c) s else s);
     h1 \<leftarrow> (case c_reader c of NULL \<Rightarrow> None | Ptr r \<Rightarrow> redisReaderFree r h);
     obuf \<leftarrow> sdsempty (h_env h);
     reader \<leftarrow> redisReaderCreate (h_env h);
     let c1 = c\<lparr>c_err := 0, c_errstr := es, c_obuf := obuf, c_reader := reader\<rparr>;
     (rc, c2, s2) \<leftarrow> (case c_connection_type c1 of
         REDIS_CONN_TCP \<Rightarrow> redisContextConnectBindTcp (h_env h) sys c1 s1 Stored (c_port c1) (stored (c_timeout c1)) (stored (c_source_addr c1))
       | REDIS_CONN_UNIX \<Rightarrow> redisContextConnectUnix (h_env h) sys c1 s1 Stored (stored (c_timeout c1)));
     Some (rc, c2, h1, s2)
   }"

text \<open>The functions that connect share one shape: a new context, its flags, the connection.\<close>

definition connect_new :: "('o, 'm) os_scheme \<Rightarrow> (redisContext \<Rightarrow> redisContext) \<Rightarrow>
    (cenv \<Rightarrow> redisContext \<Rightarrow> 'o \<Rightarrow> (int \<times> redisContext \<times> 'o) option) \<Rightarrow> reply_heap \<Rightarrow> 'o \<Rightarrow>
    (redisContext ptr \<times> reply_heap \<times> 'o) option" where
  "connect_new sys flags conn h s = do {
     (p, h1, s1) \<leftarrow> redisContextInit sys h s;
     (case p of
        NULL \<Rightarrow> Some (NULL, h1, s1)
      | Ptr c \<Rightarrow> do { (rc, c1, s2) \<leftarrow> conn (h_env h1) (flags c) s1; Some (Ptr c1, h1, s2) })
   }"

definition redisConnect :: "('o, 'm) os_scheme \<Rightarrow> reply_heap \<Rightarrow> 'o \<Rightarrow> bytes \<Rightarrow> int \<Rightarrow> (redisContext ptr \<times> reply_heap \<times> 'o) option" where
  "redisConnect sys h s ip port = connect_new sys (set_flag REDIS_BLOCK)
     (\<lambda>e c s. redisContextConnectTcp e sys c s (Passed ip) port NULL) h s"

definition redisConnectWithTimeout :: "('o, 'm) os_scheme \<Rightarrow> reply_heap \<Rightarrow> 'o \<Rightarrow> bytes \<Rightarrow> int \<Rightarrow> timeval \<Rightarrow> (redisContext ptr \<times> reply_heap \<times> 'o) option" where
  "redisConnectWithTimeout sys h s ip port tv = connect_new sys (set_flag REDIS_BLOCK)
     (\<lambda>e c s. redisContextConnectTcp e sys c s (Passed ip) port (Ptr (Passed tv))) h s"

definition redisConnectNonBlock :: "('o, 'm) os_scheme \<Rightarrow> reply_heap \<Rightarrow> 'o \<Rightarrow> bytes \<Rightarrow> int \<Rightarrow> (redisContext ptr \<times> reply_heap \<times> 'o) option" where
  "redisConnectNonBlock sys h s ip port = connect_new sys (clear_flag REDIS_BLOCK)
     (\<lambda>e c s. redisContextConnectTcp e sys c s (Passed ip) port NULL) h s"

text \<open>The two functions that bind do not look whether the context was allocated.\<close>

definition connect_new_unchecked :: "('o, 'm) os_scheme \<Rightarrow> (redisContext \<Rightarrow> redisContext) \<Rightarrow>
    (cenv \<Rightarrow> redisContext \<Rightarrow> 'o \<Rightarrow> (int \<times> redisContext \<times> 'o) option) \<Rightarrow> reply_heap \<Rightarrow> 'o \<Rightarrow>
    (redisContext ptr \<times> reply_heap \<times> 'o) option" where
  "connect_new_unchecked sys flags conn h s = do {
     (p, h1, s1) \<leftarrow> redisContextInit sys h s;
     (case p of
        NULL \<Rightarrow> None
      | Ptr c \<Rightarrow> do { (rc, c1, s2) \<leftarrow> conn (h_env h1) (flags c) s1; Some (Ptr c1, h1, s2) })
   }"

definition redisConnectBindNonBlock :: "('o, 'm) os_scheme \<Rightarrow> reply_heap \<Rightarrow> 'o \<Rightarrow> bytes \<Rightarrow> int \<Rightarrow> bytes ptr \<Rightarrow>
    (redisContext ptr \<times> reply_heap \<times> 'o) option" where
  "redisConnectBindNonBlock sys h s ip port source_addr = connect_new_unchecked sys (clear_flag REDIS_BLOCK)
     (\<lambda>e c s. redisContextConnectBindTcp e sys c s (Passed ip) port NULL (case source_addr of NULL \<Rightarrow> NULL | Ptr a \<Rightarrow> Ptr (Passed a))) h s"

definition redisConnectBindNonBlockWithReuse :: "('o, 'm) os_scheme \<Rightarrow> reply_heap \<Rightarrow> 'o \<Rightarrow> bytes \<Rightarrow> int \<Rightarrow> bytes ptr \<Rightarrow>
    (redisContext ptr \<times> reply_heap \<times> 'o) option" where
  "redisConnectBindNonBlockWithReuse sys h s ip port source_addr =
     connect_new_unchecked sys (\<lambda>c. set_flag REDIS_REUSEADDR (clear_flag REDIS_BLOCK c))
     (\<lambda>e c s. redisContextConnectBindTcp e sys c s (Passed ip) port NULL (case source_addr of NULL \<Rightarrow> NULL | Ptr a \<Rightarrow> Ptr (Passed a))) h s"

definition redisConnectUnix :: "('o, 'm) os_scheme \<Rightarrow> reply_heap \<Rightarrow> 'o \<Rightarrow> bytes \<Rightarrow> (redisContext ptr \<times> reply_heap \<times> 'o) option" where
  "redisConnectUnix sys h s path = connect_new sys (set_flag REDIS_BLOCK)
     (\<lambda>e c s. redisContextConnectUnix e sys c s (Passed path) NULL) h s"

definition redisConnectUnixWithTimeout :: "('o, 'm) os_scheme \<Rightarrow> reply_heap \<Rightarrow> 'o \<Rightarrow> bytes \<Rightarrow> timeval \<Rightarrow> (redisContext ptr \<times> reply_heap \<times> 'o) option" where
  "redisConnectUnixWithTimeout sys h s path tv = connect_new sys (set_flag REDIS_BLOCK)
     (\<lambda>e c s. redisContextConnectUnix e sys c s (Passed path) (Ptr (Passed tv))) h s"

definition redisConnectUnixNonBlock :: "('o, 'm) os_scheme \<Rightarrow> reply_heap \<Rightarrow> 'o \<Rightarrow> bytes \<Rightarrow> (redisContext ptr \<times> reply_heap \<times> 'o) option" where
  "redisConnectUnixNonBlock sys h s path = connect_new sys (clear_flag REDIS_BLOCK)
     (\<lambda>e c s. redisContextConnectUnix e sys c s (Passed path) NULL) h s"

definition redisConnectFd :: "('o, 'm) os_scheme \<Rightarrow> reply_heap \<Rightarrow> 'o \<Rightarrow> int \<Rightarrow> (redisContext ptr \<times> reply_heap \<times> 'o) option" where
  "redisConnectFd sys h s fd = connect_new sys (\<lambda>c. set_flag (REDIS_BLOCK OR REDIS_CONNECTED) (c\<lparr>c_fd := fd\<rparr>))
     (\<lambda>e c s. Some (REDIS_OK, c, s)) h s"

definition redisSetTimeout :: "('o, 'm) os_scheme \<Rightarrow> redisContext \<Rightarrow> 'o \<Rightarrow> timeval \<Rightarrow> (int \<times> redisContext \<times> 'o) option" where
  "redisSetTimeout sys c s tv =
     (if has_flag c REDIS_BLOCK then redisContextSetTimeout sys c s tv else Some (REDIS_ERR, c, s))"

definition redisEnableKeepAlive :: "('o, 'm) os_scheme \<Rightarrow> redisContext \<Rightarrow> 'o \<Rightarrow> (int \<times> redisContext \<times> 'o) option" where
  "redisEnableKeepAlive sys c s = do {
     (rc, c1, s1) \<leftarrow> redisKeepAlive sys c s REDIS_KEEPALIVE_INTERVAL;
     Some (if rc \<noteq> REDIS_OK then REDIS_ERR else REDIS_OK, c1, s1)
   }"

section \<open>Reading and writing\<close>

text \<open>Whether a failed call is to be tried again later.\<close>

definition again_later :: "('o, 'm) os_scheme \<Rightarrow> redisContext \<Rightarrow> 'o \<Rightarrow> bool" where
  "again_later sys c s \<longleftrightarrow> os_errno sys s = EAGAIN \<and> \<not> has_flag c REDIS_BLOCK \<or> os_errno sys s = EINTR"

definition redisBufferRead :: "('o, 'm) os_scheme \<Rightarrow> redisContext \<Rightarrow> reply_heap \<Rightarrow> 'o \<Rightarrow> (int \<times> redisContext \<times> reply_heap \<times> 'o) option" where
  "redisBufferRead sys c h s =
     (if c_err c \<noteq> 0 then Some (REDIS_ERR, c, h, s)
      else case os_read sys (c_fd c) 16384 s of (n, buf, s1) \<Rightarrow>
        let nread = to_int n in
        if nread = - 1
        then if again_later sys c s1 then Some (REDIS_OK, c, h, s1)
          else do { c1 \<leftarrow> redisSetError sys c s1 REDIS_ERR_IO NULL; Some (REDIS_ERR, c1, h, s1) }
        else if nread = 0
        then do {
          c1 \<leftarrow> redisSetError sys c s1 REDIS_ERR_EOF (Ptr (cstr ''Server closed the connection''));
          Some (REDIS_ERR, c1, h, s1) }
        else (case c_reader c of
            NULL \<Rightarrow> None
          | Ptr r \<Rightarrow> do {
              (rc, r1, h1) \<leftarrow> redisReaderFeed (h_env h) r h (Ptr buf) (to_size nread);
              if rc \<noteq> REDIS_OK
              then do {
                c1 \<leftarrow> redisSetError sys (c\<lparr>c_reader := Ptr r1\<rparr>) s1 (r_err r1) (Ptr (r_errstr r1));
                Some (REDIS_ERR, c1, h1, s1) }
              else Some (REDIS_OK, c\<lparr>c_reader := Ptr r1\<rparr>, h1, s1) }))"

text \<open>The variable that \<open>done\<close> points to is passed in and returned.\<close>

definition redisBufferWrite :: "cenv \<Rightarrow> ('o, 'm) os_scheme \<Rightarrow> redisContext \<Rightarrow> 'o \<Rightarrow> bool \<Rightarrow> (int \<times> bool \<times> redisContext \<times> 'o) option" where
  "redisBufferWrite e sys c s done =
     (if c_err c \<noteq> 0 then Some (REDIS_ERR, done, c, s)
      else do {
        obuf \<leftarrow> (case c_obuf c of NULL \<Rightarrow> None | Ptr b \<Rightarrow> Some b);
        (rc, c1, s1) \<leftarrow> (if sdslen obuf > 0
          then (case os_write sys (c_fd c) (sds_str obuf) s of (n, s1) \<Rightarrow>
            let nwritten = to_int n in
            if nwritten = - 1
            then if again_later sys c s1 then Some (REDIS_OK, c, s1)
              else do { c1 \<leftarrow> redisSetError sys c s1 REDIS_ERR_IO NULL; Some (REDIS_ERR, c1, s1) }
            else if nwritten > 0
            then if nwritten = to_int (sdslen obuf)
              then do { b \<leftarrow> sdsempty e; Some (REDIS_OK, c\<lparr>c_obuf := b\<rparr>, s1) }
              else do { b \<leftarrow> sdsrange obuf nwritten (- 1); Some (REDIS_OK, c\<lparr>c_obuf := Ptr b\<rparr>, s1) }
            else Some (REDIS_OK, c, s1))
          else Some (REDIS_OK, c, s));
        if rc = REDIS_ERR then Some (REDIS_ERR, done, c1, s1)
        else (case c_obuf c1 of NULL \<Rightarrow> None | Ptr b \<Rightarrow> Some (REDIS_OK, sdslen b = 0, c1, s1)) })"

definition redisGetReplyFromReader :: "('o, 'm) os_scheme \<Rightarrow> redisContext \<Rightarrow> reply_heap \<Rightarrow> 'o \<Rightarrow> (int \<times> int \<times> redisContext \<times> reply_heap) option" where
  "redisGetReplyFromReader sys c h s = (case c_reader c of
      NULL \<Rightarrow> None
    | Ptr r \<Rightarrow> do {
        (rc, reply, r1, h1) \<leftarrow> redisReaderGetReply r h;
        if rc = REDIS_ERR
        then do {
          c1 \<leftarrow> redisSetError sys (c\<lparr>c_reader := Ptr r1\<rparr>) s (r_err r1) (Ptr (r_errstr r1));
          Some (REDIS_ERR, 0, c1, h1) }
        else Some (REDIS_OK, reply, c\<lparr>c_reader := Ptr r1\<rparr>, h1) })"

text \<open>Write until done, then read until there is a reply.\<close>

partial_function (option) write_loop :: "cenv \<Rightarrow> ('o, 'm) os_scheme \<Rightarrow> redisContext \<Rightarrow> 'o \<Rightarrow> (int \<times> redisContext \<times> 'o) option" where
  "write_loop e sys c s = (case redisBufferWrite e sys c s False of
      None \<Rightarrow> None
    | Some (rc, wdone, c1, s1) \<Rightarrow>
        if rc = REDIS_ERR then Some (REDIS_ERR, c1, s1)
        else if wdone then Some (REDIS_OK, c1, s1) else write_loop e sys c1 s1)"

partial_function (option) read_loop :: "('o, 'm) os_scheme \<Rightarrow> redisContext \<Rightarrow> reply_heap \<Rightarrow> 'o \<Rightarrow> (int \<times> int \<times> redisContext \<times> reply_heap \<times> 'o) option" where
  "read_loop sys c h s = (case redisBufferRead sys c h s of
      None \<Rightarrow> None
    | Some (rc, c1, h1, s1) \<Rightarrow>
        if rc = REDIS_ERR then Some (REDIS_ERR, 0, c1, h1, s1)
        else (case redisGetReplyFromReader sys c1 h1 s1 of
            None \<Rightarrow> None
          | Some (rc2, aux, c2, h2) \<Rightarrow>
              if rc2 = REDIS_ERR then Some (REDIS_ERR, 0, c2, h2, s1)
              else if aux \<noteq> 0 then Some (REDIS_OK, aux, c2, h2, s1) else read_loop sys c2 h2 s1))"

declare write_loop.simps [code]
declare read_loop.simps [code]

definition redisGetReply :: "('o, 'm) os_scheme \<Rightarrow> redisContext \<Rightarrow> reply_heap \<Rightarrow> 'o \<Rightarrow> (int \<times> int \<times> redisContext \<times> reply_heap \<times> 'o) option" where
  "redisGetReply sys c h s = do {
     (rc, aux, c1, h1) \<leftarrow> redisGetReplyFromReader sys c h s;
     if rc = REDIS_ERR then Some (REDIS_ERR, 0, c1, h1, s)
     else if aux = 0 \<and> has_flag c1 REDIS_BLOCK
     then do {
       (rc2, c2, s2) \<leftarrow> write_loop (h_env h1) sys c1 s;
       if rc2 = REDIS_ERR then Some (REDIS_ERR, 0, c2, h1, s2) else read_loop sys c2 h1 s2 }
     else Some (REDIS_OK, aux, c1, h1, s)
   }"

section \<open>Commands\<close>

definition redisAppendCommand0 :: "cenv \<Rightarrow> ('o, 'm) os_scheme \<Rightarrow> redisContext \<Rightarrow> 'o \<Rightarrow> bytes \<Rightarrow> int \<Rightarrow> (int \<times> redisContext) option" where
  "redisAppendCommand0 e sys c s cmd len = (case c_obuf c of
      NULL \<Rightarrow> None
    | Ptr b \<Rightarrow> do {
        newbuf \<leftarrow> sdscatlen e b cmd len;
        (case newbuf of
           NULL \<Rightarrow> do { c1 \<leftarrow> redisSetError sys c s REDIS_ERR_OOM (Ptr (cstr ''Out of memory'')); Some (REDIS_ERR, c1) }
         | Ptr nb \<Rightarrow> Some (REDIS_OK, c\<lparr>c_obuf := Ptr nb\<rparr>)) })"

definition redisAppendFormattedCommand :: "cenv \<Rightarrow> ('o, 'm) os_scheme \<Rightarrow> redisContext \<Rightarrow> 'o \<Rightarrow> bytes \<Rightarrow> int \<Rightarrow> (int \<times> redisContext) option" where
  "redisAppendFormattedCommand e sys c s cmd len = do {
     (rc, c1) \<leftarrow> redisAppendCommand0 e sys c s cmd len;
     Some (if rc \<noteq> REDIS_OK then REDIS_ERR else REDIS_OK, c1)
   }"

definition redisvAppendCommand :: "cenv \<Rightarrow> printf_text \<Rightarrow> ('o, 'm) os_scheme \<Rightarrow> redisContext \<Rightarrow> 'o \<Rightarrow> bytes \<Rightarrow> cmd_arg list \<Rightarrow> (int \<times> redisContext) option" where
  "redisvAppendCommand e pf sys c s format ap = do {
     (len, cmd) \<leftarrow> redisvFormatCommand e pf format ap;
     if len = - 1
     then do { c1 \<leftarrow> redisSetError sys c s REDIS_ERR_OOM (Ptr (cstr ''Out of memory'')); Some (REDIS_ERR, c1) }
     else if len = - 2
     then do { c1 \<leftarrow> redisSetError sys c s REDIS_ERR_OTHER (Ptr (cstr ''Invalid format string'')); Some (REDIS_ERR, c1) }
     else (case cmd of
         NULL \<Rightarrow> None
       | Ptr b \<Rightarrow> do {
           (rc, c1) \<leftarrow> redisAppendCommand0 e sys c s b len;
           Some (if rc \<noteq> REDIS_OK then REDIS_ERR else REDIS_OK, c1) })
   }"

definition redisAppendCommand :: "cenv \<Rightarrow> printf_text \<Rightarrow> ('o, 'm) os_scheme \<Rightarrow> redisContext \<Rightarrow> 'o \<Rightarrow> bytes \<Rightarrow> cmd_arg list \<Rightarrow> (int \<times> redisContext) option" where
  "redisAppendCommand e pf sys c s format ap = redisvAppendCommand e pf sys c s format ap"

definition redisAppendCommandArgv :: "cenv \<Rightarrow> ('o, 'm) os_scheme \<Rightarrow> redisContext \<Rightarrow> 'o \<Rightarrow> int \<Rightarrow> bytes list \<Rightarrow> int list ptr \<Rightarrow> (int \<times> redisContext) option" where
  "redisAppendCommandArgv e sys c s argc argv argvlen = do {
     (len, cmd) \<leftarrow> redisFormatSdsCommandArgv e argc argv argvlen;
     if len = - 1
     then do { c1 \<leftarrow> redisSetError sys c s REDIS_ERR_OOM (Ptr (cstr ''Out of memory'')); Some (REDIS_ERR, c1) }
     else (case cmd of
         NULL \<Rightarrow> None
       | Ptr b \<Rightarrow> do {
           (rc, c1) \<leftarrow> redisAppendCommand0 e sys c s (sh_buf b) (to_size len);
           Some (if rc \<noteq> REDIS_OK then REDIS_ERR else REDIS_OK, c1) })
   }"

definition redisBlockForReply :: "('o, 'm) os_scheme \<Rightarrow> redisContext \<Rightarrow> reply_heap \<Rightarrow> 'o \<Rightarrow> (int \<times> redisContext \<times> reply_heap \<times> 'o) option" where
  "redisBlockForReply sys c h s =
     (if has_flag c REDIS_BLOCK
      then do {
        (rc, reply, c1, h1, s1) \<leftarrow> redisGetReply sys c h s;
        Some (if rc \<noteq> REDIS_OK then 0 else reply, c1, h1, s1) }
      else Some (0, c, h, s))"

definition redisvCommand :: "printf_text \<Rightarrow> ('o, 'm) os_scheme \<Rightarrow> redisContext \<Rightarrow> reply_heap \<Rightarrow> 'o \<Rightarrow> bytes \<Rightarrow> cmd_arg list \<Rightarrow> (int \<times> redisContext \<times> reply_heap \<times> 'o) option" where
  "redisvCommand pf sys c h s format ap = do {
     (rc, c1) \<leftarrow> redisvAppendCommand (h_env h) pf sys c s format ap;
     if rc \<noteq> REDIS_OK then Some (0, c1, h, s) else redisBlockForReply sys c1 h s
   }"

definition redisCommand :: "printf_text \<Rightarrow> ('o, 'm) os_scheme \<Rightarrow> redisContext \<Rightarrow> reply_heap \<Rightarrow> 'o \<Rightarrow> bytes \<Rightarrow> cmd_arg list \<Rightarrow> (int \<times> redisContext \<times> reply_heap \<times> 'o) option" where
  "redisCommand pf sys c h s format ap = redisvCommand pf sys c h s format ap"

definition redisCommandArgv :: "('o, 'm) os_scheme \<Rightarrow> redisContext \<Rightarrow> reply_heap \<Rightarrow> 'o \<Rightarrow> int \<Rightarrow> bytes list \<Rightarrow> int list ptr \<Rightarrow> (int \<times> redisContext \<times> reply_heap \<times> 'o) option" where
  "redisCommandArgv sys c h s argc argv argvlen = do {
     (rc, c1) \<leftarrow> redisAppendCommandArgv (h_env h) sys c s argc argv argvlen;
     if rc \<noteq> REDIS_OK then Some (0, c1, h, s) else redisBlockForReply sys c1 h s
   }"

end
