(* ===== verification/Async.thy ===== *)
theory Async
  imports Context Dict
begin

text \<open>
  The asynchronous client, \<open>redis/hiredis/async.c\<close> and \<open>async.h\<close>: callbacks for replies and for
  subscriptions, event handlers, orderly and forced shutdown.

  A callback function is a number, 0 for \<open>NULL\<close>. What it does is not known to the library: the
  parameter \<open>user\<close> gives, for a call out of the library, the state afterwards, which may differ in any
  way, for example because the callback called the library again. Every call out is also noted in
  the log of the state, with the reply heap as the callback sees it. The hooks of the event library
  only act on that library; their calls are noted.

  The cells of the two callback lists are in a heap of their own; following a pointer to a cell
  that does not exist is \<open>None\<close>. A context that was freed is marked, and every use of it is \<open>None\<close>. A key of
  the subscription tables is the text of its string.
\<close>

section \<open>Data\<close>

record redisCallback =
  cb_next :: int
  cb_fn :: int
  cb_privdata :: int

record redisCallbackList =
  l_head :: int
  l_tail :: int

type_synonym callback_dict = "(bytes, redisCallback) dict"

record redisAsyncContext =
  ac_c :: redisContext
  ac_err :: int
  ac_errstr :: bool \<comment> \<open>whether it points to the text of the context\<close>
  ac_data :: int
  ev_data :: int
  ev_addRead :: bool
  ev_delRead :: bool
  ev_addWrite :: bool
  ev_delWrite :: bool
  ev_cleanup :: bool
  onDisconnect :: int
  onConnect :: int
  ac_replies :: redisCallbackList
  sub_invalid :: redisCallbackList
  sub_channels :: callback_dict
  sub_patterns :: callback_dict

datatype outcall =
    AddRead | DelRead | AddWrite | DelWrite | Cleanup
  | RunCallback int int int reply_heap \<comment> \<open>function, reply, \<open>privdata\<close>, heap\<close>
  | OnConnect int int
  | OnDisconnect int int

record cell_heap =
  ch_next :: int
  ch_cells :: "int \<Rightarrow> redisCallback option"

record 'o astate =
  ac :: redisAsyncContext
  a_freed :: bool
  a_heap :: reply_heap
  a_os :: 'o
  a_cells :: cell_heap
  a_log :: "outcall list"

section \<open>The type of the subscription tables\<close>

definition callbackHash :: "bytes \<Rightarrow> 32 word" where
  "callbackHash key = dictGenHashFunction key"

definition callbackValDup :: "redisCallback \<Rightarrow> redisCallback" where
  "callbackValDup src = src"

text \<open>\<open>sdslen\<close> reads an \<open>int\<close>, so that the variables of type \<open>int\<close> hold it exactly.\<close>

definition callbackKeyCompare :: "bytes \<Rightarrow> bytes \<Rightarrow> bool" where
  "callbackKeyCompare key1 key2 =
     (let l1 = length key1; l2 = length key2 in
      if l1 \<noteq> l2 then False else take l1 key1 = take l1 key2)"

definition callbackDict :: "(bytes, redisCallback) dictType" where
  "callbackDict = \<lparr>hashFunction = callbackHash, keyDup = None, valDup = Some callbackValDup,
     keyCompare = Some callbackKeyCompare, keyDestructor = True, valDestructor = True\<rparr>"

section \<open>Access to the state\<close>

definition alive :: "('o, 'x) astate_scheme \<Rightarrow> redisAsyncContext option" where
  "alive st = (if a_freed st then None else Some (ac st))"

definition upd_c :: "(redisContext \<Rightarrow> redisContext) \<Rightarrow> ('o, 'x) astate_scheme \<Rightarrow> ('o, 'x) astate_scheme" where
  "upd_c f st = st\<lparr>ac := (ac st)\<lparr>ac_c := f (ac_c (ac st))\<rparr>\<rparr>"

definition note_call :: "outcall \<Rightarrow> ('o, 'x) astate_scheme \<Rightarrow> ('o, 'x) astate_scheme" where
  "note_call ev st = st\<lparr>a_log := a_log st @ [ev]\<rparr>"

definition EL_ADD_READ :: "('o, 'x) astate_scheme \<Rightarrow> ('o, 'x) astate_scheme" where
  "EL_ADD_READ st = (if ev_addRead (ac st) then note_call AddRead st else st)"

definition EL_ADD_WRITE :: "('o, 'x) astate_scheme \<Rightarrow> ('o, 'x) astate_scheme" where
  "EL_ADD_WRITE st = (if ev_addWrite (ac st) then note_call AddWrite st else st)"

definition EL_DEL_WRITE :: "('o, 'x) astate_scheme \<Rightarrow> ('o, 'x) astate_scheme" where
  "EL_DEL_WRITE st = (if ev_delWrite (ac st) then note_call DelWrite st else st)"

definition EL_CLEANUP :: "('o, 'x) astate_scheme \<Rightarrow> ('o, 'x) astate_scheme" where
  "EL_CLEANUP st = (if ev_cleanup (ac st) then note_call Cleanup st else st)"

section \<open>Connecting\<close>

definition redisAsyncInitialize :: "cenv \<Rightarrow> redisContext \<Rightarrow> redisAsyncContext ptr option" where
  "redisAsyncInitialize e c =
     (if \<not> granted e 344 then Some NULL
      else do {
        channels \<leftarrow> dictCreate e callbackDict;
        patterns \<leftarrow> dictCreate e callbackDict;
        Some (Ptr \<lparr>ac_c = clear_flag REDIS_CONNECTED c, ac_err = 0, ac_errstr = False, ac_data = 0, ev_data = 0,
          ev_addRead = False, ev_delRead = False, ev_addWrite = False, ev_delWrite = False, ev_cleanup = False,
          onDisconnect = 0, onConnect = 0, ac_replies = \<lparr>l_head = 0, l_tail = 0\<rparr>,
          sub_invalid = \<lparr>l_head = 0, l_tail = 0\<rparr>, sub_channels = channels, sub_patterns = patterns\<rparr>) })"

definition redisAsyncCopyError :: "redisAsyncContext ptr \<Rightarrow> redisAsyncContext ptr" where
  "redisAsyncCopyError p = (case p of NULL \<Rightarrow> NULL | Ptr a \<Rightarrow> Ptr (a\<lparr>ac_err := c_err (ac_c a), ac_errstr := True\<rparr>))"

text \<open>The functions that connect: with and without a check for \<open>NULL\<close> on the way.\<close>

definition async_checked :: "('o, 'm) os_scheme \<Rightarrow> (redisContext ptr \<times> reply_heap \<times> 'o) option \<Rightarrow>
    (redisAsyncContext ptr \<times> reply_heap \<times> 'o) option" where
  "async_checked sys conn = do {
     (p, h, s) \<leftarrow> conn;
     (case p of
        NULL \<Rightarrow> Some (NULL, h, s)
      | Ptr c \<Rightarrow> do {
          q \<leftarrow> redisAsyncInitialize (h_env h) c;
          (case q of
             NULL \<Rightarrow> do { (h1, s1) \<leftarrow> redisFree sys c h s; Some (NULL, h1, s1) }
           | Ptr a \<Rightarrow> Some (redisAsyncCopyError (Ptr a), h, s)) })
   }"

definition async_unchecked :: "(redisContext ptr \<times> reply_heap \<times> 'o) option \<Rightarrow> (redisAsyncContext ptr \<times> reply_heap \<times> 'o) option" where
  "async_unchecked conn = do {
     (p, h, s) \<leftarrow> conn;
     (case p of
        NULL \<Rightarrow> None
      | Ptr c \<Rightarrow> do { q \<leftarrow> redisAsyncInitialize (h_env h) c; Some (redisAsyncCopyError q, h, s) })
   }"

definition redisAsyncConnect :: "('o, 'm) os_scheme \<Rightarrow> reply_heap \<Rightarrow> 'o \<Rightarrow> bytes \<Rightarrow> int \<Rightarrow> (redisAsyncContext ptr \<times> reply_heap \<times> 'o) option" where
  "redisAsyncConnect sys h s ip port = async_checked sys (redisConnectNonBlock sys h s ip port)"

definition redisAsyncConnectBind :: "('o, 'm) os_scheme \<Rightarrow> reply_heap \<Rightarrow> 'o \<Rightarrow> bytes \<Rightarrow> int \<Rightarrow> bytes ptr \<Rightarrow>
    (redisAsyncContext ptr \<times> reply_heap \<times> 'o) option" where
  "redisAsyncConnectBind sys h s ip port source_addr = async_unchecked (redisConnectBindNonBlock sys h s ip port source_addr)"

definition redisAsyncConnectBindWithReuse :: "('o, 'm) os_scheme \<Rightarrow> reply_heap \<Rightarrow> 'o \<Rightarrow> bytes \<Rightarrow> int \<Rightarrow> bytes ptr \<Rightarrow>
    (redisAsyncContext ptr \<times> reply_heap \<times> 'o) option" where
  "redisAsyncConnectBindWithReuse sys h s ip port source_addr =
     async_unchecked (redisConnectBindNonBlockWithReuse sys h s ip port source_addr)"

definition redisAsyncConnectUnix :: "('o, 'm) os_scheme \<Rightarrow> reply_heap \<Rightarrow> 'o \<Rightarrow> bytes \<Rightarrow> (redisAsyncContext ptr \<times> reply_heap \<times> 'o) option" where
  "redisAsyncConnectUnix sys h s path = async_checked sys (redisConnectUnixNonBlock sys h s path)"

definition redisAsyncSetConnectCallback :: "'o astate \<Rightarrow> int \<Rightarrow> (int \<times> 'o astate) option" where
  "redisAsyncSetConnectCallback st fn = do {
     a \<leftarrow> alive st;
     Some (if onConnect a = 0 then (REDIS_OK, EL_ADD_WRITE (st\<lparr>ac := a\<lparr>onConnect := fn\<rparr>\<rparr>)) else (REDIS_ERR, st))
   }"

definition redisAsyncSetDisconnectCallback :: "'o astate \<Rightarrow> int \<Rightarrow> (int \<times> 'o astate) option" where
  "redisAsyncSetDisconnectCallback st fn = do {
     a \<leftarrow> alive st;
     Some (if onDisconnect a = 0 then (REDIS_OK, st\<lparr>ac := a\<lparr>onDisconnect := fn\<rparr>\<rparr>) else (REDIS_ERR, st))
   }"

section \<open>Callback lists\<close>

text \<open>\<open>source\<close> is never \<open>NULL\<close> in a call.\<close>

definition redisPushCallback :: "cenv \<Rightarrow> cell_heap \<Rightarrow> redisCallbackList \<Rightarrow> redisCallback \<Rightarrow> (int \<times> cell_heap \<times> redisCallbackList) option" where
  "redisPushCallback e m lst src =
     (if \<not> granted e 24 then Some (REDIS_ERR_OOM, m, lst)
      else do {
        let cb = ch_next m;
        let cells = (ch_cells m)(cb \<mapsto> src\<lparr>cb_next := 0\<rparr>);
        let hd = (if l_head lst = 0 then cb else l_head lst);
        cells' \<leftarrow> (if l_tail lst \<noteq> 0
          then do { t \<leftarrow> cells (l_tail lst); Some (cells(l_tail lst \<mapsto> t\<lparr>cb_next := cb\<rparr>)) } else Some cells);
        Some (REDIS_OK, \<lparr>ch_next = cb + 1, ch_cells = cells'\<rparr>, \<lparr>l_head = hd, l_tail = cb\<rparr>) })"

text \<open>The variable that \<open>target\<close> points to is passed in and returned; it keeps its value when the list is empty.\<close>

definition redisShiftCallback :: "cell_heap \<Rightarrow> redisCallbackList \<Rightarrow> redisCallback \<Rightarrow> (int \<times> redisCallback \<times> cell_heap \<times> redisCallbackList) option" where
  "redisShiftCallback m lst target =
     (let cb = l_head lst in
      if cb \<noteq> 0
      then do {
        c \<leftarrow> ch_cells m cb;
        Some (REDIS_OK, c, m\<lparr>ch_cells := (ch_cells m)(cb := None)\<rparr>,
          \<lparr>l_head = cb_next c, l_tail = (if cb = l_tail lst then 0 else l_tail lst)\<rparr>) }
      else Some (REDIS_ERR, target, m, lst))"

text \<open>The same on the two lists of the state: \<open>True\<close> is \<open>replies\<close>, \<open>False\<close> is \<open>sub.invalid\<close>.\<close>

definition a_list :: "bool \<Rightarrow> redisAsyncContext \<Rightarrow> redisCallbackList" where
  "a_list i a = (if i then ac_replies a else sub_invalid a)"

definition set_list :: "bool \<Rightarrow> redisCallbackList \<Rightarrow> redisAsyncContext \<Rightarrow> redisAsyncContext" where
  "set_list i l a = (if i then a\<lparr>ac_replies := l\<rparr> else a\<lparr>sub_invalid := l\<rparr>)"

definition push_cb :: "bool \<Rightarrow> redisCallback \<Rightarrow> 'o astate \<Rightarrow> (int \<times> 'o astate) option" where
  "push_cb i cb st = do {
     a \<leftarrow> alive st;
     (rc, m, l) \<leftarrow> redisPushCallback (h_env (a_heap st)) (a_cells st) (a_list i a) cb;
     Some (rc, st\<lparr>ac := set_list i l a, a_cells := m\<rparr>)
   }"

definition shift_cb :: "bool \<Rightarrow> redisCallback \<Rightarrow> 'o astate \<Rightarrow> (int \<times> redisCallback \<times> 'o astate) option" where
  "shift_cb i target st = do {
     a \<leftarrow> alive st;
     (rc, cb, m, l) \<leftarrow> redisShiftCallback (a_cells st) (a_list i a) target;
     Some (rc, cb, st\<lparr>ac := set_list i l a, a_cells := m\<rparr>)
   }"

section \<open>Running callbacks and freeing\<close>

type_synonym 'o user = "outcall \<Rightarrow> 'o astate \<Rightarrow> 'o astate option"

definition call_user :: "'o user \<Rightarrow> outcall \<Rightarrow> 'o astate \<Rightarrow> 'o astate option" where
  "call_user user ev st = user ev (note_call ev st)"

definition redisRunCallback :: "'o user \<Rightarrow> 'o astate \<Rightarrow> redisCallback \<Rightarrow> int \<Rightarrow> 'o astate option" where
  "redisRunCallback user st cb reply =
     (if cb_fn cb \<noteq> 0
      then do {
        alive st;
        st1 \<leftarrow> call_user user (RunCallback (cb_fn cb) reply (cb_privdata cb) (a_heap st)) (upd_c (set_flag REDIS_IN_CALLBACK) st);
        alive st1;
        Some (upd_c (clear_flag REDIS_IN_CALLBACK) st1) }
      else Some st)"

text \<open>The loops of \<open>__redisAsyncFree\<close>.\<close>

partial_function (option) run_pending :: "'o user \<Rightarrow> bool \<Rightarrow> redisCallback \<Rightarrow> 'o astate \<Rightarrow> 'o astate option" where
  "run_pending user i cb st = (case shift_cb i cb st of
      None \<Rightarrow> None
    | Some (rc, cb1, st1) \<Rightarrow>
        if rc = REDIS_OK
        then (case redisRunCallback user st1 cb1 0 of None \<Rightarrow> None | Some st2 \<Rightarrow> run_pending user i cb1 st2)
        else Some st1)"

partial_function (option) run_subs :: "'o user \<Rightarrow> (redisAsyncContext \<Rightarrow> callback_dict) \<Rightarrow> (bytes, redisCallback) dictIterator \<Rightarrow>
    'o astate \<Rightarrow> 'o astate option" where
  "run_subs user tab it st = (case alive st of
      None \<Rightarrow> None
    | Some a \<Rightarrow> (case dictNext (tab a) it of
        None \<Rightarrow> None
      | Some (NULL, it1) \<Rightarrow> Some st
      | Some (Ptr de, it1) \<Rightarrow> (case redisRunCallback user st (snd de) 0 of
          None \<Rightarrow> None
        | Some st1 \<Rightarrow> run_subs user tab it1 st1)))"

declare run_pending.simps [code]
declare run_subs.simps [code]

definition free_table :: "'o user \<Rightarrow> (redisAsyncContext \<Rightarrow> callback_dict) \<Rightarrow> 'o astate \<Rightarrow> 'o astate option" where
  "free_table user tab st = do {
     it \<leftarrow> dictGetIterator (h_env (a_heap st));
     st1 \<leftarrow> run_subs user tab it st;
     a \<leftarrow> alive st1;
     dictRelease (tab a);
     Some st1
   }"

definition redisAsyncFree0 :: "'o user \<Rightarrow> ('o, 'm) os_scheme \<Rightarrow> 'o astate \<Rightarrow> 'o astate option" where
  "redisAsyncFree0 user sys st = do {
     st1 \<leftarrow> run_pending user True \<lparr>cb_next = 0, cb_fn = 0, cb_privdata = 0\<rparr> st;
     st2 \<leftarrow> run_pending user False \<lparr>cb_next = 0, cb_fn = 0, cb_privdata = 0\<rparr> st1;
     st3 \<leftarrow> free_table user sub_channels st2;
     st4 \<leftarrow> free_table user sub_patterns st3;
     let st5 = EL_CLEANUP st4;
     a \<leftarrow> alive st5;
     st6 \<leftarrow> (if onDisconnect a \<noteq> 0 \<and> has_flag (ac_c a) REDIS_CONNECTED
       then call_user user (OnDisconnect (onDisconnect a)
         (if has_flag (ac_c a) REDIS_FREEING then REDIS_OK else if ac_err a = 0 then REDIS_OK else REDIS_ERR)) st5
       else Some st5);
     b \<leftarrow> alive st6;
     (h, s) \<leftarrow> redisFree sys (ac_c b) (a_heap st6) (a_os st6);
     Some (st6\<lparr>a_freed := True, a_heap := h, a_os := s\<rparr>)
   }"

definition redisAsyncFree :: "'o user \<Rightarrow> ('o, 'm) os_scheme \<Rightarrow> 'o astate \<Rightarrow> 'o astate option" where
  "redisAsyncFree user sys st = do {
     alive st;
     let st1 = upd_c (set_flag REDIS_FREEING) st;
     if \<not> has_flag (ac_c (ac st1)) REDIS_IN_CALLBACK then redisAsyncFree0 user sys st1 else Some st1
   }"

definition redisAsyncDisconnect0 :: "'o user \<Rightarrow> ('o, 'm) os_scheme \<Rightarrow> 'o astate \<Rightarrow> 'o astate option" where
  "redisAsyncDisconnect0 user sys st = do {
     a \<leftarrow> alive st;
     let st1 = st\<lparr>ac := deref (redisAsyncCopyError (Ptr a))\<rparr>;
     st2 \<leftarrow> (if ac_err (ac st1) = 0
       then do {
         (rc, cb, st') \<leftarrow> shift_cb True \<lparr>cb_next = 0, cb_fn = 0, cb_privdata = 0\<rparr> st1;
         c_assert (rc = REDIS_ERR);
         Some st' }
       else Some (upd_c (set_flag REDIS_DISCONNECTING) st1));
     redisAsyncFree0 user sys st2
   }"

definition redisAsyncDisconnect :: "'o user \<Rightarrow> ('o, 'm) os_scheme \<Rightarrow> 'o astate \<Rightarrow> 'o astate option" where
  "redisAsyncDisconnect user sys st = do {
     alive st;
     let st1 = upd_c (set_flag REDIS_DISCONNECTING) st;
     if \<not> has_flag (ac_c (ac st1)) REDIS_IN_CALLBACK \<and> l_head (ac_replies (ac st1)) = 0
     then redisAsyncDisconnect0 user sys st1 else Some st1
   }"

section \<open>Processing replies\<close>

text \<open>The text of a terminated string, and comparison without case.\<close>

definition c_text :: "bytes \<Rightarrow> bytes option" where
  "c_text b = (if NUL \<in> set b then Some (takeWhile (\<lambda>x. x \<noteq> NUL) b) else None)"

fun strncasecmp_eq :: "bytes \<Rightarrow> bytes \<Rightarrow> bool option" where
  "strncasecmp_eq xs [] = Some True"
| "strncasecmp_eq [] (y # ys) = None"
| "strncasecmp_eq (x # xs) (y # ys) = (if c_tolower x = c_tolower y then strncasecmp_eq xs ys else Some False)"

text \<open>An element of an array reply.\<close>

definition element_at :: "reply_heap \<Rightarrow> redisReply \<Rightarrow> nat \<Rightarrow> redisReply option" where
  "element_at h ob i = (case ry_element ob of
      NULL \<Rightarrow> None
    | Ptr es \<Rightarrow> if i < length es then h_objs h (es ! i) else None)"

definition reply_text :: "redisReply \<Rightarrow> bytes option" where
  "reply_text ob = (case ry_str ob of NULL \<Rightarrow> None | Ptr b \<Rightarrow> Some b)"

text \<open>The text of the key built by \<open>sdsnewlen\<close>.\<close>

definition make_key :: "cenv \<Rightarrow> bytes \<Rightarrow> int \<Rightarrow> bytes option" where
  "make_key e b n = do { p \<leftarrow> sdsnewlen e (Ptr b) n; (case p of NULL \<Rightarrow> None | Ptr s \<Rightarrow> Some (sds_str s)) }"

definition sub_table :: "bool \<Rightarrow> redisAsyncContext \<Rightarrow> callback_dict" where
  "sub_table pvariant a = (if pvariant then sub_patterns a else sub_channels a)"

definition set_table :: "bool \<Rightarrow> callback_dict \<Rightarrow> redisAsyncContext \<Rightarrow> redisAsyncContext" where
  "set_table pvariant d a = (if pvariant then a\<lparr>sub_patterns := d\<rparr> else a\<lparr>sub_channels := d\<rparr>)"

definition redisGetSubscribeCallback :: "'o astate \<Rightarrow> int \<Rightarrow> redisCallback \<Rightarrow> (redisCallback \<times> 'o astate) option" where
  "redisGetSubscribeCallback st reply dstcb = do {
     a \<leftarrow> alive st;
     ob \<leftarrow> h_objs (a_heap st) reply;
     if ry_type ob = REDIS_REPLY_ARRAY
     then do {
       c_assert (ry_elements ob \<ge> 2);
       e0 \<leftarrow> element_at (a_heap st) ob 0;
       c_assert (ry_type e0 = REDIS_REPLY_STRING);
       stype \<leftarrow> reply_text e0;
       c \<leftarrow> byte_at stype 0;
       let pvariant = (c_tolower c = CHR ''p'');
       let callbacks = sub_table pvariant a;
       e1 \<leftarrow> element_at (a_heap st) ob 1;
       c_assert (ry_type e1 = REDIS_REPLY_STRING);
       name \<leftarrow> reply_text e1;
       sname \<leftarrow> make_key (h_env (a_heap st)) name (ry_len e1);
       de \<leftarrow> dictFind callbacks sname;
       (case de of
          NULL \<Rightarrow> Some (dstcb, st)
        | Ptr entry \<Rightarrow> do {
            word \<leftarrow> c_text (drop (if pvariant then 1 else 0) stype);
            if map c_tolower word = ''unsubscribe''
            then do {
              (rc, d, fs) \<leftarrow> dictDelete callbacks sname;
              e2 \<leftarrow> element_at (a_heap st) ob 2;
              c_assert (ry_type e2 = REDIS_REPLY_INTEGER);
              let st1 = st\<lparr>ac := set_table pvariant d a\<rparr>;
              Some (snd entry, if ry_integer e2 = 0 then upd_c (clear_flag REDIS_SUBSCRIBED) st1 else st1) }
            else Some (snd entry, st) }) }
     else do {
       (rc, cb, st1) \<leftarrow> shift_cb False dstcb st;
       Some (cb, st1) }
   }"

text \<open>\<open>c->reader->fn->freeObject(reply)\<close>.\<close>

definition free_reply_object :: "'o astate \<Rightarrow> int \<Rightarrow> 'o astate option" where
  "free_reply_object st reply = do {
     a \<leftarrow> alive st;
     (case c_reader (ac_c a) of
        NULL \<Rightarrow> None
      | Ptr r \<Rightarrow> (case fn_of r freeObject of
          None \<Rightarrow> None
        | Some f \<Rightarrow> do { h \<leftarrow> f (a_heap st) reply; Some (st\<lparr>a_heap := h\<rparr>) }))
   }"

text \<open>\<open>snprintf(c->errstr,sizeof(c->errstr),"%s",...)\<close> with the text of the error reply.\<close>

definition note_error_reply :: "redisReply \<Rightarrow> redisContext \<Rightarrow> redisContext option" where
  "note_error_reply ob c = do {
     b \<leftarrow> reply_text ob;
     t \<leftarrow> c_text b;
     es \<leftarrow> mem_write (c_errstr c) 0 (c_snprintf 128 t);
     Some (c\<lparr>c_err := REDIS_ERR_OTHER, c_errstr := es\<rparr>)
   }"

text \<open>How one pass of the loop of \<open>redisProcessCallbacks\<close> ends: \<open>Inl\<close> for a return, \<open>Inr\<close> for the next pass.\<close>

definition no_reply :: "'o user \<Rightarrow> ('o, 'm) os_scheme \<Rightarrow> redisCallback \<Rightarrow> 'o astate \<Rightarrow> 'o astate option" where
  "no_reply user sys cb st = do {
     let a = ac st;
     empty \<leftarrow> (if has_flag (ac_c a) REDIS_DISCONNECTING
       then (case c_obuf (ac_c a) of NULL \<Rightarrow> None | Ptr b \<Rightarrow> Some (sdslen b = 0)) else Some False);
     if has_flag (ac_c a) REDIS_DISCONNECTING \<and> empty \<and> l_head (ac_replies a) = 0
     then redisAsyncDisconnect0 user sys st
     else if has_flag (ac_c a) REDIS_MONITORING
     then do { (rc, st1) \<leftarrow> push_cb True cb st; Some st1 }
     else Some st
   }"

definition deliver :: "'o user \<Rightarrow> ('o, 'm) os_scheme \<Rightarrow> redisCallback \<Rightarrow> int \<Rightarrow> 'o astate \<Rightarrow> ('o astate + redisCallback \<times> 'o astate) option" where
  "deliver user sys cb reply st =
     (if cb_fn cb \<noteq> 0
      then do {
        st1 \<leftarrow> redisRunCallback user st cb reply;
        st2 \<leftarrow> free_reply_object st1 reply;
        if has_flag (ac_c (ac st2)) REDIS_FREEING
        then do { st3 \<leftarrow> redisAsyncFree0 user sys st2; Some (Inl st3) }
        else Some (Inr (cb, st2)) }
      else do { st2 \<leftarrow> free_reply_object st reply; Some (Inr (cb, st2)) })"

definition reply_step :: "'o user \<Rightarrow> ('o, 'm) os_scheme \<Rightarrow> redisCallback \<Rightarrow> int \<Rightarrow> 'o astate \<Rightarrow> ('o astate + redisCallback \<times> 'o astate) option" where
  "reply_step user sys cb reply st = do {
     (rc, cb1, st1) \<leftarrow> shift_cb True cb st;
     if rc \<noteq> REDIS_OK
     then do {
       ob \<leftarrow> h_objs (a_heap st1) reply;
       if ry_type ob = REDIS_REPLY_ERROR
       then do {
         c \<leftarrow> note_error_reply ob (ac_c (ac st1));
         st2 \<leftarrow> free_reply_object (upd_c (\<lambda>_. c) st1) reply;
         st3 \<leftarrow> redisAsyncDisconnect0 user sys st2;
         Some (Inl st3) }
       else do {
         c_assert (has_flag (ac_c (ac st1)) REDIS_SUBSCRIBED \<or> has_flag (ac_c (ac st1)) REDIS_MONITORING);
         (cb2, st2) \<leftarrow> (if has_flag (ac_c (ac st1)) REDIS_SUBSCRIBED then redisGetSubscribeCallback st1 reply cb1 else Some (cb1, st1));
         deliver user sys cb2 reply st2 } }
     else deliver user sys cb1 reply st1
   }"

definition get_reply :: "('o, 'm) os_scheme \<Rightarrow> 'o astate \<Rightarrow> (int \<times> int \<times> 'o astate) option" where
  "get_reply sys st = do {
     a \<leftarrow> alive st;
     (status, reply, c, h, s) \<leftarrow> redisGetReply sys (ac_c a) (a_heap st) (a_os st);
     Some (status, reply, (upd_c (\<lambda>_. c) st)\<lparr>a_heap := h, a_os := s\<rparr>)
   }"

partial_function (option) callback_loop :: "'o user \<Rightarrow> ('o, 'm) os_scheme \<Rightarrow> redisCallback \<Rightarrow> 'o astate \<Rightarrow> 'o astate option" where
  "callback_loop user sys cb st = (case get_reply sys st of
      None \<Rightarrow> None
    | Some (status, reply, st1) \<Rightarrow>
        if status \<noteq> REDIS_OK then redisAsyncDisconnect0 user sys st1
        else if reply = 0 then no_reply user sys cb st1
        else (case reply_step user sys cb reply st1 of
            None \<Rightarrow> None
          | Some (Inl st2) \<Rightarrow> Some st2
          | Some (Inr (cb1, st2)) \<Rightarrow> callback_loop user sys cb1 st2))"

declare callback_loop.simps [code]

definition redisProcessCallbacks :: "'o user \<Rightarrow> ('o, 'm) os_scheme \<Rightarrow> 'o astate \<Rightarrow> 'o astate option" where
  "redisProcessCallbacks user sys st = callback_loop user sys \<lparr>cb_next = 0, cb_fn = 0, cb_privdata = 0\<rparr> st"

section \<open>Events\<close>

text \<open>The connect callback runs without the flag \<open>REDIS_IN_CALLBACK\<close>.\<close>

definition call_connect :: "'o user \<Rightarrow> int \<Rightarrow> 'o astate \<Rightarrow> 'o astate option" where
  "call_connect user status st =
     (if onConnect (ac st) \<noteq> 0 then call_user user (OnConnect (onConnect (ac st)) status) st else Some st)"

definition redisAsyncHandleConnect :: "'o user \<Rightarrow> ('o, 'm) os_scheme \<Rightarrow> 'o astate \<Rightarrow> (int \<times> 'o astate) option" where
  "redisAsyncHandleConnect user sys st = do {
     a \<leftarrow> alive st;
     (rc, c, s) \<leftarrow> redisCheckSocketError sys (ac_c a) (a_os st);
     let st1 = (upd_c (\<lambda>_. c) st)\<lparr>a_os := s\<rparr>;
     if rc = REDIS_ERR
     then if os_errno sys s = EINPROGRESS then Some (REDIS_OK, st1)
       else do {
         st2 \<leftarrow> call_connect user REDIS_ERR st1;
         st3 \<leftarrow> redisAsyncDisconnect0 user sys st2;
         Some (REDIS_ERR, st3) }
     else do {
       st2 \<leftarrow> call_connect user REDIS_OK (upd_c (set_flag REDIS_CONNECTED) st1);
       Some (REDIS_OK, st2) }
   }"

text \<open>
  The beginning of both event handlers: \<open>Inl\<close> for a return, \<open>Inr\<close> to go on with a connected context.
\<close>

definition ensure_connected :: "'o user \<Rightarrow> ('o, 'm) os_scheme \<Rightarrow> 'o astate \<Rightarrow> ('o astate + 'o astate) option" where
  "ensure_connected user sys st = do {
     a \<leftarrow> alive st;
     if \<not> has_flag (ac_c a) REDIS_CONNECTED
     then do {
       (rc, st1) \<leftarrow> redisAsyncHandleConnect user sys st;
       if rc \<noteq> REDIS_OK then Some (Inl st1)
       else do {
         b \<leftarrow> alive st1;
         Some (if \<not> has_flag (ac_c b) REDIS_CONNECTED then Inl st1 else Inr st1) } }
     else Some (Inr st)
   }"

definition redisAsyncHandleRead :: "'o user \<Rightarrow> ('o, 'm) os_scheme \<Rightarrow> 'o astate \<Rightarrow> 'o astate option" where
  "redisAsyncHandleRead user sys st = do {
     r \<leftarrow> ensure_connected user sys st;
     (case r of
        Inl st1 \<Rightarrow> Some st1
      | Inr st1 \<Rightarrow> do {
          (rc, c, h, s) \<leftarrow> redisBufferRead sys (ac_c (ac st1)) (a_heap st1) (a_os st1);
          let st2 = (upd_c (\<lambda>_. c) st1)\<lparr>a_heap := h, a_os := s\<rparr>;
          if rc = REDIS_ERR then redisAsyncDisconnect0 user sys st2
          else redisProcessCallbacks user sys (EL_ADD_READ st2) })
   }"

definition redisAsyncHandleWrite :: "'o user \<Rightarrow> ('o, 'm) os_scheme \<Rightarrow> 'o astate \<Rightarrow> 'o astate option" where
  "redisAsyncHandleWrite user sys st = do {
     r \<leftarrow> ensure_connected user sys st;
     (case r of
        Inl st1 \<Rightarrow> Some st1
      | Inr st1 \<Rightarrow> do {
          (rc, wdone, c, s) \<leftarrow> redisBufferWrite (h_env (a_heap st1)) sys (ac_c (ac st1)) (a_os st1) False;
          let st2 = (upd_c (\<lambda>_. c) st1)\<lparr>a_os := s\<rparr>;
          if rc = REDIS_ERR then redisAsyncDisconnect0 user sys st2
          else Some (EL_ADD_READ (if \<not> wdone then EL_ADD_WRITE st2 else EL_DEL_WRITE st2)) })
   }"

section \<open>Commands\<close>

text \<open>\<open>strchr\<close> from an offset on; the result is an offset.\<close>

fun find_byte :: "bytes \<Rightarrow> char \<Rightarrow> int \<Rightarrow> int ptr option" where
  "find_byte [] ch n = None"
| "find_byte (x # xs) ch n = (if x = ch then Some (Ptr n) else if x = NUL then Some NULL else find_byte xs ch (n + 1))"

definition c_strchr :: "bytes \<Rightarrow> int \<Rightarrow> char \<Rightarrow> int ptr option" where
  "c_strchr b p ch = (if 0 \<le> p then find_byte (drop (nat p) b) ch p else None)"

text \<open>\<open>strtol\<close> to the base 10: blanks, a sign, digits; the value is cut to the range of \<open>long\<close>.\<close>

fun skip_space :: "bytes \<Rightarrow> bytes option" where
  "skip_space [] = None"
| "skip_space (x # xs) = (if c_isspace x then skip_space xs else Some (x # xs))"

fun read_dec :: "bytes \<Rightarrow> int \<Rightarrow> int option" where
  "read_dec [] acc = None"
| "read_dec (x # xs) acc = (if c_isdigit x then read_dec xs (10 * acc + (of_char x - 48)) else Some acc)"

definition c_strtol :: "bytes \<Rightarrow> int option" where
  "c_strtol b = do {
     t \<leftarrow> skip_space b;
     let neg = (hd t = CHR ''-'');
     v \<leftarrow> read_dec (if neg \<or> hd t = CHR ''+'' then tl t else t) 0;
     let w = (if neg then - v else v);
     Some (max (- LONG_MAX - 1) (min LONG_MAX w))
   }"

text \<open>The result: \<open>None\<close> inside for \<open>NULL\<close>, or the returned pointer, \<open>*str\<close> and \<open>*len\<close>.\<close>

definition nextArgument :: "bytes \<Rightarrow> int \<Rightarrow> (int \<times> int \<times> int) option option" where
  "nextArgument b start = do {
     c \<leftarrow> byte_at b start;
     p \<leftarrow> (if c \<noteq> CHR ''$'' then c_strchr b start (CHR ''$'') else Some (Ptr start));
     (case p of
        NULL \<Rightarrow> Some None
      | Ptr p \<Rightarrow> do {
          n \<leftarrow> c_strtol (drop (nat (p + 1)) b);
          let len = to_size (to_int n);
          q \<leftarrow> c_strchr b p CR;
          (case q of NULL \<Rightarrow> None | Ptr q \<Rightarrow> Some (Some (q + 2 + len + 2, q + 2, len))) })
   }"

lemma find_byte_ge: "find_byte xs ch n = Some (Ptr k) \<Longrightarrow> n \<le> k"
  by (induction xs ch n rule: find_byte.induct) (auto split: if_splits)

lemma c_strchr_ge: "c_strchr b p ch = Some (Ptr k) \<Longrightarrow> p \<le> k"
  by (auto simp: c_strchr_def split: if_splits dest: find_byte_ge)

lemma nextArgument_progress:
  assumes "nextArgument b p = Some (Some (p', q, len))"
  shows "0 \<le> p \<and> p < int (length b) \<and> p < p'"
proof -
  obtain c where c: "byte_at b p = Some c" using assms by (auto simp: nextArgument_def bind_eq_Some_conv)
  obtain y where y: "(if c \<noteq> CHR ''$'' then c_strchr b p (CHR ''$'') else Some (Ptr p)) = Some y"
    using assms c by (cases "if c \<noteq> CHR ''$'' then c_strchr b p (CHR ''$'') else Some (Ptr p)")
      (simp_all add: nextArgument_def)
  obtain p1 where p1: "y = Ptr p1" using assms c y by (cases y) (simp_all add: nextArgument_def)
  have le: "p \<le> p1" using y p1 by (auto split: if_splits dest: c_strchr_ge)
  obtain n where n: "c_strtol (drop (nat (p1 + 1)) b) = Some n"
    using assms c y p1 by (cases "c_strtol (drop (nat (p1 + 1)) b)") (simp_all add: nextArgument_def)
  obtain q' where q': "c_strchr b p1 CR = Some q'"
    using assms c y p1 n by (cases "c_strchr b p1 CR") (simp_all add: nextArgument_def)
  then obtain k where k: "c_strchr b p1 CR = Some (Ptr k)" "p' = k + 2 + to_size (to_int n) + 2"
    using assms c y p1 n by (cases q') (auto simp: nextArgument_def Let_def)
  have "0 \<le> p \<and> p < int (length b)" using c by (auto simp: byte_at_def split: if_splits)
  moreover have "p < p'" using le c_strchr_ge [OF k(1)] k(2) to_size_range(1) [of "to_int n"] by linarith
  ultimately show ?thesis by blast
qed

text \<open>The loop that registers the callback for every channel or pattern.\<close>

function subscribe_loop :: "cenv \<Rightarrow> redisCallback \<Rightarrow> bytes \<Rightarrow> int \<Rightarrow> callback_dict \<Rightarrow> callback_dict option" where
  "subscribe_loop e cb b p d = (case nextArgument b p of
      None \<Rightarrow> None
    | Some None \<Rightarrow> Some d
    | Some (Some (p', astr, alen)) \<Rightarrow> (case make_key e (drop (nat astr) b) alen of
        None \<Rightarrow> None
      | Some sname \<Rightarrow> (case dictReplace e d sname cb of
          None \<Rightarrow> None
        | Some (ret, d', fs) \<Rightarrow> subscribe_loop e cb b p' d')))"
  by pat_completeness auto
termination
  by (relation "measure (\<lambda>(e, cb, b, p, d). nat (int (length b) - p))") (auto dest: nextArgument_progress)

declare subscribe_loop.simps [simp del]

definition redisAsyncCommand0 :: "('o, 'm) os_scheme \<Rightarrow> 'o astate \<Rightarrow> int \<Rightarrow> int \<Rightarrow> bytes \<Rightarrow> int \<Rightarrow> (int \<times> 'o astate) option" where
  "redisAsyncCommand0 sys st fn privdata cmd len = do {
     a \<leftarrow> alive st;
     if has_flag (ac_c a) (REDIS_DISCONNECTING OR REDIS_FREEING) then Some (REDIS_ERR, st)
     else do {
       let e = h_env (a_heap st);
       let cb = \<lparr>cb_next = 0, cb_fn = fn, cb_privdata = privdata\<rparr>;
       arg \<leftarrow> nextArgument cmd 0;
       (p, cs, clen) \<leftarrow> arg;
       c0 \<leftarrow> byte_at cmd p;
       let hasnext = (c0 = CHR ''$'');
       c1 \<leftarrow> byte_at cmd cs;
       let pvariant = (c_tolower c1 = CHR ''p'');
       let name = drop (nat (cs + (if pvariant then 1 else 0))) cmd;
       sub \<leftarrow> (if hasnext then strncasecmp_eq name (''subscribe'' @ crlf) else Some False);
       res \<leftarrow> (if sub
         then do {
           d \<leftarrow> subscribe_loop e cb cmd p (sub_table pvariant a);
           let st1 = upd_c (set_flag REDIS_SUBSCRIBED) st;
           Some (Inr (st1\<lparr>ac := set_table pvariant d (ac st1)\<rparr>)) }
         else do {
           unsub \<leftarrow> strncasecmp_eq name (''unsubscribe'' @ crlf);
           if unsub
           then Some (if \<not> has_flag (ac_c a) REDIS_SUBSCRIBED then Inl () else Inr st)
           else do {
             mon \<leftarrow> strncasecmp_eq name (''monitor'' @ crlf);
             if mon
             then do { (rc, st1) \<leftarrow> push_cb True cb (upd_c (set_flag REDIS_MONITORING) st); Some (Inr st1) }
             else do { (rc, st1) \<leftarrow> push_cb (\<not> has_flag (ac_c a) REDIS_SUBSCRIBED) cb st; Some (Inr st1) } } });
       (case res of
          Inl _ \<Rightarrow> Some (REDIS_ERR, st)
        | Inr st1 \<Rightarrow> do {
            (rc, c) \<leftarrow> redisAppendCommand0 e sys (ac_c (ac st1)) (a_os st1) cmd len;
            Some (REDIS_OK, EL_ADD_WRITE (upd_c (\<lambda>_. c) st1)) }) } }"

definition redisvAsyncCommand :: "printf_text \<Rightarrow> ('o, 'm) os_scheme \<Rightarrow> 'o astate \<Rightarrow> int \<Rightarrow> int \<Rightarrow> bytes \<Rightarrow> cmd_arg list \<Rightarrow> (int \<times> 'o astate) option" where
  "redisvAsyncCommand pf sys st fn privdata format ap = do {
     (len, cmd) \<leftarrow> redisvFormatCommand (h_env (a_heap st)) pf format ap;
     if len < 0 then Some (REDIS_ERR, st)
     else (case cmd of NULL \<Rightarrow> None | Ptr b \<Rightarrow> redisAsyncCommand0 sys st fn privdata b len)
   }"

definition redisAsyncCommand :: "printf_text \<Rightarrow> ('o, 'm) os_scheme \<Rightarrow> 'o astate \<Rightarrow> int \<Rightarrow> int \<Rightarrow> bytes \<Rightarrow> cmd_arg list \<Rightarrow> (int \<times> 'o astate) option" where
  "redisAsyncCommand pf sys st fn privdata format ap = redisvAsyncCommand pf sys st fn privdata format ap"

text \<open>The status of the formatter is not looked at; the pointer \<open>cmd\<close> is undefined when it failed.\<close>

definition redisAsyncCommandArgv :: "('o, 'm) os_scheme \<Rightarrow> 'o astate \<Rightarrow> int \<Rightarrow> int \<Rightarrow> int \<Rightarrow> bytes list \<Rightarrow> int list ptr \<Rightarrow> (int \<times> 'o astate) option" where
  "redisAsyncCommandArgv sys st fn privdata argc argv argvlen = do {
     (len, cmd) \<leftarrow> redisFormatSdsCommandArgv (h_env (a_heap st)) argc argv argvlen;
     (case cmd of NULL \<Rightarrow> None | Ptr b \<Rightarrow> redisAsyncCommand0 sys st fn privdata (sh_buf b) (to_size len))
   }"

definition redisAsyncFormattedCommand :: "('o, 'm) os_scheme \<Rightarrow> 'o astate \<Rightarrow> int \<Rightarrow> int \<Rightarrow> bytes \<Rightarrow> int \<Rightarrow> (int \<times> 'o astate) option" where
  "redisAsyncFormattedCommand sys st fn privdata cmd len = redisAsyncCommand0 sys st fn privdata cmd len"

end
