(* ===== verification/Net_Correct.thy ===== *)
theory Net_Correct
  imports Net Sds_Correct
begin

text \<open>
  What a call that connects leaves behind: every helper either succeeds and leaves the context as it
  is or reports an error and records it; connecting always ends, and its status, the error field,
  the flag and the descriptor agree.
\<close>

section \<open>Helpers\<close>

text \<open>Only the error, its text and the descriptor may differ.\<close>

definition kept :: "redisContext \<Rightarrow> redisContext \<Rightarrow> bool" where
  "kept c c' \<longleftrightarrow> length (c_errstr c') = 128 \<and>
     c'\<lparr>c_err := 0, c_errstr := [], c_fd := 0\<rparr> = c\<lparr>c_err := 0, c_errstr := [], c_fd := 0\<rparr>"

definition settles :: "redisContext \<Rightarrow> (int \<times> redisContext \<times> 'o) option \<Rightarrow> bool" where
  "settles c res \<longleftrightarrow> (\<exists>rc c' s'. res = Some (rc, c', s') \<and> kept c c' \<and> (rc = REDIS_OK \<and> c' = c \<or> rc = REDIS_ERR \<and> c_err c' \<noteq> 0))"

lemma kept_refl [simp]: "length (c_errstr c) = 128 \<Longrightarrow> kept c c"
  by (simp add: kept_def)

lemma kept_trans: "kept c c1 \<Longrightarrow> kept c1 c2 \<Longrightarrow> kept c c2"
  by (simp add: kept_def)

lemma kept_fd [simp]: "kept c (c'\<lparr>c_fd := fd\<rparr>) \<longleftrightarrow> kept c c'" "kept (c\<lparr>c_fd := fd\<rparr>) c' \<longleftrightarrow> kept c c'"
  by (auto simp: kept_def)

lemma kept_simps:
  assumes "kept c c'"
  shows "c_flags c' = c_flags c" "c_obuf c' = c_obuf c" "c_reader c' = c_reader c" "length (c_errstr c') = 128"
    "c_timeout c' = c_timeout c" "c_host c' = c_host c" "c_source_addr c' = c_source_addr c" "c_port c' = c_port c"
    "c_path c' = c_path c" "c_connection_type c' = c_connection_type c"
  using assms by (cases c, cases c', simp add: kept_def)+

lemma with_error_kept: "with_error c ty c' \<Longrightarrow> kept c c'"
  by (auto simp: with_error_def kept_def)

definition prefix_ok :: "bytes ptr \<Rightarrow> bool" where
  "prefix_ok p \<longleftrightarrow> (case p of NULL \<Rightarrow> True | Ptr t \<Rightarrow> NUL \<notin> set t \<and> length t < 100)"

lemma prefix_simps [simp]: "prefix_ok NULL" "prefix_ok (Ptr t) \<longleftrightarrow> NUL \<notin> set t \<and> length t < 100"
  by (simp_all add: prefix_ok_def)

text \<open>The text of such an error is the prefix and what the system says about \<open>errno\<close>.\<close>

lemma redisSetErrorFromErrno_ok:
  assumes "length (c_errstr c) = 128" "prefix_ok p"
  shows "\<exists>c'. redisSetErrorFromErrno sys c s ty p = Some c' \<and> with_error c ty c' \<and> errtext (c_errstr c') =
    take 127 ((case p of NULL \<Rightarrow> [] | Ptr t \<Rightarrow> t @ '': '') @ errtext (os_strerror sys (os_errno sys s)))"
proof -
  define pre where "pre = (case p of NULL \<Rightarrow> [] | Ptr t \<Rightarrow> t @ '': '')"
  let ?n = "int (length pre)"
  have pre: "NUL \<notin> set pre" "length pre < 102" using assms(2) by (auto simp: pre_def split: ptr.splits)
  obtain b where b: "length b = 128" "take (length pre) b = pre"
    and step: "redisSetErrorFromErrno sys c s ty p = do {
      b2 \<leftarrow> redis_strerror_r sys (os_errno sys s) b ?n (128 - ?n); redisSetError sys c s ty (Ptr b2) }"
  proof (cases p)
    case NULL
    then show thesis by (intro that [of "zeros 128"]) (simp_all add: redisSetErrorFromErrno_def pre_def)
  next
    case (Ptr t)
    then have t: "c_snprintf 128 (t @ '': '') = pre @ [NUL]" using pre(2) by (simp add: c_snprintf_def cstr_def pre_def)
    let ?b = "(pre @ [NUL]) @ drop (length (pre @ [NUL])) (zeros 128)"
    have "mem_write (zeros 128) 0 (c_snprintf 128 (t @ '': '')) = Some ?b" using pre(2) t by (simp add: mem_write_def)
    moreover have "int (length (t @ '': '')) = ?n" using Ptr by (simp add: pre_def)
    moreover have "to_size (128 - ?n) = 128 - ?n" using pre(2) by simp
    ultimately show thesis using Ptr pre(2) by (intro that [of ?b]) (simp_all add: redisSetErrorFromErrno_def)
  qed
  obtain es where es: "redis_strerror_r sys (os_errno sys s) b ?n (128 - ?n) = Some es" "length es = 128" "NUL \<in> set es"
    "errtext es = pre @ take (nat (127 - ?n)) (errtext (os_strerror sys (os_errno sys s)))"
    using redis_strerror_r_ok [of b ?n sys "os_errno sys s"] b pre by auto
  obtain c' where "redisSetError sys c s ty (Ptr es) = Some c'" "with_error c ty c'" "errtext (c_errstr c') = take 127 (errtext es)"
    using redisSetError_text [OF assms(1) es(3), of sys s ty] by blast
  moreover have "take 127 (errtext es) = take 127 (pre @ errtext (os_strerror sys (os_errno sys s)))"
    using pre(2) by (simp add: es(4) nat_diff_distrib')
  ultimately show ?thesis using step es(1) by (auto simp: pre_def)
qed

lemma fail_close_ok:
  assumes "length (c_errstr c) = 128" "prefix_ok p"
  shows "\<exists>c' s'. fail_close sys c s p = Some (REDIS_ERR, c', s') \<and> kept c c' \<and> c_err c' = REDIS_ERR_IO \<and> c_fd c' < 0"
proof -
  obtain c1 where c1: "redisSetErrorFromErrno sys c s 1 p = Some c1" "with_error c 1 c1"
    using redisSetErrorFromErrno_ok [OF assms, of sys s 1] by blast
  have k: "kept c c1" "length (c_errstr c1) = 128" "c_err c1 = 1" using with_error_kept [OF c1(2)] with_error_simps [OF c1(2)] by simp_all
  show ?thesis
  proof (cases "0 \<le> c_fd c1")
    case True
    then show ?thesis using c1(1) k by (simp add: fail_close_def redisContextCloseFd_def)
  next
    case False
    then show ?thesis using c1(1) k by (simp add: fail_close_def redisContextCloseFd_def)
  qed
qed

lemma fail_close_settles: "length (c_errstr c) = 128 \<Longrightarrow> prefix_ok p \<Longrightarrow> settles c (fail_close sys c s p)"
  using fail_close_ok [of c p sys s] by (auto simp: settles_def)

lemma errno_settles:
  assumes "length (c_errstr c) = 128" "prefix_ok p" "ty \<noteq> 0"
  shows "settles c (do { c1 \<leftarrow> redisSetErrorFromErrno sys c s ty p; Some (REDIS_ERR, c1, s') })"
  using redisSetErrorFromErrno_ok [OF assms(1,2), of sys s ty] assms(3)
  by (auto simp: settles_def intro: with_error_kept dest: with_error_simps(1))

lemma error_settles:
  assumes "length (c_errstr c) = 128" "NUL \<in> set t" "ty \<noteq> 0"
  shows "settles c (do { c1 \<leftarrow> redisSetError sys c s ty (Ptr t); Some (REDIS_ERR, c1, s') })"
  using redisSetError_text [OF assms(1,2), of sys s ty] assms(3)
  by (auto simp: settles_def intro: with_error_kept dest: with_error_simps(1))

lemma ok_settles: "length (c_errstr c) = 128 \<Longrightarrow> settles c (Some (REDIS_OK, c, s))"
  by (simp add: settles_def)

lemmas settles_intros = fail_close_settles errno_settles error_settles ok_settles

lemma settles_steps:
  assumes "length (c_errstr c) = 128"
  shows "settles c (redisSetReuseAddr sys c s)" "settles c (redisSetBlocking sys c s b)" "settles c (redisSetTcpNoDelay sys c s)"
    "settles c (redisCheckSocketError sys c s)" "settles c (redisContextSetTimeout sys c s tv)" "settles c (keep_opt sys c s opt)"
  using assms
  by (auto simp: redisSetReuseAddr_def redisSetBlocking_def redisSetTcpNoDelay_def redisCheckSocketError_def
      redisContextSetTimeout_def keep_opt_def Let_def cstr_def split: prod.split intro!: settles_intros)

lemma settlesE:
  assumes "settles c res"
  obtains (ok) s' where "res = Some (REDIS_OK, c, s')" | (err) c' s' where "res = Some (REDIS_ERR, c', s')" "kept c c'" "c_err c' \<noteq> 0"
  using assms by (auto simp: settles_def)

lemma settles_err: "kept c c' \<Longrightarrow> c_err c' \<noteq> 0 \<Longrightarrow> settles c (Some (REDIS_ERR, c', s'))"
  by (simp add: settles_def)

lemma wait_settles:
  assumes "length (c_errstr c) = 128"
  shows "settles c (redisContextWaitReady sys c s timeout)"
proof -
  have "settles c (do { (rc, c1, s2) \<leftarrow> redisCheckSocketError sys c s1;
      if rc \<noteq> 0 then Some (REDIS_ERR, c1, s2) else Some (REDIS_OK, c1, s2) })" for s1
    by (rule settlesE [OF settles_steps(4) [OF assms, of sys s1]]) (auto simp: assms intro: ok_settles settles_err)
  then show ?thesis
    using assms by (auto simp: redisContextWaitReady_def split: option.split prod.split intro!: settles_intros)
qed

lemma keep_opts_settles: "length (c_errstr c) = 128 \<Longrightarrow> settles c (keep_opts sys opts c s)"
proof (induction opts arbitrary: s)
  case (Cons opt opts)
  show ?case
    by (rule settlesE [OF settles_steps(6) [OF Cons.prems, of sys s opt]]) (auto simp: Cons intro: settles_err)
qed (auto intro: ok_settles)

section \<open>Attempts\<close>

text \<open>The documented result of \<open>socket\<close>: a descriptor, or -1.\<close>

definition sockets_ok :: "('o, 'm) os_scheme \<Rightarrow> bool" where
  "sockets_ok sys \<longleftrightarrow> (\<forall>f s. - 1 \<le> fst (os_socket sys f s))"

definition attempt_ok :: "bool \<Rightarrow> redisContext \<Rightarrow> (attempt \<times> redisContext \<times> 'o) option \<Rightarrow> bool" where
  "attempt_ok reuseaddr c res \<longleftrightarrow> (\<exists>a c' s'. res = Some (a, c', s') \<and> (case a of
      Connected \<Rightarrow> (\<exists>fd \<ge> 0. c' = set_flag REDIS_CONNECTED (c\<lparr>c_fd := fd\<rparr>))
    | NextAddr \<Rightarrow> (\<exists>fd. c' = c\<lparr>c_fd := fd\<rparr>)
    | RetryAddr \<Rightarrow> reuseaddr \<and> (\<exists>fd. c' = c\<lparr>c_fd := fd\<rparr>)
    | Failed \<Rightarrow> kept c c' \<and> (c_err c' \<noteq> 0 \<or> reuseaddr)))"

lemma attempt_simps [simp]:
  "attempt_ok ra c (Some (Failed, c', s')) \<longleftrightarrow> kept c c' \<and> (c_err c' \<noteq> 0 \<or> ra)"
  "attempt_ok ra c (Some (RetryAddr, c', s')) \<longleftrightarrow> ra \<and> (\<exists>fd. c' = c\<lparr>c_fd := fd\<rparr>)"
  "attempt_ok ra c (Some (NextAddr, c', s')) \<longleftrightarrow> (\<exists>fd. c' = c\<lparr>c_fd := fd\<rparr>)"
  "attempt_ok ra c (Some (Connected, c', s')) \<longleftrightarrow> (\<exists>fd \<ge> 0. c' = set_flag REDIS_CONNECTED (c\<lparr>c_fd := fd\<rparr>))"
  by (simp_all add: attempt_ok_def)

lemma tcp_finish_ok:
  assumes "length (c_errstr c) = 128" "0 \<le> c_fd c"
  shows "attempt_ok ra c (tcp_finish sys blocking c s)"
proof -
  have fin: "attempt_ok ra c (do { (rc2, c2, s2) \<leftarrow> redisSetTcpNoDelay sys c s1;
      if rc2 \<noteq> 0 then Some (Failed, c2, s2) else Some (Connected, set_flag 2 c2, s2) })" for s1
    by (rule settlesE [OF settles_steps(3) [OF assms(1), of sys s1]]) (use assms(2) in \<open>auto intro!: exI [of _ "c_fd c"]\<close>)
  show ?thesis
  proof (cases blocking)
    case True
    show ?thesis
      by (rule settlesE [OF settles_steps(2) [OF assms(1), of sys s True]]) (simp_all add: tcp_finish_def True fin)
  next
    case False
    then show ?thesis using fin by (simp add: tcp_finish_def)
  qed
qed

lemma tcp_connect_ok:
  assumes "length (c_errstr c) = 128" "0 \<le> c_fd c"
  shows "attempt_ok ra c (tcp_connect sys blocking ra p c s)"
proof -
  have wait: "attempt_ok ra c (do { (rc, c1, s2) \<leftarrow> redisContextWaitReady sys c s1 t;
      if rc \<noteq> 0 then Some (Failed, c1, s2) else tcp_finish sys blocking c1 s2 })" for s1 t
    by (rule settlesE [OF wait_settles [OF assms(1), of sys s1 t]]) (auto simp: tcp_finish_ok [OF assms])
  have close: "attempt_ok ra c (Some (NextAddr, redisContextCloseFd sys c s1))" for s1
    by (auto simp: redisContextCloseFd_def intro: exI [of _ "c_fd c"])
  show ?thesis
    by (auto simp: tcp_connect_def tcp_finish_ok [OF assms] wait close split: prod.split intro!: exI [of _ "c_fd c"])
qed

text \<open>Binding either leaves the context alone or gives up, with an error unless the address is to be reused.\<close>

lemma bind_source_ok:
  assumes "length (c_errstr c) = 128"
  shows "\<exists>ok c' s'. bind_source sys family ra c s = Some (ok, c', s') \<and> kept c c' \<and> (ok \<and> c' = c \<or> \<not> ok \<and> (c_err c' \<noteq> 0 \<or> ra))"
proof -
  have err: "\<exists>ok c' s'. do { c1 \<leftarrow> redisSetError sys c s1 2 (Ptr (c_snprintf 128 t)); Some (False, c1, s1) } = Some (ok, c', s') \<and>
      kept c c' \<and> (ok \<and> c' = c \<or> \<not> ok \<and> (c_err c' \<noteq> 0 \<or> ra))" for s1 t
    using redisSetError_text [OF assms c_snprintf_errtext(2), of 128 sys s1 2 t] with_error_kept with_error_simps(1) by fastforce
  show ?thesis
    using assms err by (auto simp: bind_source_def split: ptr.split prod.split)
qed

lemma tcp_attempt_ok:
  assumes "length (c_errstr c) = 128" "sockets_ok sys"
  shows "attempt_ok ra c (tcp_attempt sys family blocking ra p c s)"
proof -
  obtain fd s1 where so: "os_socket sys (ai_family p) s = (fd, s1)" by (cases "os_socket sys (ai_family p) s")
  show ?thesis
  proof (cases "fd = - 1")
    case True
    then show ?thesis using so by (auto simp: tcp_attempt_def intro!: exI [of _ "c_fd c"])
  next
    case False
    let ?c = "c\<lparr>c_fd := fd\<rparr>"
    have "- 1 \<le> fst (os_socket sys (ai_family p) s)" using assms(2) by (simp add: sockets_ok_def)
    then have c: "length (c_errstr ?c) = 128" "0 \<le> c_fd ?c" using False so assms(1) by simp_all
    have ok: "attempt_ok ra c res" if "attempt_ok ra ?c res" for res
      using that by (auto simp: attempt_ok_def split: attempt.splits)
    have "attempt_ok ra ?c (do { (rc, c1, s2) \<leftarrow> redisSetBlocking sys ?c s1 False;
        if rc \<noteq> 0 then Some (Failed, c1, s2)
        else do { (ok, c2, s3) \<leftarrow> bind_source sys family ra c1 s2;
          if \<not> ok then Some (Failed, c2, s3) else tcp_connect sys blocking ra p c2 s3 } })"
    proof (rule settlesE [OF settles_steps(2) [OF c(1), of sys s1 False]])
      fix s2
      assume "redisSetBlocking sys ?c s1 False = Some (0, ?c, s2)"
      then show ?thesis using bind_source_ok [OF c(1), of sys family ra s2] tcp_connect_ok [OF c, of ra sys blocking p] by auto
    qed auto
    then show ?thesis using False so by (auto simp: tcp_attempt_def intro: ok)
  qed
qed

section \<open>Connecting\<close>

text \<open>What a call that connects promises.\<close>

definition connect_ok :: "bool \<Rightarrow> redisContext \<Rightarrow> (int \<times> redisContext \<times> 'o) option \<Rightarrow> bool" where
  "connect_ok ra c res \<longleftrightarrow> (\<exists>rc c' s'. res = Some (rc, c', s') \<and>
     (rc = REDIS_OK \<and> (\<exists>fd \<ge> 0. c' = set_flag REDIS_CONNECTED (c\<lparr>c_fd := fd\<rparr>)) \<or>
      rc = REDIS_ERR \<and> kept c c' \<and> (c_err c' \<noteq> 0 \<or> ra)))"

lemma connect_simps [simp]:
  "connect_ok ra c (Some (REDIS_ERR, c', s')) \<longleftrightarrow> kept c c' \<and> (c_err c' \<noteq> 0 \<or> ra)"
  "connect_ok ra c (Some (REDIS_OK, c', s')) \<longleftrightarrow> (\<exists>fd \<ge> 0. c' = set_flag REDIS_CONNECTED (c\<lparr>c_fd := fd\<rparr>))"
  by (auto simp: connect_ok_def)

lemma connect_okD:
  assumes "connect_ok ra c res" "length (c_errstr c) = 128"
  shows "\<exists>rc c' s'. res = Some (rc, c', s') \<and>
    (rc = REDIS_OK \<and> has_flag c' REDIS_CONNECTED \<and> 0 \<le> c_fd c' \<and> c_err c' = c_err c \<or> rc = REDIS_ERR \<and> (c_err c' \<noteq> 0 \<or> ra)) \<and>
    c_obuf c' = c_obuf c \<and> c_reader c' = c_reader c \<and> has_flag c' REDIS_BLOCK = has_flag c REDIS_BLOCK \<and>
    c_connection_type c' = c_connection_type c \<and> c_port c' = c_port c \<and> c_host c' = c_host c \<and>
    c_source_addr c' = c_source_addr c \<and> c_path c' = c_path c \<and> c_timeout c' = c_timeout c \<and> length (c_errstr c') = 128"
proof -
  consider c' s' fd where "res = Some (REDIS_OK, c', s')" "0 \<le> fd" "c' = set_flag REDIS_CONNECTED (c\<lparr>c_fd := fd\<rparr>)"
    | c' s' where "res = Some (REDIS_ERR, c', s')" "kept c c'" "c_err c' \<noteq> 0 \<or> ra"
    using assms(1) by (auto simp: connect_ok_def)
  then show ?thesis
  proof cases
    case (2 c' s')
    then show ?thesis using kept_simps [OF 2(2)] by (simp add: has_flag_def)
  qed (use assms(2) in \<open>simp add: flag_simps\<close>)
qed

lemma connect_ok_fd: "connect_ok ra (c\<lparr>c_fd := fd\<rparr>) res \<Longrightarrow> connect_ok ra c res"
  by (auto simp: connect_ok_def)

lemma tcp_loop_ok:
  assumes "length (c_errstr c) = 128" "sockets_ok sys"
  shows "connect_ok ra c (tcp_loop sys family blocking ra ps n c s)"
  using assms
proof (induction sys family blocking ra ps n c s rule: tcp_loop.induct)
  case (1 sys family blocking ra n c s)
  let ?t = "c_snprintf 128 (''Can't create socket: '' @ os_strerror sys (os_errno sys s))"
  have "NUL \<in> set ?t" by (rule c_snprintf_errtext(2)) simp
  then obtain c' where "redisSetError sys c s 2 (Ptr ?t) = Some c'" "with_error c 2 c'"
    using redisSetError_text [OF 1(1), of ?t sys s 2] by blast
  then show ?case using with_error_kept with_error_simps(1) by (simp del: append.simps)
next
  case (2 sys family blocking ra p ps n c s)
  obtain a c1 s1 where at: "tcp_attempt sys family blocking ra p c s = Some (a, c1, s1)"
    and ok: "attempt_ok ra c (Some (a, c1, s1))"
    using tcp_attempt_ok [OF 2(3,4), of ra family blocking p s] by (auto simp: attempt_ok_def)
  show ?case
  proof (cases a)
    case Connected
    then show ?thesis using at ok by simp
  next
    case NextAddr
    then obtain fd where "c1 = c\<lparr>c_fd := fd\<rparr>" using ok by auto
    then show ?thesis using 2(1) [OF at refl NextAddr refl _ "2.prems"(2)] at NextAddr "2.prems"(1) by (auto intro: connect_ok_fd)
  next
    case RetryAddr
    then obtain fd where fd: "c1 = c\<lparr>c_fd := fd\<rparr>" "ra" using ok by auto
    show ?thesis
    proof (cases "n + 1 \<ge> 10")
      case True
      then show ?thesis using at RetryAddr fd "2.prems"(1) by simp
    next
      case False
      then show ?thesis using 2(2) [OF at refl RetryAddr refl False _ "2.prems"(2)] at RetryAddr fd "2.prems"(1) by (auto intro: connect_ok_fd)
    qed
  next
    case Failed
    then show ?thesis using at ok by simp
  qed
qed

text \<open>The parameters that a connection stores.\<close>

lemma c_strdup_ok: "\<exists>p. c_strdup e (cstr t) = Some p"
  by (simp add: c_strdup_def c_strlen_def cstr_def)

lemma c_strdup_plenty: "plenty e \<Longrightarrow> NUL \<notin> set t \<Longrightarrow> c_strdup e (cstr t) = Some (Ptr (cstr t))"
  by (simp add: c_strdup_def plenty_def) (simp add: cstr_def)

text \<open>An argument that is stored already or a terminated string.\<close>

fun text_arg :: "bytes borrowed \<Rightarrow> bool" where
  "text_arg Stored = True"
| "text_arg (Passed t) \<longleftrightarrow> NUL \<in> set t"

lemma strdup_arg: "NUL \<in> set t \<Longrightarrow> \<exists>p. c_strdup e t = Some p"
  by (simp add: c_strdup_def c_strlen_def)

lemma keep_host_ok: "text_arg addr \<Longrightarrow> \<exists>h. keep_host e c addr = Some (c\<lparr>c_host := h\<rparr>)"
proof (cases addr)
  case Stored
  then show ?thesis by (intro exI [of _ "c_host c"]) (simp add: keep_host_def)
qed (auto simp: keep_host_def dest!: strdup_arg [of _ e])

lemma keep_timeout_ok: "granted e 16 \<Longrightarrow> \<exists>t. keep_timeout e c timeout = Some (c\<lparr>c_timeout := t\<rparr>)"
proof (cases "timeout = Ptr Stored")
  case True
  then show ?thesis by (intro exI [of _ "c_timeout c"]) (simp add: keep_timeout_def)
qed (cases timeout, auto simp: keep_timeout_def split: borrowed.split)

lemma keep_source_ok:
  assumes "\<And>a. source = Ptr a \<Longrightarrow> text_arg a"
  shows "\<exists>h. keep_source e c source = Some (c\<lparr>c_source_addr := h\<rparr>)"
proof (cases "source = Ptr Stored")
  case True
  then show ?thesis by (intro exI [of _ "c_source_addr c"]) (simp add: keep_source_def)
next
  case False
  show ?thesis
  proof (cases source)
    case (Ptr a)
    with False obtain t where "a = Passed t" by (cases a) auto
    then show ?thesis using assms [OF Ptr] Ptr strdup_arg [of t e] by (auto simp: keep_source_def)
  qed (auto simp: keep_source_def)
qed

lemma resolve_ok:
  assumes "length (c_errstr c) = 128"
  shows "\<exists>r. resolve sys c s addr port = Some r \<and> (\<forall>c' s'. r = Inl (c', s') \<longrightarrow> with_error c 2 c')"
proof -
  have "\<exists>r. do { c1 \<leftarrow> redisSetError sys c s2 2 (Ptr (cstr t)); Some (Inl (c1, s2)) } = Some r \<and>
      (\<forall>c' s'. r = Inl (c', s') \<longrightarrow> with_error c 2 c')" for s2 t
    using redisSetError_text [OF assms, of "cstr t" sys s2 2] by (auto simp: cstr_def)
  then show ?thesis by (auto simp: resolve_def Let_def split: prod.split)
qed

lemma connect_tcp_ok:
  assumes "length (c_errstr c) = 128" "sockets_ok sys" "granted e 16" "text_arg addr" "\<And>a. source = Ptr a \<Longrightarrow> text_arg a"
    "c0 = c\<lparr>c_connection_type := REDIS_CONN_TCP, c_port := port\<rparr>"
  shows "\<exists>h t a. keep_host e c0 addr = Some (c0\<lparr>c_host := h\<rparr>) \<and>
    keep_timeout e (c0\<lparr>c_host := h\<rparr>) timeout = Some (c0\<lparr>c_host := h, c_timeout := t\<rparr>) \<and>
    keep_source e (c0\<lparr>c_host := h, c_timeout := t\<rparr>) source = Some (c0\<lparr>c_host := h, c_timeout := t, c_source_addr := a\<rparr>) \<and>
    connect_ok (has_flag c REDIS_REUSEADDR) (c0\<lparr>c_host := h, c_timeout := t, c_source_addr := a\<rparr>)
      (redisContextConnectBindTcp e sys c s addr port timeout source)"
proof -
  obtain h1 t2 a3 where keep: "keep_host e c0 addr = Some (c0\<lparr>c_host := h1\<rparr>)"
    "keep_timeout e (c0\<lparr>c_host := h1\<rparr>) timeout = Some (c0\<lparr>c_host := h1, c_timeout := t2\<rparr>)"
    "keep_source e (c0\<lparr>c_host := h1, c_timeout := t2\<rparr>) source = Some (c0\<lparr>c_host := h1, c_timeout := t2, c_source_addr := a3\<rparr>)"
    using keep_host_ok [OF assms(4), of e c0] keep_timeout_ok [OF assms(3)] keep_source_ok [OF assms(5)] by metis
  define c3 where "c3 = c0\<lparr>c_host := h1, c_timeout := t2, c_source_addr := a3\<rparr>"
  let ?addr = "case addr of Stored \<Rightarrow> c_host c3 | Passed a \<Rightarrow> Ptr a"
  have len: "length (c_errstr c3) = 128" using assms(1) by (simp add: c3_def assms(6))
  obtain r where r: "resolve sys c3 s ?addr port = Some r" "\<forall>c4 s1. r = Inl (c4, s1) \<longrightarrow> with_error c3 2 c4"
    using resolve_ok [OF len, of sys s ?addr port] by blast
  define res where "res = (case r of
        Inl (c4, s1) \<Rightarrow> Some (REDIS_ERR, c4, s1)
      | Inr (family, info, s1) \<Rightarrow> tcp_loop sys family (has_flag c 1) (has_flag c 128) info 0 c3 s1)"
  have "redisContextConnectBindTcp e sys c s addr port timeout source = res"
    using keep [folded c3_def] r(1) by (simp add: redisContextConnectBindTcp_def redisContextConnectTcp0_def res_def flip: assms(6))
  moreover have "connect_ok (has_flag c 128) c3 res"
    using r(2) tcp_loop_ok [OF len assms(2)] with_error_kept with_error_simps(1)
    by (auto simp: res_def split: sum.split)
  ultimately show ?thesis using keep unfolding c3_def by blast
qed


section \<open>A small operating system\<close>

text \<open>
  A model of the system calls for concrete runs: sockets are numbered from 3, \<open>connect\<close> fails with
  the given error number unless it is 0, what is written is recorded and what is read comes from a
  list of pieces.
\<close>

record net_state =
  n_errno :: int
  n_opened :: "int list"
  n_closed :: "int list"
  n_sent :: bytes
  n_incoming :: "bytes list"

definition demo_os :: "int \<Rightarrow> net_state os" where
  "demo_os err = \<lparr>os_errno = n_errno, os_set_errno = (\<lambda>i s. s\<lparr>n_errno := i\<rparr>),
     os_strerror = (\<lambda>i. ''error''), os_gai_strerror = (\<lambda>i. ''lookup''),
     os_read = (\<lambda>fd n s. case n_incoming s of [] \<Rightarrow> (0, [], s) | b # bs \<Rightarrow> (int (length b), b, s\<lparr>n_incoming := bs\<rparr>)),
     os_write = (\<lambda>fd b s. (int (length b), s\<lparr>n_sent := n_sent s @ b\<rparr>)),
     os_close = (\<lambda>fd s. s\<lparr>n_closed := n_closed s @ [fd]\<rparr>),
     os_socket = (\<lambda>f s. (3 + int (length (n_opened s)), s\<lparr>n_opened := n_opened s @ [3 + int (length (n_opened s))]\<rparr>)),
     os_setsockopt = (\<lambda>fd opt s. (0, s)), os_getsockerr = (\<lambda>fd s. (0, 0, s)),
     os_getfl = (\<lambda>fd s. (2, s)), os_setfl = (\<lambda>fd fl s. (0, s)),
     os_connect = (\<lambda>fd a s. if err = 0 then (0, s) else (- 1, s\<lparr>n_errno := err\<rparr>)),
     os_bind = (\<lambda>fd a s. (0, s)), os_poll = (\<lambda>fd ms s. (1, s)),
     os_getaddrinfo = (\<lambda>h p f s. (0, [\<lparr>ai_family = f, ai_addr = 1\<rparr>], s))\<rparr>"

definition demo_net :: net_state where
  "demo_net = \<lparr>n_errno = 0, n_opened = [], n_closed = [], n_sent = [], n_incoming = []\<rparr>"

definition demo_context :: "int \<Rightarrow> redisContext" where
  "demo_context flags = \<lparr>c_err = 0, c_errstr = zeros 128, c_fd = 0, c_flags = flags, c_obuf = NULL, c_reader = NULL,
     c_connection_type = REDIS_CONN_TCP, c_timeout = NULL, c_host = NULL, c_source_addr = NULL, c_port = 0, c_path = NULL\<rparr>"

lemma demo_sockets [simp]: "sockets_ok (demo_os err)"
  by (simp add: sockets_ok_def demo_os_def)


text \<open>
  With \<open>REDIS_REUSEADDR\<close> a failed connection can go unnoticed: when every attempt ends with
  \<open>EADDRNOTAVAIL\<close>, the tenth one is the last, the function returns \<open>REDIS_ERR\<close>, but the error field
  of the context is still 0, although the callers (\<open>redisConnectBindNonBlockWithReuse\<close> and the asynchronous
  functions) drop the return value and rely on that field. Ten sockets were opened and none was closed.
\<close>

theorem connect_reuse_silent:
  "\<exists>c' s'. redisContextConnectBindTcp demo_env (demo_os EADDRNOTAVAIL) (demo_context REDIS_REUSEADDR) demo_net
      (Passed (cstr ''db'')) 6379 NULL (Ptr (Passed (cstr ''src''))) = Some (REDIS_ERR, c', s') \<and>
    c_err c' = 0 \<and> \<not> has_flag c' REDIS_CONNECTED \<and> n_opened s' = [3..12] \<and> n_closed s' = []"
proof -
  let ?src = "Ptr (cstr ''src'')"
  have attempt: "tcp_attempt (demo_os 99) f False True p c s =
      Some (RetryAddr, c\<lparr>c_fd := 3 + int (length (n_opened s))\<rparr>,
        s\<lparr>n_opened := n_opened s @ [3 + int (length (n_opened s))], n_errno := 99\<rparr>)" if "c_source_addr c = ?src" for f p c s
    using that by (simp add: tcp_attempt_def redisSetBlocking_def bind_source_def tcp_connect_def demo_os_def)
  have loop: "tcp_loop (demo_os 99) f False True [p] 0 c demo_net =
      Some (- 1, c\<lparr>c_fd := 12\<rparr>, demo_net\<lparr>n_opened := [3, 4, 5, 6, 7, 8, 9, 10, 11, 12], n_errno := 99\<rparr>)" if "c_source_addr c = ?src" for f p c
    using that by (simp add: attempt demo_net_def)
  have info: "os_getaddrinfo (demo_os err) h p f s = (0, [\<lparr>ai_family = f, ai_addr = 1\<rparr>], s)" for err h p f s
    by (simp add: demo_os_def)
  have dup: "c_strdup demo_env (cstr t) = Some (Ptr (cstr t))" if "NUL \<notin> set t" for t
    using c_strdup_plenty [OF _ that, of demo_env] by simp
  have "redisContextConnectBindTcp demo_env (demo_os 99) (demo_context 128) demo_net (Passed (cstr ''db'')) 6379 NULL (Ptr (Passed (cstr ''src''))) =
      tcp_loop (demo_os 99) 2 False True [\<lparr>ai_family = 2, ai_addr = 1\<rparr>] 0
        ((demo_context 128)\<lparr>c_port := 6379, c_host := Ptr (cstr ''db''), c_source_addr := ?src\<rparr>) demo_net"
    by (simp add: redisContextConnectBindTcp_def redisContextConnectTcp0_def keep_host_def keep_timeout_def keep_source_def dup
        resolve_def demo_context_def has_flag_def info del: tcp_loop.simps)
  then show ?thesis
    using loop by (simp add: demo_context_def has_flag_def demo_net_def upto.simps)
qed

lemma connect_unix_ok:
  assumes "length (c_errstr c) = 128" "sockets_ok sys"
    "\<And>fd. keep_path e (c\<lparr>c_fd := fd, c_connection_type := REDIS_CONN_UNIX\<rparr>) path =
       Some (c\<lparr>c_fd := fd, c_connection_type := REDIS_CONN_UNIX, c_path := q\<rparr>)"
    "\<And>fd. keep_timeout e (c\<lparr>c_fd := fd, c_connection_type := REDIS_CONN_UNIX, c_path := q\<rparr>) timeout =
       Some (c\<lparr>c_fd := fd, c_connection_type := REDIS_CONN_UNIX, c_path := q, c_timeout := t\<rparr>)"
    "\<And>fd. local_address (c\<lparr>c_fd := fd, c_connection_type := REDIS_CONN_UNIX, c_path := q, c_timeout := t\<rparr>) path = Some sa"
  shows "connect_ok False (c\<lparr>c_connection_type := REDIS_CONN_UNIX, c_path := q, c_timeout := t\<rparr>) (redisContextConnectUnix e sys c s path timeout) \<or>
    (\<exists>c' s'. redisContextConnectUnix e sys c s path timeout = Some (REDIS_ERR, c', s') \<and> kept c c' \<and> c_err c' \<noteq> 0)"
proof -
  obtain fd s1 where so: "os_socket sys 1 s = (fd, s1)" by (cases "os_socket sys 1 s")
  show ?thesis
  proof (cases "fd = - 1")
    case True
    obtain c' where "redisSetErrorFromErrno sys c s1 1 NULL = Some c'" "with_error c 1 c'"
      using redisSetErrorFromErrno_ok [OF assms(1), of NULL sys s1 1] by auto
    then show ?thesis
      using True so with_error_kept with_error_simps(1)
      by (intro disjI2 exI [of _ c'] exI [of _ s1]) (auto simp: redisContextConnectUnix_def redisCreateSocket_def)
  next
    case False
    have "- 1 \<le> fst (os_socket sys 1 s)" using assms(2) by (simp add: sockets_ok_def)
    then have fd: "0 \<le> fd" using False so by simp
    define c1 where "c1 = c\<lparr>c_fd := fd\<rparr>"
    have start: "redisCreateSocket sys c s 1 = Some (0, c1, s1)" using False so by (simp add: redisCreateSocket_def c1_def)
    define c4 where "c4 = c\<lparr>c_fd := fd, c_connection_type := REDIS_CONN_UNIX, c_path := q, c_timeout := t\<rparr>"
    have len: "length (c_errstr c1) = 128" "length (c_errstr c4) = 128" using assms(1) by (simp_all add: c1_def c4_def)
    have fd4: "0 \<le> c_fd c4" using fd by (simp add: c4_def)
    let ?b = "has_flag c 1"
    define ready where "ready s2 = (case os_connect sys (c_fd c4) sa s2 of (r, s3) \<Rightarrow>
      if r = - 1 \<and> \<not> (os_errno sys s3 = 115 \<and> \<not> ?b) then redisContextWaitReady sys c4 s3 (c_timeout c4) else Some (0, c4, s3))" for s2
    define reset where "reset s4 = (if ?b then redisSetBlocking sys c4 s4 True else Some (0, c4, s4))" for s4
    have run: "redisContextConnectUnix e sys c s path timeout = do {
        (rc, c5, s4) \<leftarrow> ready s2;
        if rc \<noteq> 0 then Some (- 1, c5, s4)
        else do {
          (rc4, c6, s5) \<leftarrow> (if ?b then redisSetBlocking sys c5 s4 True else Some (0, c5, s4));
          if rc4 \<noteq> 0 then Some (- 1, c6, s5) else Some (0, set_flag 2 c6, s5) } }"
      if "redisSetBlocking sys c1 s1 False = Some (0, c1, s2)" for s2
      using start that assms(3-5) [of fd]
      by (simp add: redisContextConnectUnix_def ready_def c4_def c1_def split: prod.split)
    have w: "settles c4 (ready s2)" for s2
      by (auto simp: ready_def wait_settles [OF len(2)] ok_settles [OF len(2)] split: prod.split)
    have b: "settles c4 (reset s4)" for s4
      by (simp add: reset_def settles_steps(2) [OF len(2)] ok_settles [OF len(2)])
    have fin: "connect_ok False c4 (redisContextConnectUnix e sys c s path timeout)"
      if start: "redisSetBlocking sys c1 s1 False = Some (0, c1, s2)" for s2
    proof (rule settlesE [OF w [of s2]])
      fix s4
      assume "ready s2 = Some (0, c4, s4)"
      with run [OF start] have run: "redisContextConnectUnix e sys c s path timeout = do {
          (rc4, c6, s5) \<leftarrow> reset s4; if rc4 \<noteq> 0 then Some (- 1, c6, s5) else Some (0, set_flag 2 c6, s5) }"
        by (simp add: reset_def)
      show ?thesis
        by (rule settlesE [OF b [of s4]]) (use fd4 in \<open>auto simp: run intro!: exI [of _ "c_fd c4"]\<close>)
    qed (simp add: run [OF start])
    show ?thesis
    proof (rule settlesE [OF settles_steps(2) [OF len(1), of sys s1 False]])
      fix s2
      assume "redisSetBlocking sys c1 s1 False = Some (0, c1, s2)"
      then have "connect_ok False ((c\<lparr>c_connection_type := REDIS_CONN_UNIX, c_path := q, c_timeout := t\<rparr>)\<lparr>c_fd := fd\<rparr>)
          (redisContextConnectUnix e sys c s path timeout)"
        using fin [of s2] by (cases c) (simp add: c4_def)
      then show ?thesis using connect_ok_fd by blast
    next
      fix c' s'
      assume "redisSetBlocking sys c1 s1 False = Some (- 1, c', s')" "kept c1 c'" "c_err c' \<noteq> 0"
      then show ?thesis using start
        by (intro disjI2 exI [of _ c'] exI [of _ s']) (auto simp: redisContextConnectUnix_def c1_def)
    qed
  qed
qed

text \<open>
  Connecting to a local socket always returns: success means that the flag and the descriptor are
  set, no error was recorded and the path is stored for a reconnect; failure means that an error is recorded.
\<close>

theorem connect_unix_outcome:
  assumes "length (c_errstr c) = 128" "sockets_ok sys" "plenty e" "NUL \<notin> set path"
  shows "\<exists>rc c' s'. redisContextConnectUnix e sys c s (Passed (cstr path)) timeout = Some (rc, c', s') \<and>
    (rc = REDIS_OK \<and> has_flag c' REDIS_CONNECTED \<and> 0 \<le> c_fd c' \<and> c_err c' = c_err c \<and>
      c_path c' = Ptr (cstr path) \<and> c_connection_type c' = REDIS_CONN_UNIX \<or>
     rc = REDIS_ERR \<and> c_err c' \<noteq> 0) \<and>
    c_obuf c' = c_obuf c \<and> c_reader c' = c_reader c \<and> has_flag c' REDIS_BLOCK = has_flag c REDIS_BLOCK"
proof -
  let ?q = "Ptr (cstr path)"
  have path: "keep_path e c' (Passed (cstr path)) = Some (c'\<lparr>c_path := ?q\<rparr>)" for c'
    by (simp add: keep_path_def c_strdup_plenty [OF assms(3,4)])
  define t where "t = (case timeout of NULL \<Rightarrow> NULL | Ptr Stored \<Rightarrow> c_timeout c | Ptr (Passed tv) \<Rightarrow> Ptr tv)"
  have t: "keep_timeout e c' timeout = Some (c'\<lparr>c_timeout := t\<rparr>)" if "c_timeout c' = c_timeout c" for c'
    using assms(3) that [symmetric] by (auto simp: keep_timeout_def plenty_def t_def split: ptr.split borrowed.split)
  then have t: "keep_timeout e (c\<lparr>c_fd := fd, c_connection_type := REDIS_CONN_UNIX, c_path := ?q\<rparr>) timeout =
      Some (c\<lparr>c_fd := fd, c_connection_type := REDIS_CONN_UNIX, c_path := ?q, c_timeout := t\<rparr>)" for fd by simp
  obtain sa where sa: "local_address c' (Passed (cstr path)) = Some sa" for c' by (simp add: local_address_def)
  from connect_unix_ok [OF assms(1,2) path t sa, of s] show ?thesis
  proof
    assume "connect_ok False (c\<lparr>c_connection_type := REDIS_CONN_UNIX, c_path := ?q, c_timeout := t\<rparr>)
      (redisContextConnectUnix e sys c s (Passed (cstr path)) timeout)"
    from connect_okD [OF this] assms(1) show ?thesis by (auto simp: has_flag_def)
  next
    assume "\<exists>c' s'. redisContextConnectUnix e sys c s (Passed (cstr path)) timeout = Some (- 1, c', s') \<and> kept c c' \<and> c_err c' \<noteq> 0"
    then obtain c' s' where "redisContextConnectUnix e sys c s (Passed (cstr path)) timeout = Some (- 1, c', s')" "kept c c'" "c_err c' \<noteq> 0"
      by blast
    then show ?thesis using kept_simps [of c c'] by (simp add: has_flag_def)
  qed
qed

theorem connect_unix_outcome_witness:
  "\<exists>rc c' s'. redisContextConnectUnix demo_env (demo_os 0) (demo_context 1) demo_net (Passed (cstr ''/tmp/redis'')) NULL = Some (rc, c', s') \<and>
    (rc = REDIS_OK \<and> has_flag c' REDIS_CONNECTED \<or> rc = REDIS_ERR \<and> c_err c' \<noteq> 0)"
  using connect_unix_outcome [of "demo_context 1" "demo_os 0" demo_env "''/tmp/redis''" demo_net NULL]
  by (auto simp: demo_context_def)

text \<open>
  The timeout given to \<open>poll\<close> never overflows: for every timeout with microseconds between 0 and
  a million and a number of seconds that is accepted, it is the timeout in milliseconds, rounded up,
  or \<open>INT_MAX\<close> if that is smaller.
\<close>

theorem wait_msec_exact:
  assumes "0 \<le> tv_sec tv" "0 \<le> tv_usec tv" "tv_usec tv \<le> 1000000" "tv_sec tv \<le> MAX_MSEC"
  shows "wait_msec (Ptr tv) = Some (min INT_MAX (tv_sec tv * 1000 + (tv_usec tv + 999) div 1000))"
proof -
  have u: "0 \<le> (tv_usec tv + 999) div 1000" "(tv_usec tv + 999) div 1000 \<le> 1000" using assms(2,3) by auto
  have "c_div (tv_usec tv + 999) 1000 = (tv_usec tv + 999) div 1000" using assms(2) by (simp add: c_div_def)
  then show ?thesis using assms u by (simp add: wait_msec_def Let_def)
qed

theorem wait_msec_exact_witness:
  "wait_msec (Ptr \<lparr>tv_sec = 1, tv_usec = 500001\<rparr>) = Some 1501 \<and> wait_msec (Ptr \<lparr>tv_sec = MAX_MSEC, tv_usec = 1000000\<rparr>) = Some INT_MAX"
  using wait_msec_exact [of "\<lparr>tv_sec = 1, tv_usec = 500001\<rparr>"] wait_msec_exact [of "\<lparr>tv_sec = MAX_MSEC, tv_usec = 1000000\<rparr>"] by simp

end
