(* ===== verification/Context_Correct.thy ===== *)
theory Context_Correct
  imports Context Net_Correct Reader_Stream
begin

text \<open>
  The synchronous client against the wire: what is appended is what is sent, in order and once;
  a blocking command sends its encoding and returns the reply of the server; errors are
  sticky; a reconnect keeps the parameters of the connection.

  What the theorems need of \<open>write\<close> and \<open>read\<close> is stated with a view \<open>sent\<close> of the state of the
  operating system: the bytes the connection has accepted so far.
\<close>

section \<open>Writing\<close>

text \<open>\<open>write\<close> fails without an effect or accepts a prefix of what it is given, and says how much.\<close>

definition writes_ok :: "('o, 'm) os_scheme \<Rightarrow> ('o \<Rightarrow> bytes) \<Rightarrow> bool" where
  "writes_ok sys sent \<longleftrightarrow> (\<forall>fd d s n s'. os_write sys fd d s = (n, s') \<longrightarrow>
     n = - 1 \<and> sent s' = sent s \<or> (\<exists>k \<le> length d. n = int k \<and> sent s' = sent s @ take k d))"

text \<open>A connection that takes at least one byte of every non-empty write.\<close>

definition accepting :: "('o, 'm) os_scheme \<Rightarrow> ('o \<Rightarrow> bytes) \<Rightarrow> bool" where
  "accepting sys sent \<longleftrightarrow> (\<forall>fd d s. d \<noteq> [] \<longrightarrow>
     (\<exists>k s'. 1 \<le> k \<and> k \<le> length d \<and> os_write sys fd d s = (int k, s') \<and> sent s' = sent s @ take k d))"

text \<open>A context that can be written to, and what waits in its output buffer.\<close>

definition writable :: "redisContext \<Rightarrow> bool" where
  "writable c \<longleftrightarrow> c_err c = 0 \<and> length (c_errstr c) = 128 \<and> (\<exists>b. c_obuf c = Ptr b \<and> sds_ok b)"

definition pending :: "redisContext \<Rightarrow> bytes" where
  "pending c = sds_str (deref (c_obuf c))"

text \<open>A context with an output buffer; an error may have been recorded.\<close>

definition buffered :: "redisContext \<Rightarrow> bool" where
  "buffered c \<longleftrightarrow> length (c_errstr c) = 128 \<and> (\<exists>b. c_obuf c = Ptr b \<and> sds_ok b)"

lemma writable_buffered: "writable c \<longleftrightarrow> buffered c \<and> c_err c = 0"
  by (auto simp: writable_def buffered_def)

lemma sdslen_text: "sds_ok b \<Longrightarrow> sdslen b = int (length (sds_str b))"
proof -
  assume "sds_ok b"
  moreover from this have "to_size (sh_len b) = sh_len b" using sds_okD(1-3) [of b] by simp
  ultimately show ?thesis by (simp add: sdslen_def)
qed

lemma sds_nonempty_len: "sds_ok b \<Longrightarrow> sds_str b \<noteq> [] \<Longrightarrow> 0 < sh_len b"
  using length_sds_str [of b] by (cases "sds_str b") (simp_all del: length_sds_str)

lemma write_accepted:
  assumes "c_err c = 0" "c_obuf c = Ptr b" "sds_ok b" "plenty e" "sds_str b \<noteq> []"
    "os_write sys (c_fd c) (sds_str b) s = (int k, s')" "k \<le> length (sds_str b)"
  shows "\<exists>b'. redisBufferWrite e sys c s d = Some (REDIS_OK, sds_str b' = [], c\<lparr>c_obuf := Ptr b'\<rparr>, s') \<and> sds_ok b' \<and>
    sds_str b' = drop k (sds_str b)"
proof -
  have len: "sh_len b = int (length (sds_str b))" using length_sds_str [OF assms(3)] sds_okD(1) [OF assms(3)] by simp
  then have le: "int (length (sds_str b)) \<le> INT_MAX" using sds_okD(2,3) [OF assms(3)] by simp
  have ints: "to_int (int k) = int k" "to_int (int (length (sds_str b))) = int (length (sds_str b))" using assms(7) le by simp_all
  have nn: "int k \<noteq> - 1" by simp
  have ne: "length (sds_str b) \<noteq> 0" using assms(5) by simp
  note simps = redisBufferWrite_def sdslen_text [OF assms(3)] Let_def
  consider "k = 0" | "0 < k" "k = length (sds_str b)" | "0 < k" "k < length (sds_str b)" using assms(7) by linarith
  then show ?thesis
  proof cases
    case 1
    then show ?thesis using assms(1-3,5,6) sds_nonempty_len [OF assms(3,5)] ints nn
      by (intro exI [of _ b]) (simp add: simps)
  next
    case 2
    obtain b0 where "sdsempty e = Some (Ptr b0)" "sds_ok b0" "sds_str b0 = []"
      using sdsempty_yields [of e] sdsempty_plenty [OF assms(4)] by (auto simp: yields_def)
    then show ?thesis using 2 assms(1,2,6) ints nn sdslen_text [of b0]
      by (intro exI [of _ b0]) (simp add: simps)
  next
    case 3
    obtain b' where "sdsrange b (int k) (- 1) = Some b'" "sds_ok b'" "sds_str b' = drop k (sds_str b)"
      using sdsrange_drop [OF assms(3), of "int k"] len assms(7) by auto
    then show ?thesis using 3 assms(1,2,6) ints nn sdslen_text [of b'] sds_nonempty_len [OF assms(3,5)] assms(5)
      by (intro exI [of _ b']) (simp add: simps)
  qed
qed

lemma write_empty:
  assumes "c_err c = 0" "c_obuf c = Ptr b" "sds_ok b" "sds_str b = []"
  shows "redisBufferWrite e sys c s d = Some (REDIS_OK, True, c, s)"
  using assms sdslen_text [OF assms(3)] by (simp add: redisBufferWrite_def)

lemma write_failed:
  assumes "c_err c = 0" "c_obuf c = Ptr b" "sds_ok b" "sds_str b \<noteq> []" "length (c_errstr c) = 128"
    "os_write sys (c_fd c) (sds_str b) s = (- 1, s')"
  shows "redisBufferWrite e sys c s d = Some (REDIS_OK, False, c, s') \<or>
    (\<exists>c'. redisBufferWrite e sys c s d = Some (REDIS_ERR, d, c', s') \<and> with_error c REDIS_ERR_IO c')"
  using assms sds_nonempty_len [OF assms(3,4)] sdslen_text [OF assms(3)] redisSetError_errno [OF assms(5), of sys s']
  by (auto simp: redisBufferWrite_def Let_def)

text \<open>One call moves a prefix of the pending bytes to the connection and nothing else.\<close>

lemma redisBufferWrite_moves:
  assumes "writable c" "plenty e" "writes_ok sys sent"
  shows "\<exists>rc done c' s'. redisBufferWrite e sys c s d = Some (rc, done, c', s') \<and> sent s' @ pending c' = sent s @ pending c \<and>
    buffered c' \<and> (rc = REDIS_OK \<and> c_err c' = 0 \<and> done = (pending c' = []) \<or> rc = REDIS_ERR \<and> c_err c' = REDIS_ERR_IO)"
proof -
  obtain b where b: "c_obuf c = Ptr b" "sds_ok b" and c: "c_err c = 0" "length (c_errstr c) = 128"
    using assms(1) by (auto simp: writable_def)
  show ?thesis
  proof (cases "sds_str b = []")
    case True
    then show ?thesis using write_empty [OF c(1) b True, of e sys s d] b c True by (auto simp: pending_def buffered_def)
  next
    case False
    obtain n s' where w: "os_write sys (c_fd c) (sds_str b) s = (n, s')" by (cases "os_write sys (c_fd c) (sds_str b) s")
    then consider "n = - 1" "sent s' = sent s" | k where "k \<le> length (sds_str b)" "n = int k" "sent s' = sent s @ take k (sds_str b)"
      using assms(3) unfolding writes_ok_def by blast
    then show ?thesis
    proof cases
      case 1
      then show ?thesis
        using write_failed [OF c(1) b False c(2), of sys s s' e d] w b c False with_error_simps
        by (auto simp: pending_def buffered_def)
    next
      case 2
      obtain b' where "redisBufferWrite e sys c s d = Some (0, sds_str b' = [], c\<lparr>c_obuf := Ptr b'\<rparr>, s')" "sds_ok b'" "sds_str b' = drop k (sds_str b)"
        using write_accepted [OF c(1) b assms(2) False, of sys s k s' d] w 2 by auto
      then show ?thesis using 2 b c by (auto simp: pending_def buffered_def)
    qed
  qed
qed

text \<open>On a connection that accepts, the loop ends and everything is sent.\<close>

lemma write_loop_sends:
  assumes "writable c" "plenty e" "accepting sys sent"
  shows "\<exists>b s'. write_loop e sys c s = Some (REDIS_OK, c\<lparr>c_obuf := Ptr b\<rparr>, s') \<and> sds_ok b \<and> sds_str b = [] \<and> sent s' = sent s @ pending c"
  using assms(1)
proof (induction "length (pending c)" arbitrary: c s rule: less_induct)
  case less
  obtain b where b: "c_obuf c = Ptr b" "sds_ok b" and c: "c_err c = 0" "length (c_errstr c) = 128"
    using less.prems by (auto simp: writable_def)
  show ?case
  proof (cases "sds_str b = []")
    case True
    have "c\<lparr>c_obuf := Ptr b\<rparr> = c" using b by simp
    then show ?thesis using write_empty [OF c(1) b True, of e sys s False] True b
      by (subst write_loop.simps) (auto simp: pending_def intro!: exI [of _ b])
  next
    case False
    obtain k s1 where w: "1 \<le> k" "k \<le> length (sds_str b)" "os_write sys (c_fd c) (sds_str b) s = (int k, s1)"
      "sent s1 = sent s @ take k (sds_str b)"
      using assms(3) False unfolding accepting_def by blast
    obtain b' where b': "redisBufferWrite e sys c s False = Some (0, sds_str b' = [], c\<lparr>c_obuf := Ptr b'\<rparr>, s1)" "sds_ok b'"
      "sds_str b' = drop k (sds_str b)"
      using write_accepted [OF c(1) b assms(2) False w(3,2), of False] by blast
    show ?thesis
    proof (cases "sds_str b' = []")
      case True
      then show ?thesis using b' w b by (subst write_loop.simps) (auto simp: pending_def)
    next
      case False
      let ?c = "c\<lparr>c_obuf := Ptr b'\<rparr>"
      have "length (pending ?c) < length (pending c)" "writable ?c"
        using b'(2,3) w(1,2) b c by (auto simp: pending_def writable_def)
      then obtain b2 s2 where "write_loop e sys ?c s1 = Some (0, ?c\<lparr>c_obuf := Ptr b2\<rparr>, s2)" "sds_ok b2" "sds_str b2 = []"
        "sent s2 = sent s1 @ pending ?c"
        using less.hyps [of ?c s1] by blast
      then show ?thesis using b'(1,3) False w(4) b by (subst write_loop.simps) (auto simp: pending_def)
    qed
  qed
qed

section \<open>Pipelines of commands\<close>

lemma redisAppendCommandArgv_appends:
  assumes "plenty e" "c_obuf c = Ptr b" "sds_ok b" "int (length (sds_str b)) + int (length (encode_command args)) < SDS_LIMIT"
  shows "\<exists>b'. redisAppendCommandArgv e sys c s (int (length args)) args (Ptr (map (\<lambda>a. int (length a)) args)) =
      Some (REDIS_OK, c\<lparr>c_obuf := Ptr b'\<rparr>) \<and> sds_ok b' \<and> sds_str b' = sds_str b @ encode_command args"
proof -
  let ?c = "encode_command args" and ?ls = "map (\<lambda>a. int (length a)) args"
  have lt: "int (length ?c) < SDS_LIMIT" using assms(4) by simp
  obtain cmd where cmd: "redisFormatSdsCommandArgv e (int (length args)) args (Ptr ?ls) = Some (int (length ?c), Ptr cmd)" "sds_ok cmd" "sds_str cmd = ?c"
    using redisFormatSdsCommandArgv_eq [OF assms(1) args_from_lens, of args ?ls] lt by (auto simp: arg_views)
  obtain rest where rest: "sh_buf cmd = ?c @ NUL # rest" using sds_ok_elim [OF cmd(2)] cmd(3) by metis
  have "sh_len b + int (length ?c) \<le> SDS_LIMIT" using assms(4) length_sds_str [OF assms(3)] by linarith
  then obtain b' where b': "sdscatlen e b (?c @ NUL # rest) (int (length ?c)) = Some (Ptr b')" "sds_ok b'" "sds_str b' = sds_str b @ ?c"
    using sdscatlen_makes [OF assms(1,3), of ?c "NUL # rest"] by (auto simp: makes_def)
  have "to_size (int (length ?c)) = int (length ?c)" using lt by simp
  moreover have "int (length ?c) \<noteq> - 1" by simp
  ultimately show ?thesis
    using cmd(1) b' assms(2) rest by (intro exI [of _ b']) (simp add: redisAppendCommandArgv_def redisAppendCommand0_def)
qed

text \<open>
  The states that a client reaches from \<open>c0\<close> by appending commands and writing, in any order, with
  the commands appended so far.
\<close>

inductive pipeline :: "cenv \<Rightarrow> ('o, 'm) os_scheme \<Rightarrow> redisContext \<Rightarrow> 'o \<Rightarrow> redisContext \<Rightarrow> 'o \<Rightarrow> bytes list list \<Rightarrow> bool"
  for e sys c0 s0 where
  start: "pipeline e sys c0 s0 c0 s0 []"
| append: "pipeline e sys c0 s0 c s cmds \<Longrightarrow> int (length (pending c)) + int (length (encode_command args)) < SDS_LIMIT \<Longrightarrow>
    redisAppendCommandArgv e sys c s (int (length args)) args (Ptr (map (\<lambda>a. int (length a)) args)) = Some (rc, c') \<Longrightarrow>
    pipeline e sys c0 s0 c' s (cmds @ [args])"
| flush: "pipeline e sys c0 s0 c s cmds \<Longrightarrow> redisBufferWrite e sys c s d = Some (rc, done, c', s') \<Longrightarrow> pipeline e sys c0 s0 c' s' cmds"

lemma redisBufferWrite_buffered:
  assumes "buffered c" "plenty e" "writes_ok sys sent"
  shows "\<exists>rc done c' s'. redisBufferWrite e sys c s d = Some (rc, done, c', s') \<and> buffered c' \<and> sent s' @ pending c' = sent s @ pending c \<and>
    (rc = REDIS_OK \<longrightarrow> done = (pending c' = []))"
proof (cases "c_err c = 0")
  case True
  then have "writable c" using assms(1) by (simp add: writable_buffered)
  from redisBufferWrite_moves [OF this assms(2,3), of s d] show ?thesis by fastforce
next
  case False
  then show ?thesis using assms(1) by (simp add: redisBufferWrite_def)
qed

lemma pipeline_inv:
  assumes "pipeline e sys c0 s0 c s cmds" "plenty e" "buffered c0" "writes_ok sys sent"
  shows "buffered c \<and> sent s @ pending c = sent s0 @ pending c0 @ concat (map encode_command cmds)"
  using assms(1)
proof (induction rule: pipeline.induct)
  case start
  show ?case using assms(3) by simp
next
  case (append c s cmds args rc c')
  obtain b where b: "c_obuf c = Ptr b" "sds_ok b" using append.IH by (auto simp: buffered_def)
  obtain b' where "c' = c\<lparr>c_obuf := Ptr b'\<rparr>" "sds_ok b'" "sds_str b' = sds_str b @ encode_command args"
    using redisAppendCommandArgv_appends [OF assms(2) b, of args sys s] append.hyps(2,3) b(1) by (auto simp: pending_def)
  then show ?case using append.IH b(1) by (auto simp: buffered_def pending_def)
next
  case (flush c s cmds d rc dn c' s')
  then show ?case using redisBufferWrite_buffered [OF _ assms(2,4), of c s d] by auto
qed

text \<open>
  C28. However a client mixes appending commands and writing, and however little of its buffer each write
  takes, the connection gets the commands in the order in which they were appended, each one
  exactly once: what has been sent followed by what is pending is always what was there at the beginning followed by the
  encodings of the commands. The next write cannot go wrong, and if it reports that it is done,
  everything has been sent.
\<close>

theorem pipeline_in_order:
  assumes "pipeline e sys c0 s0 c s cmds" "plenty e" "buffered c0" "writes_ok sys sent"
  shows "sent s @ pending c = sent s0 @ pending c0 @ concat (map encode_command cmds) \<and>
    (\<exists>rc dn c' s'. redisBufferWrite e sys c s d = Some (rc, dn, c', s') \<and>
      (rc = REDIS_OK \<and> dn \<longrightarrow> sent s' = sent s0 @ pending c0 @ concat (map encode_command cmds)))"
proof -
  note inv = pipeline_inv [OF assms]
  then have "buffered c" by simp
  from redisBufferWrite_buffered [OF this assms(2,4), of s d] inv show ?thesis by fastforce
qed

definition demo_client :: redisContext where
  "demo_client = (demo_context 1)\<lparr>c_obuf := Ptr (sds_of []), c_reader := Ptr demo_reader\<rparr>"

lemma demo_writes: "writes_ok (demo_os err) n_sent" "accepting (demo_os err) n_sent"
  by (auto simp: writes_ok_def accepting_def demo_os_def Suc_leI)

theorem pipeline_in_order_witness:
  "\<exists>c. pipeline demo_env (demo_os 0) demo_client demo_net c demo_net [[''PING'']] \<and> pending c = encode_command [''PING'']"
proof -
  have c: "c_obuf demo_client = Ptr (sds_of [])" "buffered demo_client" "pending demo_client = []" "n_sent demo_net = []"
    by (simp_all add: demo_client_def buffered_def demo_context_def pending_def demo_net_def)
  have len: "length (encode_command [''PING'']) = 14" by code_simp
  obtain b' where "redisAppendCommandArgv demo_env (demo_os 0) demo_client demo_net 1 [''PING''] (Ptr [4]) = Some (0, demo_client\<lparr>c_obuf := Ptr b'\<rparr>)"
    using redisAppendCommandArgv_appends [OF demo_plenty c(1), of "[''PING'']" "demo_os 0" demo_net] len by auto
  then have "pipeline demo_env (demo_os 0) demo_client demo_net (demo_client\<lparr>c_obuf := Ptr b'\<rparr>) demo_net ([] @ [[''PING'']])"
    using len c(3) by (intro pipeline.append [OF pipeline.start]) simp_all
  then show ?thesis using pipeline_in_order [OF _ demo_plenty c(2) demo_writes(1), of 0] c(3,4) by fastforce
qed

section \<open>A command and its reply\<close>

lemma redisGetReplyFromReader_eq:
  assumes "c_reader c = Ptr r" "redisReaderGetReply r h = Some (REDIS_OK, a, r1, h1)"
  shows "redisGetReplyFromReader sys c h s = Some (REDIS_OK, a, c\<lparr>c_reader := Ptr r1\<rparr>, h1)"
  using assms by (simp add: redisGetReplyFromReader_def)

lemma redisBufferRead_feeds:
  assumes "c_err c = 0" "c_reader c = Ptr r" "idle r h" "plenty (h_env h)" "t \<noteq> []" "length t \<le> 16384" "r_len r + int (length t) \<le> SDS_LIMIT"
    "os_read sys (c_fd c) 16384 s = (int (length t), t, s1)"
  shows "\<exists>r1. redisBufferRead sys c h s = Some (REDIS_OK, c\<lparr>c_reader := Ptr r1\<rparr>, h, s1) \<and> idle r1 h \<and> unread r1 = unread r @ t"
proof -
  obtain r1 where "redisReaderFeed (h_env h) r h (Ptr t) (int (length t)) = Some (REDIS_OK, r1, h)" "idle r1 h" "unread r1 = unread r @ t"
    using feed_idle [OF assms(3,4,5,7)] by blast
  moreover have "to_int (int (length t)) = int (length t)" "to_size (int (length t)) = int (length t)" using assms(6) by simp_all
  moreover have "int (length t) \<noteq> - 1" "length t \<noteq> 0" using assms(5) by simp_all
  ultimately show ?thesis
    using assms(1,2,8) by (intro exI [of _ r1]) (simp add: redisBufferRead_def Let_def)
qed

lemma idle_heap_ok: "idle r h \<Longrightarrow> heap_ok h"
  using rd.liveD(6) [of r h] by (auto simp: idle_def replies_inv_def)

lemma represents_allocated: "represents v h a \<Longrightarrow> h_objs h a \<noteq> None"
  by (cases v) auto

text \<open>
  The server answers the whole request with the encoding of \<open>v\<close> in one piece.
\<close>

definition answers :: "('o, 'm) os_scheme \<Rightarrow> ('o \<Rightarrow> bytes) \<Rightarrow> int \<Rightarrow> bytes \<Rightarrow> rval \<Rightarrow> bool" where
  "answers sys sent fd request v \<longleftrightarrow> (\<forall>s. sent s = request \<longrightarrow> (\<exists>s'. os_read sys fd 16384 s = (int (length (encode v)), encode v, s')))"

text \<open>
  The exchange itself: what is pending goes out, the reply comes in. The reader is ready for the next one, and the heap
  has grown by the reply only.
\<close>

lemma redisGetReply_sends:
  assumes "writable c" "has_flag c REDIS_BLOCK" "c_reader c = Ptr r" "idle r h" "unread r = []" "plenty (h_env h)" "accepting sys sent"
  shows "\<exists>r1 b s1. redisGetReply sys c h s = read_loop sys (c\<lparr>c_reader := Ptr r1, c_obuf := Ptr b\<rparr>) h s1 \<and>
    idle r1 h \<and> unread r1 = [] \<and> r_len r1 \<le> r_len r \<and> sds_ok b \<and> sds_str b = [] \<and> sent s1 = sent s @ pending c"
proof -
  obtain b where b: "c_obuf c = Ptr b" "sds_ok b" and c: "c_err c = 0" "length (c_errstr c) = 128"
    using assms(1) by (auto simp: writable_def)
  obtain r1 where r1: "redisReaderGetReply r h = Some (0, 0, r1, h)" "idle r1 h" "unread r1 = []" "r_len r1 \<le> r_len r"
    using GetReply_nothing [OF assms(4,5)] by blast
  define c1 where "c1 = c\<lparr>c_reader := Ptr r1\<rparr>"
  have c1: "writable c1" "pending c1 = pending c" "has_flag c1 1"
    using b c assms(2) by (simp_all add: c1_def writable_def pending_def has_flag_def)
  obtain b2 s2 where b2: "write_loop (h_env h) sys c1 s = Some (0, c1\<lparr>c_obuf := Ptr b2\<rparr>, s2)" "sds_ok b2" "sds_str b2 = []"
    "sent s2 = sent s @ pending c"
    using write_loop_sends [OF c1(1) assms(6,7), of s] c1(2) by auto
  have "redisGetReply sys c h s = read_loop sys (c1\<lparr>c_obuf := Ptr b2\<rparr>) h s2"
    using redisGetReplyFromReader_eq [of c r h 0 r1 h sys s] assms(3) r1(1) c1(3) b2(1)
    by (simp add: redisGetReply_def flip: c1_def)
  then show ?thesis using r1(2-4) b2(2-4) unfolding c1_def by blast
qed

lemma redisGetReply_exchange:
  assumes "writable c" "has_flag c REDIS_BLOCK" "c_reader c = Ptr r" "idle r h" "unread r = []" "plenty (h_env h)"
    "accepting sys sent" "answers sys sent (c_fd c) (sent s @ pending c) v"
    "rval_ok v" "depth v \<le> 8" "length (encode v) \<le> 16384" "r_len r + 16384 \<le> SDS_LIMIT"
  shows "\<exists>c' r' h' s'. redisGetReply sys c h s = Some (REDIS_OK, h_next h, c', h', s') \<and> h_next h \<noteq> 0 \<and> represents v h' (h_next h) \<and>
    writable c' \<and> pending c' = [] \<and> c_reader c' = Ptr r' \<and> idle r' h' \<and> unread r' = [] \<and> c_flags c' = c_flags c \<and> c_fd c' = c_fd c \<and>
    h_env h' = h_env h \<and> (\<forall>b < h_next h. h_objs h' b = h_objs h b)"
proof -
  have c: "c_err c = 0" "length (c_errstr c) = 128" using assms(1) by (auto simp: writable_def)
  obtain r1 b2 s2 where w: "redisGetReply sys c h s = read_loop sys (c\<lparr>c_reader := Ptr r1, c_obuf := Ptr b2\<rparr>) h s2"
      "idle r1 h" "unread r1 = []" "r_len r1 \<le> r_len r" "sds_ok b2" "sds_str b2 = []" "sent s2 = sent s @ pending c"
    using redisGetReply_sends [OF assms(1-7)] by blast
  define c2 where "c2 = c\<lparr>c_reader := Ptr r1, c_obuf := Ptr b2\<rparr>"
  obtain s3 where s3: "os_read sys (c_fd c) 16384 s2 = (int (length (encode v)), encode v, s3)"
    using assms(8) w(7) by (auto simp: answers_def)
  obtain r3 where r3: "redisBufferRead sys c2 h s2 = Some (0, c2\<lparr>c_reader := Ptr r3\<rparr>, h, s3)" "idle r3 h" "unread r3 = encode v"
    using redisBufferRead_feeds [of c2 r1 h "encode v" sys s2 s3] c(1) w(2-4) assms(6,11,12) s3 by (auto simp: c2_def)
  obtain r4 h4 where r4: "redisReaderGetReply r3 h = Some (0, h_next h, r4, h4)" "represents v h4 (h_next h)" "h_next h \<noteq> 0"
      "idle r4 h4" "unread r4 = []" "h_env h4 = h_env h" "\<forall>b < h_next h. h_objs h4 b = h_objs h b"
    using GetReply_parses [OF r3(2) assms(6,9,10), of "[]"] r3(3) by auto
  define c4 where "c4 = c2\<lparr>c_reader := Ptr r4\<rparr>"
  have "read_loop sys c2 h s2 = Some (0, h_next h, c4, h4, s3)"
    using r3(1) redisGetReplyFromReader_eq [of "c2\<lparr>c_reader := Ptr r3\<rparr>" r3 h "h_next h" r4 h4 sys s3] r4
    by (subst read_loop.simps) (simp add: c4_def)
  then have "redisGetReply sys c h s = Some (0, h_next h, c4, h4, s3)" using w(1) by (simp add: c2_def)
  moreover have "writable c4 \<and> pending c4 = [] \<and> c_reader c4 = Ptr r4 \<and> c_flags c4 = c_flags c \<and> c_fd c4 = c_fd c"
    using w(5,6) c by (simp add: c4_def c2_def writable_def pending_def)
  ultimately show ?thesis using r4 by blast
qed

text \<open>When the server has closed the connection the exchange ends with an error, and without a reply.\<close>

definition hangs_up :: "('o, 'm) os_scheme \<Rightarrow> int \<Rightarrow> bool" where
  "hangs_up sys fd \<longleftrightarrow> (\<forall>s. \<exists>s'. os_read sys fd 16384 s = (0, [], s'))"

lemma redisGetReply_eof:
  assumes "writable c" "has_flag c REDIS_BLOCK" "c_reader c = Ptr r" "idle r h" "unread r = []" "plenty (h_env h)"
    "accepting sys sent" "hangs_up sys (c_fd c)"
  shows "\<exists>c' r' s'. redisGetReply sys c h s = Some (REDIS_ERR, 0, c', h, s') \<and> c_err c' = REDIS_ERR_EOF \<and> c_reader c' = Ptr r' \<and> idle r' h"
proof -
  have c: "c_err c = 0" "length (c_errstr c) = 128" using assms(1) by (auto simp: writable_def)
  obtain r1 b2 s2 where w: "redisGetReply sys c h s = read_loop sys (c\<lparr>c_reader := Ptr r1, c_obuf := Ptr b2\<rparr>) h s2" "idle r1 h"
    using redisGetReply_sends [OF assms(1-7)] by blast
  define c2 where "c2 = c\<lparr>c_reader := Ptr r1, c_obuf := Ptr b2\<rparr>"
  obtain s3 where s3: "os_read sys (c_fd c2) 16384 s2 = (0, [], s3)" using assms(8) by (auto simp: hangs_up_def c2_def)
  obtain c3 where c3: "redisSetError sys c2 s3 REDIS_ERR_EOF (Ptr (cstr ''Server closed the connection'')) = Some c3" "with_error c2 REDIS_ERR_EOF c3"
    using redisSetError_text [of c2 "cstr ''Server closed the connection''" sys s3 REDIS_ERR_EOF] c(2) by (auto simp: c2_def cstr_def)
  have "read_loop sys c2 h s2 = Some (REDIS_ERR, 0, c3, h, s3)"
    using c(1) s3 c3(1) by (subst read_loop.simps) (simp add: redisBufferRead_def c2_def)
  then show ?thesis using w c3(2) by (auto simp: c2_def with_error_def)
qed

lemma redisCommandArgv_exchange:
  assumes "writable c" "has_flag c REDIS_BLOCK" "c_reader c = Ptr r" "idle r h" "unread r = []" "plenty (h_env h)"
    "accepting sys sent" "answers sys sent (c_fd c) (sent s @ pending c @ encode_command args) v"
    "rval_ok v" "depth v \<le> 8" "length (encode v) \<le> 16384" "r_len r + 16384 \<le> SDS_LIMIT"
    "int (length (pending c)) + int (length (encode_command args)) < SDS_LIMIT"
  shows "\<exists>c' r' h' s'. redisCommandArgv sys c h s (int (length args)) args (Ptr (map (\<lambda>a. int (length a)) args)) = Some (h_next h, c', h', s') \<and>
    h_next h \<noteq> 0 \<and> represents v h' (h_next h) \<and> writable c' \<and> pending c' = [] \<and> c_reader c' = Ptr r' \<and> idle r' h' \<and> unread r' = [] \<and>
    c_flags c' = c_flags c \<and> h_env h' = h_env h \<and> (\<forall>b < h_next h. h_objs h' b = h_objs h b)"
proof -
  obtain b where b: "c_obuf c = Ptr b" "sds_ok b" and c: "c_err c = 0" "length (c_errstr c) = 128"
    using assms(1) by (auto simp: writable_def)
  obtain b1 where b1: "redisAppendCommandArgv (h_env h) sys c s (int (length args)) args (Ptr (map (\<lambda>a. int (length a)) args)) =
      Some (0, c\<lparr>c_obuf := Ptr b1\<rparr>)" "sds_ok b1" "sds_str b1 = pending c @ encode_command args"
    using redisAppendCommandArgv_appends [OF assms(6) b, of args sys s] assms(13) b(1) by (auto simp: pending_def)
  let ?c = "c\<lparr>c_obuf := Ptr b1\<rparr>"
  have "writable ?c" "has_flag ?c REDIS_BLOCK" "pending ?c = pending c @ encode_command args" "c_reader ?c = Ptr r" "c_fd ?c = c_fd c"
    using b1(2,3) c assms(2,3) by (simp_all add: writable_def pending_def has_flag_def)
  with redisGetReply_exchange [of ?c r h sys sent s v] assms(4-12)
  obtain c' r' h' s' where "redisGetReply sys ?c h s = Some (0, h_next h, c', h', s')" "h_next h \<noteq> 0" "represents v h' (h_next h)"
    "writable c'" "pending c' = []" "c_reader c' = Ptr r'" "idle r' h'" "unread r' = []" "c_flags c' = c_flags c"
    "h_env h' = h_env h" "\<forall>b < h_next h. h_objs h' b = h_objs h b"
    by auto
  then show ?thesis using b1(1) assms(2) by (simp add: redisCommandArgv_def redisBlockForReply_def has_flag_def)
qed



section \<open>Reconnecting\<close>

text \<open>Connecting with the stored parameters leaves them as they are.\<close>

lemma reconnect_tcp_ok:
  assumes "length (c_errstr c) = 128" "sockets_ok sys" "plenty e" "c_connection_type c = REDIS_CONN_TCP"
  shows "connect_ok (has_flag c REDIS_REUSEADDR) c
    (redisContextConnectBindTcp e sys c s Stored (c_port c) (stored (c_timeout c)) (stored (c_source_addr c)))"
proof -
  have c0: "c = c\<lparr>c_connection_type := REDIS_CONN_TCP, c_port := c_port c\<rparr>" using assms(4) by simp
  have mem: "granted e 16" using assms(3) by (simp add: plenty_def)
  have src: "text_arg a" if "stored (c_source_addr c) = Ptr a" for a
    using that by (cases "c_source_addr c") (auto simp: stored_def)
  obtain h t a where keep: "keep_host e c Stored = Some (c\<lparr>c_host := h\<rparr>)"
    "keep_timeout e (c\<lparr>c_host := h\<rparr>) (stored (c_timeout c)) = Some (c\<lparr>c_host := h, c_timeout := t\<rparr>)"
    "keep_source e (c\<lparr>c_host := h, c_timeout := t\<rparr>) (stored (c_source_addr c)) = Some (c\<lparr>c_host := h, c_timeout := t, c_source_addr := a\<rparr>)"
    and ok: "connect_ok (has_flag c 128) (c\<lparr>c_host := h, c_timeout := t, c_source_addr := a\<rparr>)
      (redisContextConnectBindTcp e sys c s Stored (c_port c) (stored (c_timeout c)) (stored (c_source_addr c)))"
    using connect_tcp_ok [OF assms(1,2) mem _ src c0, where addr = Stored and s = s and timeout = "stored (c_timeout c)"
      and source = "stored (c_source_addr c)"] by auto
  have "c_host c = h" using keep(1) by (cases c) (simp add: keep_host_def)
  moreover have "c_timeout c = t" using keep(2) by (cases c) (auto simp: keep_timeout_def stored_def split: ptr.splits)
  moreover have "c_source_addr c = a" using keep(3) by (cases c) (auto simp: keep_source_def stored_def split: ptr.splits)
  ultimately have "c\<lparr>c_host := h, c_timeout := t, c_source_addr := a\<rparr> = c" by (cases c) simp
  then show ?thesis using ok by simp
qed

lemma reconnect_unix_ok:
  assumes "length (c_errstr c) = 128" "sockets_ok sys" "c_connection_type c = REDIS_CONN_UNIX" "c_path c = Ptr p"
  shows "connect_ok False c (redisContextConnectUnix e sys c s Stored (stored (c_timeout c)))"
proof -
  have upd: "c\<lparr>c_connection_type := REDIS_CONN_UNIX, c_path := c_path c, c_timeout := c_timeout c\<rparr> = c" using assms(3) by simp
  have "connect_ok False (c\<lparr>c_connection_type := REDIS_CONN_UNIX, c_path := c_path c, c_timeout := c_timeout c\<rparr>)
        (redisContextConnectUnix e sys c s Stored (stored (c_timeout c))) \<or>
      (\<exists>c' s'. redisContextConnectUnix e sys c s Stored (stored (c_timeout c)) = Some (- 1, c', s') \<and> kept c c' \<and> c_err c' \<noteq> 0)"
    using assms(3,4)
    by (intro connect_unix_ok [OF assms(1,2)])
      (cases c; auto simp: keep_path_def keep_timeout_def stored_def local_address_def split: ptr.split)+
  then show ?thesis unfolding upd by auto
qed

lemma connect_ok_mono: "connect_ok False c res \<Longrightarrow> connect_ok ra c res"
  unfolding connect_ok_def by blast

text \<open>
  A reconnect uses exactly the parameters of the connection: host, port, source address, path,
  timeout and kind are the same afterwards, as the mode of the socket. The old error is
  cleared, the two buffers are new and empty, replies that the reader had begun are freed, and the
  status agrees with the flag, the descriptor and the error field as for a first connection.
\<close>

theorem redisReconnect_keeps:
  assumes "c_reader c = Ptr r" "rd.reader_inv r h" "plenty (h_env h)" "length (c_errstr c) = 128" "NUL \<in> set (c_errstr c)"
    "sockets_ok sys" "c_connection_type c = REDIS_CONN_UNIX \<Longrightarrow> c_path c \<noteq> NULL"
  shows "\<exists>rc c' h' s'. redisReconnect sys c h s = Some (rc, c', h', s') \<and>
    c_host c' = c_host c \<and> c_port c' = c_port c \<and> c_source_addr c' = c_source_addr c \<and> c_path c' = c_path c \<and>
    c_timeout c' = c_timeout c \<and> c_connection_type c' = c_connection_type c \<and> has_flag c' REDIS_BLOCK = has_flag c REDIS_BLOCK \<and>
    buffered c' \<and> pending c' = [] \<and> (\<exists>r'. c_reader c' = Ptr r' \<and> idle r' h' \<and> unread r' = []) \<and>
    (rc = REDIS_OK \<and> has_flag c' REDIS_CONNECTED \<and> 0 \<le> c_fd c' \<and> c_err c' = 0 \<or>
     rc = REDIS_ERR \<and> (c_err c' \<noteq> 0 \<or> has_flag c REDIS_REUSEADDR))"
proof -
  obtain n where n: "c_strlen (c_errstr c) = Some n" "0 \<le> n" "n < 128"
    using assms(4,5) c_strlen_bound [of "c_errstr c"] by (auto simp: c_strlen_def)
  obtain es where es: "mem_write (c_errstr c) 0 (replicate (nat n) NUL) = Some es" "length es = 128"
    using n(2,3) assms(4) by (simp add: mem_write_def)
  obtain h1 where h1: "redisReaderFree r h = Some h1" "heap_ok h1"
    using rd.redisReaderFree_ok [OF assms(2)] by (auto simp: replies_inv_def)
  obtain b where b: "sdsempty (h_env h) = Some (Ptr b)" "sds_ok b" "sds_str b = []"
    using sdsempty_yields [of "h_env h"] sdsempty_plenty [OF assms(3)] by (auto simp: yields_def)
  obtain r1 where r1: "redisReaderCreate (h_env h) = Some (Ptr r1)"
    using b(1) assms(3) by (simp add: redisReaderCreate_def redisReaderCreateWithFunctions_def plenty_def)
  note fresh = created_idle [OF r1 h1(2)]
  define s1 where "s1 = (if c_fd c > 0 then os_close sys (c_fd c) s else s)"
  define c1 where "c1 = c\<lparr>c_err := 0, c_errstr := es, c_obuf := Ptr b, c_reader := Ptr r1\<rparr>"
  define res where "res = (case c_connection_type c1 of
         REDIS_CONN_TCP \<Rightarrow> redisContextConnectBindTcp (h_env h) sys c1 s1 Stored (c_port c1) (stored (c_timeout c1)) (stored (c_source_addr c1))
       | REDIS_CONN_UNIX \<Rightarrow> redisContextConnectUnix (h_env h) sys c1 s1 Stored (stored (c_timeout c1)))"
  have len: "length (c_errstr c1) = 128" using es(2) by (simp add: c1_def)
  have "connect_ok (has_flag c 128) c1 res"
  proof (cases "c_connection_type c1")
    case REDIS_CONN_TCP
    then show ?thesis using reconnect_tcp_ok [OF len assms(6,3) REDIS_CONN_TCP] by (simp add: res_def c1_def has_flag_def)
  next
    case REDIS_CONN_UNIX
    then obtain p where "c_path c1 = Ptr p" using assms(7) by (cases "c_path c") (auto simp: c1_def)
    from reconnect_unix_ok [OF len assms(6) REDIS_CONN_UNIX this] show ?thesis
      using REDIS_CONN_UNIX by (simp add: res_def connect_ok_mono)
  qed
  from connect_okD [OF this] obtain rc c' s' where res: "res = Some (rc, c', s')"
    "rc = 0 \<and> has_flag c' 2 \<and> 0 \<le> c_fd c' \<and> c_err c' = c_err c1 \<or> rc = - 1 \<and> (c_err c' \<noteq> 0 \<or> has_flag c 128)"
    "c_obuf c' = c_obuf c1" "c_reader c' = c_reader c1" "has_flag c' 1 = has_flag c1 1" "c_connection_type c' = c_connection_type c1"
    "c_port c' = c_port c1" "c_host c' = c_host c1" "c_source_addr c' = c_source_addr c1" "c_path c' = c_path c1" "c_timeout c' = c_timeout c1"
    "length (c_errstr c') = 128"
    using len by auto
  have kind: "c_connection_type c = c_connection_type c1" by (simp add: c1_def)
  have "redisReconnect sys c h s = Some (rc, c', h1, s')"
    using n(1) es(1) h1(1) b(1) r1 assms(1) res(1) unfolding res_def
    by (simp add: redisReconnect_def kind s1_def [symmetric] c1_def [symmetric])
  then show ?thesis using res(2-) b(2,3) fresh(1,2) by (simp add: c1_def buffered_def pending_def has_flag_def)
qed

theorem redisReconnect_keeps_witness:
  "\<exists>rc c' h' s'. redisReconnect (demo_os 0) (demo_client\<lparr>c_port := 6379, c_host := Ptr (cstr ''db'')\<rparr>) demo_heap demo_net = Some (rc, c', h', s') \<and>
    c_host c' = Ptr (cstr ''db'') \<and> c_port c' = 6379 \<and> pending c' = []"
proof -
  let ?c = "demo_client\<lparr>c_port := 6379, c_host := Ptr (cstr ''db'')\<rparr>"
  have inv: "rd.reader_inv demo_reader demo_heap" using idle_inv [OF created_idle(1) [OF demo_reader_created demo_heap_ok]] by simp
  have "c_reader ?c = Ptr demo_reader" "plenty (h_env demo_heap)" "length (c_errstr ?c) = 128" "NUL \<in> set (c_errstr ?c)"
    "c_connection_type ?c \<noteq> REDIS_CONN_UNIX"
    by (simp_all add: demo_client_def demo_context_def demo_heap_def zeros_def)
  then show ?thesis
    using redisReconnect_keeps [OF _ inv, of ?c "demo_os 0" demo_net] demo_sockets [of 0]
    by auto
qed

section \<open>Errors\<close>

text \<open>
  The first error of a connection stays: once it is recorded, reading and writing return
  \<open>REDIS_ERR\<close> at once, without a system call and without a change to the context, the heap or the
  buffers, and so does a blocking read of a reply when none is left in the reader.
\<close>

theorem context_error_sticky:
  assumes "c_err c \<noteq> 0" "c_reader c = Ptr r" "idle r h" "unread r = []" "has_flag c REDIS_BLOCK"
  shows "redisBufferRead sys c h s = Some (REDIS_ERR, c, h, s) \<and>
    redisBufferWrite e sys c s d = Some (REDIS_ERR, d, c, s) \<and>
    (\<exists>r'. redisGetReply sys c h s = Some (REDIS_ERR, 0, c\<lparr>c_reader := Ptr r'\<rparr>, h, s) \<and> idle r' h)"
proof -
  obtain r' where r': "redisReaderGetReply r h = Some (0, 0, r', h)" "idle r' h"
    using GetReply_nothing [OF assms(3,4)] by blast
  let ?c = "c\<lparr>c_reader := Ptr r'\<rparr>"
  have "write_loop (h_env h) sys ?c s = Some (- 1, ?c, s)"
    using assms(1) by (subst write_loop.simps) (simp add: redisBufferWrite_def)
  then have "redisGetReply sys c h s = Some (- 1, 0, ?c, h, s)"
    using redisGetReplyFromReader_eq [OF assms(2) r'(1), of sys s] assms(5) by (simp add: redisGetReply_def has_flag_def)
  then show ?thesis using assms(1) r'(2) by (auto simp: redisBufferRead_def redisBufferWrite_def)
qed

theorem context_error_sticky_witness:
  "redisBufferRead (demo_os 0) (demo_client\<lparr>c_err := 3\<rparr>) demo_heap demo_net = Some (REDIS_ERR, demo_client\<lparr>c_err := 3\<rparr>, demo_heap, demo_net)"
proof -
  have "c_reader (demo_client\<lparr>c_err := 3\<rparr>) = Ptr demo_reader" "has_flag (demo_client\<lparr>c_err := 3\<rparr>) 1"
    by (simp_all add: demo_client_def demo_context_def has_flag_def)
  then show ?thesis
    using context_error_sticky [of "demo_client\<lparr>c_err := 3\<rparr>" demo_reader demo_heap "demo_os 0" demo_net demo_env False]
      created_idle [OF demo_reader_created demo_heap_ok] by simp
qed

text \<open>
  When memory is short, \<open>redisConnectNonBlock\<close> returns \<open>NULL\<close>, but \<open>redisConnectBindNonBlock\<close> and
  \<open>redisConnectBindNonBlockWithReuse\<close> write to the context that was not allocated.
\<close>

theorem connect_bind_null:
  "let h = demo_heap\<lparr>h_env := demo_env\<lparr>granted := (\<lambda>n. False)\<rparr>\<rparr> in
    redisConnectNonBlock (demo_os 0) h demo_net (cstr ''db'') 6379 = Some (NULL, h, demo_net) \<and>
    redisConnectBindNonBlock (demo_os 0) h demo_net (cstr ''db'') 6379 (Ptr (cstr ''src'')) = None \<and>
    redisConnectBindNonBlockWithReuse (demo_os 0) h demo_net (cstr ''db'') 6379 (Ptr (cstr ''src'')) = None"
  by (simp add: redisConnectNonBlock_def redisConnectBindNonBlock_def redisConnectBindNonBlockWithReuse_def
      connect_new_def connect_new_unchecked_def redisContextInit_def Let_def)

end
