(* ===== verification/Async_Queue.thy ===== *)
theory Async_Queue
  imports Async Context_Correct
begin

text \<open>
  The two callback lists of an asynchronous context as queues. The lists are linked cells in one
  heap; the theory shows that \<open>__redisPushCallback\<close> and \<open>__redisShiftCallback\<close> implement two
  first-in-first-out queues on it, that they never follow a pointer to a freed cell and that no
  cell is lost.
\<close>

section \<open>The interface of the queues\<close>

datatype 'c queue_op = Enqueue bool 'c | Dequeue bool

text \<open>A sequence of operations with the callbacks it takes out, and the same on lists.\<close>

primrec run_queue :: "(bool \<Rightarrow> 'c \<Rightarrow> 's \<Rightarrow> (int \<times> 's) option) \<Rightarrow> (bool \<Rightarrow> 'c \<Rightarrow> 's \<Rightarrow> (int \<times> 'c \<times> 's) option) \<Rightarrow>
    'c \<Rightarrow> 's \<Rightarrow> 'c queue_op list \<Rightarrow> ('c option list \<times> 's) option" where
  "run_queue push shift t s [] = Some ([], s)"
| "run_queue push shift t s (op # ops) = (case op of
      Enqueue i c \<Rightarrow> do { (rc, s1) \<leftarrow> push i c s; run_queue push shift t s1 ops }
    | Dequeue i \<Rightarrow> do {
        (rc, c, s1) \<leftarrow> shift i t s;
        (outs, s2) \<leftarrow> run_queue push shift c s1 ops;
        Some ((if rc = REDIS_OK then Some c else None) # outs, s2) })"

primrec spec_queue :: "('c \<Rightarrow> 'v) \<Rightarrow> (bool \<Rightarrow> 'v list) \<Rightarrow> 'c queue_op list \<Rightarrow> 'v option list \<times> (bool \<Rightarrow> 'v list)" where
  "spec_queue view q [] = ([], q)"
| "spec_queue view q (op # ops) = (case op of
      Enqueue i c \<Rightarrow> spec_queue view (q(i := q i @ [view c])) ops
    | Dequeue i \<Rightarrow> (case q i of
        [] \<Rightarrow> (case spec_queue view q ops of (outs, q') \<Rightarrow> (None # outs, q'))
      | v # vs \<Rightarrow> (case spec_queue view (q(i := vs)) ops of (outs, q') \<Rightarrow> (Some v # outs, q'))))"

locale callback_queues =
  fixes push :: "bool \<Rightarrow> 'c \<Rightarrow> 's \<Rightarrow> (int \<times> 's) option"
    and shift :: "bool \<Rightarrow> 'c \<Rightarrow> 's \<Rightarrow> (int \<times> 'c \<times> 's) option"
    and rep :: "'s \<Rightarrow> (bool \<Rightarrow> 'v list) \<Rightarrow> bool"
    and room :: "'s \<Rightarrow> bool"
    and view :: "'c \<Rightarrow> 'v"
  assumes push_law: "rep s q \<Longrightarrow> room s \<Longrightarrow>
      \<exists>s'. push i c s = Some (REDIS_OK, s') \<and> rep s' (q(i := q i @ [view c])) \<and> room s'"
    and shift_law: "rep s q \<Longrightarrow> q i = v # vs \<Longrightarrow>
      \<exists>c s'. shift i t s = Some (REDIS_OK, c, s') \<and> view c = v \<and> rep s' (q(i := vs)) \<and> (room s \<longrightarrow> room s')"
    and shift_empty: "rep s q \<Longrightarrow> q i = [] \<Longrightarrow> shift i t s = Some (REDIS_ERR, t, s)"
begin

lemma run_refines:
  assumes "rep s q" "room s"
  shows "\<exists>outs s'. run_queue push shift t s ops = Some (outs, s') \<and>
    map (map_option view) outs = fst (spec_queue view q ops) \<and> rep s' (snd (spec_queue view q ops))"
  using assms
proof (induction ops arbitrary: s q t)
  case (Cons op ops)
  show ?case
  proof (cases op)
    case (Enqueue i c)
    obtain s' where s': "push i c s = Some (REDIS_OK, s')" "rep s' (q(i := q i @ [view c]))" "room s'"
      using push_law [OF Cons.prems] by blast
    have "run_queue push shift t s (op # ops) = run_queue push shift t s' ops"
      "spec_queue view q (op # ops) = spec_queue view (q(i := q i @ [view c])) ops"
      using s'(1) Enqueue by simp_all
    with Cons.IH [OF s'(2,3), of t] show ?thesis by metis
  next
    case (Dequeue i)
    show ?thesis
    proof (cases "q i")
      case Nil
      then show ?thesis using Cons.IH [OF Cons.prems, of t] shift_empty [OF Cons.prems(1) Nil] Dequeue
        by (auto split: prod.splits)
    next
      case (Cons v vs)
      obtain c s' where s': "shift i t s = Some (REDIS_OK, c, s')" "view c = v" "rep s' (q(i := vs))" "room s'"
        using shift_law [OF Cons.prems(1) Cons] Cons.prems(2) by blast
      define q' where "q' = q(i := vs)"
      have "rep s' q'" using s'(3) by (simp add: q'_def)
      then obtain outs s2 where "run_queue push shift c s' ops = Some (outs, s2)"
        "map (map_option view) outs = fst (spec_queue view q' ops)" "rep s2 (snd (spec_queue view q' ops))"
        using Cons.IH [of s' q' c] s'(4) by blast
      moreover have "spec_queue view q (op # ops) = (Some v # fst (spec_queue view q' ops), snd (spec_queue view q' ops))"
        using Dequeue Cons by (simp add: q'_def split_beta)
      ultimately show ?thesis using s'(1,2) Dequeue by simp
    qed
  qed
qed simp

end

section \<open>Linked cells\<close>

definition payload :: "redisCallback \<Rightarrow> int \<times> int" where
  "payload c = (cb_fn c, cb_privdata c)"

primrec linked_cells :: "(int \<Rightarrow> redisCallback option) \<Rightarrow> int \<Rightarrow> int list \<Rightarrow> bool" where
  "linked_cells m a [] \<longleftrightarrow> a = 0"
| "linked_cells m a (x # xs) \<longleftrightarrow> a = x \<and> x \<noteq> 0 \<and> (\<exists>c. m x = Some c \<and> linked_cells m (cb_next c) xs)"

definition list_rep :: "(int \<Rightarrow> redisCallback option) \<Rightarrow> redisCallbackList \<Rightarrow> int list \<Rightarrow> (int \<times> int) list \<Rightarrow> bool" where
  "list_rep m l xs vs \<longleftrightarrow> linked_cells m (l_head l) xs \<and> l_tail l = (if xs = [] then 0 else last xs) \<and>
     map (\<lambda>x. map_option payload (m x)) xs = map Some vs"

lemma linked_frame: "(\<And>x. x \<in> set xs \<Longrightarrow> m' x = m x) \<Longrightarrow> linked_cells m' a xs = linked_cells m a xs"
  by (induction xs arbitrary: a) auto

lemma list_rep_frame: "(\<And>x. x \<in> set xs \<Longrightarrow> m' x = m x) \<Longrightarrow> list_rep m' l xs vs = list_rep m l xs vs"
  using linked_frame [of xs m' m "l_head l"] by (auto simp: list_rep_def cong: map_cong)

lemma list_rep_remove: "a \<notin> set xs \<Longrightarrow> list_rep (m(a := None)) l xs vs = list_rep m l xs vs"
  by (rule list_rep_frame) auto

lemma linked_member: "linked_cells m a xs \<Longrightarrow> x \<in> set xs \<Longrightarrow> x \<noteq> 0 \<and> m x \<noteq> None"
  by (induction xs arbitrary: a) auto

lemma linked_snoc:
  assumes "linked_cells m a xs" "n \<noteq> 0" "n \<notin> set xs" "xs \<noteq> []" "distinct xs" "m (last xs) = Some t" "cb_next c = 0"
  shows "linked_cells (m(n \<mapsto> c, last xs \<mapsto> t\<lparr>cb_next := n\<rparr>)) a (xs @ [n])"
  using assms
proof (induction xs arbitrary: a)
  case (Cons x xs)
  show ?case
  proof (cases xs)
    case Nil
    then show ?thesis using Cons.prems by auto
  next
    case (Cons y ys)
    then have "x \<noteq> last xs" using Cons.prems(5) last_in_set by fastforce
    then show ?thesis using Cons.prems Cons.IH Cons by auto
  qed
qed simp

lemma list_rep_push:
  assumes "list_rep m l xs vs" "n \<noteq> 0" "n \<notin> set xs" "distinct xs" "cb_next c = 0"
  shows "\<exists>m'. (if l_tail l \<noteq> 0 then do { t \<leftarrow> (m(n \<mapsto> c)) (l_tail l); Some ((m(n \<mapsto> c))(l_tail l \<mapsto> t\<lparr>cb_next := n\<rparr>)) }
      else Some (m(n \<mapsto> c))) = Some m' \<and> (\<forall>x. x \<noteq> n \<and> x \<notin> set xs \<longrightarrow> m' x = m x) \<and> dom m' = insert n (dom m) \<and>
    list_rep m' \<lparr>l_head = (if l_head l = 0 then n else l_head l), l_tail = n\<rparr> (xs @ [n]) (vs @ [payload c])"
proof (cases "xs = []")
  case True
  then show ?thesis using assms by (auto simp: list_rep_def)
next
  case False
  note rep = assms(1) [unfolded list_rep_def]
  let ?z = "last xs"
  obtain t where t: "m ?z = Some t" "?z \<noteq> 0" "?z \<in> set xs" using linked_member [of m "l_head l" xs ?z] rep False by auto
  have z: "?z \<noteq> n" using t(3) assms(3) by auto
  let ?m = "m(n \<mapsto> c, ?z \<mapsto> t\<lparr>cb_next := n\<rparr>)"
  have "map (\<lambda>x. map_option payload (?m x)) xs = map (\<lambda>x. map_option payload (m x)) xs"
    using assms(3) t(1) by (auto simp: payload_def)
  moreover have "linked_cells ?m (l_head l) (xs @ [n])"
    using linked_snoc [of m "l_head l" xs n t c] assms(2-5) False t(1) rep by simp
  moreover have "l_head l \<noteq> 0" using rep False by (cases xs) auto
  ultimately have "list_rep ?m \<lparr>l_head = (if l_head l = 0 then n else l_head l), l_tail = n\<rparr> (xs @ [n]) (vs @ [payload c])"
    using rep z by (auto simp: list_rep_def)
  moreover have "dom ?m = insert n (dom m)" using t(1) by auto
  ultimately show ?thesis using rep False t z by (intro exI [of _ ?m]) auto
qed

lemma list_rep_shift:
  assumes "list_rep m l xs (v # vs)" "distinct xs"
  obtains c ys where "xs = l_head l # ys" "l_head l \<noteq> 0" "m (l_head l) = Some c" "payload c = v"
    "list_rep m \<lparr>l_head = cb_next c, l_tail = (if l_head l = l_tail l then 0 else l_tail l)\<rparr> ys vs"
proof -
  obtain x ys where xs: "xs = x # ys" using assms(1) by (cases xs) (auto simp: list_rep_def)
  have "x = last (x # ys) \<longleftrightarrow> ys = []" using assms(2) xs last_in_set [of ys] by auto
  moreover obtain c where "m x = Some c" using assms(1) xs by (auto simp: list_rep_def)
  ultimately show thesis using assms(1) xs by (intro that [of ys c]) (auto simp: list_rep_def)
qed

section \<open>The two lists of a context\<close>

text \<open>Every cell of the heap belongs to exactly one of the two lists.\<close>

definition queues_ok :: "cell_heap \<Rightarrow> (bool \<Rightarrow> redisCallbackList) \<Rightarrow> (bool \<Rightarrow> int list) \<Rightarrow> (bool \<Rightarrow> (int \<times> int) list) \<Rightarrow> bool" where
  "queues_ok m l xs q \<longleftrightarrow> (\<forall>i. list_rep (ch_cells m) (l i) (xs i) (q i) \<and> distinct (xs i) \<and> set (xs i) \<inter> set (xs (\<not> i)) = {}) \<and>
     dom (ch_cells m) = set (xs True) \<union> set (xs False) \<and> 0 < ch_next m \<and> (\<forall>a \<in> dom (ch_cells m). a < ch_next m)"

definition cb_rep :: "'o astate \<Rightarrow> (bool \<Rightarrow> (int \<times> int) list) \<Rightarrow> bool" where
  "cb_rep st q \<longleftrightarrow> \<not> a_freed st \<and> (\<exists>xs. queues_ok (a_cells st) (\<lambda>i. a_list i (ac st)) xs q)"

definition cb_room :: "'o astate \<Rightarrow> bool" where
  "cb_room st \<longleftrightarrow> granted (h_env (a_heap st)) 24"

lemma all_bool: "(\<forall>b. P b) \<longleftrightarrow> P i \<and> P (\<not> i)"
  by (cases i) (auto intro: bool.induct)

lemma both_bool: "set (xs True) \<union> set (xs False) = set (xs i) \<union> set (xs (\<not> i))"
  by (cases i) auto

lemma a_list_set [simp]: "a_list i (set_list i l a) = l" "a_list (\<not> i) (set_list i l a) = a_list (\<not> i) a" "set_list i (a_list i a) a = a"
  by (cases i; simp add: a_list_def set_list_def)+

lemma set_list_keeps [simp]:
  "ac_c (set_list i l a) = ac_c a" "sub_channels (set_list i l a) = sub_channels a" "sub_patterns (set_list i l a) = sub_patterns a"
  "onDisconnect (set_list i l a) = onDisconnect a" "ac_err (set_list i l a) = ac_err a" "ev_cleanup (set_list i l a) = ev_cleanup a"
  by (cases i; simp add: set_list_def)+

lemma push_cb_ok:
  assumes "cb_rep st q" "cb_room st"
  shows "\<exists>l m. push_cb i c st = Some (REDIS_OK, st\<lparr>ac := set_list i l (ac st), a_cells := m\<rparr>) \<and>
    cb_rep (st\<lparr>ac := set_list i l (ac st), a_cells := m\<rparr>) (q(i := q i @ [payload c]))"
proof -
  obtain xs where live: "\<not> a_freed st" and ok: "queues_ok (a_cells st) (\<lambda>i. a_list i (ac st)) xs q"
    using assms(1) by (auto simp: cb_rep_def)
  let ?m = "ch_cells (a_cells st)" and ?n = "ch_next (a_cells st)" and ?l = "a_list i (ac st)" and ?c = "c\<lparr>cb_next := 0\<rparr>"
  note split = ok [unfolded queues_ok_def all_bool [of _ i] both_bool [of xs i]]
  have fresh: "?n \<notin> set (xs i)" "?n \<notin> set (xs (\<not> i))" "?n \<noteq> 0" using split by auto
  obtain m' where m': "(if l_tail ?l \<noteq> 0 then do { t \<leftarrow> (?m(?n \<mapsto> ?c)) (l_tail ?l); Some ((?m(?n \<mapsto> ?c))(l_tail ?l \<mapsto> t\<lparr>cb_next := ?n\<rparr>)) }
      else Some (?m(?n \<mapsto> ?c))) = Some m'" "\<forall>x. x \<noteq> ?n \<and> x \<notin> set (xs i) \<longrightarrow> m' x = ?m x" "dom m' = insert ?n (dom ?m)"
    "list_rep m' \<lparr>l_head = (if l_head ?l = 0 then ?n else l_head ?l), l_tail = ?n\<rparr> (xs i @ [?n]) (q i @ [payload ?c])"
    using list_rep_push [of ?m ?l "xs i" "q i" ?n ?c] split fresh(1,3) by auto
  define l where "l = \<lparr>l_head = (if l_head ?l = 0 then ?n else l_head ?l), l_tail = ?n\<rparr>"
  have "redisPushCallback (h_env (a_heap st)) (a_cells st) ?l c = Some (REDIS_OK, \<lparr>ch_next = ?n + 1, ch_cells = m'\<rparr>, l)"
    using m'(1) assms(2) by (simp add: redisPushCallback_def cb_room_def Let_def l_def)
  then have "push_cb i c st = Some (REDIS_OK, st\<lparr>ac := set_list i l (ac st), a_cells := \<lparr>ch_next = ?n + 1, ch_cells = m'\<rparr>\<rparr>)"
    using live by (simp add: push_cb_def alive_def)
  moreover have "m' x = ?m x" if "x \<in> set (xs (\<not> i))" for x
  proof -
    have "x \<notin> set (xs i)" using that split by blast
    then show ?thesis using that m'(2) fresh(2) by metis
  qed
  from list_rep_frame [of "xs (\<not> i)" m' ?m, OF this] split
  have "list_rep m' (a_list (\<not> i) (ac st)) (xs (\<not> i)) (q (\<not> i))" by auto
  then have "queues_ok \<lparr>ch_next = ?n + 1, ch_cells = m'\<rparr> (\<lambda>j. a_list j (set_list i l (ac st))) (xs(i := xs i @ [?n])) (q(i := q i @ [payload c]))"
    using split m'(3,4) fresh unfolding queues_ok_def all_bool [of _ i] both_bool [of _ i]
    by (auto simp: l_def payload_def less_imp_le)
  ultimately show ?thesis using live by (auto simp: cb_rep_def)
qed

lemma shift_cb_ok:
  assumes "cb_rep st q" "q i = v # vs"
  shows "\<exists>c l m. shift_cb i t st = Some (REDIS_OK, c, st\<lparr>ac := set_list i l (ac st), a_cells := m\<rparr>) \<and> payload c = v \<and>
    cb_rep (st\<lparr>ac := set_list i l (ac st), a_cells := m\<rparr>) (q(i := vs))"
proof -
  obtain xs where live: "\<not> a_freed st" and ok: "queues_ok (a_cells st) (\<lambda>i. a_list i (ac st)) xs q"
    using assms(1) by (auto simp: cb_rep_def)
  let ?m = "ch_cells (a_cells st)" and ?l = "a_list i (ac st)"
  note split = ok [unfolded queues_ok_def all_bool [of _ i] both_bool [of xs i]]
  have rep: "list_rep ?m ?l (xs i) (v # vs)" "distinct (xs i)" using split assms(2) by auto
  obtain c ys where c: "xs i = l_head ?l # ys" "l_head ?l \<noteq> 0" "?m (l_head ?l) = Some c" "payload c = v"
    "list_rep ?m \<lparr>l_head = cb_next c, l_tail = (if l_head ?l = l_tail ?l then 0 else l_tail ?l)\<rparr> ys vs"
    by (rule list_rep_shift [OF rep])
  define l where "l = \<lparr>l_head = cb_next c, l_tail = (if l_head ?l = l_tail ?l then 0 else l_tail ?l)\<rparr>"
  define m where "m = (a_cells st)\<lparr>ch_cells := ?m(l_head ?l := None)\<rparr>"
  have "redisShiftCallback (a_cells st) ?l t = Some (REDIS_OK, c, m, l)"
    using c(2,3) by (simp add: redisShiftCallback_def l_def m_def)
  then have "shift_cb i t st = Some (REDIS_OK, c, st\<lparr>ac := set_list i l (ac st), a_cells := m\<rparr>)"
    using live by (simp add: shift_cb_def alive_def)
  moreover have out: "l_head ?l \<notin> set ys" "l_head ?l \<notin> set (xs (\<not> i))" using c(1) rep(2) split by auto
  from list_rep_remove [OF out(1), of ?m] list_rep_remove [OF out(2), of ?m] c(5) split
  have "list_rep (ch_cells m) l ys vs" "list_rep (ch_cells m) (a_list (\<not> i) (ac st)) (xs (\<not> i)) (q (\<not> i))"
    by (simp_all add: l_def m_def)
  then have "queues_ok m (\<lambda>j. a_list j (set_list i l (ac st))) (xs(i := ys)) (q(i := vs))"
    using split c(1) rep(2) unfolding queues_ok_def all_bool [of _ i] both_bool [of _ i]
    by (auto simp: m_def)
  ultimately show ?thesis using live c(4) by (auto simp: cb_rep_def)
qed

lemma shift_cb_empty:
  assumes "cb_rep st q" "q i = []"
  shows "shift_cb i t st = Some (REDIS_ERR, t, st)"
proof -
  obtain xs where "\<not> a_freed st" "list_rep (ch_cells (a_cells st)) (a_list i (ac st)) xs (q i)"
    using assms(1) unfolding cb_rep_def queues_ok_def by blast
  then have "\<not> a_freed st" "list_rep (ch_cells (a_cells st)) (a_list i (ac st)) xs []" using assms(2) by simp_all
  then have "\<not> a_freed st" "l_head (a_list i (ac st)) = 0" by (auto simp: list_rep_def)
  then show ?thesis by (simp add: shift_cb_def alive_def redisShiftCallback_def)
qed

lemma queue_head: "cb_rep st q \<Longrightarrow> l_head (a_list i (ac st)) = 0 \<longleftrightarrow> q i = []"
proof -
  assume "cb_rep st q"
  then obtain xs where "list_rep (ch_cells (a_cells st)) (a_list i (ac st)) xs (q i)"
    unfolding cb_rep_def queues_ok_def by blast
  then show ?thesis by (cases xs; cases "q i") (auto simp: list_rep_def)
qed

interpretation cq: callback_queues push_cb shift_cb cb_rep cb_room payload
proof
  fix s :: "'o astate" and q i c t and v :: "int \<times> int" and vs
  show "\<exists>s'. push_cb i c s = Some (0, s') \<and> cb_rep s' (q(i := q i @ [payload c])) \<and> cb_room s'" if "cb_rep s q" "cb_room s"
    using push_cb_ok [OF that, of i c] that(2) by (auto simp: cb_room_def)
  show "\<exists>c s'. shift_cb i t s = Some (0, c, s') \<and> payload c = v \<and> cb_rep s' (q(i := vs)) \<and> (cb_room s \<longrightarrow> cb_room s')"
    if "cb_rep s q" "q i = v # vs"
    using shift_cb_ok [OF that, of t] by (fastforce simp: cb_room_def)
  show "shift_cb i t s = Some (- 1, t, s)" if "cb_rep s q" "q i = []"
    by (rule shift_cb_empty [OF that])
qed

text \<open>
  C30. The two callback lists are queues: any sequence of pushes and shifts on the linked cells
  takes out exactly the callbacks that the same sequence takes out of two lists, first in first
  out; a shift on an empty list reports it and changes nothing. No operation follows a pointer to a
  freed cell, and at the end the cells on the heap are again those of the two lists, so that
  none leaks.
\<close>

theorem callback_fifo_refines:
  assumes "cb_rep st q" "cb_room st"
  shows "\<exists>outs st'. run_queue push_cb shift_cb t st ops = Some (outs, st') \<and>
    map (map_option payload) outs = fst (spec_queue payload q ops) \<and> cb_rep st' (snd (spec_queue payload q ops))"
  by (rule cq.run_refines [OF assms])

text \<open>A connected context with empty lists and tables, for concrete runs.\<close>

definition demo_table :: callback_dict where
  "demo_table = \<lparr>ht_table = NULL, dtype = callbackDict, ht_size = 0, ht_sizemask = 0, ht_used = 0\<rparr>"

definition demo_async :: "net_state astate" where
  "demo_async = \<lparr>ac = \<lparr>ac_c = demo_client\<lparr>c_flags := 2\<rparr>, ac_err = 0, ac_errstr = False, ac_data = 0, ev_data = 0,
     ev_addRead = True, ev_delRead = True, ev_addWrite = True, ev_delWrite = True, ev_cleanup = True,
     onDisconnect = 0, onConnect = 0, ac_replies = \<lparr>l_head = 0, l_tail = 0\<rparr>, sub_invalid = \<lparr>l_head = 0, l_tail = 0\<rparr>,
     sub_channels = demo_table, sub_patterns = demo_table\<rparr>, a_freed = False, a_heap = demo_heap, a_os = demo_net,
     a_cells = \<lparr>ch_next = 1, ch_cells = Map.empty\<rparr>, a_log = []\<rparr>"

lemma demo_async_rep: "cb_rep demo_async (\<lambda>i. [])" "cb_room demo_async"
  by (auto simp: cb_rep_def queues_ok_def list_rep_def demo_async_def a_list_def cb_room_def demo_heap_def demo_env_def
      intro!: exI [of _ "\<lambda>i. []"])

theorem callback_fifo_refines_witness:
  "\<exists>outs st'. run_queue push_cb shift_cb \<lparr>cb_next = 0, cb_fn = 0, cb_privdata = 0\<rparr> demo_async
      [Enqueue True \<lparr>cb_next = 0, cb_fn = 1, cb_privdata = 10\<rparr>, Enqueue False \<lparr>cb_next = 0, cb_fn = 2, cb_privdata = 20\<rparr>,
       Enqueue True \<lparr>cb_next = 0, cb_fn = 3, cb_privdata = 30\<rparr>, Dequeue True, Dequeue False, Dequeue False] = Some (outs, st') \<and>
    map (map_option payload) outs = [Some (1, 10), Some (2, 20), None]"
  using callback_fifo_refines [OF demo_async_rep] by (fastforce simp: payload_def)

end
