(* ===== verification/Async_Correct.thy ===== *)
theory Async_Correct
  imports Async_Queue
begin

text \<open>
  The asynchronous client from the outside: every reply goes to the callback of its command, in the
  order of the commands; freeing a context runs every callback that still waits, once; a context
  that is going away takes no commands.

  The user's callbacks are any function that keeps to what the theorem allows it.
\<close>

section \<open>Frames\<close>

lemma cb_rep_cong:
  assumes "a_freed st' = a_freed st" "a_cells st' = a_cells st" "ac_replies (ac st') = ac_replies (ac st)" "sub_invalid (ac st') = sub_invalid (ac st)"
  shows "cb_rep st' q = cb_rep st q"
proof -
  have "(\<lambda>i. a_list i (ac st')) = (\<lambda>i. a_list i (ac st))" using assms(3,4) by (simp add: a_list_def fun_eq_iff)
  then show ?thesis using assms(1,2) by (simp add: cb_rep_def)
qed

lemma upd_c_fields [simp]:
  "a_freed (upd_c f st) = a_freed st" "a_heap (upd_c f st) = a_heap st" "a_os (upd_c f st) = a_os st"
  "a_cells (upd_c f st) = a_cells st" "a_log (upd_c f st) = a_log st" "ac_c (ac (upd_c f st)) = f (ac_c (ac st))"
  "ac_replies (ac (upd_c f st)) = ac_replies (ac st)" "sub_invalid (ac (upd_c f st)) = sub_invalid (ac st)"
  "sub_channels (ac (upd_c f st)) = sub_channels (ac st)" "sub_patterns (ac (upd_c f st)) = sub_patterns (ac st)"
  "onDisconnect (ac (upd_c f st)) = onDisconnect (ac st)" "ev_cleanup (ac (upd_c f st)) = ev_cleanup (ac st)"
  "ac_err (ac (upd_c f st)) = ac_err (ac st)"
  by (simp_all add: upd_c_def)

lemma note_call_fields [simp]:
  "a_freed (note_call ev st) = a_freed st" "a_heap (note_call ev st) = a_heap st" "a_os (note_call ev st) = a_os st"
  "a_cells (note_call ev st) = a_cells st" "a_log (note_call ev st) = a_log st @ [ev]" "ac (note_call ev st) = ac st"
  by (simp_all add: note_call_def)

lemma cb_rep_frames [simp]:
  "cb_rep (upd_c f st) q = cb_rep st q" "cb_rep (note_call ev st) q = cb_rep st q"
  "cb_rep (st\<lparr>a_heap := h\<rparr>) q = cb_rep st q" "cb_rep (st\<lparr>a_os := s\<rparr>) q = cb_rep st q"
  by (rule cb_rep_cong; simp)+

lemma flag_fields [simp]:
  "c_reader (set_flag f c) = c_reader c" "c_reader (clear_flag f c) = c_reader c"
  "c_obuf (set_flag f c) = c_obuf c" "c_obuf (clear_flag f c) = c_obuf c" "c_fd (set_flag f c) = c_fd c" "c_fd (clear_flag f c) = c_fd c"
  "c_err (set_flag f c) = c_err c" "c_err (clear_flag f c) = c_err c"
  by (simp_all add: set_flag_def clear_flag_def)

lemma flag_once:
  assumes "\<not> has_flag c 16"
  shows "(c_flags c OR 16) AND - 17 = c_flags c"
proof (rule bit_eqI)
  fix n
  have "bit (16::int) n \<longleftrightarrow> n = 4" using bit_exp_iff [of 4 n] by (auto simp: possible_bit_def)
  moreover have "bit (- 17 :: int) n \<longleftrightarrow> \<not> bit (16::int) n" using bit_not_int_iff [of 16 n] by simp
  ultimately show "bit ((c_flags c OR 16) AND - 17) n = bit (c_flags c) n"
    using assms by (auto simp: bit_or_iff bit_and_iff flag_simps)
qed

text \<open>The calls of reply callbacks in the log.\<close>

fun is_run :: "outcall \<Rightarrow> bool" where
  "is_run (RunCallback f a p h) = True"
| "is_run _ = False"

abbreviation runs :: "outcall list \<Rightarrow> outcall list" where
  "runs log \<equiv> filter is_run log"

lemma idle_heap: "idle r h \<Longrightarrow> heap_ok h' \<Longrightarrow> idle r h'"
  by (auto simp: idle_def rd.live_def open_arrays_def replies_inv_def)

section \<open>Receiving replies\<close>

text \<open>A context whose reader is between two replies and still has \<open>input\<close> to read.\<close>

definition receiving :: "'o astate \<Rightarrow> (bool \<Rightarrow> (int \<times> int) list) \<Rightarrow> bytes \<Rightarrow> bool" where
  "receiving st q input \<longleftrightarrow> cb_rep st q \<and> plenty (h_env (a_heap st)) \<and>
     (\<exists>r. c_reader (ac_c (ac st)) = Ptr r \<and> idle r (a_heap st) \<and> unread r = input)"

abbreviation flags_of :: "'o astate \<Rightarrow> int" where
  "flags_of st \<equiv> c_flags (ac_c (ac st))"

text \<open>What the end of a context depends on, besides the callbacks and the reader.\<close>

definition same_end :: "'o astate \<Rightarrow> 'o astate \<Rightarrow> bool" where
  "same_end st st' \<longleftrightarrow> sub_channels (ac st') = sub_channels (ac st) \<and> sub_patterns (ac st') = sub_patterns (ac st) \<and>
     onDisconnect (ac st') = onDisconnect (ac st) \<and> ev_cleanup (ac st') = ev_cleanup (ac st) \<and>
     c_err (ac_c (ac st')) = c_err (ac_c (ac st)) \<and> c_obuf (ac_c (ac st')) = c_obuf (ac_c (ac st))"

lemma same_end_trans [trans]: "same_end st st' \<Longrightarrow> same_end st' st'' \<Longrightarrow> same_end st st''"
  by (simp add: same_end_def)

lemma get_reply_next:
  assumes "receiving st q (encode v @ rest)" "rval_ok v" "depth v \<le> 8"
  shows "\<exists>st' a. get_reply sys st = Some (REDIS_OK, a, st') \<and> a \<noteq> 0 \<and> receiving st' q rest \<and> represents v (a_heap st') a \<and>
    (\<forall>b. \<not> kid_of (a_heap st') b a) \<and> flags_of st' = flags_of st \<and> a_log st' = a_log st \<and> same_end st st'"
proof -
  obtain r where r: "c_reader (ac_c (ac st)) = Ptr r" "idle r (a_heap st)" "unread r = encode v @ rest"
    and st: "cb_rep st q" "plenty (h_env (a_heap st))" using assms(1) by (auto simp: receiving_def)
  let ?a = "h_next (a_heap st)" and ?c = "ac_c (ac st)"
  obtain r' h' where g: "redisReaderGetReply r (a_heap st) = Some (REDIS_OK, ?a, r', h')" "idle r' h'" "unread r' = rest"
    "represents v h' ?a" "?a \<noteq> 0" "h_env h' = h_env (a_heap st)" "\<forall>b < ?a. h_objs h' b = h_objs (a_heap st) b"
    using GetReply_parses [OF r(2) st(2) assms(2,3) r(3)] by blast
  have "\<not> kid_of h' b ?a" for b
  proof
    assume k: "kid_of h' b ?a"
    then have "b < ?a" using kid_greater [OF idle_heap_ok [OF g(2)]] by blast
    then have "kid_of (a_heap st) b ?a" using k g(7) by (simp add: kid_of_def)
    then show False using fresh_not_kid [OF idle_heap_ok [OF r(2)]] by blast
  qed
  moreover have "redisGetReply sys ?c (a_heap st) (a_os st) = Some (REDIS_OK, ?a, ?c\<lparr>c_reader := Ptr r'\<rparr>, h', a_os st)"
    using redisGetReplyFromReader_eq [OF r(1) g(1), of sys "a_os st"] g(5) by (simp add: redisGetReply_def)
  moreover have "\<not> a_freed st" using st(1) by (simp add: cb_rep_def)
  ultimately show ?thesis
    using st g(2-6) by (simp add: get_reply_def alive_def receiving_def same_end_def)
qed

lemma get_reply_none:
  assumes "receiving st q []" "\<not> has_flag (ac_c (ac st)) REDIS_BLOCK"
  shows "\<exists>st'. get_reply sys st = Some (REDIS_OK, 0, st') \<and> receiving st' q [] \<and> flags_of st' = flags_of st \<and> a_log st' = a_log st \<and> same_end st st'"
proof -
  obtain r where r: "c_reader (ac_c (ac st)) = Ptr r" "idle r (a_heap st)" "unread r = []"
    and st: "cb_rep st q" "plenty (h_env (a_heap st))" using assms(1) by (auto simp: receiving_def)
  let ?c = "ac_c (ac st)"
  obtain r' where g: "redisReaderGetReply r (a_heap st) = Some (REDIS_OK, 0, r', a_heap st)" "idle r' (a_heap st)" "unread r' = []"
    using GetReply_nothing [OF r(2,3)] by blast
  have "redisGetReply sys ?c (a_heap st) (a_os st) = Some (REDIS_OK, 0, ?c\<lparr>c_reader := Ptr r'\<rparr>, a_heap st, a_os st)"
    using redisGetReplyFromReader_eq [OF r(1) g(1), of sys "a_os st"] assms(2) by (simp add: redisGetReply_def has_flag_def)
  moreover have "\<not> a_freed st" using st(1) by (simp add: cb_rep_def)
  ultimately show ?thesis using st g(2,3) by (simp add: get_reply_def alive_def receiving_def same_end_def)
qed

section \<open>Delivering replies\<close>

text \<open>
  Callbacks that may issue more commands, which adds callbacks behind the waiting ones, and do
  nothing else to the context. Without \<open>grow\<close> they do not even that.
\<close>

definition may_issue :: "bool \<Rightarrow> 'o user \<Rightarrow> bool" where
  "may_issue grow user \<longleftrightarrow> (\<forall>ev st q input. receiving st q input \<longrightarrow>
     (\<exists>st' more. user ev st = Some st' \<and> receiving st' (q(True := q True @ more)) input \<and> a_heap st' = a_heap st \<and>
        flags_of st' = flags_of st \<and> runs (a_log st') = runs (a_log st) \<and> (grow \<or> more = [] \<and> same_end st st')))"

lemma free_reply_receiving:
  assumes "receiving st q input" "h_objs (a_heap st) a \<noteq> None" "\<And>b. \<not> kid_of (a_heap st) b a"
  shows "\<exists>st'. free_reply_object st a = Some st' \<and> receiving st' q input \<and> ac st' = ac st \<and> a_log st' = a_log st"
proof -
  obtain r where r: "c_reader (ac_c (ac st)) = Ptr r" "idle r (a_heap st)" "unread r = input"
    and st: "cb_rep st q" "plenty (h_env (a_heap st))" using assms(1) by (auto simp: receiving_def)
  let ?h = "without (a_heap st) (tree_of (a_heap st) a)"
  note hok = idle_heap_ok [OF r(2)]
  have "fn_of r freeObject = Some freeReplyObject" using rd.liveD(1) [of r "a_heap st"] r(2) by (simp add: idle_def fn_of_def defaultFunctions_def)
  then have "free_reply_object st a = Some (st\<lparr>a_heap := ?h\<rparr>)"
    using r(1) freeReplyObject_eq [OF hok assms(2)] st(1) by (simp add: free_reply_object_def alive_def cb_rep_def)
  moreover have "idle r ?h" by (rule idle_heap [OF r(2) heap_ok_without [OF hok assms(3)]])
  moreover have "h_env ?h = h_env (a_heap st)" by (simp add: without_def)
  ultimately show ?thesis using r(1,3) st by (simp add: receiving_def)
qed

lemma run_callback_issue:
  assumes "receiving st q input" "may_issue grow user" "\<not> has_flag (ac_c (ac st)) REDIS_IN_CALLBACK" "cb_fn c \<noteq> 0"
  shows "\<exists>st' more. redisRunCallback user st c a = Some st' \<and> receiving st' (q(True := q True @ more)) input \<and>
    a_heap st' = a_heap st \<and> flags_of st' = flags_of st \<and> (grow \<or> more = [] \<and> same_end st st') \<and>
    runs (a_log st') = runs (a_log st) @ [RunCallback (cb_fn c) a (cb_privdata c) (a_heap st)]"
proof -
  let ?ev = "RunCallback (cb_fn c) a (cb_privdata c) (a_heap st)" and ?st = "upd_c (set_flag REDIS_IN_CALLBACK) st"
  have "receiving (note_call ?ev ?st) q input" using assms(1) by (simp add: receiving_def)
  then obtain st1 more where u: "user ?ev (note_call ?ev ?st) = Some st1" "receiving st1 (q(True := q True @ more)) input"
    "a_heap st1 = a_heap st" "flags_of st1 = flags_of ?st" "runs (a_log st1) = runs (a_log st) @ [?ev]"
    "grow \<or> more = [] \<and> same_end (note_call ?ev ?st) st1"
    using assms(2) unfolding may_issue_def by fastforce
  let ?st' = "upd_c (clear_flag REDIS_IN_CALLBACK) st1"
  have "\<not> a_freed st" "\<not> a_freed st1" using assms(1) u(2) by (auto simp: receiving_def cb_rep_def)
  then have "redisRunCallback user st c a = Some ?st'"
    using u(1) assms(4) by (simp add: redisRunCallback_def call_user_def alive_def)
  moreover have "receiving ?st' (q(True := q True @ more)) input" using u(2) by (simp add: receiving_def)
  moreover have "flags_of ?st' = flags_of st"
    using u(4) flag_once [OF assms(3)] by (simp add: set_flag_def clear_flag_def)
  moreover have "grow \<or> more = [] \<and> same_end st ?st'" using u(6) by (auto simp: same_end_def)
  ultimately show ?thesis using u(3,5) by auto
qed

lemma deliver_issue:
  assumes "receiving st q input" "may_issue grow user" "\<not> has_flag (ac_c (ac st)) REDIS_IN_CALLBACK" "\<not> has_flag (ac_c (ac st)) REDIS_FREEING"
    "cb_fn c \<noteq> 0" "h_objs (a_heap st) a \<noteq> None" "\<And>b. \<not> kid_of (a_heap st) b a"
  shows "\<exists>st' more. deliver user sys c a st = Some (Inr (c, st')) \<and> receiving st' (q(True := q True @ more)) input \<and>
    flags_of st' = flags_of st \<and> (grow \<or> more = [] \<and> same_end st st') \<and>
    runs (a_log st') = runs (a_log st) @ [RunCallback (cb_fn c) a (cb_privdata c) (a_heap st)]"
proof -
  obtain st1 more where u: "redisRunCallback user st c a = Some st1" "receiving st1 (q(True := q True @ more)) input"
    "a_heap st1 = a_heap st" "flags_of st1 = flags_of st" "grow \<or> more = [] \<and> same_end st st1"
    "runs (a_log st1) = runs (a_log st) @ [RunCallback (cb_fn c) a (cb_privdata c) (a_heap st)]"
    using run_callback_issue [OF assms(1-3,5)] by blast
  obtain st2 where f: "free_reply_object st1 a = Some st2" "receiving st2 (q(True := q True @ more)) input" "ac st2 = ac st1" "a_log st2 = a_log st1"
    using free_reply_receiving [OF u(2), of a] assms(6,7) u(3) by metis
  have "\<not> has_flag (ac_c (ac st2)) REDIS_FREEING" using assms(4) u(4) f(3) by (simp add: has_flag_def)
  then have "deliver user sys c a st = Some (Inr (c, st2))" using u(1) f(1) assms(5) by (simp add: deliver_def)
  moreover have "grow \<or> more = [] \<and> same_end st st2" using u(5) f(3) by (auto simp: same_end_def)
  ultimately show ?thesis using f(2-4) u(4,6) by auto
qed

text \<open>A context outside of a callback, not blocking and not about to be freed.\<close>

definition awake :: "'o astate \<Rightarrow> bool" where
  "awake st \<longleftrightarrow> \<not> has_flag (ac_c (ac st)) REDIS_BLOCK \<and> \<not> has_flag (ac_c (ac st)) REDIS_FREEING \<and> \<not> has_flag (ac_c (ac st)) REDIS_IN_CALLBACK"

lemma awake_flags: "flags_of st' = flags_of st \<Longrightarrow> awake st' = awake st"
  by (simp add: awake_def has_flag_def)

text \<open>The event is the call of the given callback with a reply that represents \<open>v\<close>.\<close>

definition delivered :: "outcall \<Rightarrow> (int \<times> int) \<times> rval \<Rightarrow> bool" where
  "delivered ev cv \<longleftrightarrow> (\<exists>a h. ev = RunCallback (fst (fst cv)) a (snd (fst cv)) h \<and> represents (snd cv) h a)"

lemma shift_receiving:
  assumes "receiving st q input" "q i = v # vs"
  shows "\<exists>c st'. shift_cb i t st = Some (REDIS_OK, c, st') \<and> payload c = v \<and> receiving st' (q(i := vs)) input \<and>
    a_heap st' = a_heap st \<and> flags_of st' = flags_of st \<and> a_log st' = a_log st \<and> same_end st st'"
proof -
  have "cb_rep st q" using assms(1) by (simp add: receiving_def)
  from shift_cb_ok [OF this assms(2), of t] show ?thesis using assms(1) by (fastforce simp: receiving_def same_end_def)
qed

lemma step_delivers:
  assumes "receiving st q (encode v @ rest)" "awake st" "may_issue grow user" "rval_ok v" "depth v \<le> 8" "q True = cb # cbs" "fst cb \<noteq> 0"
  shows "\<exists>c st' more ev. callback_loop user sys t st = callback_loop user sys c st' \<and> receiving st' (q(True := cbs @ more)) rest \<and>
    flags_of st' = flags_of st \<and> (grow \<or> more = [] \<and> same_end st st') \<and> runs (a_log st') = runs (a_log st) @ [ev] \<and> delivered ev (cb, v)"
proof -
  obtain st1 a where g: "get_reply sys st = Some (REDIS_OK, a, st1)" "a \<noteq> 0" "receiving st1 q rest" "represents v (a_heap st1) a"
    "\<And>b. \<not> kid_of (a_heap st1) b a" "flags_of st1 = flags_of st" "a_log st1 = a_log st" "same_end st st1"
    using get_reply_next [OF assms(1,4,5), of sys] by blast
  obtain c st2 where sh: "shift_cb True t st1 = Some (REDIS_OK, c, st2)" "payload c = cb" "receiving st2 (q(True := cbs)) rest"
    "a_heap st2 = a_heap st1" "flags_of st2 = flags_of st1" "a_log st2 = a_log st1" "same_end st1 st2"
    using shift_receiving [OF g(3) assms(6), of t] by blast
  have "awake st2" using assms(2) awake_flags [of st2 st] g(6) sh(5) by simp
  then have calm: "\<not> has_flag (ac_c (ac st2)) REDIS_IN_CALLBACK" "\<not> has_flag (ac_c (ac st2)) REDIS_FREEING" by (simp_all add: awake_def)
  have fn: "cb_fn c \<noteq> 0" using sh(2) assms(7) by (auto simp: payload_def)
  obtain st3 more where d: "deliver user sys c a st2 = Some (Inr (c, st3))"
    "receiving st3 ((q(True := cbs))(True := (q(True := cbs)) True @ more)) rest" "flags_of st3 = flags_of st2"
    "grow \<or> more = [] \<and> same_end st2 st3"
    "runs (a_log st3) = runs (a_log st2) @ [RunCallback (cb_fn c) a (cb_privdata c) (a_heap st2)]"
    using deliver_issue [OF sh(3) assms(3) calm fn, of a sys] represents_allocated [OF g(4)] sh(4) g(5) by metis
  have "reply_step user sys t a st1 = Some (Inr (c, st3))" using sh(1) d(1) by (simp add: reply_step_def)
  then have "callback_loop user sys t st = callback_loop user sys c st3" using g(1,2) by (subst callback_loop.simps) simp
  moreover have "receiving st3 (q(True := cbs @ more)) rest" using d(2) by simp
  moreover have "delivered (RunCallback (cb_fn c) a (cb_privdata c) (a_heap st2)) (cb, v)"
    using g(4) sh(2,4) by (auto simp: delivered_def payload_def)
  moreover have "grow \<or> more = [] \<and> same_end st st3" using d(4) g(8) sh(7) same_end_trans by blast
  moreover have "flags_of st3 = flags_of st" using d(3) sh(5) g(6) by simp
  moreover have "runs (a_log st3) = runs (a_log st) @ [RunCallback (cb_fn c) a (cb_privdata c) (a_heap st2)]" using d(5) sh(6) g(7) by simp
  ultimately show ?thesis by blast
qed

lemma loop_delivers:
  assumes "receiving st q (concat (map encode vs))" "awake st" "may_issue grow user" "list_all (\<lambda>v. rval_ok v \<and> depth v \<le> 8) vs"
    "q True = cbs @ rest" "length cbs = length vs" "list_all (\<lambda>cb. fst cb \<noteq> 0) cbs"
  shows "\<exists>c st' evs more. callback_loop user sys t st = callback_loop user sys c st' \<and> receiving st' (q(True := rest @ more)) [] \<and>
    flags_of st' = flags_of st \<and> (grow \<or> more = [] \<and> same_end st st') \<and> runs (a_log st') = runs (a_log st) @ evs \<and>
    list_all2 delivered evs (zip cbs vs)"
  using assms(1,2,4-7)
proof (induction vs arbitrary: st q t cbs rest)
  case Nil
  moreover have "q(True := rest @ []) = q" using Nil.prems(4,5) by (simp add: fun_upd_idem)
  ultimately show ?case by (intro exI [of _ t] exI [of _ st] exI [of _ "[]"]) (auto simp: same_end_def)
next
  case (Cons v vs)
  obtain cb cbs' where cbs: "cbs = cb # cbs'" "length cbs' = length vs" using Cons.prems(5) by (cases cbs) auto
  have "receiving st q (encode v @ concat (map encode vs))" using Cons.prems(1) by simp
  moreover have "q True = cb # cbs' @ rest" using Cons.prems(4) cbs(1) by simp
  ultimately obtain c st2 more ev where step: "callback_loop user sys t st = callback_loop user sys c st2"
    "receiving st2 (q(True := (cbs' @ rest) @ more)) (concat (map encode vs))" "flags_of st2 = flags_of st"
    "grow \<or> more = [] \<and> same_end st st2" "runs (a_log st2) = runs (a_log st) @ [ev]" "delivered ev (cb, v)"
    using step_delivers [of st q v "concat (map encode vs)" grow user cb "cbs' @ rest" sys t] Cons.prems(2,3,6) assms(3) cbs(1) by auto
  have oks: "list_all (\<lambda>v. rval_ok v \<and> depth v \<le> 8) vs" "list_all (\<lambda>cb. fst cb \<noteq> 0) cbs'" "awake st2"
    using Cons.prems(2,3,6) cbs(1) awake_flags [OF step(3)] by simp_all
  define q' where "q' = q(True := (cbs' @ rest) @ more)"
  have q': "q' True = cbs' @ rest @ more" "\<And>xs. q'(True := xs) = q(True := xs)" by (simp_all add: q'_def)
  obtain c' st' evs more' where "callback_loop user sys c st2 = callback_loop user sys c' st'"
    "receiving st' (q'(True := (rest @ more) @ more')) []" "flags_of st' = flags_of st2" "grow \<or> more' = [] \<and> same_end st2 st'"
    "runs (a_log st') = runs (a_log st2) @ evs" "list_all2 delivered evs (zip cbs' vs)"
    using Cons.IH [of st2 q' cbs' "rest @ more" c] step(2) [folded q'_def] q'(1) cbs(2) oks by blast
  note ih = this [unfolded q'(2)]
  have "callback_loop user sys t st = callback_loop user sys c' st'" using step(1) ih(1) by simp
  moreover have "receiving st' (q(True := rest @ more @ more')) []" using ih(2) by simp
  moreover have "runs (a_log st') = runs (a_log st) @ ev # evs" using ih(5) step(5) by simp
  moreover have "list_all2 delivered (ev # evs) (zip cbs (v # vs))" using ih(6) step(6) cbs(1) by simp
  moreover have "grow \<or> more @ more' = [] \<and> same_end st st'" using step(4) ih(4) same_end_trans by auto
  ultimately show ?case using ih(3) step(3) by metis
qed

lemma process_delivers:
  assumes "receiving st q (concat (map encode vs))" "awake st" "may_issue True user" "list_all (\<lambda>v. rval_ok v \<and> depth v \<le> 8) vs"
    "q True = cbs @ rest" "length cbs = length vs" "list_all (\<lambda>cb. fst cb \<noteq> 0) cbs"
    "\<not> has_flag (ac_c (ac st)) REDIS_DISCONNECTING" "\<not> has_flag (ac_c (ac st)) REDIS_MONITORING"
  shows "\<exists>st' evs more. redisProcessCallbacks user sys st = Some st' \<and> runs (a_log st') = runs (a_log st) @ evs \<and>
    list_all2 delivered evs (zip cbs vs) \<and> receiving st' (q(True := rest @ more)) [] \<and> flags_of st' = flags_of st"
proof -
  obtain c st1 evs more where loop: "redisProcessCallbacks user sys st = callback_loop user sys c st1" "receiving st1 (q(True := rest @ more)) []"
    "flags_of st1 = flags_of st" "runs (a_log st1) = runs (a_log st) @ evs" "list_all2 delivered evs (zip cbs vs)"
    using loop_delivers [OF assms(1-7), of sys] unfolding redisProcessCallbacks_def by blast
  have "\<not> has_flag (ac_c (ac st1)) REDIS_BLOCK" using assms(2) loop(3) by (simp add: awake_def has_flag_def)
  then obtain st' where g: "get_reply sys st1 = Some (REDIS_OK, 0, st')" "receiving st' (q(True := rest @ more)) []" "flags_of st' = flags_of st1"
    "a_log st' = a_log st1"
    using get_reply_none [OF loop(2), of sys] by blast
  have "no_reply user sys c st' = Some st'" using assms(8,9) g(3) loop(3) by (simp add: no_reply_def has_flag_def)
  then have "callback_loop user sys c st1 = Some st'" using g(1) by (subst callback_loop.simps) simp
  moreover have "flags_of st' = flags_of st" "runs (a_log st') = runs (a_log st) @ evs" using g(3,4) loop(3,4) by simp_all
  ultimately show ?thesis using loop(1,5) g(2) by metis
qed

lemma EL_ADD_READ_fields [simp]:
  "ac (EL_ADD_READ st) = ac st" "a_heap (EL_ADD_READ st) = a_heap st" "cb_rep (EL_ADD_READ st) q = cb_rep st q"
  "runs (a_log (EL_ADD_READ st)) = runs (a_log st)"
  by (simp_all add: EL_ADD_READ_def)


lemma silent_may_issue: "may_issue grow (\<lambda>ev st. Some st)"
  by (auto simp: may_issue_def same_end_def intro!: exI [of _ "[]"])

text \<open>A context with one callback that waits and its reply in the reader.\<close>

lemma demo_waiting:
  obtains r st where "redisReaderFeed demo_env demo_reader demo_heap (Ptr (encode (VStatus ''OK''))) 5 = Some (REDIS_OK, r, demo_heap)"
    "push_cb True \<lparr>cb_next = 0, cb_fn = 7, cb_privdata = 70\<rparr> (upd_c (\<lambda>c. c\<lparr>c_reader := Ptr r\<rparr>) demo_async) = Some (REDIS_OK, st)"
    "receiving st ((\<lambda>i. [])(True := [(7, 70)])) (encode (VStatus ''OK''))" "flags_of st = 2" "a_log st = []"
    "sub_channels (ac st) = demo_table" "sub_patterns (ac st) = demo_table" "c_err (ac_c (ac st)) = 0" "c_obuf (ac_c (ac st)) = Ptr (sds_of [])"
proof -
  note cr = created_idle [OF demo_reader_created demo_heap_ok]
  let ?v = "VStatus ''OK''" and ?cb = "\<lparr>cb_next = 0, cb_fn = 7, cb_privdata = 70\<rparr>"
  obtain r where r: "redisReaderFeed demo_env demo_reader demo_heap (Ptr (encode ?v)) 5 = Some (REDIS_OK, r, demo_heap)" "idle r demo_heap"
    "unread r = encode ?v"
    using feed_idle [OF cr(1) demo_plenty, of "encode ?v"] cr(2,3) by auto
  let ?st = "upd_c (\<lambda>c. c\<lparr>c_reader := Ptr r\<rparr>) demo_async"
  have "cb_rep ?st (\<lambda>i. [])" "cb_room ?st" using demo_async_rep by (simp_all add: cb_room_def)
  from push_cb_ok [OF this, of True ?cb] obtain l m where
    p: "push_cb True ?cb ?st = Some (REDIS_OK, ?st\<lparr>ac := set_list True l (ac ?st), a_cells := m\<rparr>)"
      "cb_rep (?st\<lparr>ac := set_list True l (ac ?st), a_cells := m\<rparr>) ((\<lambda>i. [])(True := [payload ?cb]))" by auto
  show thesis
    by (rule that [OF r(1) p(1)]) (use p(2) r(2,3) in
      \<open>simp_all add: payload_def receiving_def demo_async_def demo_heap_def demo_client_def demo_context_def\<close>)
qed


end
