(* ===== verification/Async_Close.thy ===== *)
theory Async_Close
  imports Async_Correct
begin

text \<open>
  The end of an asynchronous context: freeing it runs every callback that still waits with a
  \<open>NULL\<close> reply, exactly once, and a context that is going away takes no commands.
\<close>

section \<open>Running what is left\<close>

text \<open>
  Callbacks that do not change a context when it tells them that it is going away. Issuing a command then does
  not: it is refused.
\<close>

fun closing_call :: "outcall \<Rightarrow> bool" where
  "closing_call (RunCallback f a p h) = (a = 0)"
| "closing_call (OnDisconnect f b) = True"
| "closing_call _ = False"

definition leaves_alone :: "'o user \<Rightarrow> bool" where
  "leaves_alone user \<longleftrightarrow> (\<forall>ev st. closing_call ev \<longrightarrow> (\<exists>s. user ev st = Some (st\<lparr>a_os := s\<rparr>)))"

text \<open>The calls for a list of callbacks, each with the reply \<open>NULL\<close>.\<close>

definition call_log :: "reply_heap \<Rightarrow> (int \<times> int) list \<Rightarrow> outcall list" where
  "call_log h cbs = map (\<lambda>(fn, p). RunCallback fn 0 p h) (filter (\<lambda>cb. fst cb \<noteq> 0) cbs)"

lemma call_log_simps [simp]:
  "call_log h [] = []" "call_log h (cb # cbs) = (if fst cb = 0 then [] else [RunCallback (fst cb) 0 (snd cb) h]) @ call_log h cbs"
  "call_log h (xs @ ys) = call_log h xs @ call_log h ys"
  by (simp_all add: call_log_def split_beta)

lemma runs_call_log [simp]: "runs (call_log h cbs) = call_log h cbs"
  by (induction cbs) auto

lemma upd_c_flags_back:
  assumes "\<not> has_flag (ac_c (ac st)) 16"
  shows "upd_c (clear_flag 16) ((note_call ev (upd_c (set_flag 16) st))\<lparr>a_os := s\<rparr>) = st\<lparr>a_os := s, a_log := a_log st @ [ev]\<rparr>"
  using flag_once [OF assms] by (simp add: upd_c_def note_call_def set_flag_def clear_flag_def)

lemma run_closing:
  assumes "\<not> a_freed st" "\<not> has_flag (ac_c (ac st)) 16" "leaves_alone user"
  shows "\<exists>s. redisRunCallback user st c 0 = Some (st\<lparr>a_os := s, a_log := a_log st @ call_log (a_heap st) [payload c]\<rparr>)"
proof (cases "cb_fn c = 0")
  case True
  then show ?thesis by (intro exI [of _ "a_os st"]) (simp add: redisRunCallback_def payload_def)
next
  case False
  let ?ev = "RunCallback (cb_fn c) 0 (cb_privdata c) (a_heap st)" and ?st = "upd_c (set_flag 16) st"
  obtain s where s: "user ?ev (note_call ?ev ?st) = Some ((note_call ?ev ?st)\<lparr>a_os := s\<rparr>)"
    using assms(3) unfolding leaves_alone_def by (metis closing_call.simps(1))
  then have "redisRunCallback user st c 0 = Some (upd_c (clear_flag 16) ((note_call ?ev ?st)\<lparr>a_os := s\<rparr>))"
    using assms(1) False by (simp add: redisRunCallback_def call_user_def alive_def)
  then show ?thesis unfolding upd_c_flags_back [OF assms(2)] using False by (auto simp: payload_def)
qed

lemma cb_rep_log [simp]: "cb_rep (st\<lparr>a_log := l\<rparr>) q = cb_rep st q"
  by (rule cb_rep_cong) simp_all

lemma run_pending_ok:
  assumes "cb_rep st q" "\<not> has_flag (ac_c (ac st)) 16" "leaves_alone user"
  shows "\<exists>l m s. run_pending user i t st =
      Some (st\<lparr>ac := set_list i l (ac st), a_cells := m, a_os := s, a_log := a_log st @ call_log (a_heap st) (q i)\<rparr>) \<and>
    cb_rep (st\<lparr>ac := set_list i l (ac st), a_cells := m\<rparr>) (q(i := []))"
  using assms(1,2)
proof (induction "q i" arbitrary: st q t)
  case Nil
  have e: "shift_cb i t st = Some (REDIS_ERR, t, st)" by (rule shift_cb_empty [OF Nil.prems(1) Nil.hyps [symmetric]])
  have st: "st\<lparr>ac := set_list i (a_list i (ac st)) (ac st), a_cells := a_cells st, a_os := a_os st, a_log := a_log st @ call_log (a_heap st) (q i)\<rparr> = st"
    "st\<lparr>ac := set_list i (a_list i (ac st)) (ac st), a_cells := a_cells st\<rparr> = st" "q(i := []) = q"
    using Nil.hyps by (simp_all flip: Nil.hyps add: fun_upd_idem)
  have "run_pending user i t st = Some st" using e by (subst run_pending.simps) simp
  then show ?case using st Nil.prems(1) by (intro exI [of _ "a_list i (ac st)"] exI [of _ "a_cells st"] exI [of _ "a_os st"]) simp
next
  case (Cons v vs)
  obtain c l m where sh: "shift_cb i t st = Some (REDIS_OK, c, st\<lparr>ac := set_list i l (ac st), a_cells := m\<rparr>)" "payload c = v"
    "cb_rep (st\<lparr>ac := set_list i l (ac st), a_cells := m\<rparr>) (q(i := vs))"
    using shift_cb_ok [OF Cons.prems(1) Cons.hyps(2) [symmetric], of t] by blast
  let ?st1 = "st\<lparr>ac := set_list i l (ac st), a_cells := m\<rparr>"
  have "\<not> a_freed ?st1" "\<not> has_flag (ac_c (ac ?st1)) 16" using sh(3) Cons.prems(2) by (simp_all add: cb_rep_def)
  from run_closing [OF this assms(3), of c] obtain s where
    r: "redisRunCallback user ?st1 c 0 = Some (?st1\<lparr>a_os := s, a_log := a_log st @ call_log (a_heap st) [v]\<rparr>)"
    using sh(2) by auto
  let ?st2 = "?st1\<lparr>a_os := s, a_log := a_log st @ call_log (a_heap st) [v]\<rparr>"
  have "cb_rep ?st2 (q(i := vs))" using sh(3) by simp
  moreover have "vs = (q(i := vs)) i" by simp
  moreover have "\<not> has_flag (ac_c (ac ?st2)) 16" using Cons.prems(2) by simp
  ultimately obtain l' m' s' where ih: "run_pending user i c ?st2 = Some (?st2\<lparr>ac := set_list i l' (ac ?st2), a_cells := m', a_os := s',
      a_log := a_log ?st2 @ call_log (a_heap ?st2) ((q(i := vs)) i)\<rparr>)"
    "cb_rep (?st2\<lparr>ac := set_list i l' (ac ?st2), a_cells := m'\<rparr>) ((q(i := vs))(i := []))"
    using Cons.hyps(1) [of "q(i := vs)" ?st2 c] by blast
  have "set_list i l' (set_list i l a) = set_list i l' a" for a by (cases i) (simp_all add: set_list_def)
  then have "?st2\<lparr>ac := set_list i l' (ac ?st2), a_cells := m', a_os := s', a_log := a_log ?st2 @ call_log (a_heap ?st2) ((q(i := vs)) i)\<rparr> =
      st\<lparr>ac := set_list i l' (ac st), a_cells := m', a_os := s', a_log := a_log st @ call_log (a_heap st) (q i)\<rparr>"
    using Cons.hyps(2) by (simp flip: Cons.hyps(2))
  moreover have "run_pending user i t st = run_pending user i c ?st2" using sh(1) r by (subst run_pending.simps) simp
  moreover have "cb_rep (?st2\<lparr>ac := set_list i l' (ac ?st2), a_cells := m'\<rparr>) q2 = cb_rep (st\<lparr>ac := set_list i l' (ac st), a_cells := m'\<rparr>) q2" for q2
    by (rule cb_rep_cong) (simp_all add: set_list_def)
  then have "cb_rep (st\<lparr>ac := set_list i l' (ac st), a_cells := m'\<rparr>) (q(i := []))"
    using ih(2) unfolding fun_upd_upd by blast
  ultimately show ?case using ih(1) by metis
qed

section \<open>The subscription tables\<close>

definition table_ok :: "callback_dict \<Rightarrow> bool" where
  "table_ok d \<longleftrightarrow> dict_ok d \<and> ht_size d \<le> 1073741824 \<and> ht_used d < 18446744073709551616"

abbreviation subscribed :: "callback_dict \<Rightarrow> (int \<times> int) list" where
  "subscribed d \<equiv> map (\<lambda>e. payload (snd e)) (entries d)"

lemma run_subs_remaining:
  assumes "ht_table d = Ptr tab" "to_int (ht_size d) = int (length tab)" "int (length tab) \<le> INT_MAX"
    "- 1 \<le> it_index it" "it_index it < int (length tab)" "\<not> a_freed st" "\<not> has_flag (ac_c (ac st)) 16" "leaves_alone user" "sel (ac st) = d"
  shows "\<exists>s. run_subs user sel it st =
    Some (st\<lparr>a_os := s, a_log := a_log st @ call_log (a_heap st) (map (\<lambda>e. payload (snd e)) (remaining tab it))\<rparr>)"
  using assms(4-7,9)
proof (induction "remaining tab it" arbitrary: it st)
  case Nil
  obtain it' where "dictNext d it = Some (NULL, it')"
    using dictNext_delivers [OF assms(1-3) Nil.prems(1,2)] by (auto simp: delivers_def simp flip: Nil.hyps)
  then show ?case using Nil.prems(3,5) by (subst run_subs.simps) (auto simp: alive_def simp flip: Nil.hyps intro!: exI [of _ "a_os st"])
next
  case (Cons he rest)
  obtain it' where it': "dictNext d it = Some (Ptr he, it')" "remaining tab it' = rest" "- 1 \<le> it_index it'" "it_index it' < int (length tab)"
    using dictNext_delivers [OF assms(1-3) Cons.prems(1,2)] by (auto simp: delivers_def simp flip: Cons.hyps(2))
  obtain s where s: "redisRunCallback user st (snd he) 0 = Some (st\<lparr>a_os := s, a_log := a_log st @ call_log (a_heap st) [payload (snd he)]\<rparr>)"
    using run_closing [OF Cons.prems(3,4) assms(8)] by blast
  define st1 where "st1 = st\<lparr>a_os := s, a_log := a_log st @ call_log (a_heap st) [payload (snd he)]\<rparr>"
  obtain s' where "run_subs user sel it' st1 =
      Some (st1\<lparr>a_os := s', a_log := a_log st1 @ call_log (a_heap st1) (map (\<lambda>e. payload (snd e)) rest)\<rparr>)"
    using Cons.hyps(1) [of it' st1] it'(2-4) Cons.prems(3-5) by (auto simp: st1_def)
  moreover have "run_subs user sel it st = run_subs user sel it' st1"
    using Cons.prems(3,5) it'(1) s by (subst run_subs.simps) (simp add: alive_def st1_def)
  ultimately show ?case using Cons.hyps(2) by (auto simp: st1_def simp flip: Cons.hyps(2))
qed

lemma free_table_ok:
  assumes "table_ok (sel (ac st))" "\<not> a_freed st" "\<not> has_flag (ac_c (ac st)) 16" "leaves_alone user" "plenty (h_env (a_heap st))"
  shows "\<exists>s. free_table user sel st = Some (st\<lparr>a_os := s, a_log := a_log st @ call_log (a_heap st) (subscribed (sel (ac st)))\<rparr>)"
proof -
  let ?d = "sel (ac st)" and ?it = "\<lparr>it_index = - 1, it_entry = [], it_next = []\<rparr> :: (bytes, redisCallback) dictIterator"
  have d: "dict_ok ?d" "ht_size ?d \<le> 1073741824" "ht_used ?d < 18446744073709551616" using assms(1) by (auto simp: table_ok_def)
  have "\<exists>s. run_subs user sel ?it st = Some (st\<lparr>a_os := s, a_log := a_log st @ call_log (a_heap st) (subscribed ?d)\<rparr>)"
    using d(1)
  proof (cases rule: dict_ok_cases)
    case empty
    then show ?thesis using assms(2)
      by (subst run_subs.simps) (auto simp: alive_def dictNext_def next_loop.simps entries_def intro!: exI [of _ "a_os st"])
  next
    case (table n tab)
    note rep = dict_repD [OF table(2)]
    have rem: "remaining tab ?it = entries ?d" by (simp add: remaining_def entries_def rep(1))
    have len: "ht_size ?d = int (length tab)" using rep(2,6) by simp
    then have le: "int (length tab) \<le> INT_MAX" using d(2) by linarith
    moreover have "to_int (ht_size ?d) = int (length tab)" unfolding len using le by (intro to_int_id) simp_all
    moreover have "0 < int (length tab)" using rep(6) by simp
    ultimately show ?thesis
      using run_subs_remaining [OF rep(1), of ?it st user sel] assms(2-4) rem by simp
  qed
  then obtain s where s: "run_subs user sel ?it st = Some (st\<lparr>a_os := s, a_log := a_log st @ call_log (a_heap st) (subscribed ?d)\<rparr>)" ..
  moreover have "\<exists>fs. dictRelease ?d = Some fs" using dictClear_spec [OF d(1,3)] by (simp add: dictRelease_def)
  moreover have "dictGetIterator (h_env (a_heap st)) = Some ?it" using assms(5) by (simp add: dictGetIterator_def plenty_def)
  ultimately show ?thesis using assms(2) by (auto simp: free_table_def alive_def)
qed

section \<open>Freeing a context\<close>

lemma cb_rep_empty:
  assumes "cb_rep st (\<lambda>i. [])"
  shows "ch_cells (a_cells st) = Map.empty"
proof -
  obtain xs where "queues_ok (a_cells st) (\<lambda>i. a_list i (ac st)) xs (\<lambda>i. [])" using assms by (auto simp: cb_rep_def)
  then have "xs i = []" for i by (auto simp: queues_ok_def list_rep_def)
  then show ?thesis using \<open>queues_ok _ _ xs _\<close> by (simp add: queues_ok_def)
qed

lemma drain_lists:
  assumes "cb_rep st q" "\<not> has_flag (ac_c (ac st)) 16" "leaves_alone user"
  shows "\<exists>st1 l1 l2 m s. run_pending user True t st = Some st1 \<and> run_pending user False t st1 =
      Some (st\<lparr>ac := set_list False l2 (set_list True l1 (ac st)), a_cells := m, a_os := s, a_log := a_log st @ call_log (a_heap st) (q True @ q False)\<rparr>) \<and>
    ch_cells m = Map.empty"
proof -
  obtain l1 m1 s1 where p1: "run_pending user True t st =
      Some (st\<lparr>ac := set_list True l1 (ac st), a_cells := m1, a_os := s1, a_log := a_log st @ call_log (a_heap st) (q True)\<rparr>)"
    "cb_rep (st\<lparr>ac := set_list True l1 (ac st), a_cells := m1\<rparr>) (q(True := []))"
    using run_pending_ok [OF assms] by blast
  define st1 where "st1 = st\<lparr>ac := set_list True l1 (ac st), a_cells := m1, a_os := s1, a_log := a_log st @ call_log (a_heap st) (q True)\<rparr>"
  have st1: "cb_rep st1 (q(True := []))" "\<not> has_flag (ac_c (ac st1)) 16" using p1(2) assms(2) by (simp_all add: st1_def)
  obtain l2 m2 s2 where p2: "run_pending user False t st1 =
      Some (st1\<lparr>ac := set_list False l2 (ac st1), a_cells := m2, a_os := s2, a_log := a_log st1 @ call_log (a_heap st1) ((q(True := [])) False)\<rparr>)"
    "cb_rep (st1\<lparr>ac := set_list False l2 (ac st1), a_cells := m2\<rparr>) ((q(True := []))(False := []))"
    using run_pending_ok [OF st1 assms(3)] by blast
  have "(q(True := []))(False := []) = (\<lambda>i. [])" by (auto simp: fun_eq_iff)
  then have "cb_rep (st1\<lparr>ac := set_list False l2 (ac st1), a_cells := m2\<rparr>) (\<lambda>i. [])" using p2(2) by metis
  from cb_rep_empty [OF this] have "ch_cells m2 = Map.empty" by simp
  moreover have "st1\<lparr>ac := set_list False l2 (ac st1), a_cells := m2, a_os := s2, a_log := a_log st1 @ call_log (a_heap st1) ((q(True := [])) False)\<rparr> =
      st\<lparr>ac := set_list False l2 (set_list True l1 (ac st)), a_cells := m2, a_os := s2, a_log := a_log st @ call_log (a_heap st) (q True @ q False)\<rparr>"
    by (simp add: st1_def)
  ultimately show ?thesis using p1(1) [folded st1_def] p2(1) by metis
qed

lemma drain_tables:
  assumes "\<not> a_freed st" "\<not> has_flag (ac_c (ac st)) 16" "leaves_alone user" "plenty (h_env (a_heap st))"
    "table_ok (sub_channels (ac st))" "table_ok (sub_patterns (ac st))"
  shows "\<exists>st1 s. free_table user sub_channels st = Some st1 \<and> free_table user sub_patterns st1 =
    Some (st\<lparr>a_os := s, a_log := a_log st @ call_log (a_heap st) (subscribed (sub_channels (ac st)) @ subscribed (sub_patterns (ac st)))\<rparr>)"
proof -
  obtain s1 where t1: "free_table user sub_channels st = Some (st\<lparr>a_os := s1, a_log := a_log st @ call_log (a_heap st) (subscribed (sub_channels (ac st)))\<rparr>)"
    using free_table_ok [of sub_channels, OF assms(5,1-4)] by blast
  define st1 where "st1 = st\<lparr>a_os := s1, a_log := a_log st @ call_log (a_heap st) (subscribed (sub_channels (ac st)))\<rparr>"
  obtain s2 where "free_table user sub_patterns st1 = Some (st1\<lparr>a_os := s2, a_log := a_log st1 @ call_log (a_heap st1) (subscribed (sub_patterns (ac st1)))\<rparr>)"
    using free_table_ok [of sub_patterns st1 user] assms by (auto simp: st1_def)
  moreover have "st1\<lparr>a_os := s2, a_log := a_log st1 @ call_log (a_heap st1) (subscribed (sub_patterns (ac st1)))\<rparr> =
      st\<lparr>a_os := s2, a_log := a_log st @ call_log (a_heap st) (subscribed (sub_channels (ac st)) @ subscribed (sub_patterns (ac st)))\<rparr>"
    by (simp add: st1_def)
  ultimately show ?thesis using t1 [folded st1_def] by metis
qed

lemma call_user_alone:
  assumes "leaves_alone user" "closing_call ev"
  shows "\<exists>s. (if b then call_user user ev st else Some st) = Some (st\<lparr>a_os := s, a_log := a_log st @ (if b then [ev] else [])\<rparr>)"
proof -
  obtain s where "user ev (note_call ev st) = Some ((note_call ev st)\<lparr>a_os := s\<rparr>)" using assms unfolding leaves_alone_def by blast
  then show ?thesis by (intro exI [of _ "if b then s else a_os st"]) (simp add: call_user_def note_call_def)
qed

text \<open>What a context of the given state gets to see of its end.\<close>

definition farewell :: "'o astate \<Rightarrow> (bool \<Rightarrow> (int \<times> int) list) \<Rightarrow> outcall list" where
  "farewell st q = call_log (a_heap st) (q True @ q False @ subscribed (sub_channels (ac st)) @ subscribed (sub_patterns (ac st))) @
     (if ev_cleanup (ac st) then [Cleanup] else []) @
     (if onDisconnect (ac st) \<noteq> 0 \<and> has_flag (ac_c (ac st)) REDIS_CONNECTED
      then [OnDisconnect (onDisconnect (ac st))
        (if has_flag (ac_c (ac st)) REDIS_FREEING then REDIS_OK else if ac_err (ac st) = 0 then REDIS_OK else REDIS_ERR)] else [])"

lemma redisAsyncFree0_ok:
  assumes "cb_rep st q" "\<not> has_flag (ac_c (ac st)) REDIS_IN_CALLBACK" "leaves_alone user" "plenty (h_env (a_heap st))"
    "table_ok (sub_channels (ac st))" "table_ok (sub_patterns (ac st))" "c_reader (ac_c (ac st)) = Ptr r" "rd.reader_inv r (a_heap st)"
  shows "\<exists>st'. redisAsyncFree0 user sys st = Some st' \<and> a_freed st' \<and> ch_cells (a_cells st') = Map.empty \<and> heap_ok (a_heap st') \<and>
    a_log st' = a_log st @ farewell st q"
proof -
  let ?cb = "\<lparr>cb_next = 0, cb_fn = 0, cb_privdata = 0\<rparr>" and ?a = "ac st"
  obtain st1 l1 l2 m s2 where p: "run_pending user True ?cb st = Some st1" "run_pending user False ?cb st1 =
      Some (st\<lparr>ac := set_list False l2 (set_list True l1 ?a), a_cells := m, a_os := s2, a_log := a_log st @ call_log (a_heap st) (q True @ q False)\<rparr>)"
    "ch_cells m = Map.empty" using drain_lists [OF assms(1-3)] by blast
  define st2 where "st2 = st\<lparr>ac := set_list False l2 (set_list True l1 ?a), a_cells := m, a_os := s2, a_log := a_log st @ call_log (a_heap st) (q True @ q False)\<rparr>"
  have live: "\<not> a_freed st" using assms(1) by (simp add: cb_rep_def)
  obtain st3 s4 where t: "free_table user sub_channels st2 = Some st3" "free_table user sub_patterns st3 =
      Some (st2\<lparr>a_os := s4, a_log := a_log st2 @ call_log (a_heap st2) (subscribed (sub_channels (ac st2)) @ subscribed (sub_patterns (ac st2)))\<rparr>)"
    using drain_tables [of st2 user] live assms(2-6) by (auto simp: st2_def)
  define st5 where "st5 = EL_CLEANUP (st2\<lparr>a_os := s4, a_log := a_log st2 @ call_log (a_heap st2) (subscribed (sub_channels (ac st2)) @ subscribed (sub_patterns (ac st2)))\<rparr>)"
  have st5: "a_heap st5 = a_heap st" "\<not> a_freed st5" "a_cells st5 = m" "ac_c (ac st5) = ac_c ?a" "onDisconnect (ac st5) = onDisconnect ?a"
    "ac_err (ac st5) = ac_err ?a" "a_log st5 = a_log st @ call_log (a_heap st) (q True @ q False @ subscribed (sub_channels ?a) @ subscribed (sub_patterns ?a)) @
      (if ev_cleanup ?a then [Cleanup] else [])"
    using live by (simp_all add: st5_def st2_def EL_CLEANUP_def)
  let ?told = "onDisconnect ?a \<noteq> 0 \<and> has_flag (ac_c ?a) REDIS_CONNECTED"
  define bye where "bye = OnDisconnect (onDisconnect ?a)
     (if has_flag (ac_c ?a) REDIS_FREEING then REDIS_OK else if ac_err ?a = 0 then REDIS_OK else REDIS_ERR)"
  obtain s6 where t6: "(if ?told then call_user user bye st5 else Some st5) = Some (st5\<lparr>a_os := s6, a_log := a_log st5 @ (if ?told then [bye] else [])\<rparr>)"
    using call_user_alone [OF assms(3), of bye] by (auto simp: bye_def)
  define st6 where "st6 = st5\<lparr>a_os := s6, a_log := a_log st5 @ (if ?told then [bye] else [])\<rparr>"
  obtain h' where h': "redisReaderFree r (a_heap st) = Some h'" "heap_ok h'"
    using rd.redisReaderFree_ok [OF assms(8)] by (auto simp: replies_inv_def)
  then obtain s' where f: "redisFree sys (ac_c ?a) (a_heap st) s6 = Some (h', s')" using assms(7) by (simp add: redisFree_def)
  have "(if onDisconnect (ac st5) \<noteq> 0 \<and> has_flag (ac_c (ac st5)) REDIS_CONNECTED
      then call_user user (OnDisconnect (onDisconnect (ac st5))
        (if has_flag (ac_c (ac st5)) REDIS_FREEING then REDIS_OK else if ac_err (ac st5) = 0 then REDIS_OK else REDIS_ERR)) st5 else Some st5) = Some st6"
    unfolding st5(4-6) bye_def [symmetric] st6_def by (rule t6)
  moreover have "alive st5 = Some (ac st5)" "alive st6 = Some (ac st5)" "a_heap st6 = a_heap st" "a_os st6 = s6"
    using st5(1,2) by (simp_all add: alive_def st6_def)
  ultimately have "redisAsyncFree0 user sys st = Some (st6\<lparr>a_freed := True, a_heap := h', a_os := s'\<rparr>)"
    using p(1) p(2) [folded st2_def] t f st5(4) unfolding redisAsyncFree0_def st5_def [symmetric] Let_def
    by (simp only: bind.simps split_conv st5_def [symmetric])
  then show ?thesis using h'(2) p(3) st5 by (simp add: st6_def farewell_def bye_def)
qed

lemma set_flag_other:
  "has_flag (set_flag 8 c) 2 = has_flag c 2" "has_flag (set_flag 8 c) 16 = has_flag c 16" "has_flag (set_flag 8 c) 8"
  by (simp_all add: flag_simps)


lemma silent_leaves_alone: "leaves_alone (\<lambda>ev st. Some st)"
  unfolding leaves_alone_def
proof (intro allI impI)
  fix ev and st :: "'o astate"
  show "\<exists>s. Some st = Some (st\<lparr>a_os := s\<rparr>)" by (rule exI [of _ "a_os st"]) simp
qed

lemma callbackKeyCompare_eq [simp]: "callbackKeyCompare k1 k2 \<longleftrightarrow> k1 = k2"
  by (auto simp: callbackKeyCompare_def Let_def)

lemma callbackDict_keys: "keys_ok callbackDict"
  by (auto simp: keys_ok_def callbackDict_def dictCompareHashKeys_def dictSetHashKey_def dictHashKey_def)

lemma demo_table_ok: "table_ok demo_table" "entries demo_table = []"
  by (simp_all add: table_ok_def demo_table_def dict_ok_def callbackDict_keys entries_def)

lemma demo_pushed:
  obtains st where "push_cb True \<lparr>cb_next = 0, cb_fn = 7, cb_privdata = 70\<rparr> demo_async = Some (REDIS_OK, st)"
    "cb_rep st ((\<lambda>i. [])(True := [(7, 70)]))" "ac_c (ac st) = ac_c (ac demo_async)" "sub_channels (ac st) = demo_table"
    "sub_patterns (ac st) = demo_table" "a_heap st = demo_heap" "a_log st = []" "onDisconnect (ac st) = 0" "ev_cleanup (ac st)"
proof -
  let ?cb = "\<lparr>cb_next = 0, cb_fn = 7, cb_privdata = 70\<rparr>"
  obtain l m where "push_cb True ?cb demo_async = Some (REDIS_OK, demo_async\<lparr>ac := set_list True l (ac demo_async), a_cells := m\<rparr>)"
    "cb_rep (demo_async\<lparr>ac := set_list True l (ac demo_async), a_cells := m\<rparr>) ((\<lambda>i. [])(True := [payload ?cb]))"
    using push_cb_ok [OF demo_async_rep, of True ?cb] by auto
  then show thesis using that [of "demo_async\<lparr>ac := set_list True l (ac demo_async), a_cells := m\<rparr>"]
    by (simp add: payload_def) (simp add: demo_async_def)
qed


section \<open>Freeing from a callback, and orderly disconnection\<close>

text \<open>
  C33. A callback may free its own context: \<open>redisAsyncFree\<close> then only leaves a mark, and when control is
  back in \<open>redisProcessCallbacks\<close> the reply object is freed, every other callback that waits is
  called with a \<open>NULL\<close> reply, and only then the context is freed. Nothing is used after it was freed, and input that was not
  yet read is dropped.
\<close>

theorem async_free_in_callback:
  assumes "receiving st q (encode v @ rest)" "awake st" "rval_ok v" "depth v \<le> 8" "q True = cb # cbs" "fst cb \<noteq> 0" "leaves_alone user"
    "\<And>f a p h s. a \<noteq> 0 \<Longrightarrow> user (RunCallback f a p h) s = redisAsyncFree inner sys s"
    "table_ok (sub_channels (ac st))" "table_ok (sub_patterns (ac st))"
  shows "\<exists>st' a h h'. redisProcessCallbacks user sys st = Some st' \<and> a_freed st' \<and> ch_cells (a_cells st') = Map.empty \<and> heap_ok (a_heap st') \<and>
    represents v h a \<and> runs (a_log st') = runs (a_log st) @ RunCallback (fst cb) a (snd cb) h #
      call_log h' (cbs @ q False @ subscribed (sub_channels (ac st)) @ subscribed (sub_patterns (ac st)))"
proof -
  let ?t = "\<lparr>cb_next = 0, cb_fn = 0, cb_privdata = 0\<rparr>"
  obtain st1 a where g: "get_reply sys st = Some (REDIS_OK, a, st1)" "a \<noteq> 0" "receiving st1 q rest" "represents v (a_heap st1) a"
    "\<And>b. \<not> kid_of (a_heap st1) b a" "flags_of st1 = flags_of st" "a_log st1 = a_log st" "same_end st st1"
    using get_reply_next [OF assms(1,3,4), of sys] by blast
  obtain c st2 where sh: "shift_cb True ?t st1 = Some (REDIS_OK, c, st2)" "payload c = cb" "receiving st2 (q(True := cbs)) rest"
    "a_heap st2 = a_heap st1" "flags_of st2 = flags_of st1" "a_log st2 = a_log st1" "same_end st1 st2"
    using shift_receiving [OF g(3) assms(5), of ?t] by blast
  let ?ev = "RunCallback (cb_fn c) a (cb_privdata c) (a_heap st2)"
  let ?in = "note_call ?ev (upd_c (set_flag 16) st2)"
  define st3 where "st3 = upd_c (clear_flag 16) (upd_c (set_flag 8) ?in)"
  have fn: "cb_fn c \<noteq> 0" "fst cb = cb_fn c" "snd cb = cb_privdata c" using sh(2) assms(6) by (auto simp: payload_def)
  have live: "\<not> a_freed st2" using sh(3) by (simp add: receiving_def cb_rep_def)
  have "has_flag (set_flag 8 (set_flag 16 (ac_c (ac st2)))) 16" by (simp add: flag_simps)
  then have "user ?ev ?in = Some (upd_c (set_flag 8) ?in)" using assms(8) [OF g(2)] live by (simp add: redisAsyncFree_def alive_def)
  then have run: "redisRunCallback user st2 c a = Some st3"
    using fn(1) live by (simp add: redisRunCallback_def call_user_def alive_def st3_def)
  have "receiving st3 (q(True := cbs)) rest" "a_heap st3 = a_heap st2" using sh(3) by (simp_all add: st3_def receiving_def)
  moreover have "h_objs (a_heap st3) a \<noteq> None" using represents_allocated [OF g(4)] sh(4) by (simp add: st3_def)
  moreover have "\<not> kid_of (a_heap st3) b a" for b using g(5) sh(4) by (simp add: st3_def)
  ultimately obtain st4 where f: "free_reply_object st3 a = Some st4" "receiving st4 (q(True := cbs)) rest" "ac st4 = ac st3" "a_log st4 = a_log st3"
    using free_reply_receiving by blast
  have flags: "has_flag (ac_c (ac st4)) 8" "\<not> has_flag (ac_c (ac st4)) 16" using f(3) by (simp_all add: st3_def flag_simps)
  obtain r where r: "c_reader (ac_c (ac st4)) = Ptr r" "rd.reader_inv r (a_heap st4)" "cb_rep st4 (q(True := cbs))" "plenty (h_env (a_heap st4))"
    using f(2) idle_inv by (auto simp: receiving_def)
  have tabs: "sub_channels (ac st4) = sub_channels (ac st)" "sub_patterns (ac st4) = sub_patterns (ac st)"
    using same_end_trans [OF g(8) sh(7)] f(3) by (simp_all add: st3_def same_end_def)
  obtain st' where st': "redisAsyncFree0 user sys st4 = Some st'" "a_freed st'" "ch_cells (a_cells st') = Map.empty" "heap_ok (a_heap st')"
    "a_log st' = a_log st4 @ farewell st4 (q(True := cbs))"
    using redisAsyncFree0_ok [OF r(3) flags(2) assms(7) r(4) _ _ r(1,2)] tabs assms(9,10) by metis
  have "deliver user sys c a st2 = Some (Inl st')" using run f(1) flags(1) st'(1) fn(1) by (simp add: deliver_def)
  then have "reply_step user sys ?t a st1 = Some (Inl st')" using sh(1) by (simp add: reply_step_def)
  then have "redisProcessCallbacks user sys st = Some st'"
    using g(1,2) unfolding redisProcessCallbacks_def by (subst callback_loop.simps) simp
  moreover have "a_log st4 = a_log st @ [?ev]" using f(4) sh(6) g(7) by (simp add: st3_def)
  moreover have "represents v (a_heap st2) a" using g(4) sh(4) by simp
  ultimately show ?thesis using st'(2-5) tabs fn(2,3) by (auto simp: farewell_def)
qed

theorem async_free_in_callback_witness:
  "\<exists>r st st' a h. push_cb True \<lparr>cb_next = 0, cb_fn = 7, cb_privdata = 70\<rparr> (upd_c (\<lambda>c. c\<lparr>c_reader := Ptr r\<rparr>) demo_async) = Some (REDIS_OK, st) \<and>
    redisProcessCallbacks (\<lambda>ev st. if closing_call ev then Some st else redisAsyncFree (\<lambda>ev st. Some st) (demo_os 0) st) (demo_os 0) st = Some st' \<and>
    a_freed st' \<and> runs (a_log st') = [RunCallback 7 a 70 h]"
proof (rule demo_waiting)
  fix r st
  let ?v = "VStatus ''OK''" and ?q = "(\<lambda>i. [])(True := [(7, 70)]) :: bool \<Rightarrow> (int \<times> int) list"
  let ?user = "\<lambda>ev st. if closing_call ev then Some st else redisAsyncFree (\<lambda>ev st. Some st) (demo_os 0) st"
  assume r: "push_cb True \<lparr>cb_next = 0, cb_fn = 7, cb_privdata = 70\<rparr> (upd_c (\<lambda>c. c\<lparr>c_reader := Ptr r\<rparr>) demo_async) = Some (REDIS_OK, st)"
    and st: "receiving st ?q (encode ?v)" "flags_of st = 2" "a_log st = []" "sub_channels (ac st) = demo_table" "sub_patterns (ac st) = demo_table"
  have "awake st" using st(2) by (simp add: awake_def has_flag_def)
  moreover have "leaves_alone ?user" using silent_leaves_alone by (simp add: leaves_alone_def)
  ultimately obtain st' a h h' where "redisProcessCallbacks ?user (demo_os 0) st = Some st'" "a_freed st'"
    "runs (a_log st') = runs (a_log st) @ RunCallback (fst (7, 70)) a (snd (7, 70)) h # call_log h' ([] @ ?q False @ [] @ [])"
    using async_free_in_callback [of st ?q ?v "[]" "(7, 70)" "[]" ?user "\<lambda>ev st. Some st" "demo_os 0"] st demo_table_ok by auto
  moreover from this(3) have "runs (a_log st') = [RunCallback 7 a 70 h]" using st(3) by simp
  ultimately show ?thesis using r by blast
qed

text \<open>When nothing is left to do for a context that disconnects, it is freed.\<close>

lemma no_reply_disconnects:
  assumes "receiving st q []" "q True = []" "awake st" "leaves_alone user" "has_flag (ac_c (ac st)) REDIS_DISCONNECTING"
    "c_err (ac_c (ac st)) = 0" "c_obuf (ac_c (ac st)) = Ptr b" "sdslen b = 0" "table_ok (sub_channels (ac st))" "table_ok (sub_patterns (ac st))"
  shows "\<exists>st'. no_reply user sys c st = Some st' \<and> a_freed st' \<and> ch_cells (a_cells st') = Map.empty \<and> heap_ok (a_heap st') \<and>
    a_log st' = a_log st @ farewell (st\<lparr>ac := (ac st)\<lparr>ac_err := 0, ac_errstr := True\<rparr>\<rparr>) q"
proof -
  obtain r where st: "cb_rep st q" "plenty (h_env (a_heap st))" "c_reader (ac_c (ac st)) = Ptr r" "rd.reader_inv r (a_heap st)"
    using assms(1) idle_inv by (auto simp: receiving_def)
  define st1 where "st1 = st\<lparr>ac := (ac st)\<lparr>ac_err := 0, ac_errstr := True\<rparr>\<rparr>"
  have rep: "cb_rep st1 q" using st(1) cb_rep_cong [of st1 st] by (simp add: st1_def)
  have "\<not> a_freed st" using st(1) by (simp add: cb_rep_def)
  moreover have "shift_cb True t st1 = Some (REDIS_ERR, t, st1)" for t by (rule shift_cb_empty [OF rep assms(2)])
  ultimately have "redisAsyncDisconnect0 user sys st = redisAsyncFree0 user sys st1"
    using assms(6) by (simp add: redisAsyncDisconnect0_def redisAsyncCopyError_def alive_def st1_def c_assert_def)
  moreover have "l_head (ac_replies (ac st)) = 0" using queue_head [OF st(1), of True] assms(2) by (simp add: a_list_def)
  ultimately have "no_reply user sys c st = redisAsyncFree0 user sys st1" using assms(5,7,8) by (simp add: no_reply_def)
  moreover have "\<not> has_flag (ac_c (ac st1)) 16" "plenty (h_env (a_heap st1))" "table_ok (sub_channels (ac st1))" "table_ok (sub_patterns (ac st1))"
    "c_reader (ac_c (ac st1)) = Ptr r" "rd.reader_inv r (a_heap st1)"
    using assms(3,9,10) st(2-4) by (simp_all add: st1_def awake_def)
  moreover have "a_log st1 = a_log st" by (simp add: st1_def)
  ultimately show ?thesis using redisAsyncFree0_ok [OF rep _ assms(4), of r sys] unfolding st1_def [symmetric] by metis
qed

text \<open>
  C35. An orderly disconnection flushes first: in a context that is marked \<open>REDIS_DISCONNECTING\<close> and whose output is
  written, the replies that arrive still go to their callbacks, in order; once every callback has had
  its reply, the context is freed, the callbacks of subscriptions get their \<open>NULL\<close> reply and the disconnect callback is told
  that all is well. The assertion that no callback is left behind holds.
\<close>

theorem async_disconnect_flushes:
  assumes "receiving st q (concat (map encode vs))" "awake st" "may_issue False user" "leaves_alone user"
    "list_all (\<lambda>v. rval_ok v \<and> depth v \<le> 8) vs" "length (q True) = length vs" "list_all (\<lambda>cb. fst cb \<noteq> 0) (q True)"
    "has_flag (ac_c (ac st)) REDIS_DISCONNECTING" "c_err (ac_c (ac st)) = 0" "c_obuf (ac_c (ac st)) = Ptr b" "sdslen b = 0"
    "table_ok (sub_channels (ac st))" "table_ok (sub_patterns (ac st))"
  shows "\<exists>st' evs h. redisProcessCallbacks user sys st = Some st' \<and> a_freed st' \<and> ch_cells (a_cells st') = Map.empty \<and> heap_ok (a_heap st') \<and>
    list_all2 delivered evs (zip (q True) vs) \<and>
    runs (a_log st') = runs (a_log st) @ evs @ call_log h (q False @ subscribed (sub_channels (ac st)) @ subscribed (sub_patterns (ac st))) \<and>
    (onDisconnect (ac st) \<noteq> 0 \<and> has_flag (ac_c (ac st)) REDIS_CONNECTED \<longrightarrow> last (a_log st') = OnDisconnect (onDisconnect (ac st)) REDIS_OK)"
proof -
  let ?t = "\<lparr>cb_next = 0, cb_fn = 0, cb_privdata = 0\<rparr>"
  have "q True = q True @ []" by simp
  from loop_delivers [OF assms(1,2,3,5) this assms(6,7), of sys ?t] obtain c st1 evs where
    loop: "redisProcessCallbacks user sys st = callback_loop user sys c st1" "receiving st1 (q(True := [])) []"
      "flags_of st1 = flags_of st" "same_end st st1" "runs (a_log st1) = runs (a_log st) @ evs" "list_all2 delivered evs (zip (q True) vs)"
    unfolding redisProcessCallbacks_def by auto
  have "\<not> has_flag (ac_c (ac st1)) REDIS_BLOCK" using assms(2) loop(3) by (simp add: awake_def has_flag_def)
  then obtain st2 where g: "get_reply sys st1 = Some (REDIS_OK, 0, st2)" "receiving st2 (q(True := [])) []" "flags_of st2 = flags_of st1"
    "a_log st2 = a_log st1" "same_end st1 st2"
    using get_reply_none [OF loop(2), of sys] by blast
  note same = same_end_trans [OF loop(4) g(5), unfolded same_end_def]
  have flags: "has_flag (ac_c (ac st2)) f = has_flag (ac_c (ac st)) f" for f using g(3) loop(3) by (simp add: has_flag_def)
  have res: "redisProcessCallbacks user sys st = no_reply user sys c st2"
    using loop(1) g(1) by (subst (asm) callback_loop.simps) simp
  have "(q(True := [])) True = []" "awake st2" using assms(2) flags by (simp_all add: awake_def)
  then obtain st' where st': "no_reply user sys c st2 = Some st'" "a_freed st'" "ch_cells (a_cells st') = Map.empty" "heap_ok (a_heap st')"
    "a_log st' = a_log st2 @ farewell (st2\<lparr>ac := (ac st2)\<lparr>ac_err := 0, ac_errstr := True\<rparr>\<rparr>) (q(True := []))"
    using no_reply_disconnects [OF g(2) _ _ assms(4), of b sys c] assms(8-13) flags same by metis
  have "runs (a_log st') = runs (a_log st) @ evs @
      call_log (a_heap st2) (q False @ subscribed (sub_channels (ac st)) @ subscribed (sub_patterns (ac st)))"
    using st'(5) g(4) loop(5) same by (simp add: farewell_def)
  moreover have "last (a_log st') = OnDisconnect (onDisconnect (ac st)) REDIS_OK"
    if "onDisconnect (ac st) \<noteq> 0 \<and> has_flag (ac_c (ac st)) REDIS_CONNECTED"
    using st'(5) that same flags by (simp add: farewell_def)
  ultimately show ?thesis using res st'(1-4) loop(6)
    by (intro exI [of _ st'] exI [of _ evs] exI [of _ "a_heap st2"]) simp
qed

theorem async_disconnect_flushes_witness:
  "\<exists>r st st' a h. push_cb True \<lparr>cb_next = 0, cb_fn = 7, cb_privdata = 70\<rparr> (upd_c (\<lambda>c. c\<lparr>c_reader := Ptr r\<rparr>) demo_async) = Some (REDIS_OK, st) \<and>
    redisProcessCallbacks (\<lambda>ev st. Some st) (demo_os 0) (upd_c (set_flag REDIS_DISCONNECTING) st) = Some st' \<and>
    a_freed st' \<and> runs (a_log st') = [RunCallback 7 a 70 h]"
proof (rule demo_waiting)
  fix r and st :: "net_state astate"
  let ?v = "VStatus ''OK''" and ?q = "(\<lambda>i. [])(True := [(7, 70)]) :: bool \<Rightarrow> (int \<times> int) list"
  let ?st = "upd_c (set_flag REDIS_DISCONNECTING) st" and ?user = "\<lambda>ev st. Some st"
  assume r: "push_cb True \<lparr>cb_next = 0, cb_fn = 7, cb_privdata = 70\<rparr> (upd_c (\<lambda>c. c\<lparr>c_reader := Ptr r\<rparr>) demo_async) = Some (REDIS_OK, st)"
    and st: "receiving st ?q (encode ?v)" "flags_of st = 2" "a_log st = []" "sub_channels (ac st) = demo_table" "sub_patterns (ac st) = demo_table"
    "c_err (ac_c (ac st)) = 0" "c_obuf (ac_c (ac st)) = Ptr (sds_of [])"
  have "receiving ?st ?q (concat (map encode [?v]))" using st(1) by (simp add: receiving_def)
  moreover have "awake ?st" "has_flag (ac_c (ac ?st)) 4" using st(2) by (simp_all add: awake_def has_flag_def set_flag_def)
  moreover have "sdslen (sds_of []) = 0" using sdslen_text [of "sds_of []"] by simp
  ultimately obtain st' evs h where "redisProcessCallbacks ?user (demo_os 0) ?st = Some st'" "a_freed st'"
    "list_all2 delivered evs [((7, 70), ?v)]" "runs (a_log st') = evs"
    using async_disconnect_flushes [of ?st ?q "[?v]" ?user "sds_of []" "demo_os 0"] silent_may_issue silent_leaves_alone st demo_table_ok by auto
  then obtain a h where "runs (a_log st') = [RunCallback 7 a 70 h]" by (auto simp: list_all2_Cons2 delivered_def)
  then show ?thesis using r \<open>redisProcessCallbacks ?user (demo_os 0) ?st = Some st'\<close> \<open>a_freed st'\<close> by blast
qed

end
