(* ===== verification/Async_Commands.thy ===== *)
theory Async_Commands
  imports Async_Close
begin

text \<open>
  The commands of the asynchronous client: \<open>nextArgument\<close> finds the arguments of every formatted
  command; an ordinary command queues its callback behind the others and its text behind the output;
  (P)SUBSCRIBE registers its callback for every channel, and the messages of a channel go
  there.
\<close>

section \<open>Scanning a formatted command\<close>

lemma find_byte_skip: "ch \<notin> set us \<Longrightarrow> NUL \<notin> set us \<Longrightarrow> find_byte (us @ ch # zs) ch n = Some (Ptr (n + int (length us)))"
  by (induction us arbitrary: n) auto

lemma c_strchr_skip:
  assumes "ch \<notin> set us" "NUL \<notin> set us" "p = int (length pre)"
  shows "c_strchr (pre @ us @ ch # zs) p ch = Some (Ptr (p + int (length us)))"
  using find_byte_skip [OF assms(1,2)] assms(3) by (simp add: c_strchr_def)

lemma digit_char_val: "d < 10 \<Longrightarrow> of_char (digit_char d) = 48 + int d"
  using of_char_digit_char [of d] by (metis of_nat_of_char of_nat_add of_nat_numeral)

lemma read_dec_string: "read_dec (dec_string n @ xs) acc = read_dec xs (acc * 10 ^ length (dec_string n) + int n)"
proof (induction n arbitrary: acc xs rule: dec_string.induct)
  case (1 n)
  have d: "c_isdigit (digit_char k)" if "k < 10" for k using that dec_string_isdigit [of "digit_char k" k] by (simp add: dec_string_small)
  show ?case
  proof (cases "n < 10")
    case True
    then show ?thesis using d [of n] digit_char_val [of n] by (simp add: dec_string_small mult.commute)
  next
    case False
    have n: "10 * int (n div 10) + int (n mod 10) = int n" by presburger
    have "read_dec (digit_char (n mod 10) # xs) v = read_dec xs (10 * v + int (n mod 10))" for v
      using d [of "n mod 10"] digit_char_val [of "n mod 10"] by simp
    moreover have "10 * (acc * 10 ^ length (dec_string (n div 10)) + int (n div 10)) + int (n mod 10) =
        acc * 10 ^ length (dec_string n) + int n"
      unfolding dec_string_big [OF False] n [symmetric] by simp
    moreover have "read_dec (dec_string n @ xs) acc =
        read_dec (digit_char (n mod 10) # xs) (acc * 10 ^ length (dec_string (n div 10)) + int (n div 10))"
      using "1.IH" [OF False, of "digit_char (n mod 10) # xs" acc] by (simp add: dec_string_big [OF False] del: read_dec.simps)
    ultimately show ?thesis by (simp only:)
  qed
qed

lemma c_strtol_dec:
  assumes "int n \<le> LONG_MAX" "\<not> c_isdigit x"
  shows "c_strtol (dec_string n @ x # xs) = Some (int n)"
proof -
  obtain d ds where ds: "dec_string n = d # ds" by (cases "dec_string n") auto
  then have dig: "c_isdigit d" using dec_string_isdigit [of d n] by simp
  then have "\<not> c_isspace d" "d \<noteq> CHR ''-''" "d \<noteq> CHR ''+''" by (auto simp: c_isdigit_def c_isspace_def)
  moreover have "read_dec (dec_string n @ x # xs) 0 = Some (int n)" using assms(2) by (simp add: read_dec_string)
  ultimately show ?thesis using assms(1) ds by (simp add: c_strtol_def)
qed

lemma dec_string_plain: "NUL \<notin> set (dec_string n)" "CR \<notin> set (dec_string n)" "CHR ''$'' \<notin> set (dec_string n)"
  using dec_string_isdigit [of NUL n] dec_string_isdigit [of CR n] dec_string_isdigit [of "CHR ''$''" n] by (auto simp: c_isdigit_def)

text \<open>From anywhere in front of an argument, with no dollar sign in between.\<close>

lemma nextArgument_finds:
  assumes "b = pre @ gap @ encode_arg a @ post" "CHR ''$'' \<notin> set gap" "NUL \<notin> set gap" "int (length a) \<le> INT_MAX" "p = int (length pre)"
  shows "nextArgument b p = Some (Some (p + int (length gap) + int (length (encode_arg a)),
    p + int (length gap) + int (length (dec_string (length a))) + 3, int (length a)))"
proof -
  let ?d = "dec_string (length a)" and ?p = "p + int (length gap)"
  have b: "b = pre @ gap @ CHR ''$'' # ?d @ CR # LF # a @ crlf @ post" using assms(1) by (simp add: encode_arg_def)
  have at: "(if c \<noteq> CHR ''$'' then c_strchr b p (CHR ''$'') else Some (Ptr p)) = Some (Ptr ?p) \<and> byte_at b p = Some c" if "c = hd (gap @ [CHR ''$''])" for c
    using that b assms(2,3,5) c_strchr_skip [OF assms(2,3,5), of "?d @ CR # LF # a @ crlf @ post"]
    by (cases gap) (auto simp: byte_at_append)
  have "drop (nat (?p + 1)) b = ?d @ CR # LF # a @ crlf @ post"
    using b assms(5) by (simp add: nat_add_distrib)
  moreover have "c_strtol (?d @ CR # LF # a @ crlf @ post) = Some (int (length a))"
    using assms(4) by (intro c_strtol_dec) (simp_all add: c_isdigit_def)
  moreover have "c_strchr b ?p CR = Some (Ptr (?p + 1 + int (length ?d)))"
    using c_strchr_skip [of CR "CHR ''$'' # ?d" ?p "pre @ gap" "LF # a @ crlf @ post"] b assms(5) dec_string_plain by simp
  moreover have "to_int (int (length a)) = int (length a)" "to_size (int (length a)) = int (length a)" using assms(4) by simp_all
  ultimately show ?thesis using at by (simp add: nextArgument_def length_encode_arg Let_def)
qed

lemma nextArgument_end:
  assumes "b = pre @ NUL # post" "p = int (length pre)"
  shows "nextArgument b p = Some None"
  using assms by (simp add: nextArgument_def byte_at_append c_strchr_def)

text \<open>
  The client drops a leading \<open>p\<close> of the first argument, of either case, and compares the rest without case.
\<close>

definition verb :: "bytes \<Rightarrow> bytes" where
  "verb w = map c_tolower (if c_tolower (hd w) = CHR ''p'' then tl w else w)"

lemma c_tolower_CR: "c_tolower x = CR \<longleftrightarrow> x = CR" "c_tolower CR = CR" "c_tolower LF = LF"
proof -
  have "x = CR" if "c_tolower x = CR"
  proof (cases "65 \<le> (of_char x :: nat) \<and> (of_char x :: nat) \<le> 90")
    case True
    have "(of_char (c_tolower x) :: nat) = of_char x + 32" using True by (simp add: c_tolower_def)
    moreover have "(of_char CR :: nat) = 13" by simp
    ultimately show ?thesis using that True by simp
  next
    case False
    then show ?thesis using that by (auto simp: c_tolower_def split: if_splits)
  qed
  then show "c_tolower x = CR \<longleftrightarrow> x = CR" by (auto simp: c_tolower_def)
qed (simp_all add: c_tolower_def)

lemma strncasecmp_word:
  assumes "CR \<notin> set w" "CR \<notin> set k" "map c_tolower k = k"
  shows "strncasecmp_eq (w @ CR # LF # z) (k @ crlf) = Some (map c_tolower w = k)"
  using assms
proof (induction k arbitrary: w)
  case Nil
  then show ?case by (cases w) (auto simp: c_tolower_CR)
next
  case (Cons y k)
  then show ?case by (cases w) (auto simp: c_tolower_CR)
qed

lemma scan_command:
  assumes "cmd = encode_command (w # as) @ NUL # rest" "w \<noteq> []" "CR \<notin> set w" "int (length w) \<le> INT_MAX"
  obtains pre cs c0 where "nextArgument cmd 0 = Some (Some (int (length pre), cs, int (length w)))" "0 \<le> cs"
    "cmd = pre @ encode_args as @ NUL # rest" "byte_at cmd (int (length pre)) = Some c0" "c0 = CHR ''$'' \<longleftrightarrow> as \<noteq> []"
    "byte_at cmd cs = Some (hd w)"
    "\<forall>k. CR \<notin> set k \<longrightarrow> map c_tolower k = k \<longrightarrow>
      strncasecmp_eq (drop (nat (cs + (if c_tolower (hd w) = CHR ''p'' then 1 else 0))) cmd) (k @ crlf) = Some (verb w = k)"
proof -
  let ?head = "CHR ''*'' # dec_string (Suc (length as)) @ crlf" and ?d = "dec_string (length w)"
  define pre where "pre = ?head @ encode_arg w"
  define lead where "lead = ?head @ CHR ''$'' # ?d @ crlf"
  obtain x xs where w: "w = x # xs" using assms(2) by (cases w) auto
  have cmd: "cmd = pre @ encode_args as @ NUL # rest" using assms(1) by (simp add: encode_command_eq pre_def)
  then have "cmd = [] @ ?head @ encode_arg w @ encode_args as @ NUL # rest" by (simp add: pre_def)
  then have found: "nextArgument cmd 0 = Some (Some (int (length pre), int (length lead), int (length w)))"
    using nextArgument_finds [of cmd "[]" ?head w "encode_args as @ NUL # rest" 0] assms(4) dec_string_plain
    by (simp add: pre_def lead_def)
  have lead: "cmd = lead @ w @ CR # LF # encode_args as @ NUL # rest"
    using cmd by (simp add: pre_def lead_def encode_arg_def)
  have byte: "byte_at cmd (int (length pre)) = Some (hd (encode_args as @ [NUL]))"
    using cmd by (cases as) (simp_all add: byte_at_append encode_arg_def)
  have cmp: "strncasecmp_eq (drop (nat (int (length lead) + (if c_tolower (hd w) = CHR ''p'' then 1 else 0))) cmd) (k @ crlf) = Some (verb w = k)"
    if "CR \<notin> set k" "map c_tolower k = k" for k
    using strncasecmp_word [OF _ that, of "if c_tolower (hd w) = CHR ''p'' then tl w else w" "encode_args as @ NUL # rest"] assms(3) lead w
    by (auto simp: verb_def nat_add_distrib)
  show thesis
    by (rule that [OF found _ cmd byte _ _]) (use lead w cmp in \<open>cases as; simp add: byte_at_append encode_arg_def\<close>)+
qed

lemma verbs: "map c_tolower ''subscribe'' = ''subscribe''" "map c_tolower ''unsubscribe'' = ''unsubscribe''" "map c_tolower ''monitor'' = ''monitor''"
  "CR \<notin> set ''subscribe''" "CR \<notin> set ''unsubscribe''" "CR \<notin> set ''monitor''"
  by code_simp+

section \<open>Ordinary commands\<close>

definition ordinary :: "bytes \<Rightarrow> bool" where
  "ordinary w \<longleftrightarrow> w \<noteq> [] \<and> CR \<notin> set w \<and> verb w \<noteq> ''subscribe'' \<and> verb w \<noteq> ''unsubscribe'' \<and> verb w \<noteq> ''monitor''"

lemma redisAppendCommand0_appends:
  assumes "plenty e" "c_obuf c = Ptr b" "sds_ok b" "int (length (sds_str b)) + int (length t) < SDS_LIMIT"
  shows "\<exists>b'. redisAppendCommand0 e sys c s (t @ NUL # rest) (int (length t)) = Some (REDIS_OK, c\<lparr>c_obuf := Ptr b'\<rparr>) \<and>
    sds_ok b' \<and> sds_str b' = sds_str b @ t"
proof -
  have "sh_len b + int (length t) \<le> SDS_LIMIT" using assms(4) length_sds_str [OF assms(3)] by linarith
  then obtain b' where "sdscatlen e b (t @ NUL # rest) (int (length t)) = Some (Ptr b')" "sds_ok b'" "sds_str b' = sds_str b @ t"
    using sdscatlen_makes [OF assms(1,3), of t "NUL # rest"] by (auto simp: makes_def)
  then show ?thesis using assms(2) by (intro exI [of _ b']) (simp add: redisAppendCommand0_def)
qed

lemma formatted_command:
  assumes "plenty (h_env (a_heap st))" "int (length (encode_command args)) < SDS_LIMIT"
  obtains rest where "redisAsyncCommandArgv sys st fn pd (int (length args)) args (Ptr (map (\<lambda>a. int (length a)) args)) =
    redisAsyncCommand0 sys st fn pd (encode_command args @ NUL # rest) (int (length (encode_command args)))"
proof -
  let ?ls = "map (\<lambda>a. int (length a)) args"
  obtain cmd where cmd: "redisFormatSdsCommandArgv (h_env (a_heap st)) (int (length args)) args (Ptr ?ls) = Some (int (length (encode_command args)), Ptr cmd)"
    "sds_ok cmd" "sds_str cmd = encode_command args"
    using redisFormatSdsCommandArgv_eq [OF assms(1) args_from_lens, of args ?ls] assms(2) by (auto simp: arg_views)
  obtain rest where "sh_buf cmd = encode_command args @ NUL # rest" using sds_ok_elim [OF cmd(2)] cmd(3) by metis
  moreover have "to_size (int (length (encode_command args))) = int (length (encode_command args))" using assms(2) by simp
  ultimately show thesis using that [of rest] cmd(1) by (simp add: redisAsyncCommandArgv_def)
qed

lemma encode_command_arg: "length w \<le> length (encode_command (w # as))"
  by (simp add: length_encode_command length_encode_arg)

text \<open>The callback goes behind the waiting ones, the text behind the output.\<close>

lemma ordinary_command:
  assumes "cb_rep st q" "plenty (h_env (a_heap st))" "c_obuf (ac_c (ac st)) = Ptr b" "sds_ok b" "ordinary w"
    "int (length (sds_str b)) + int (length (encode_command (w # as))) < SDS_LIMIT"
    "\<not> has_flag (ac_c (ac st)) (REDIS_DISCONNECTING OR REDIS_FREEING)" "i \<longleftrightarrow> \<not> has_flag (ac_c (ac st)) REDIS_SUBSCRIBED"
  shows "\<exists>l m b'. redisAsyncCommandArgv sys st fn pd (int (length (w # as))) (w # as) (Ptr (map (\<lambda>a. int (length a)) (w # as))) =
      Some (REDIS_OK, EL_ADD_WRITE (upd_c (\<lambda>c. c\<lparr>c_obuf := Ptr b'\<rparr>) (st\<lparr>ac := set_list i l (ac st), a_cells := m\<rparr>))) \<and>
    cb_rep (st\<lparr>ac := set_list i l (ac st), a_cells := m\<rparr>) (q(i := q i @ [(fn, pd)])) \<and>
    sds_ok b' \<and> sds_str b' = sds_str b @ encode_command (w # as)"
proof -
  let ?e = "h_env (a_heap st)" and ?cb = "\<lparr>cb_next = 0, cb_fn = fn, cb_privdata = pd\<rparr>"
  have lt: "int (length (encode_command (w # as))) < SDS_LIMIT" using assms(6) by simp
  then have lw: "int (length w) \<le> INT_MAX" using encode_command_arg [of w as] by linarith
  obtain rest where cmd: "redisAsyncCommandArgv sys st fn pd (int (length (w # as))) (w # as) (Ptr (map (\<lambda>a. int (length a)) (w # as))) =
      redisAsyncCommand0 sys st fn pd (encode_command (w # as) @ NUL # rest) (int (length (encode_command (w # as))))"
    by (rule formatted_command [OF assms(2) lt])
  have w: "w \<noteq> []" "CR \<notin> set w" "verb w \<noteq> ''subscribe''" "verb w \<noteq> ''unsubscribe''" "verb w \<noteq> ''monitor''"
    using assms(5) by (simp_all add: ordinary_def)
  define t where "t = encode_command (w # as) @ NUL # rest"
  obtain pre cs c0 where scan: "nextArgument t 0 = Some (Some (int (length pre), cs, int (length w)))" "0 \<le> cs"
    "t = pre @ encode_args as @ NUL # rest" "byte_at t (int (length pre)) = Some c0" "c0 = CHR ''$'' \<longleftrightarrow> as \<noteq> []" "byte_at t cs = Some (hd w)"
    "\<forall>k. CR \<notin> set k \<longrightarrow> map c_tolower k = k \<longrightarrow>
      strncasecmp_eq (drop (nat (cs + (if c_tolower (hd w) = CHR ''p'' then 1 else 0))) t) (k @ crlf) = Some (verb w = k)"
    by (rule scan_command [OF t_def w(1,2) lw])
  define name where "name = drop (nat (cs + (if c_tolower (hd w) = CHR ''p'' then 1 else 0))) t"
  define k where "k = (''subscribe'' @ crlf, ''unsubscribe'' @ crlf, ''monitor'' @ crlf)"
  have cmps: "strncasecmp_eq name (fst k) = Some False" "strncasecmp_eq name (fst (snd k)) = Some False" "strncasecmp_eq name (snd (snd k)) = Some False"
    by (simp_all only: name_def k_def fst_conv snd_conv w(3-5) scan(7) [rule_format, OF verbs(4,1)]
      scan(7) [rule_format, OF verbs(5,2)] scan(7) [rule_format, OF verbs(6,3)])
  have fold: "''subscribe'' @ crlf = fst k" "''unsubscribe'' @ crlf = fst (snd k)" "''monitor'' @ crlf = snd (snd k)" by (simp_all add: k_def)
  have "cb_room st" using assms(2) by (simp add: cb_room_def plenty_def)
  from push_cb_ok [OF assms(1) this, of i ?cb] obtain l m where
    push: "push_cb i ?cb st = Some (REDIS_OK, st\<lparr>ac := set_list i l (ac st), a_cells := m\<rparr>)"
      "cb_rep (st\<lparr>ac := set_list i l (ac st), a_cells := m\<rparr>) (q(i := q i @ [(fn, pd)]))" by (auto simp: payload_def)
  obtain b' where b': "redisAppendCommand0 ?e sys (ac_c (ac st)) (a_os st) t (int (length (encode_command (w # as)))) =
      Some (REDIS_OK, (ac_c (ac st))\<lparr>c_obuf := Ptr b'\<rparr>)" "sds_ok b'" "sds_str b' = sds_str b @ encode_command (w # as)"
    using redisAppendCommand0_appends [OF assms(2-4,6), of sys "a_os st" rest] by (auto simp: t_def)
  have "alive st = Some (ac st)" using assms(1) by (simp add: cb_rep_def alive_def)
  then have "redisAsyncCommand0 sys st fn pd t (int (length (encode_command (w # as)))) =
      Some (REDIS_OK, EL_ADD_WRITE (upd_c (\<lambda>c. c\<lparr>c_obuf := Ptr b'\<rparr>) (st\<lparr>ac := set_list i l (ac st), a_cells := m\<rparr>)))"
    using assms(7,8) scan(1,4,6) cmps push(1) b'(1)
    unfolding redisAsyncCommand0_def fold Let_def by (simp add: upd_c_def flip: name_def)
  then show ?thesis using push(2) b'(2,3) cmd by (auto simp: t_def)
qed

text \<open>Issuing a sequence of commands: callback, its argument, the words of the command.\<close>

primrec issue_all :: "('o, 'm) os_scheme \<Rightarrow> 'o astate \<Rightarrow> (int \<times> int \<times> bytes list) list \<Rightarrow> (int list \<times> 'o astate) option" where
  "issue_all sys st [] = Some ([], st)"
| "issue_all sys st (x # xs) = (case x of (fn, pd, args) \<Rightarrow> do {
     (rc, st1) \<leftarrow> redisAsyncCommandArgv sys st fn pd (int (length args)) args (Ptr (map (\<lambda>a. int (length a)) args));
     (rcs, st2) \<leftarrow> issue_all sys st1 xs;
     Some (rc # rcs, st2) })"

lemma EL_ADD_WRITE_fields [simp]:
  "ac (EL_ADD_WRITE st) = ac st" "a_heap (EL_ADD_WRITE st) = a_heap st" "cb_rep (EL_ADD_WRITE st) q = cb_rep st q"
  "runs (a_log (EL_ADD_WRITE st)) = runs (a_log st)"
  by (simp_all add: EL_ADD_WRITE_def)

text \<open>
  C32. Commands and callbacks stay in step: whatever ordinary commands are issued in a row on an
  open context, each is accepted, its callback waits behind all earlier ones and its encoding
  stands behind theirs in the output buffer, so that the order of the callbacks is the order in
  which the server sees the commands. While the context is subscribed the callbacks wait in the list for invalid commands
  instead. Nothing else of the context changes.
\<close>

theorem async_commands_in_step:
  assumes "cb_rep st q" "plenty (h_env (a_heap st))" "c_obuf (ac_c (ac st)) = Ptr b" "sds_ok b"
    "list_all (\<lambda>(fn, pd, args). args \<noteq> [] \<and> ordinary (hd args)) cmds"
    "int (length (sds_str b)) + int (length (concat (map (\<lambda>(fn, pd, args). encode_command args) cmds))) < SDS_LIMIT"
    "\<not> has_flag (ac_c (ac st)) (REDIS_DISCONNECTING OR REDIS_FREEING)" "i \<longleftrightarrow> \<not> has_flag (ac_c (ac st)) REDIS_SUBSCRIBED"
  shows "\<exists>st' b'. issue_all sys st cmds = Some (replicate (length cmds) REDIS_OK, st') \<and>
    cb_rep st' (q(i := q i @ map (\<lambda>(fn, pd, args). (fn, pd)) cmds)) \<and>
    ac_c (ac st') = (ac_c (ac st))\<lparr>c_obuf := Ptr b'\<rparr> \<and> sds_ok b' \<and>
    sds_str b' = sds_str b @ concat (map (\<lambda>(fn, pd, args). encode_command args) cmds) \<and>
    a_heap st' = a_heap st \<and> runs (a_log st') = runs (a_log st)"
  using assms
proof (induction cmds arbitrary: st q b)
  case Nil
  have "ac_c (ac st) = (ac_c (ac st))\<lparr>c_obuf := Ptr b\<rparr>" using Nil.prems(3) by simp
  then show ?case using Nil.prems(1,4) by auto
next
  case (Cons x xs)
  obtain fn pd w as where x: "x = (fn, pd, w # as)" "ordinary w" using Cons.prems(5) by (cases x; cases "snd (snd x)") auto
  let ?t = "encode_command (w # as)" and ?ts = "concat (map (\<lambda>(fn, pd, args). encode_command args) xs)"
  have len: "int (length (sds_str b)) + int (length ?t) < SDS_LIMIT" using Cons.prems(6) x(1) by simp
  obtain l m b1 where c: "redisAsyncCommandArgv sys st fn pd (int (length (w # as))) (w # as) (Ptr (map (\<lambda>a. int (length a)) (w # as))) =
      Some (REDIS_OK, EL_ADD_WRITE (upd_c (\<lambda>c. c\<lparr>c_obuf := Ptr b1\<rparr>) (st\<lparr>ac := set_list i l (ac st), a_cells := m\<rparr>)))"
    "cb_rep (st\<lparr>ac := set_list i l (ac st), a_cells := m\<rparr>) (q(i := q i @ [(fn, pd)]))" "sds_ok b1" "sds_str b1 = sds_str b @ ?t"
    using ordinary_command [OF Cons.prems(1-4) x(2) len Cons.prems(7,8), of sys fn pd] by blast
  define st1 where "st1 = EL_ADD_WRITE (upd_c (\<lambda>c. c\<lparr>c_obuf := Ptr b1\<rparr>) (st\<lparr>ac := set_list i l (ac st), a_cells := m\<rparr>))"
  define q1 where "q1 = q(i := q i @ [(fn, pd)])"
  have st1: "cb_rep st1 q1" "plenty (h_env (a_heap st1))" "c_obuf (ac_c (ac st1)) = Ptr b1"
    "ac_c (ac st1) = (ac_c (ac st))\<lparr>c_obuf := Ptr b1\<rparr>" "a_heap st1 = a_heap st" "runs (a_log st1) = runs (a_log st)"
    using c(2) Cons.prems(2) by (simp_all add: st1_def q1_def)
  have flags: "has_flag (ac_c (ac st1)) f = has_flag (ac_c (ac st)) f" for f using st1(4) by (simp add: has_flag_def)
  have xs: "list_all (\<lambda>(fn, pd, args). args \<noteq> [] \<and> ordinary (hd args)) xs" "int (length (sds_str b1)) + int (length ?ts) < SDS_LIMIT"
    using Cons.prems(5,6) x(1) c(4) by simp_all
  obtain st' b' where ih: "issue_all sys st1 xs = Some (replicate (length xs) REDIS_OK, st')"
    "cb_rep st' (q1(i := q1 i @ map (\<lambda>(fn, pd, args). (fn, pd)) xs))"
    "ac_c (ac st') = (ac_c (ac st1))\<lparr>c_obuf := Ptr b'\<rparr>" "sds_ok b'" "sds_str b' = sds_str b1 @ ?ts"
    "a_heap st' = a_heap st1" "runs (a_log st') = runs (a_log st1)"
    using Cons.IH [OF st1(1-3) c(3) xs] Cons.prems(7,8) flags by blast
  have "issue_all sys st (x # xs) = Some (replicate (length (x # xs)) REDIS_OK, st')"
    using c(1) ih(1) x(1) unfolding st1_def by simp
  moreover have "q1(i := q1 i @ map (\<lambda>(fn, pd, args). (fn, pd)) xs) = q(i := q i @ map (\<lambda>(fn, pd, args). (fn, pd)) (x # xs))"
    using x(1) by (simp add: q1_def)
  then have "cb_rep st' (q(i := q i @ map (\<lambda>(fn, pd, args). (fn, pd)) (x # xs)))" using ih(2) by metis
  moreover have "sds_str b' = sds_str b @ concat (map (\<lambda>(fn, pd, args). encode_command args) (x # xs))" using ih(5) c(4) x(1) by simp
  moreover have "ac_c (ac st') = (ac_c (ac st))\<lparr>c_obuf := Ptr b'\<rparr>" using ih(3) st1(4) by simp
  ultimately show ?case using ih(4,6,7) st1(5,6) by metis
qed

theorem async_commands_in_step_witness:
  "\<exists>st' b'. issue_all (demo_os 0) demo_async [(7, 70, [''SET'', ''k'', ''v'']), (8, 80, [''PING''])] = Some ([REDIS_OK, REDIS_OK], st') \<and>
    cb_rep st' ((\<lambda>i. [])(True := [(7, 70), (8, 80)])) \<and> c_obuf (ac_c (ac st')) = Ptr b' \<and>
    sds_str b' = encode_command [''SET'', ''k'', ''v''] @ encode_command [''PING'']"
proof -
  let ?cmds = "[(7, 70, [''SET'', ''k'', ''v'']), (8, 80, [''PING''])] :: (int \<times> int \<times> bytes list) list"
  have st: "plenty (h_env (a_heap demo_async))" "c_obuf (ac_c (ac demo_async)) = Ptr (sds_of [])"
    "\<not> has_flag (ac_c (ac demo_async)) (REDIS_DISCONNECTING OR REDIS_FREEING)" "True \<longleftrightarrow> \<not> has_flag (ac_c (ac demo_async)) REDIS_SUBSCRIBED"
    by (simp_all add: demo_async_def demo_heap_def demo_client_def has_flag_def)
  have ok: "list_all (\<lambda>(fn, pd, args). args \<noteq> [] \<and> ordinary (hd args)) ?cmds" by code_simp
  have len: "int (length (concat (map (\<lambda>(fn, pd, args). encode_command args) ?cmds))) < SDS_LIMIT" by code_simp
  have "replicate (length ?cmds) 0 = [0, 0 :: int]" by (simp add: numeral_eq_Suc)
  then show ?thesis
    using async_commands_in_step [OF demo_async_rep(1) st(1,2) sds_of_ok ok _ st(3,4), of "demo_os 0"] len by fastforce
qed

section \<open>Subscriptions\<close>

lemma make_key_text:
  assumes "plenty e" "int (length a) \<le> INT_MAX"
  shows "make_key e (a @ rest) (int (length a)) = Some a"
  using sdsnewlen_yields [of "int (length a)" "a @ rest" e] sdsnewlen_plenty [OF assms(1), of "Ptr (a @ rest)" "int (length a)"] assms(2)
  by (auto simp: make_key_def yields_def)

lemma callbackDict_fns [simp]: "dictCompareHashKeys callbackDict k k' \<longleftrightarrow> k = k'" "dictSetHashVal callbackDict cb = cb"
  by (simp_all add: callbackDict_def dictCompareHashKeys_def dictSetHashVal_def callbackValDup_def)

lemma drop_length_append: "drop (length xs) (xs @ ys) = ys"
  by simp

lemma length_encode_args_member: "a \<in> set as \<Longrightarrow> length a \<le> length (encode_args as)"
  by (induction as) (auto simp: length_encode_arg)

lemma subscribe_loop_maps:
  assumes "plenty e" "dict_ok d" "dtype d = callbackDict" "b = pre @ encode_args as @ NUL # rest"
    "ht_used d + int (length as) \<le> 2147483648" "list_all (\<lambda>a. int (length a) \<le> INT_MAX) as"
  shows "\<exists>d'. subscribe_loop e cb b (int (length pre)) d = Some d' \<and> dict_ok d' \<and> dtype d' = callbackDict \<and>
    dict_map d' = (\<lambda>k. if k \<in> set as then Some cb else dict_map d k) \<and> ht_used d' \<le> ht_used d + int (length as)"
  using assms(2-)
proof (induction as arbitrary: pre d)
  case Nil
  then show ?case using nextArgument_end [of b pre rest] by (subst subscribe_loop.simps) simp
next
  case (Cons a as)
  let ?p = "int (length pre)" and ?d = "dec_string (length a)"
  have b: "b = pre @ [] @ encode_arg a @ encode_args as @ NUL # rest" using Cons.prems(3) by simp
  have a: "int (length a) \<le> INT_MAX" and used: "ht_used d < 2147483648" using Cons.prems(4,5) by simp_all
  have "nextArgument b ?p = Some (Some (?p + int (length (encode_arg a)), ?p + int (length ?d) + 3, int (length a)))"
    using nextArgument_finds [OF b _ _ a refl] by simp
  moreover have "drop (nat (?p + int (length ?d) + 3)) b = a @ crlf @ encode_args as @ NUL # rest"
  proof -
    have "b = (pre @ CHR ''$'' # ?d @ crlf) @ a @ crlf @ encode_args as @ NUL # rest" using b by (simp add: encode_arg_def)
    moreover have "nat (?p + int (length ?d) + 3) = length (pre @ CHR ''$'' # ?d @ crlf)" by simp
    ultimately show ?thesis by (simp only: drop_length_append)
  qed
  then have "make_key e (drop (nat (?p + int (length ?d) + 3)) b) (int (length a)) = Some a"
    using make_key_text [OF assms(1) a] by simp
  moreover obtain rc d1 fs where d1: "dictReplace e d a cb = Some (rc, d1, fs)" "dict_ok d1" "dtype d1 = dtype d" "ht_used d1 \<le> ht_used d + 1"
    "\<And>k'. dict_map d1 k' = (if dictCompareHashKeys (dtype d) k' a then Some (dictSetHashVal (dtype d) cb) else dict_map d k')"
    using dictReplace_map [OF assms(1) Cons.prems(1) used, of a cb] by metis
  ultimately have step: "subscribe_loop e cb b ?p d = subscribe_loop e cb b (int (length (pre @ encode_arg a))) d1"
    by (subst subscribe_loop.simps) simp
  have "b = (pre @ encode_arg a) @ encode_args as @ NUL # rest" using b by simp
  from Cons.IH [OF d1(2) _ this] d1(3,4) Cons.prems(2,4,5) obtain d' where
    "subscribe_loop e cb b (int (length (pre @ encode_arg a))) d1 = Some d'" "dict_ok d'" "dtype d' = callbackDict"
    "dict_map d' = (\<lambda>k. if k \<in> set as then Some cb else dict_map d1 k)" "ht_used d' \<le> ht_used d1 + int (length as)" by auto
  then show ?case using step d1(4,5) Cons.prems(2) by (auto simp: fun_eq_iff)
qed

lemma sub_tables [simp]:
  "sub_table pv (set_table pv d a) = d" "sub_table (\<not> pv) (set_table pv d a) = sub_table (\<not> pv) a" "ac_c (set_table pv d a) = ac_c a"
  "ac_replies (set_table pv d a) = ac_replies a" "sub_invalid (set_table pv d a) = sub_invalid a"
  by (cases pv; simp add: sub_table_def set_table_def)+

text \<open>
  C36. A subscription registers its callback: SUBSCRIBE and PSUBSCRIBE, in any mixture of upper and lower case and with any number of
  channels, are accepted on an open context, put it into subscribed mode and make the callback the
  one of every channel named, also of those that had another; the other channels of the table and
  the other table stay as they are. No callback is queued, and the command stands behind the
  output.
\<close>

theorem async_subscribe_registers:
  assumes "cb_rep st q" "plenty (h_env (a_heap st))" "c_obuf (ac_c (ac st)) = Ptr b" "sds_ok b"
    "w \<noteq> []" "CR \<notin> set w" "verb w = ''subscribe''" "pv \<longleftrightarrow> c_tolower (hd w) = CHR ''p''" "chs \<noteq> []"
    "int (length (sds_str b)) + int (length (encode_command (w # chs))) < SDS_LIMIT"
    "\<not> has_flag (ac_c (ac st)) (REDIS_DISCONNECTING OR REDIS_FREEING)"
    "dict_ok (sub_table pv (ac st))" "dtype (sub_table pv (ac st)) = callbackDict" "ht_used (sub_table pv (ac st)) + int (length chs) \<le> 2147483648"
  shows "\<exists>st' b'. redisAsyncCommandArgv sys st fn pd (int (length (w # chs))) (w # chs) (Ptr (map (\<lambda>a. int (length a)) (w # chs))) = Some (REDIS_OK, st') \<and>
    has_flag (ac_c (ac st')) REDIS_SUBSCRIBED \<and> dict_ok (sub_table pv (ac st')) \<and>
    dict_map (sub_table pv (ac st')) =
      (\<lambda>k. if k \<in> set chs then Some \<lparr>cb_next = 0, cb_fn = fn, cb_privdata = pd\<rparr> else dict_map (sub_table pv (ac st)) k) \<and>
    sub_table (\<not> pv) (ac st') = sub_table (\<not> pv) (ac st) \<and> cb_rep st' q \<and>
    c_obuf (ac_c (ac st')) = Ptr b' \<and> sds_str b' = sds_str b @ encode_command (w # chs)"
proof -
  let ?e = "h_env (a_heap st)" and ?cb = "\<lparr>cb_next = 0, cb_fn = fn, cb_privdata = pd\<rparr>" and ?c = "set_flag REDIS_SUBSCRIBED (ac_c (ac st))"
  have lt: "int (length (encode_command (w # chs))) < SDS_LIMIT" using assms(10) by simp
  then have lw: "int (length w) \<le> INT_MAX" using encode_command_arg [of w chs] by linarith
  obtain rest where cmd: "redisAsyncCommandArgv sys st fn pd (int (length (w # chs))) (w # chs) (Ptr (map (\<lambda>a. int (length a)) (w # chs))) =
      redisAsyncCommand0 sys st fn pd (encode_command (w # chs) @ NUL # rest) (int (length (encode_command (w # chs))))"
    by (rule formatted_command [OF assms(2) lt])
  define t where "t = encode_command (w # chs) @ NUL # rest"
  obtain pre cs c0 where scan: "nextArgument t 0 = Some (Some (int (length pre), cs, int (length w)))" "0 \<le> cs"
    "t = pre @ encode_args chs @ NUL # rest" "byte_at t (int (length pre)) = Some c0" "c0 = CHR ''$'' \<longleftrightarrow> chs \<noteq> []" "byte_at t cs = Some (hd w)"
    "\<forall>k. CR \<notin> set k \<longrightarrow> map c_tolower k = k \<longrightarrow>
      strncasecmp_eq (drop (nat (cs + (if c_tolower (hd w) = CHR ''p'' then 1 else 0))) t) (k @ crlf) = Some (verb w = k)"
    by (rule scan_command [OF t_def assms(5,6) lw])
  have cmp: "strncasecmp_eq (drop (nat (cs + (if c_tolower (hd w) = CHR ''p'' then 1 else 0))) t) (''subscribe'' @ crlf) = Some True"
    by (simp only: scan(7) [rule_format, OF verbs(4,1)] assms(7) refl)
  have "int (length a) \<le> INT_MAX" if "a \<in> set chs" for a
    using lt length_encode_args_member [OF that] by (simp add: encode_command_eq length_encode_arg)
  then have "list_all (\<lambda>a. int (length a) \<le> INT_MAX) chs" by (simp add: list_all_iff)
  from subscribe_loop_maps [OF assms(2,12,13) scan(3) assms(14) this, of ?cb] obtain d where
    d: "subscribe_loop ?e ?cb t (int (length pre)) (sub_table pv (ac st)) = Some d" "dict_ok d"
      "dict_map d = (\<lambda>k. if k \<in> set chs then Some ?cb else dict_map (sub_table pv (ac st)) k)" by blast
  obtain b' where b': "redisAppendCommand0 ?e sys ?c (a_os st) t (int (length (encode_command (w # chs)))) = Some (REDIS_OK, ?c\<lparr>c_obuf := Ptr b'\<rparr>)"
    "sds_str b' = sds_str b @ encode_command (w # chs)"
    using redisAppendCommand0_appends [OF assms(2) _ assms(4,10), of ?c sys "a_os st" rest] assms(3) by (auto simp: t_def)
  define st1 where "st1 = (upd_c (set_flag REDIS_SUBSCRIBED) st)\<lparr>ac := set_table pv d (ac (upd_c (set_flag REDIS_SUBSCRIBED) st))\<rparr>"
  define st' where "st' = EL_ADD_WRITE (upd_c (\<lambda>_. ?c\<lparr>c_obuf := Ptr b'\<rparr>) st1)"
  have st1: "ac_c (ac st1) = ?c" "a_os st1 = a_os st" "sub_table pv (ac st1) = d" "sub_table (\<not> pv) (ac st1) = sub_table (\<not> pv) (ac st)"
    by (cases pv; simp add: st1_def sub_table_def set_table_def)+
  have "alive st = Some (ac st)" using assms(1) by (simp add: cb_rep_def alive_def)
  then have "redisAsyncCommand0 sys st fn pd t (int (length (encode_command (w # chs)))) = do {
      d \<leftarrow> subscribe_loop ?e ?cb t (int (length pre)) (sub_table (c_tolower (hd w) = CHR ''p'') (ac st));
      let st1 = (upd_c (set_flag REDIS_SUBSCRIBED) st)\<lparr>ac := set_table (c_tolower (hd w) = CHR ''p'') d (ac (upd_c (set_flag REDIS_SUBSCRIBED) st))\<rparr>;
      (rc, c) \<leftarrow> redisAppendCommand0 ?e sys (ac_c (ac st1)) (a_os st1) t (int (length (encode_command (w # chs))));
      Some (REDIS_OK, EL_ADD_WRITE (upd_c (\<lambda>_. c) st1)) }"
    using assms(9,11) scan(1,4,5,6) cmp unfolding redisAsyncCommand0_def Let_def
    by (simp only: bind.simps split_conv if_True if_False simp_thms sum.case option.case refl bind_assoc)
  also have "\<dots> = Some (REDIS_OK, st')"
    using d(1) b'(1) st1(1,2) unfolding assms(8) [symmetric] st1_def [symmetric] Let_def by (simp add: st'_def flip: st1_def)
  finally have "redisAsyncCommand0 sys st fn pd t (int (length (encode_command (w # chs)))) = Some (REDIS_OK, st')" .
  moreover have "ac_replies (ac st1) = ac_replies (ac st)" "sub_invalid (ac st1) = sub_invalid (ac st)" "a_cells st1 = a_cells st" "a_freed st1 = a_freed st"
    by (simp_all add: st1_def)
  then have "cb_rep st' q" using assms(1) cb_rep_cong [of st1 st q] by (simp add: st'_def)
  moreover have "sub_table pv (ac st') = d" "sub_table (\<not> pv) (ac st') = sub_table (\<not> pv) (ac st)"
    using st1(3,4) by (cases pv; simp add: st'_def sub_table_def)+
  moreover have "has_flag ?c REDIS_SUBSCRIBED" by (simp add: flag_simps)
  then have "has_flag (ac_c (ac st')) REDIS_SUBSCRIBED" "c_obuf (ac_c (ac st')) = Ptr b'"
    by (simp_all add: st'_def has_flag_def)
  ultimately show ?thesis using cmd d(2,3) b'(2) unfolding t_def by (intro exI [of _ st'] exI [of _ b']) (simp only: simp_thms)
qed

theorem async_subscribe_registers_witness:
  "\<exists>st'. redisAsyncCommandArgv (demo_os 0) demo_async 7 70 3 [''psubscribe'', ''a'', ''b''] (Ptr [10, 1, 1]) = Some (REDIS_OK, st') \<and>
    dict_map (sub_patterns (ac st')) ''b'' = Some \<lparr>cb_next = 0, cb_fn = 7, cb_privdata = 70\<rparr> \<and> dict_map (sub_patterns (ac st')) ''c'' = None \<and>
    sub_channels (ac st') = demo_table"
proof -
  let ?w = "''psubscribe''" and ?chs = "[''a'', ''b'']"
  have st: "plenty (h_env (a_heap demo_async))" "c_obuf (ac_c (ac demo_async)) = Ptr (sds_of [])"
    "\<not> has_flag (ac_c (ac demo_async)) (REDIS_DISCONNECTING OR REDIS_FREEING)" "sub_table True (ac demo_async) = demo_table" "sub_table False (ac demo_async) = demo_table"
    by (simp_all add: demo_async_def demo_heap_def demo_client_def has_flag_def sub_table_def)
  have w: "?w \<noteq> []" "CR \<notin> set ?w" "verb ?w = ''subscribe''" "True \<longleftrightarrow> c_tolower (hd ?w) = CHR ''p''" "?chs \<noteq> []"
    "int (length (encode_command (?w # ?chs))) < SDS_LIMIT" by (simp, code_simp, code_simp, code_simp, simp, code_simp)
  have tab: "dict_ok demo_table" "dtype demo_table = callbackDict" "ht_used demo_table = 0" "dict_map demo_table k = None" for k
    using demo_table_ok by (auto simp: table_ok_def demo_table_def dict_map_def)
  obtain st' where "redisAsyncCommandArgv (demo_os 0) demo_async 7 70 (int (length (?w # ?chs))) (?w # ?chs) (Ptr (map (\<lambda>a. int (length a)) (?w # ?chs))) = Some (REDIS_OK, st')"
    "dict_map (sub_table True (ac st')) =
      (\<lambda>k. if k \<in> set ?chs then Some \<lparr>cb_next = 0, cb_fn = 7, cb_privdata = 70\<rparr> else dict_map (sub_table True (ac demo_async)) k)"
    "sub_table False (ac st') = demo_table"
    using async_subscribe_registers [OF demo_async_rep(1) st(1,2) sds_of_ok w(1-5) _ st(3), of "demo_os 0" 7 70] w(6) tab st(4,5) by auto
  then show ?thesis using tab(4) st(4) by (simp add: sub_table_def)
qed

end
