(* ===== verification/Async_Messages.thy ===== *)
theory Async_Messages
  imports Async_Commands
begin

text \<open>
  Subscribed contexts: which callback a pushed message reaches, and how the last unsubscription ends
  the subscribed mode.
\<close>

section \<open>Reading a message\<close>

abbreviation is_pattern :: "bytes \<Rightarrow> bool" where
  "is_pattern kind \<equiv> c_tolower (hd kind) = CHR ''p''"

text \<open>The pieces of a reply that begins with two strings.\<close>

lemma two_strings:
  assumes "represents (VArr (VStr kind # VStr ch # vs)) h a"
  obtains ob e0 e1 where "h_objs h a = Some ob" "ry_type ob = REDIS_REPLY_ARRAY" "ry_elements ob = int (length vs) + 2"
    "element_at h ob 0 = Some e0" "ry_type e0 = REDIS_REPLY_STRING" "ry_str e0 = Ptr (cstr kind)"
    "element_at h ob 1 = Some e1" "ry_type e1 = REDIS_REPLY_STRING" "ry_str e1 = Ptr (cstr ch)" "ry_len e1 = int (length ch)"
    "\<And>i v. vs = [VInt i] \<Longrightarrow> \<exists>e2. element_at h ob 2 = Some e2 \<and> ry_type e2 = REDIS_REPLY_INTEGER \<and> ry_integer e2 = i"
proof -
  obtain ob es where ob: "h_objs h a = Some ob" "ry_type ob = REDIS_REPLY_ARRAY" "ry_elements ob = int (length vs) + 2" "ry_element ob = Ptr es"
    "list_all2 (\<lambda>k P. a < k \<and> P h k) es (map represents (VStr kind # VStr ch # vs))"
    using assms by auto
  obtain k0 k1 ks where es: "es = k0 # k1 # ks" "represents (VStr kind) h k0" "represents (VStr ch) h k1"
    "list_all2 (\<lambda>k P. a < k \<and> P h k) ks (map represents vs)"
    using ob(5) by (auto simp: list_all2_Cons2)
  obtain e0 e1 where "h_objs h k0 = Some e0" "ry_type e0 = REDIS_REPLY_STRING" "ry_str e0 = Ptr (cstr kind)"
    "h_objs h k1 = Some e1" "ry_type e1 = REDIS_REPLY_STRING" "ry_str e1 = Ptr (cstr ch)" "ry_len e1 = int (length ch)"
    using es(2,3) by auto
  then show thesis
    by (intro that [of ob e0 e1]) (use ob es(1,4) in \<open>auto simp: element_at_def list_all2_Cons2\<close>)
qed

definition tables_ok :: "redisAsyncContext \<Rightarrow> bool" where
  "tables_ok a \<longleftrightarrow> (\<forall>pv. dict_ok (sub_table pv a) \<and> dtype (sub_table pv a) = callbackDict \<and> ht_used (sub_table pv a) < 18446744073709551616)"

lemma word_text:
  assumes "NUL \<notin> set kind" "kind \<noteq> []"
  shows "c_text (drop (if is_pattern kind then 1 else 0) (cstr kind)) = Some (if is_pattern kind then tl kind else kind)"
proof -
  obtain x xs where "kind = x # xs" using assms(2) by (cases kind) auto
  moreover have "takeWhile (\<lambda>x. x \<noteq> NUL) (us @ [NUL]) = us" if "NUL \<notin> set us" for us using that by (induction us) auto
  ultimately show ?thesis using assms(1) by (auto simp: c_text_def cstr_def)
qed

lemma subscribe_lookup:
  assumes "represents (VArr (VStr kind # VStr ch # vs)) (a_heap st) a" "\<not> a_freed st" "plenty (h_env (a_heap st))" "tables_ok (ac st)"
    "kind \<noteq> []" "NUL \<notin> set kind" "int (length ch) \<le> INT_MAX" "dict_map (sub_table (is_pattern kind) (ac st)) ch = Some cb"
  shows "verb kind \<noteq> ''unsubscribe'' \<Longrightarrow> redisGetSubscribeCallback st a t = Some (cb, st)"
    "verb kind = ''unsubscribe'' \<Longrightarrow> vs = [VInt i] \<Longrightarrow>
      \<exists>rc d fs. dictDelete (sub_table (is_pattern kind) (ac st)) ch = Some (rc, d, fs) \<and>
        redisGetSubscribeCallback st a t = Some (cb, (if i = 0 then upd_c (clear_flag REDIS_SUBSCRIBED) else id) (st\<lparr>ac := set_table (is_pattern kind) d (ac st)\<rparr>))"
proof -
  let ?h = "a_heap st" and ?tab = "sub_table (is_pattern kind) (ac st)"
  obtain ob e0 e1 where o: "h_objs ?h a = Some ob" "ry_type ob = REDIS_REPLY_ARRAY" "ry_elements ob = int (length vs) + 2"
    "element_at ?h ob 0 = Some e0" "ry_type e0 = REDIS_REPLY_STRING" "ry_str e0 = Ptr (cstr kind)"
    "element_at ?h ob 1 = Some e1" "ry_type e1 = REDIS_REPLY_STRING" "ry_str e1 = Ptr (cstr ch)" "ry_len e1 = int (length ch)"
    and two: "\<And>i. vs = [VInt i] \<Longrightarrow> \<exists>e2. element_at ?h ob 2 = Some e2 \<and> ry_type e2 = REDIS_REPLY_INTEGER \<and> ry_integer e2 = i"
    using two_strings [OF assms(1)] by metis
  have key: "make_key (h_env ?h) (cstr ch) (int (length ch)) = Some ch" using make_key_text [OF assms(3,7), of "[NUL]"] by (simp add: cstr_def)
  have tab: "dict_ok ?tab" "ht_used ?tab < 18446744073709551616" using assms(4) unfolding tables_ok_def by blast+
  obtain p where "dictFind ?tab ch = Some p" "dict_map ?tab ch = (case p of NULL \<Rightarrow> None | Ptr he \<Rightarrow> Some (snd he))"
    using dictFind_spec [OF tab(1), of ch] by blast
  then obtain he where he: "dictFind ?tab ch = Some (Ptr he)" "snd he = cb" using assms(8) by (cases p) auto
  have c0: "byte_at (cstr kind) 0 = Some (hd kind)" using assms(5) by (cases kind) (simp_all add: byte_at_def cstr_def)
  note word = word_text [OF assms(6,5)]
  have low: "map c_tolower (if is_pattern kind then tl kind else kind) = verb kind" by (simp add: verb_def)
  note defs = redisGetSubscribeCallback_def alive_def Let_def reply_text_def
  show "redisGetSubscribeCallback st a t = Some (cb, st)" if "verb kind \<noteq> ''unsubscribe''"
    using assms(2) o key he c0 word that unfolding defs by (simp add: low del: drop_append cong: if_cong)
  show "\<exists>rc d fs. dictDelete ?tab ch = Some (rc, d, fs) \<and>
      redisGetSubscribeCallback st a t = Some (cb, (if i = 0 then upd_c (clear_flag REDIS_SUBSCRIBED) else id) (st\<lparr>ac := set_table (is_pattern kind) d (ac st)\<rparr>))"
    if uns: "verb kind = ''unsubscribe''" "vs = [VInt i]"
  proof -
    obtain rc d fs where d: "dictDelete ?tab ch = Some (rc, d, fs)" using dictDelete_map [OF tab, of ch] by metis
    obtain e2 where "element_at ?h ob 2 = Some e2" "ry_type e2 = REDIS_REPLY_INTEGER" "ry_integer e2 = i" using two [OF uns(2)] by blast
    then show ?thesis using assms(2) o key he c0 word d uns unfolding defs by (simp add: low del: drop_append cong: if_cong)
  qed
qed

lemma delete_removes:
  assumes "dict_ok d" "ht_used d < 18446744073709551616" "dtype d = callbackDict" "dictDelete d k = Some (rc, d', fs)"
  shows "dict_map d' = (dict_map d)(k := None)"
proof (rule dictDelete_map [OF assms(1,2), of k])
  fix r ht' fs'
  assume "dictDelete d k = Some (r, ht', fs')" "\<And>k'. dict_map ht' k' = (if dictCompareHashKeys (dtype d) k' k then None else dict_map d k')"
  then show ?thesis using assms(3,4) by (simp add: fun_eq_iff)
qed

section \<open>Delivering messages\<close>

text \<open>The reply is a message, not an unsubscription, for a channel or pattern with the given callback.\<close>

definition message_for :: "redisAsyncContext \<Rightarrow> rval \<Rightarrow> redisCallback \<Rightarrow> bool" where
  "message_for a v cb \<longleftrightarrow> (\<exists>kind ch vs. v = VArr (VStr kind # VStr ch # vs) \<and> kind \<noteq> [] \<and> NUL \<notin> set kind \<and>
     verb kind \<noteq> ''unsubscribe'' \<and> int (length ch) \<le> INT_MAX \<and> dict_map (sub_table (is_pattern kind) a) ch = Some cb \<and> cb_fn cb \<noteq> 0)"

lemma sub_table_cong: "sub_channels a' = sub_channels a \<Longrightarrow> sub_patterns a' = sub_patterns a \<Longrightarrow> sub_table pv a' = sub_table pv a"
  by (simp add: sub_table_def)

lemma step_message:
  assumes "receiving st q (encode v @ rest)" "awake st" "may_issue False user" "rval_ok v" "depth v \<le> 8" "q True = []"
    "has_flag (ac_c (ac st)) REDIS_SUBSCRIBED" "tables_ok (ac st)" "message_for (ac st) v cb"
  shows "\<exists>st' ev. callback_loop user sys t st = callback_loop user sys cb st' \<and> receiving st' q rest \<and> flags_of st' = flags_of st \<and>
    same_end st st' \<and> runs (a_log st') = runs (a_log st) @ [ev] \<and> delivered ev (payload cb, v)"
proof -
  obtain kind ch vs where v: "v = VArr (VStr kind # VStr ch # vs)" "kind \<noteq> []" "NUL \<notin> set kind" "verb kind \<noteq> ''unsubscribe''"
    "int (length ch) \<le> INT_MAX" "dict_map (sub_table (is_pattern kind) (ac st)) ch = Some cb" "cb_fn cb \<noteq> 0"
    using assms(9) by (auto simp: message_for_def)
  obtain st1 a where g: "get_reply sys st = Some (REDIS_OK, a, st1)" "a \<noteq> 0" "receiving st1 q rest" "represents v (a_heap st1) a"
    "\<And>b. \<not> kid_of (a_heap st1) b a" "flags_of st1 = flags_of st" "a_log st1 = a_log st" "same_end st st1"
    using get_reply_next [OF assms(1,4,5), of sys] by blast
  have st1: "\<not> a_freed st1" "plenty (h_env (a_heap st1))" "cb_rep st1 q" using g(3) by (auto simp: receiving_def cb_rep_def)
  have tabs: "sub_table pv (ac st1) = sub_table pv (ac st)" for pv using g(8) by (intro sub_table_cong) (simp_all add: same_end_def)
  then have "tables_ok (ac st1)" using assms(8) by (simp add: tables_ok_def)
  then have look: "redisGetSubscribeCallback st1 a t = Some (cb, st1)"
    using subscribe_lookup(1) [of kind ch vs st1 a cb t] g(4) st1(1,2) v tabs by metis
  have flags: "has_flag (ac_c (ac st1)) f = has_flag (ac_c (ac st)) f" for f using g(6) by (simp add: has_flag_def)
  then have calm: "\<not> has_flag (ac_c (ac st1)) REDIS_IN_CALLBACK" "\<not> has_flag (ac_c (ac st1)) REDIS_FREEING" using assms(2) by (simp_all add: awake_def)
  obtain st2 where d: "deliver user sys cb a st1 = Some (Inr (cb, st2))" "receiving st2 (q(True := q True @ [])) rest" "flags_of st2 = flags_of st1"
    "same_end st1 st2" "runs (a_log st2) = runs (a_log st1) @ [RunCallback (cb_fn cb) a (cb_privdata cb) (a_heap st1)]"
    using deliver_issue [OF g(3) assms(3) calm v(7) represents_allocated [OF g(4)] g(5), of sys] by auto
  obtain ob where ob: "h_objs (a_heap st1) a = Some ob" "ry_type ob = REDIS_REPLY_ARRAY" using g(4) v(1) by auto
  have "shift_cb True t st1 = Some (REDIS_ERR, t, st1)" by (rule shift_cb_empty [OF st1(3) assms(6)])
  then have "reply_step user sys t a st1 = Some (Inr (cb, st2))"
    using ob look d(1) assms(7) flags by (simp add: reply_step_def)
  then have "callback_loop user sys t st = callback_loop user sys cb st2" using g(1,2) by (subst callback_loop.simps) simp
  moreover have "receiving st2 q rest" using d(2) by simp
  moreover have "delivered (RunCallback (cb_fn cb) a (cb_privdata cb) (a_heap st1)) (payload cb, v)"
    using g(4) by (auto simp: delivered_def payload_def)
  moreover have "same_end st st2" using g(8) d(4) same_end_trans by blast
  ultimately show ?thesis using d(3,5) g(6,7) by metis
qed

lemma loop_messages:
  assumes "receiving st q (concat (map encode vs))" "awake st" "may_issue False user" "list_all (\<lambda>v. rval_ok v \<and> depth v \<le> 8) vs" "q True = []"
    "has_flag (ac_c (ac st)) REDIS_SUBSCRIBED" "tables_ok (ac st)" "list_all2 (message_for (ac st)) vs cbs"
    "\<not> has_flag (ac_c (ac st)) REDIS_DISCONNECTING" "\<not> has_flag (ac_c (ac st)) REDIS_MONITORING"
  shows "\<exists>st' evs. callback_loop user sys t st = Some st' \<and> runs (a_log st') = runs (a_log st) @ evs \<and>
    list_all2 delivered evs (zip (map payload cbs) vs) \<and> receiving st' q [] \<and> flags_of st' = flags_of st \<and>
    sub_channels (ac st') = sub_channels (ac st) \<and> sub_patterns (ac st') = sub_patterns (ac st)"
  using assms(1,2,4,6-10)
proof (induction vs arbitrary: st cbs t)
  case Nil
  obtain st' where g: "get_reply sys st = Some (REDIS_OK, 0, st')" "receiving st' q []" "flags_of st' = flags_of st" "a_log st' = a_log st" "same_end st st'"
    using get_reply_none [of st q sys] Nil.prems(1,2) by (auto simp: awake_def)
  have "no_reply user sys t st' = Some st'" using Nil.prems(7,8) g(3) by (simp add: no_reply_def has_flag_def)
  then have "callback_loop user sys t st = Some st'" using g(1) by (subst callback_loop.simps) simp
  then show ?case using g(2-5) Nil.prems(6) by (intro exI [of _ st'] exI [of _ "[]"]) (simp add: same_end_def)
next
  case (Cons v vs)
  obtain cb cbs' where cbs: "cbs = cb # cbs'" "message_for (ac st) v cb" "list_all2 (message_for (ac st)) vs cbs'"
    using Cons.prems(6) by (auto simp: list_all2_Cons1)
  have v: "rval_ok v" "depth v \<le> 8" "list_all (\<lambda>v. rval_ok v \<and> depth v \<le> 8) vs" using Cons.prems(3) by simp_all
  have "receiving st q (encode v @ concat (map encode vs))" using Cons.prems(1) by simp
  from step_message [OF this Cons.prems(2) assms(3) v(1,2) assms(5) Cons.prems(4,5) cbs(2), of sys t] obtain st1 ev where
    s1: "callback_loop user sys t st = callback_loop user sys cb st1" "receiving st1 q (concat (map encode vs))" "flags_of st1 = flags_of st"
      "same_end st st1" "runs (a_log st1) = runs (a_log st) @ [ev]" "delivered ev (payload cb, v)" by blast
  have tabs: "sub_table pv (ac st1) = sub_table pv (ac st)" for pv using s1(4) by (intro sub_table_cong) (simp_all add: same_end_def)
  have flags: "has_flag (ac_c (ac st1)) f = has_flag (ac_c (ac st)) f" for f using s1(3) by (simp add: has_flag_def)
  have "message_for (ac st1) = message_for (ac st)" by (simp add: message_for_def tabs fun_eq_iff)
  then have "awake st1" "tables_ok (ac st1)" "list_all2 (message_for (ac st1)) vs cbs'"
    using Cons.prems(2,5) cbs(3) awake_flags [OF s1(3)] tabs by (simp_all add: tables_ok_def)
  then obtain st' evs where ih: "callback_loop user sys cb st1 = Some st'" "runs (a_log st') = runs (a_log st1) @ evs"
    "list_all2 delivered evs (zip (map payload cbs') vs)" "receiving st' q []" "flags_of st' = flags_of st1"
    "sub_channels (ac st') = sub_channels (ac st1)" "sub_patterns (ac st') = sub_patterns (ac st1)"
    using Cons.IH [OF s1(2) _ v(3), of cbs' cb] Cons.prems(4,7,8) flags by auto
  then show ?case using s1 cbs(1) by (intro exI [of _ st'] exI [of _ "ev # evs"]) (simp add: same_end_def)
qed


text \<open>
  Unsubscribing takes the callback away: when the server confirms an unsubscription, the callback of the channel is
  called one last time and its entry leaves the table, all others stay; if the message says that
  no subscription is left, the context leaves the subscribed mode, and only then.
\<close>

theorem async_unsubscribed:
  assumes "receiving st q (encode (VArr [VStr kind, VStr ch, VInt i]))" "awake st" "may_issue False user" "rval_ok (VArr [VStr kind, VStr ch, VInt i])"
    "q True = []" "has_flag (ac_c (ac st)) REDIS_SUBSCRIBED" "tables_ok (ac st)" "kind \<noteq> []" "NUL \<notin> set kind" "verb kind = ''unsubscribe''"
    "int (length ch) \<le> INT_MAX" "dict_map (sub_table (is_pattern kind) (ac st)) ch = Some cb" "cb_fn cb \<noteq> 0"
    "\<not> has_flag (ac_c (ac st)) REDIS_DISCONNECTING" "\<not> has_flag (ac_c (ac st)) REDIS_MONITORING"
  shows "\<exists>st' ev. redisProcessCallbacks user sys st = Some st' \<and> runs (a_log st') = runs (a_log st) @ [ev] \<and>
    delivered ev (payload cb, VArr [VStr kind, VStr ch, VInt i]) \<and> receiving st' q [] \<and>
    (has_flag (ac_c (ac st')) REDIS_SUBSCRIBED \<longleftrightarrow> i \<noteq> 0) \<and>
    dict_map (sub_table (is_pattern kind) (ac st')) = (dict_map (sub_table (is_pattern kind) (ac st)))(ch := None) \<and>
    sub_table (\<not> is_pattern kind) (ac st') = sub_table (\<not> is_pattern kind) (ac st)"
proof -
  let ?v = "VArr [VStr kind, VStr ch, VInt i]" and ?p = "is_pattern kind" and ?t = "\<lparr>cb_next = 0, cb_fn = 0, cb_privdata = 0\<rparr>"
  have "receiving st q (encode ?v @ [])" "depth ?v \<le> 8" using assms(1) by simp_all
  then obtain st1 a where g: "get_reply sys st = Some (REDIS_OK, a, st1)" "a \<noteq> 0" "receiving st1 q []" "represents ?v (a_heap st1) a"
    "\<And>b. \<not> kid_of (a_heap st1) b a" "flags_of st1 = flags_of st" "a_log st1 = a_log st" "same_end st st1"
    using get_reply_next [of st q ?v "[]" sys] assms(4) by blast
  have st1: "\<not> a_freed st1" "plenty (h_env (a_heap st1))" "cb_rep st1 q" using g(3) by (auto simp: receiving_def cb_rep_def)
  have tabs: "sub_table pv (ac st1) = sub_table pv (ac st)" for pv using g(8) by (intro sub_table_cong) (simp_all add: same_end_def)
  then have ok: "tables_ok (ac st1)" using assms(7) by (simp add: tables_ok_def)
  obtain rc d fs where d: "dictDelete (sub_table ?p (ac st1)) ch = Some (rc, d, fs)"
    "redisGetSubscribeCallback st1 a ?t = Some (cb, (if i = 0 then upd_c (clear_flag 32) else id) (st1\<lparr>ac := set_table ?p d (ac st1)\<rparr>))"
    using subscribe_lookup(2) [OF g(4) st1(1,2) ok assms(8,9,11) _ assms(10) refl, of cb ?t] assms(12) tabs by auto
  have "dict_ok (sub_table ?p (ac st1))" "ht_used (sub_table ?p (ac st1)) < 18446744073709551616" "dtype (sub_table ?p (ac st1)) = callbackDict"
    using ok unfolding tables_ok_def by blast+
  from delete_removes [OF this d(1)] have dm: "dict_map d = (dict_map (sub_table ?p (ac st)))(ch := None)" unfolding tabs .
  define st2 where "st2 = (if i = 0 then upd_c (clear_flag 32) else id) (st1\<lparr>ac := set_table ?p d (ac st1)\<rparr>)"
  have st2: "receiving st2 q []" "a_heap st2 = a_heap st1" "a_log st2 = a_log st1" "sub_table ?p (ac st2) = d" "sub_table (\<not> ?p) (ac st2) = sub_table (\<not> ?p) (ac st)"
    using g(3) cb_rep_cong [of "st1\<lparr>ac := set_table ?p d (ac st1)\<rparr>" st1 q] tabs [of True] tabs [of False]
    by (auto simp: st2_def receiving_def sub_table_def set_table_def)
  have flags: "has_flag (ac_c (ac st2)) f = has_flag (ac_c (ac st)) f" if "f \<in> {1, 4, 8, 16, 64}" for f
    using that g(6) by (auto simp: st2_def flag_simps)
  then have calm: "\<not> has_flag (ac_c (ac st2)) REDIS_IN_CALLBACK" "\<not> has_flag (ac_c (ac st2)) REDIS_FREEING" using assms(2) by (simp_all add: awake_def)
  have sub: "has_flag (ac_c (ac st2)) 32 \<longleftrightarrow> i \<noteq> 0" "has_flag (ac_c (ac st1)) 32" using assms(6) g(6) by (auto simp: st2_def flag_simps)
  obtain st3 where e: "deliver user sys cb a st2 = Some (Inr (cb, st3))" "receiving st3 (q(True := q True @ [])) []" "flags_of st3 = flags_of st2"
    "same_end st2 st3" "runs (a_log st3) = runs (a_log st2) @ [RunCallback (cb_fn cb) a (cb_privdata cb) (a_heap st2)]"
    using deliver_issue [OF st2(1) assms(3) calm assms(13), of a sys] represents_allocated [OF g(4)] g(5) st2(2) by auto
  obtain ob where ob: "h_objs (a_heap st1) a = Some ob" "ry_type ob = REDIS_REPLY_ARRAY" using g(4) by auto
  have "shift_cb True ?t st1 = Some (REDIS_ERR, ?t, st1)" by (rule shift_cb_empty [OF st1(3) assms(5)])
  then have "reply_step user sys ?t a st1 = Some (Inr (cb, st3))"
    using ob d(2) e(1) sub(2) by (simp add: reply_step_def flip: st2_def)
  then have "redisProcessCallbacks user sys st = callback_loop user sys cb st3"
    using g(1,2) unfolding redisProcessCallbacks_def by (subst callback_loop.simps) simp
  moreover have f3: "has_flag (ac_c (ac st3)) f = has_flag (ac_c (ac st2)) f" for f using e(3) by (simp add: has_flag_def)
  obtain st' where n: "get_reply sys st3 = Some (REDIS_OK, 0, st')" "receiving st' q []" "flags_of st' = flags_of st3" "a_log st' = a_log st3" "same_end st3 st'"
    using get_reply_none [of st3 q sys] e(2) f3 flags assms(2) by (auto simp: awake_def)
  have f': "has_flag (ac_c (ac st')) f = has_flag (ac_c (ac st2)) f" for f using n(3) f3 by (simp add: has_flag_def)
  then have "no_reply user sys cb st' = Some st'" using flags assms(14,15) by (simp add: no_reply_def)
  then have "callback_loop user sys cb st3 = Some st'" using n(1) by (subst callback_loop.simps) simp
  moreover have "sub_table pv (ac st') = sub_table pv (ac st2)" for pv
    using same_end_trans [OF e(4) n(5)] by (intro sub_table_cong) (simp_all add: same_end_def)
  moreover have "runs (a_log st') = runs (a_log st) @ [RunCallback (cb_fn cb) a (cb_privdata cb) (a_heap st2)]" using n(4) e(5) st2(3) g(7) by simp
  moreover have "delivered (RunCallback (cb_fn cb) a (cb_privdata cb) (a_heap st2)) (payload cb, ?v)"
    using g(4) st2(2) by (auto simp: delivered_def payload_def simp del: represents.simps)
  ultimately show ?thesis using n(2) f' sub(1) st2(4,5) dm by metis
qed

text \<open>A context subscribed to one channel, with one reply in the reader.\<close>

definition demo_subscriber :: "reply_heap redisReader \<Rightarrow> callback_dict \<Rightarrow> net_state astate" where
  "demo_subscriber r d = demo_async\<lparr>ac := (ac demo_async)\<lparr>ac_c := (ac_c (ac demo_async))\<lparr>c_reader := Ptr r, c_flags := 34\<rparr>, sub_channels := d\<rparr>\<rparr>"

lemma demo_subscriber:
  assumes "int (length (encode v)) \<le> SDS_LIMIT"
  obtains r d where "redisReaderFeed demo_env demo_reader demo_heap (Ptr (encode v)) (int (length (encode v))) = Some (REDIS_OK, r, demo_heap)"
    "map_option (\<lambda>x. fst (snd x)) (dictReplace demo_env demo_table ''n'' \<lparr>cb_next = 0, cb_fn = 7, cb_privdata = 70\<rparr>) = Some d"
    "receiving (demo_subscriber r d) (\<lambda>i. []) (encode v)" "awake (demo_subscriber r d)" "has_flag (ac_c (ac (demo_subscriber r d))) REDIS_SUBSCRIBED"
    "\<not> has_flag (ac_c (ac (demo_subscriber r d))) REDIS_DISCONNECTING" "\<not> has_flag (ac_c (ac (demo_subscriber r d))) REDIS_MONITORING"
    "tables_ok (ac (demo_subscriber r d))" "dict_map (sub_table False (ac (demo_subscriber r d))) ''n'' = Some \<lparr>cb_next = 0, cb_fn = 7, cb_privdata = 70\<rparr>"
    "a_log (demo_subscriber r d) = []"
proof -
  note cr = created_idle [OF demo_reader_created demo_heap_ok]
  let ?cb = "\<lparr>cb_next = 0, cb_fn = 7, cb_privdata = 70\<rparr>"
  obtain r where r: "redisReaderFeed demo_env demo_reader demo_heap (Ptr (encode v)) (int (length (encode v))) = Some (REDIS_OK, r, demo_heap)"
    "idle r demo_heap" "unread r = encode v"
    using feed_idle [OF cr(1) demo_plenty, of "encode v"] cr(2,3) assms by auto
  have tab: "dict_ok demo_table" "ht_used demo_table = 0" "dtype demo_table = callbackDict" "entries demo_table = []" "dict_map demo_table ''n'' = None"
    using demo_table_ok by (auto simp: table_ok_def demo_table_def dict_map_def)
  obtain d where d: "map_option (\<lambda>x. fst (snd x)) (dictReplace demo_env demo_table ''n'' ?cb) = Some d"
    "dict_ok d" "dtype d = callbackDict" "ht_used d \<le> 1" "dict_map d ''n'' = Some ?cb"
  proof (rule dictReplace_map [OF demo_plenty tab(1), of "''n''" ?cb])
    show "ht_used demo_table < 2147483648" using tab(2) by simp
    fix rc d fs
    assume "dictReplace demo_env demo_table ''n'' ?cb = Some (rc, d, fs)" "dict_ok d" "dtype d = dtype demo_table" "ht_used d \<le> ht_used demo_table + 1"
      "\<And>k. dict_map d k = (if dictCompareHashKeys (dtype demo_table) k ''n'' then Some (dictSetHashVal (dtype demo_table) ?cb) else dict_map demo_table k)"
    then show thesis using tab(2,3) by (intro that [of d]) simp_all
  qed
  have rep: "cb_rep (demo_subscriber r d) (\<lambda>i. [])"
    using demo_async_rep(1) cb_rep_cong [of "demo_subscriber r d" demo_async] by (simp add: demo_subscriber_def)
  have "plenty (h_env (a_heap (demo_subscriber r d)))" "c_reader (ac_c (ac (demo_subscriber r d))) = Ptr r" "a_heap (demo_subscriber r d) = demo_heap"
    by (simp_all add: demo_subscriber_def demo_async_def demo_heap_def)
  then have "receiving (demo_subscriber r d) (\<lambda>i. []) (encode v)" using rep r(2,3) by (simp add: receiving_def)
  moreover have "tables_ok (ac (demo_subscriber r d))"
    using d(2-4) tab(1-3) by (auto simp: tables_ok_def sub_table_def demo_subscriber_def demo_async_def)
  moreover have "a_log (demo_subscriber r d) = []" "flags_of (demo_subscriber r d) = 34" "sub_table False (ac (demo_subscriber r d)) = d"
    by (simp_all add: demo_subscriber_def demo_async_def sub_table_def)
  ultimately show thesis using d(5) by (intro that [OF r(1) d(1)]) (simp_all add: awake_def has_flag_def)
qed


theorem async_unsubscribed_witness:
  "\<exists>r d st'. redisProcessCallbacks (\<lambda>ev st. Some st) (demo_os 0) (demo_subscriber r d) = Some st' \<and>
    length (runs (a_log st')) = 1 \<and> \<not> has_flag (ac_c (ac st')) REDIS_SUBSCRIBED \<and> dict_map (sub_channels (ac st')) ''n'' = None"
proof -
  let ?v = "VArr [VStr ''unsubscribe'', VStr ''n'', VInt 0]" and ?cb = "\<lparr>cb_next = 0, cb_fn = 7, cb_privdata = 70\<rparr>"
  have len: "int (length (encode ?v)) \<le> SDS_LIMIT" by code_simp
  obtain r d where st: "receiving (demo_subscriber r d) (\<lambda>i. []) (encode ?v)" "awake (demo_subscriber r d)" "has_flag (ac_c (ac (demo_subscriber r d))) 32"
    "\<not> has_flag (ac_c (ac (demo_subscriber r d))) 4" "\<not> has_flag (ac_c (ac (demo_subscriber r d))) 64"
    "tables_ok (ac (demo_subscriber r d))" "dict_map (sub_table False (ac (demo_subscriber r d))) ''n'' = Some ?cb" "a_log (demo_subscriber r d) = []"
    by (rule demo_subscriber [OF len])
  have k: "verb ''unsubscribe'' = ''unsubscribe''" "is_pattern ''unsubscribe'' = False" "NUL \<notin> set ''unsubscribe''" by code_simp+
  have ok: "rval_ok ?v" by simp
  obtain st' ev where "redisProcessCallbacks (\<lambda>ev st. Some st) (demo_os 0) (demo_subscriber r d) = Some st'"
    "runs (a_log st') = runs (a_log (demo_subscriber r d)) @ [ev]" "has_flag (ac_c (ac st')) 32 \<longleftrightarrow> (0::int) \<noteq> 0"
    "dict_map (sub_table False (ac st')) = (dict_map (sub_table False (ac (demo_subscriber r d))))(''n'' := None)"
    using async_unsubscribed [OF st(1,2) silent_may_issue ok refl st(3,6) _ k(3,1) _ _ _ st(4,5), of ?cb "demo_os 0"] st(7) k(2) by auto
  then show ?thesis using st(8) by (intro exI [of _ r] exI [of _ d] exI [of _ st']) (simp add: sub_table_def)
qed

end
