(* ===== verification/Matmul.thy ===== *)
theory Matmul
  imports C_Base
begin

text \<open>
  The matrix load, \<open>workloads/matmul/matrix_multiply.c\<close>: repeated multiplication of a matrix that is only
  read, the candidate for the long-term memory zone, with one that changes.

  The arithmetic of \<open>float\<close> and the generator \<open>rand\<close> are a record of functions without any laws, so that
  everything proved holds for rounding arithmetic. The NUMA library, \<open>mprotect\<close> and \<open>time\<close> act on a
  state of their own, a parameter. An array is a list at an address; an access outside of it, to an address without
  an array, or a store to an array that is protected is \<open>None\<close>.
\<close>

section \<open>Arithmetic and arrays\<close>

record 'f float_ops =
  f_add :: "'f \<Rightarrow> 'f \<Rightarrow> 'f"
  f_mul :: "'f \<Rightarrow> 'f \<Rightarrow> 'f"
  f_div :: "'f \<Rightarrow> 'f \<Rightarrow> 'f"
  f_zero :: 'f
  f_of_int :: "int \<Rightarrow> 'f"
  f_srand :: "int \<Rightarrow> nat"
  f_rand :: "nat \<Rightarrow> int \<times> nat"

definition mat_dim :: nat where "mat_dim = 1024"
definition ITERS :: nat where "ITERS = 10"
definition RAND_MAX :: int where "RAND_MAX = 2147483647"

definition float_at :: "'f list \<Rightarrow> nat \<Rightarrow> 'f option" where
  "float_at xs i = (if i < length xs then Some (xs ! i) else None)"

definition float_store :: "'f list \<Rightarrow> nat \<Rightarrow> 'f \<Rightarrow> 'f list option" where
  "float_store xs i v = (if i < length xs then Some (xs[i := v]) else None)"

text \<open>A counting loop: \<open>n\<close> passes from \<open>i\<close> on.\<close>

primrec for_loop :: "nat \<Rightarrow> nat \<Rightarrow> (nat \<Rightarrow> 's \<Rightarrow> 's option) \<Rightarrow> 's \<Rightarrow> 's option" where
  "for_loop i 0 f s = Some s"
| "for_loop i (Suc n) f s = do { s' \<leftarrow> f i s; for_loop (Suc i) n f s' }"

lemma for_loop_inv:
  assumes "P i s" "\<And>j s. i \<le> j \<Longrightarrow> j < i + n \<Longrightarrow> P j s \<Longrightarrow> \<exists>s'. f j s = Some s' \<and> P (Suc j) s'"
  shows "\<exists>s'. for_loop i n f s = Some s' \<and> P (i + n) s'"
  using assms
proof (induction n arbitrary: i s)
  case (Suc n)
  obtain s1 where s1: "f i s = Some s1" "P (Suc i) s1" using Suc.prems(2) [of i s] Suc.prems(1) by auto
  obtain s' where "for_loop (Suc i) n f s1 = Some s'" "P (Suc i + n) s'"
    using Suc.IH [of "Suc i" s1] s1(2) Suc.prems(2) by auto
  then show ?case using s1(1) by auto
qed simp

section \<open>Multiplication\<close>

text \<open>The three loops, from the inside out; \<open>n\<close> is the dimension.\<close>

definition mul_j :: "'f float_ops \<Rightarrow> nat \<Rightarrow> 'f list \<Rightarrow> 'f \<Rightarrow> nat \<Rightarrow> nat \<Rightarrow> nat \<Rightarrow> 'f list \<Rightarrow> 'f list option" where
  "mul_j ops n B a_ik i k j C = do {
     c \<leftarrow> float_at C (i * n + j);
     b \<leftarrow> float_at B (k * n + j);
     float_store C (i * n + j) (f_add ops c (f_mul ops a_ik b))
   }"

definition mul_k :: "'f float_ops \<Rightarrow> nat \<Rightarrow> 'f list \<Rightarrow> 'f list \<Rightarrow> nat \<Rightarrow> nat \<Rightarrow> 'f list \<Rightarrow> 'f list option" where
  "mul_k ops n A B i k C = do {
     a_ik \<leftarrow> float_at A (i * n + k);
     for_loop 0 n (mul_j ops n B a_ik i k) C
   }"

definition mul_i :: "'f float_ops \<Rightarrow> nat \<Rightarrow> 'f list \<Rightarrow> 'f list \<Rightarrow> nat \<Rightarrow> 'f list \<Rightarrow> 'f list option" where
  "mul_i ops n A B i C = for_loop 0 n (mul_k ops n A B i) C"

definition matmul :: "'f float_ops \<Rightarrow> nat \<Rightarrow> 'f list \<Rightarrow> 'f list \<Rightarrow> 'f list \<Rightarrow> 'f list option" where
  "matmul ops n C A B = for_loop 0 n (mul_i ops n A B) C"

text \<open>The reference: each entry on its own, a sum in the order of the inner index.\<close>

definition dot :: "'f float_ops \<Rightarrow> nat \<Rightarrow> 'f list \<Rightarrow> 'f list \<Rightarrow> nat \<Rightarrow> nat \<Rightarrow> nat \<Rightarrow> 'f \<Rightarrow> 'f" where
  "dot ops n A B m i j c = foldl (\<lambda>s k. f_add ops s (f_mul ops (A ! (i * n + k)) (B ! (k * n + j)))) c [0..<m]"

definition product :: "'f float_ops \<Rightarrow> nat \<Rightarrow> 'f list \<Rightarrow> 'f list \<Rightarrow> 'f list \<Rightarrow> 'f list" where
  "product ops n C A B = map (\<lambda>p. dot ops n A B n (p div n) (p mod n) (C ! p)) [0..<n * n]"

lemma cell_index: "i < n \<Longrightarrow> j < (n::nat) \<Longrightarrow> i * n + j < n * n"
  by (metis add_less_mono1 add.commute less_le_trans mult_Suc mult_le_mono1 Suc_leI)

lemma update_map_cell:
  assumes "i < n" "j < n" "\<And>p. p < n * n \<Longrightarrow> p \<noteq> i * n + j \<Longrightarrow> g p = h p" "g (i * n + j) = v"
  shows "(map h [0..<n * n])[i * n + j := v] = map g [0..<n * (n::nat)]"
  using cell_index [OF assms(1,2)] assms(3,4) by (intro nth_equalityI) (auto simp: nth_list_update)

lemma mul_j_loop:
  assumes "length B = n * n" "i < n" "k < n" "C = map g [0..<n * n]"
  shows "for_loop 0 n (mul_j ops n B a i k) C =
    Some (map (\<lambda>p. if p div n = i then f_add ops (g p) (f_mul ops a (B ! (k * n + p mod n))) else g p) [0..<n * n])"
proof -
  let ?g = "\<lambda>m p. if p div n = i \<and> p mod n < m then f_add ops (g p) (f_mul ops a (B ! (k * n + p mod n))) else g p"
  have "\<exists>s'. for_loop 0 n (mul_j ops n B a i k) C = Some s' \<and> s' = map (?g (0 + n)) [0..<n * n]"
  proof (rule for_loop_inv [where P = "\<lambda>m s. s = map (?g m) [0..<n * n]"])
    show "C = map (?g 0) [0..<n * n]" using assms(4) by simp
    fix j s
    assume j: "j < 0 + n" and s: "s = map (?g j) [0..<n * n]"
    let ?p = "i * n + j"
    have p: "?p < n * n" "?p div n = i" "?p mod n = j" "k * n + j < n * n" using cell_index assms(2,3) j by simp_all
    have "mul_j ops n B a i k j s = Some (s[?p := f_add ops (g ?p) (f_mul ops a (B ! (k * n + j)))])"
      using p s assms(1) by (simp add: mul_j_def float_at_def float_store_def)
    moreover have "s[?p := f_add ops (g ?p) (f_mul ops a (B ! (k * n + j)))] = map (?g (Suc j)) [0..<n * n]"
      unfolding s
    proof (rule update_map_cell [OF assms(2)])
      show "j < n" using j by simp
      fix q assume "q < n * n" "q \<noteq> ?p"
      then have "\<not> (q div n = i \<and> q mod n = j)" by (metis div_mult_mod_eq)
      then show "?g (Suc j) q = ?g j q" by (auto simp: less_Suc_eq)
    qed (use p in simp)
    ultimately show "\<exists>s'. mul_j ops n B a i k j s = Some s' \<and> s' = map (?g (Suc j)) [0..<n * n]" by blast
  qed
  moreover have "p mod n < n" for p using assms(2) by simp
  ultimately show ?thesis by simp
qed

lemma dot_Suc: "dot ops n A B (Suc m) i j c = f_add ops (dot ops n A B m i j c) (f_mul ops (A ! (i * n + m)) (B ! (m * n + j)))"
  by (simp add: dot_def)

lemma mul_i_row:
  assumes "length A = n * n" "length B = n * n" "i < n" "C = map g [0..<n * n]"
  shows "mul_i ops n A B i C = Some (map (\<lambda>p. if p div n = i then dot ops n A B n i (p mod n) (g p) else g p) [0..<n * n])"
proof -
  let ?g = "\<lambda>m p. if p div n = i then dot ops n A B m i (p mod n) (g p) else g p"
  have "\<exists>s'. for_loop 0 n (mul_k ops n A B i) C = Some s' \<and> s' = map (?g (0 + n)) [0..<n * n]"
  proof (rule for_loop_inv [where P = "\<lambda>m s. s = map (?g m) [0..<n * n]"])
    show "C = map (?g 0) [0..<n * n]" using assms(4) by (simp add: dot_def)
    fix k s
    assume k: "k < 0 + n" and s: "s = map (?g k) [0..<n * n]"
    have "mul_k ops n A B i k s = for_loop 0 n (mul_j ops n B (A ! (i * n + k)) i k) s"
      using cell_index [of i n k] assms(1,3) k by (simp add: mul_k_def float_at_def)
    then show "\<exists>s'. mul_k ops n A B i k s = Some s' \<and> s' = map (?g (Suc k)) [0..<n * n]"
      using mul_j_loop [OF assms(2,3) _ s, of k ops "A ! (i * n + k)"] k by (auto simp: dot_Suc)
  qed
  then show ?thesis by (simp add: mul_i_def)
qed

text \<open>
  C15. The multiplication is exact: for matrices of the dimension \<open>n\<close>, the three nested loops return, every access
  is inside its array, and each entry of \<open>C\<close> is its old value plus the products of the row and
  the column, added one by one in the order of the inner index. The order of the loops, chosen to walk
  along rows, does not change a single rounding, since no law of arithmetic is used.
\<close>

theorem matmul_exact:
  assumes "length A = n * n" "length B = n * n" "length C = n * n"
  shows "matmul ops n C A B = Some (product ops n C A B)"
proof -
  let ?g = "\<lambda>m p. if p div n < m then dot ops n A B n (p div n) (p mod n) (C ! p) else C ! p"
  have "\<exists>s'. for_loop 0 n (mul_i ops n A B) C = Some s' \<and> s' = map (?g (0 + n)) [0..<n * n]"
  proof (rule for_loop_inv [where P = "\<lambda>m s. s = map (?g m) [0..<n * n]"])
    show "C = map (?g 0) [0..<n * n]" using assms(3) by (simp add: map_nth flip: assms(3))
    fix i s
    assume "i < 0 + n" "s = map (?g i) [0..<n * n]"
    then show "\<exists>s'. mul_i ops n A B i s = Some s' \<and> s' = map (?g (Suc i)) [0..<n * n]"
      using mul_i_row [OF assms(1,2), of i s "?g i" ops] by (auto simp: less_Suc_eq)
  qed
  moreover have "p div n < n" if "p < n * n" for p using that by (simp add: less_mult_imp_div_less)
  ultimately show ?thesis unfolding matmul_def product_def by (auto intro!: map_cong)
qed


lemma matmul_exact_witness:
  "let ops = \<lparr>f_add = (+), f_mul = (*), f_div = (div), f_zero = 0, f_of_int = id, f_srand = nat, f_rand = (\<lambda>s. (7, s))\<rparr>
   in matmul ops 2 [0, 0, 0, 0] [1, 2, 3, 4] [5, 6, 7, 8 :: int] = Some [19, 22, 43, 50]"
  by (subst Let_def, subst matmul_exact) (simp_all add: product_def dot_def upt_rec)

section \<open>The run\<close>

text \<open>
  The arrays of the process at their addresses, those that are protected against stores, the state of
  \<open>rand\<close>, and how often the clock was read. The library decides about addresses and contents of new arrays.
\<close>

record 'f mm_state =
  mm_arrays :: "nat \<Rightarrow> 'f list option"
  mm_locked :: "nat set"
  mm_rng :: nat
  mm_ticks :: nat

record 'f numa_lib =
  nl_available :: int
  nl_alloc :: "(nat \<Rightarrow> 'f list option) \<Rightarrow> nat \<Rightarrow> nat \<Rightarrow> nat"
  nl_fresh :: "nat \<Rightarrow> 'f list"
  nl_mprotect :: "nat \<Rightarrow> int"
  nl_time :: "nat \<Rightarrow> int"

text \<open>A new array does not overlap with one in use and has the size that was asked for.\<close>

definition numa_ok :: "'f numa_lib \<Rightarrow> bool" where
  "numa_ok lib \<longleftrightarrow> (\<forall>m n node. nl_alloc lib m n node \<noteq> 0 \<longrightarrow> m (nl_alloc lib m n node) = None) \<and>
     (\<forall>n. length (nl_fresh lib n) = n)"

definition numa_alloc :: "'f numa_lib \<Rightarrow> nat \<Rightarrow> nat \<Rightarrow> 'f mm_state \<Rightarrow> nat \<times> 'f mm_state" where
  "numa_alloc lib n node st = (let p = nl_alloc lib (mm_arrays st) n node in
     if p = 0 then (0, st) else (p, st\<lparr>mm_arrays := (mm_arrays st)(p := Some (nl_fresh lib n))\<rparr>))"

definition numa_free :: "nat \<Rightarrow> 'f mm_state \<Rightarrow> 'f mm_state option" where
  "numa_free p st = (case mm_arrays st p of None \<Rightarrow> None
     | Some _ \<Rightarrow> Some (st\<lparr>mm_arrays := (mm_arrays st)(p := None), mm_locked := mm_locked st - {p}\<rparr>))"

definition protect :: "'f numa_lib \<Rightarrow> nat \<Rightarrow> 'f mm_state \<Rightarrow> 'f mm_state" where
  "protect lib p st = (if nl_mprotect lib p = 0 then st\<lparr>mm_locked := insert p (mm_locked st)\<rparr> else st)"

definition put_array :: "nat \<Rightarrow> 'f list \<Rightarrow> 'f mm_state \<Rightarrow> 'f mm_state option" where
  "put_array p xs st = (if mm_arrays st p = None \<or> p \<in> mm_locked st then None
     else Some (st\<lparr>mm_arrays := (mm_arrays st)(p := Some xs)\<rparr>))"

definition fill_step :: "'f float_ops \<Rightarrow> nat \<Rightarrow> 'f list \<times> nat \<Rightarrow> ('f list \<times> nat) option" where
  "fill_step ops i s = (case s of (xs, rng) \<Rightarrow> case f_rand ops rng of (r, rng') \<Rightarrow>
     map_option (\<lambda>ys. (ys, rng')) (float_store xs i (f_div ops (f_of_int ops r) (f_of_int ops RAND_MAX))))"

definition fill_random :: "'f float_ops \<Rightarrow> 'f numa_lib \<Rightarrow> nat \<Rightarrow> nat \<Rightarrow> int \<Rightarrow> 'f mm_state \<Rightarrow> 'f mm_state option" where
  "fill_random ops lib x n seed st = do {
     xs \<leftarrow> mm_arrays st x;
     (ys, rng) \<leftarrow> for_loop 0 n (fill_step ops) (xs, f_srand ops (nl_time lib (mm_ticks st)));
     put_array x ys (st\<lparr>mm_rng := rng, mm_ticks := Suc (mm_ticks st)\<rparr>)
   }"

definition matmul_at :: "'f float_ops \<Rightarrow> nat \<Rightarrow> nat \<Rightarrow> nat \<Rightarrow> nat \<Rightarrow> 'f mm_state \<Rightarrow> 'f mm_state option" where
  "matmul_at ops n C A B st = do {
     c \<leftarrow> mm_arrays st C; a \<leftarrow> mm_arrays st A; b \<leftarrow> mm_arrays st B;
     c' \<leftarrow> matmul ops n c a b;
     put_array C c' st
   }"

text \<open>One iteration: the target is cleared, multiplied into, and the two names are swapped.\<close>

definition mm_iter :: "'f float_ops \<Rightarrow> nat \<Rightarrow> nat \<Rightarrow> nat \<Rightarrow> (nat \<times> nat) \<times> 'f mm_state
    \<Rightarrow> ((nat \<times> nat) \<times> 'f mm_state) option" where
  "mm_iter ops n A t s = (case s of ((result, tmp), st) \<Rightarrow> do {
     st1 \<leftarrow> put_array tmp (replicate (n * n) (f_zero ops)) st;
     st2 \<leftarrow> matmul_at ops n tmp A result st1;
     Some ((tmp, result), st2)
   })"

definition free_if :: "nat \<Rightarrow> 'f mm_state \<Rightarrow> 'f mm_state option" where
  "free_if p st = (if p \<noteq> 0 then numa_free p st else Some st)"

text \<open>The result is the value read at the end; there is none after an early return.\<close>

definition numa_mm_repeat :: "'f float_ops \<Rightarrow> 'f numa_lib \<Rightarrow> nat \<Rightarrow> nat \<Rightarrow> 'f mm_state
    \<Rightarrow> ('f option \<times> 'f mm_state) option" where
  "numa_mm_repeat ops lib n iters st =
    (if nl_available lib < 0 then Some (None, st)
     else let (result, st1) = numa_alloc lib (n * n) 0 st;
              (A, st2) = numa_alloc lib (n * n) 0 st1;
              (tmp, st3) = numa_alloc lib (n * n) 0 st2
     in if result = 0 \<or> A = 0 \<or> tmp = 0
     then do { s1 \<leftarrow> free_if result st3; s2 \<leftarrow> free_if A s1; s3 \<leftarrow> free_if tmp s2; Some (None, s3) }
     else do {
       s1 \<leftarrow> fill_random ops lib result (n * n) 4660 st3;
       s2 \<leftarrow> fill_random ops lib A (n * n) 39030 s1;
       ((r, t), s3) \<leftarrow> for_loop 0 iters (mm_iter ops n A) ((result, tmp), protect lib A s2);
       xs \<leftarrow> mm_arrays s3 r;
       sink \<leftarrow> float_at xs 0;
       s4 \<leftarrow> numa_free t s3; s5 \<leftarrow> numa_free A s4; s6 \<leftarrow> numa_free r s5;
       Some (Some sink, s6)
     })"

definition matmul_main :: "'f float_ops \<Rightarrow> 'f numa_lib \<Rightarrow> 'f mm_state \<Rightarrow> ('f option \<times> 'f mm_state) option" where
  "matmul_main ops lib st = numa_mm_repeat ops lib mat_dim ITERS st"


text \<open>The reference: a list of random numbers, and the value of the whole run.\<close>

primrec random_list :: "'f float_ops \<Rightarrow> nat \<Rightarrow> nat \<Rightarrow> 'f list \<times> nat" where
  "random_list ops 0 rng = ([], rng)"
| "random_list ops (Suc n) rng = (case f_rand ops rng of (r, rng1) \<Rightarrow> case random_list ops n rng1 of (xs, rng2) \<Rightarrow>
     (f_div ops (f_of_int ops r) (f_of_int ops RAND_MAX) # xs, rng2))"

definition random_at :: "'f float_ops \<Rightarrow> 'f numa_lib \<Rightarrow> nat \<Rightarrow> nat \<Rightarrow> 'f list" where
  "random_at ops lib n tick = fst (random_list ops n (f_srand ops (nl_time lib tick)))"

definition power_step :: "'f float_ops \<Rightarrow> nat \<Rightarrow> 'f list \<Rightarrow> 'f list \<Rightarrow> 'f list" where
  "power_step ops n A R = product ops n (replicate (n * n) (f_zero ops)) A R"

lemma length_random_list [simp]: "length (fst (random_list ops n rng)) = n"
  by (induction n arbitrary: rng) (auto split: prod.splits, metis fst_conv)

lemma length_random_at [simp]: "length (random_at ops lib n t) = n"
  by (simp add: random_at_def)

lemma length_power_step [simp]: "length (power_step ops n A R) = n * n"
  by (simp add: power_step_def product_def)

lemma length_power [simp]: "length R = n * n \<Longrightarrow> length ((power_step ops n A ^^ k) R) = n * n"
  by (cases k) simp_all

lemma fill_loop:
  "i + n = length ys \<Longrightarrow> for_loop i n (fill_step ops) (ys, rng) =
    Some (take i ys @ fst (random_list ops n rng), snd (random_list ops n rng))"
proof (induction n arbitrary: i ys rng)
  case (Suc n)
  obtain r rng1 where r: "f_rand ops rng = (r, rng1)" by fastforce
  obtain xs rng2 where x: "random_list ops n rng1 = (xs, rng2)" by fastforce
  let ?v = "f_div ops (f_of_int ops r) (f_of_int ops RAND_MAX)"
  have "take (Suc i) (ys[i := ?v]) = take i ys @ [?v]" using Suc.prems by (simp add: take_Suc_conv_app_nth)
  then show ?case using Suc.IH [of "Suc i" "ys[i := ?v]" rng1] Suc.prems r x
    by (simp add: fill_step_def float_store_def)
qed simp

lemma fill_random_fills:
  assumes "mm_arrays st x = Some xs" "length xs = n" "x \<notin> mm_locked st"
  shows "\<exists>rng. fill_random ops lib x n seed st =
    Some (st\<lparr>mm_rng := rng, mm_ticks := Suc (mm_ticks st), mm_arrays := (mm_arrays st)(x := Some (random_at ops lib n (mm_ticks st)))\<rparr>)"
  using assms fill_loop [of 0 n xs ops "f_srand ops (nl_time lib (mm_ticks st))"]
  by (auto simp: fill_random_def put_array_def random_at_def split: prod.split)

text \<open>The iterations: the two arrays change their roles, the third one and everything else stays.\<close>

definition mm_inv :: "nat \<Rightarrow> nat \<Rightarrow> nat \<Rightarrow> nat \<Rightarrow> 'f mm_state \<Rightarrow> 'f list \<Rightarrow> 'f list \<Rightarrow> (nat \<times> nat) \<times> 'f mm_state \<Rightarrow> bool" where
  "mm_inv n p q A s0 a R s = (case s of ((r, t), st) \<Rightarrow>
     (r, t) \<in> {(p, q), (q, p)} \<and> mm_locked st = mm_locked s0 \<and> (\<exists>T. length T = n * n \<and>
       mm_arrays st = (mm_arrays s0)(A := Some a, r := Some R, t := Some T)))"

lemma mm_iter_inv:
  assumes "mm_inv n p q A s0 a R s" "distinct [p, q, A]" "p \<notin> mm_locked s0" "q \<notin> mm_locked s0" "length a = n * n" "length R = n * n"
  shows "\<exists>s'. mm_iter ops n A t s = Some s' \<and> mm_inv n p q A s0 a (power_step ops n a R) s'"
proof -
  obtain r u st T where s: "s = ((r, u), st)" "(r, u) \<in> {(p, q), (q, p)}" "mm_locked st = mm_locked s0" "length T = n * n"
      "mm_arrays st = (mm_arrays s0)(A := Some a, r := Some R, u := Some T)"
    using assms(1) by (auto simp: mm_inv_def)
  then have d: "r \<noteq> u" "u \<noteq> r" "A \<noteq> u" "A \<noteq> r" "u \<notin> mm_locked s0" using assms(2-4) by auto
  have m: "matmul ops n (replicate (n * n) (f_zero ops)) a R = Some (power_step ops n a R)"
    using matmul_exact [of a n R "replicate (n * n) (f_zero ops)" ops] assms(5,6) by (simp add: power_step_def)
  have "mm_iter ops n A t s = Some ((u, r), st\<lparr>mm_arrays := (mm_arrays st)(u := Some (power_step ops n a R))\<rparr>)"
    using d m s(3) by (simp add: mm_iter_def s(1,5) put_array_def matmul_at_def)
  moreover have "(mm_arrays st)(u := Some x) = (mm_arrays s0)(A := Some a, u := Some x, r := Some R)" for x
    using d by (simp add: s(5) fun_upd_twist)
  ultimately show ?thesis using s(2,3) assms(6) by (auto simp: mm_inv_def)
qed


lemma numa_alloc_cases:
  assumes "numa_ok lib" "numa_alloc lib n node st = (p, st')"
  shows "p = 0 \<and> st' = st \<or> p \<noteq> 0 \<and> mm_arrays st p = None \<and>
    (\<exists>xs. length xs = n \<and> st' = st\<lparr>mm_arrays := (mm_arrays st)(p := Some xs)\<rparr>)"
  using assms by (auto simp: numa_ok_def numa_alloc_def Let_def split: if_splits)

lemma numa_free_there [simp]: "mm_arrays st p \<noteq> None \<Longrightarrow>
    numa_free p st = Some (st\<lparr>mm_arrays := (mm_arrays st)(p := None), mm_locked := mm_locked st - {p}\<rparr>)"
  by (auto simp: numa_free_def)

lemma upd_None: "m p = None \<Longrightarrow> m(p := None) = m" by auto

text \<open>The part of the run behind the allocation.\<close>

definition mm_work :: "'f float_ops \<Rightarrow> 'f numa_lib \<Rightarrow> nat \<Rightarrow> nat \<Rightarrow> nat \<Rightarrow> nat \<Rightarrow> nat \<Rightarrow> 'f mm_state
    \<Rightarrow> ('f option \<times> 'f mm_state) option" where
  "mm_work ops lib n iters result A tmp st3 = do {
       s1 \<leftarrow> fill_random ops lib result (n * n) 4660 st3;
       s2 \<leftarrow> fill_random ops lib A (n * n) 39030 s1;
       ((r, t), s3) \<leftarrow> for_loop 0 iters (mm_iter ops n A) ((result, tmp), protect lib A s2);
       xs \<leftarrow> mm_arrays s3 r;
       sink \<leftarrow> float_at xs 0;
       s4 \<leftarrow> numa_free t s3; s5 \<leftarrow> numa_free A s4; s6 \<leftarrow> numa_free r s5;
       Some (Some sink, s6)
     }"

lemma mm_work_result:
  assumes "m p = None" "m A = None" "m q = None" "distinct [p, q, A]" "0 < n" "locked \<subseteq> dom m"
    and "length xs = n * n" "length ys = n * n" "length zs = n * n"
    and "mm_arrays st = m(p := Some xs, A := Some ys, q := Some zs)" "mm_locked st = locked"
  shows "\<exists>st'. mm_work ops lib n iters p A q st = Some (Some (((power_step ops n (random_at ops lib (n * n) (Suc (mm_ticks st))) ^^ iters)
      (random_at ops lib (n * n) (mm_ticks st))) ! 0), st') \<and> mm_arrays st' = m \<and> mm_locked st' = locked"
proof -
  let ?R = "random_at ops lib (n * n) (mm_ticks st)"
  let ?a = "random_at ops lib (n * n) (Suc (mm_ticks st))"
  have lk: "p \<notin> locked" "A \<notin> locked" "q \<notin> locked" using assms(1-3,6) by (auto simp: dom_def)
  obtain u1 where s1: "fill_random ops lib p (n * n) 4660 st = Some u1" and u1: "mm_arrays u1 = (mm_arrays st)(p := Some ?R)"
      "mm_locked u1 = locked" "mm_ticks u1 = Suc (mm_ticks st)"
    using fill_random_fills [of st p xs "n * n" ops lib 4660] assms lk by auto
  obtain u2 where s2: "fill_random ops lib A (n * n) 39030 u1 = Some u2" and u2: "mm_arrays u2 = (mm_arrays u1)(A := Some ?a)"
      "mm_locked u2 = locked"
    using fill_random_fills [of u1 A ys "n * n" ops lib 39030] u1 assms lk by auto
  define s3 where "s3 = protect lib A u2"
  have l3: "mm_locked s3 \<subseteq> insert A locked" "locked \<subseteq> mm_locked s3" "mm_arrays s3 = (mm_arrays st)(p := Some ?R, A := Some ?a)"
    using u1(1) u2 by (auto simp: s3_def protect_def)
  have inv0: "mm_inv n p q A s3 ?a ?R ((p, q), s3)"
    using assms(4,9,10) l3(3) by (auto simp: mm_inv_def fun_eq_iff intro!: exI [of _ zs])
  have "\<exists>s'. for_loop 0 iters (mm_iter ops n A) ((p, q), s3) = Some s' \<and>
      mm_inv n p q A s3 ?a ((power_step ops n ?a ^^ (0 + iters)) ?R) s'"
  proof (rule for_loop_inv [where P = "\<lambda>k. mm_inv n p q A s3 ?a ((power_step ops n ?a ^^ k) ?R)"])
    show "mm_inv n p q A s3 ?a ((power_step ops n ?a ^^ 0) ?R) ((p, q), s3)" using inv0 by simp
    fix k s
    assume "mm_inv n p q A s3 ?a ((power_step ops n ?a ^^ k) ?R) s"
    from mm_iter_inv [OF this assms(4), where ops = ops and t = k] l3(1) lk assms(4)
    show "\<exists>s'. mm_iter ops n A k s = Some s' \<and> mm_inv n p q A s3 ?a ((power_step ops n ?a ^^ Suc k) ?R) s'" by auto
  qed
  then obtain r t st3 T where f: "for_loop 0 iters (mm_iter ops n A) ((p, q), s3) = Some ((r, t), st3)"
      "(r, t) \<in> {(p, q), (q, p)}" "mm_locked st3 = mm_locked s3" "length T = n * n"
      "mm_arrays st3 = (mm_arrays s3)(A := Some ?a, r := Some ((power_step ops n ?a ^^ iters) ?R), t := Some T)"
    by (auto simp: mm_inv_def)
  have rt: "r \<noteq> t" "t \<noteq> r" "r \<noteq> A" "t \<noteq> A" "A \<noteq> r" "A \<noteq> t" "r \<notin> locked" "t \<notin> locked" using f(2) assms(4) lk by auto
  have "(mm_arrays st3)(t := None, A := None, r := None) = m"
    using f(2) assms(1-4) by (auto simp: f(5) l3(3) assms(10) fun_eq_iff)
  moreover have "mm_locked st3 - {t} - {A} - {r} = locked" using f(3) l3(1,2) lk rt by auto
  moreover have "float_at ((power_step ops n ?a ^^ iters) ?R) 0 = Some ((power_step ops n ?a ^^ iters) ?R ! 0)"
    using assms(5) by (simp add: float_at_def)
  ultimately show ?thesis using rt by (simp add: mm_work_def s1 s2 s3_def [symmetric] f(1,5) del: fun_upd_apply) (simp add: f(5))
qed



definition demo_ops :: "int float_ops" where
  "demo_ops = \<lparr>f_add = (+), f_mul = (*), f_div = (\<lambda>x y. x), f_zero = 0, f_of_int = id, f_srand = (\<lambda>t. nat t + 2), f_rand = (\<lambda>s. (int s, s + 1))\<rparr>"

definition demo_lib :: "int numa_lib" where
  "demo_lib = \<lparr>nl_available = 0,
     nl_alloc = (\<lambda>m n node. if m 1 = None then 1 else if m 2 = None then 2 else if m 3 = None then 3 else 0),
     nl_fresh = (\<lambda>n. replicate n 0), nl_mprotect = (\<lambda>p. 0), nl_time = int\<rparr>"

lemma demo_lib_ok: "numa_ok demo_lib" by (auto simp: numa_ok_def demo_lib_def)


text \<open>The seed that is passed has no effect; within one second both matrices get the same numbers.\<close>

lemma fill_random_seed: "fill_random ops lib x n seed st = fill_random ops lib x n seed' st"
  by (simp add: fill_random_def)

lemma same_second: "nl_time lib t = nl_time lib u \<Longrightarrow> random_at ops lib n t = random_at ops lib n u"
  by (simp add: random_at_def)

end
