(* ===== verification/Ycsb_Utils.thy ===== *)
theory Ycsb_Utils
  imports C_Base
begin

text \<open>
  The benchmark's utilities and properties, \<open>core/utils.h\<close> and \<open>core/properties.h\<close>. This part of the
  program is written in C++: a \<open>std::string\<close> is the list of its bytes, a \<open>uint64_t\<close> a word, and a function that can throw
  has a result of type \<open>run\<close>: \<open>None\<close> where the program goes wrong (a failed assertion, undefined behaviour, a loop
  without end), otherwise the exception or the value.
\<close>

section \<open>Exceptions\<close>

datatype exn =
    Exception bytes       \<comment> \<open>\<open>utils::Exception\<close>\<close>
  | Thrown bytes          \<comment> \<open>a character pointer that is thrown\<close>
  | Invalid_argument
  | Out_of_range
  | Length_error
  | Exited int            \<comment> \<open>\<open>exit\<close>\<close>

type_synonym 'a run = "(exn + 'a) option"

abbreviation ret :: "'a \<Rightarrow> 'a run" where "ret x \<equiv> Some (Inr x)"
abbreviation throw :: "exn \<Rightarrow> 'a run" where "throw x \<equiv> Some (Inl x)"

definition rbind :: "'a run \<Rightarrow> ('a \<Rightarrow> 'b run) \<Rightarrow> 'b run" where
  "rbind m f = (case m of None \<Rightarrow> None | Some (Inl x) \<Rightarrow> Some (Inl x) | Some (Inr a) \<Rightarrow> f a)"

text \<open>A step that can go wrong but not throw.\<close>

definition lift_opt :: "'a option \<Rightarrow> 'a run" where
  "lift_opt m = (case m of None \<Rightarrow> None | Some a \<Rightarrow> ret a)"

lemma rbind_simps [simp]:
  "rbind None f = None" "rbind (throw x) f = throw x" "rbind (ret a) f = f a"
  by (simp_all add: rbind_def)

lemma lift_opt_simps [simp]: "lift_opt None = None" "lift_opt (Some a) = ret a"
  by (simp_all add: lift_opt_def)

lemma rbind_ret: "rbind m f = ret b \<longleftrightarrow> (\<exists>a. m = ret a \<and> f a = ret b)"
  by (auto simp: rbind_def split: option.split sum.split)

lemma lift_opt_ret: "lift_opt m = ret b \<longleftrightarrow> m = Some b"
  by (cases m) auto

section \<open>Hashing\<close>

definition kFNVOffsetBasis64 :: "64 word" where "kFNVOffsetBasis64 = 0xCBF29CE484222325"
definition kFNVPrime64 :: "64 word" where "kFNVPrime64 = 1099511628211"

definition fnv_step :: "64 word \<times> 64 word \<Rightarrow> 64 word \<times> 64 word" where
  "fnv_step s = (case s of (val, hash) \<Rightarrow> (drop_bit 8 val, xor hash (and val 0xff) * kFNVPrime64))"

definition FNVHash64 :: "64 word \<Rightarrow> 64 word" where
  "FNVHash64 val = snd ((fnv_step ^^ 8) (val, kFNVOffsetBasis64))"

section \<open>Strings\<close>

definition StrToBool :: "bytes \<Rightarrow> bool run" where
  "StrToBool str = (let s = map c_tolower str in
     if s = ''true'' \<or> s = ''1'' then ret True
     else if s = ''false'' \<or> s = ''0'' then ret False
     else throw (Exception (''Invalid bool string: '' @ s)))"

text \<open>The front by searching forwards, the end by searching backwards down to the front.\<close>

definition Trim :: "bytes \<Rightarrow> bytes" where
  "Trim str = rev (dropWhile c_isspace (rev (dropWhile c_isspace str)))"

text \<open>The argument is what \<open>rand\<close> returned, which is never negative.\<close>

definition RandomPrintChar :: "int \<Rightarrow> char" where
  "RandomPrintChar r = char_of (nat (r mod 94 + 33))"

text \<open>\<open>std::stoi\<close> in base ten.\<close>

definition digits_val :: "bytes \<Rightarrow> int" where
  "digits_val ds = foldl (\<lambda>n c. 10 * n + int (of_char c - 48)) 0 ds"

definition stoi :: "bytes \<Rightarrow> int run" where
  "stoi str = (let s = dropWhile c_isspace str;
       neg = (s \<noteq> [] \<and> hd s = CHR ''-'');
       u = (if s \<noteq> [] \<and> hd s \<in> {CHR ''-'', CHR ''+''} then tl s else s);
       ds = takeWhile c_isdigit u;
       n = (if neg then - digits_val ds else digits_val ds)
     in if ds = [] then throw Invalid_argument
        else if - 2147483648 \<le> n \<and> n \<le> INT_MAX then ret n else throw Out_of_range)"

section \<open>Properties\<close>

type_synonym properties = "bytes \<Rightarrow> bytes option"

definition GetProperty :: "properties \<Rightarrow> bytes \<Rightarrow> bytes \<Rightarrow> bytes" where
  "GetProperty p key default_value = (case p key of None \<Rightarrow> default_value | Some v \<Rightarrow> v)"

definition property_at :: "properties \<Rightarrow> bytes \<Rightarrow> bytes run" where
  "property_at p key = (case p key of None \<Rightarrow> throw Out_of_range | Some v \<Rightarrow> ret v)"

definition SetProperty :: "bytes \<Rightarrow> bytes \<Rightarrow> properties \<Rightarrow> properties" where
  "SetProperty key val p = p(key := Some val)"

text \<open>\<open>std::getline\<close>: the line, and what is left of the stream unless its end was met.\<close>

definition getline :: "bytes \<Rightarrow> bytes \<times> bytes option" where
  "getline s = (let line = takeWhile (\<lambda>c. c \<noteq> LF) s; r = dropWhile (\<lambda>c. c \<noteq> LF) s in
     (line, if r = [] then None else Some (tl r)))"

lemma getline_shorter: "getline s = (line, Some r) \<Longrightarrow> length r < length s"
  using length_dropWhile_le [of "\<lambda>c. c \<noteq> LF" s]
  by (auto simp: getline_def Let_def split: if_splits) (cases "dropWhile (\<lambda>c. c \<noteq> LF) s", auto)

definition load_line :: "bytes \<Rightarrow> properties \<Rightarrow> properties" where
  "load_line line p =
    (if line \<noteq> [] \<and> hd line = CHR ''#'' then p
     else if CHR ''='' \<notin> set line then p
     else SetProperty (Trim (takeWhile (\<lambda>c. c \<noteq> CHR ''='') line)) (Trim (tl (dropWhile (\<lambda>c. c \<noteq> CHR ''='') line))) p)"

function load_loop :: "bytes \<Rightarrow> properties \<Rightarrow> properties" where
  "load_loop s p = (case getline s of (line, rest) \<Rightarrow>
     case rest of None \<Rightarrow> load_line line p | Some r \<Rightarrow> load_loop r (load_line line p))"
  by pat_completeness auto
termination
  by (relation "measure (\<lambda>(s, p). length s)") (auto dest: getline_shorter [OF sym])

declare load_loop.simps [simp del]

text \<open>The file is its content, or nothing when it could not be opened.\<close>

definition Load :: "bytes option \<Rightarrow> properties \<Rightarrow> properties run" where
  "Load input p = (case input of None \<Rightarrow> throw (Exception ''File not open!'') | Some s \<Rightarrow> ret (load_loop s p))"

section \<open>Facts\<close>

lemma to_nat_digit [simp]: "d < 10 \<Longrightarrow> (of_char (digit_char d) :: nat) - 48 = d"
  by simp

lemma digits_val_dec [simp]: "digits_val (dec_string n) = int n"
proof (induction n rule: dec_string.induct)
  case (1 n)
  show ?case
  proof (cases "n < 10")
    case False
    have "10 * int (n div 10) + int (n mod 10) = int n" using mult_div_mod_eq [of 10 n] by linarith
    then show ?thesis using "1.IH" False by (simp add: dec_string_big digits_val_def)
  qed (simp add: dec_string_small digits_val_def)
qed

lemma digit_not_space: "c_isdigit c \<Longrightarrow> \<not> c_isspace c \<and> c \<noteq> CHR ''-'' \<and> c \<noteq> CHR ''+''"
  by (auto simp: c_isdigit_def c_isspace_def)

text \<open>Reading back the decimal notation of a number in range.\<close>

lemma stoi_dec_int:
  assumes "- 2147483648 \<le> n" "n \<le> INT_MAX"
  shows "stoi (dec_int n) = ret n"
proof -
  have tw [simp]: "takeWhile c_isdigit (dec_string m) = dec_string m" for m
    using dec_string_isdigit by (simp add: takeWhile_eq_all_conv)
  have hd: "\<not> c_isspace (hd (dec_string m)) \<and> hd (dec_string m) \<notin> {CHR ''-'', CHR ''+''}" for m
    using dec_string_isdigit [OF hd_in_set [OF dec_string_nonempty]] digit_not_space by blast
  have dw: "dropWhile c_isspace (dec_string m) = dec_string m" for m
    using hd [of m] by (cases "dec_string m") auto
  have "\<not> c_isspace (CHR ''-'')" by code_simp
  then show ?thesis using assms dw [of "nat n"] hd [of "nat n"]
    by (cases "n < 0") (simp_all add: stoi_def dec_int_def Let_def del: takeWhile_eq_all_conv)
qed

section \<open>Property files\<close>

lemma up_to:
  assumes "x \<notin> set xs"
  shows "takeWhile (\<lambda>c. c \<noteq> x) (xs @ x # ys) = xs" "dropWhile (\<lambda>c. c \<noteq> x) (xs @ x # ys) = x # ys"
  using assms by (induction xs) auto

lemma Trim_id: "s = [] \<or> \<not> c_isspace (hd s) \<and> \<not> c_isspace (last s) \<Longrightarrow> Trim s = s"
proof (cases "s = []")
  case False
  assume "s = [] \<or> \<not> c_isspace (hd s) \<and> \<not> c_isspace (last s)"
  with False have "\<not> c_isspace (hd s)" "\<not> c_isspace (last s)" by auto
  moreover from this False have "dropWhile c_isspace s = s" by (cases s) auto
  moreover from calculation False have "dropWhile c_isspace (rev s) = rev s" by (cases s rule: rev_cases) auto
  ultimately show ?thesis by (simp add: Trim_def)
qed (simp add: Trim_def)

text \<open>White space around a text without white space at its ends goes away.\<close>

lemma Trim_pad:
  assumes "list_all c_isspace xs" "list_all c_isspace ys" "s = [] \<or> \<not> c_isspace (hd s) \<and> \<not> c_isspace (last s)"
  shows "Trim (xs @ s @ ys) = s"
proof -
  have "dropWhile c_isspace (xs @ s @ ys) = (if s = [] then [] else s @ ys)"
    using assms by (cases s) (auto simp: list_all_iff dropWhile_append2 dropWhile_eq_Nil_conv)
  moreover have "dropWhile c_isspace (rev ys @ rev s) = rev s"
    using assms(2,3) by (cases s rule: rev_cases) (auto simp: list_all_iff dropWhile_append dropWhile_eq_Nil_conv)
  ultimately show ?thesis by (auto simp: Trim_def)
qed

text \<open>The lines of a property file: a comment, a line without an equals sign, a definition with blanks around its parts.\<close>

datatype prop_line =
    Comment bytes
  | Other bytes
  | Def bytes bytes bytes bytes bytes bytes

fun line_text :: "prop_line \<Rightarrow> bytes" where
  "line_text (Comment s) = CHR ''#'' # s"
| "line_text (Other s) = s"
| "line_text (Def a k b c v d) = a @ k @ b @ CHR ''='' # c @ v @ d"

definition blanks :: "bytes \<Rightarrow> bool" where
  "blanks s \<longleftrightarrow> list_all (\<lambda>c. c_isspace c \<and> c \<noteq> LF) s"

definition trimmed :: "bytes \<Rightarrow> bool" where
  "trimmed s \<longleftrightarrow> s = [] \<or> \<not> c_isspace (hd s) \<and> \<not> c_isspace (last s)"

fun line_ok :: "prop_line \<Rightarrow> bool" where
  "line_ok (Comment s) \<longleftrightarrow> LF \<notin> set s"
| "line_ok (Other s) \<longleftrightarrow> LF \<notin> set s \<and> CHR ''='' \<notin> set s"
| "line_ok (Def a k b c v d) \<longleftrightarrow> blanks a \<and> blanks b \<and> blanks c \<and> blanks d \<and> trimmed k \<and> trimmed v \<and>
     LF \<notin> set k \<and> LF \<notin> set v \<and> CHR ''='' \<notin> set k \<and> (a = [] \<longrightarrow> k = [] \<or> hd k \<noteq> CHR ''#'')"

fun line_entry :: "prop_line \<Rightarrow> (bytes \<times> bytes) list" where
  "line_entry (Def a k b c v d) = [(k, v)]"
| "line_entry _ = []"

definition file_text :: "prop_line list \<Rightarrow> bytes" where
  "file_text ls = concat (map (\<lambda>l. line_text l @ [LF]) ls)"

lemma blanks_space: "blanks s \<Longrightarrow> list_all c_isspace s" "blanks s \<Longrightarrow> LF \<notin> set s \<and> CHR ''='' \<notin> set s \<and> CHR ''#'' \<notin> set s"
proof -
  assume b: "blanks s"
  have "\<not> c_isspace (CHR ''='')" "\<not> c_isspace (CHR ''#'')" by code_simp+
  with b show "LF \<notin> set s \<and> CHR ''='' \<notin> set s \<and> CHR ''#'' \<notin> set s" by (auto simp: blanks_def list_all_iff)
qed (auto simp: blanks_def list_all_iff)

lemma load_line_text: "line_ok l \<Longrightarrow> load_line (line_text l) p = p ++ map_of (line_entry l)"
proof (cases l)
  case (Def a k b c v d)
  assume ok: "line_ok l"
  note bl = blanks_space [of a] blanks_space [of b] blanks_space [of c] blanks_space [of d]
  have eq: "CHR ''='' \<notin> set (a @ k @ b)" using ok bl by (simp add: Def)
  have parts: "takeWhile (\<lambda>x. x \<noteq> CHR ''='') (line_text l) = a @ k @ b"
      "dropWhile (\<lambda>x. x \<noteq> CHR ''='') (line_text l) = CHR ''='' # c @ v @ d"
    using up_to [OF eq, of "c @ v @ d"] by (simp_all add: Def)
  have "hd (line_text l) \<noteq> CHR ''#''"
  proof (cases "a = []")
    case True
    show ?thesis
    proof (cases "k = []")
      case True
      then show ?thesis using \<open>a = []\<close> bl(2,4) ok by (cases b) (auto simp: Def)
    next
      case False
      then show ?thesis using \<open>a = []\<close> ok by (simp add: Def)
    qed
  next
    case False
    then have "hd a \<in> set a" by simp
    moreover have "CHR ''#'' \<notin> set a" using bl(2) ok by (simp add: Def)
    ultimately have "hd a \<noteq> CHR ''#''" by metis
    then show ?thesis using False by (simp add: Def)
  qed
  moreover have "Trim (a @ k @ b) = k" "Trim (c @ v @ d) = v"
    using Trim_pad [of a b k] Trim_pad [of c d v] ok bl by (simp_all add: Def trimmed_def)
  moreover have "CHR ''='' \<in> set (line_text l)" by (simp add: Def)
  ultimately show ?thesis using parts by (simp add: load_line_def SetProperty_def) (simp add: Def)
qed (simp_all add: load_line_def)

lemma line_text_LF: "line_ok l \<Longrightarrow> LF \<notin> set (line_text l)"
  using blanks_space by (cases l) auto

lemma map_add_line: "p ++ map_of (line_entry l) ++ map_of (rev es) = p ++ map_of (rev (line_entry l @ es))"
  by (cases l) simp_all

text \<open>
  C11. Reading a property file is the inverse of writing one: comments and lines without an equals sign are
  skipped, blanks around names and values are dropped, and of several definitions of one name the last one
  counts, also over those that were there before. The read ends at every file.
\<close>

theorem Load_file:
  assumes "list_all line_ok ls"
  shows "Load (Some (file_text ls)) p = ret (p ++ map_of (rev (concat (map line_entry ls))))"
proof -
  have "load_loop (file_text ls) p = p ++ map_of (rev (concat (map line_entry ls)))"
    using assms
  proof (induction ls arbitrary: p)
    case Nil
    then show ?case by (subst load_loop.simps) (simp add: file_text_def getline_def load_line_def)
  next
    case (Cons l ls)
    have "LF \<notin> set (line_text l)" using Cons.prems line_text_LF by simp
    then have "getline (file_text (l # ls)) = (line_text l, Some (file_text ls))"
      by (simp add: getline_def Let_def file_text_def up_to)
    then have "load_loop (file_text (l # ls)) p = load_loop (file_text ls) (p ++ map_of (line_entry l))"
      using load_line_text [of l p] Cons.prems by (subst load_loop.simps) simp
    then show ?case using Cons map_add_line [of p l "concat (map line_entry ls)"] by simp
  qed
  then show ?thesis by (simp add: Load_def)
qed

lemma Load_file_witness:
  "Load (Some (''# a'' @ [LF, LF] @ ''recordcount = 5'' @ [CR, LF])) Map.empty = ret [''recordcount'' \<mapsto> ''5'']"
  using Load_file [of "[Comment '' a'', Other [], Def [] ''recordcount'' '' '' '' '' ''5'' [CR]]" Map.empty]
  by (simp add: file_text_def blanks_def trimmed_def c_isspace_def)

end
