(* ===== verification/Ycsb_Generators.thy ===== *)
theory Ycsb_Generators
  imports Complex_Main Ycsb_Utils
begin

text \<open>
  The generators of the benchmark, the headers \<open>core/*_generator.h\<close>.

  Arithmetic on \<open>double\<close> is a record of functions; the draws of the random engines of the standard library are
  functions of their number: every engine of the program starts from its default seed, so the \<open>k\<close>-th draw
  from a distribution is fixed. Two of the engines are shared by the whole program, that of
  \<open>utils::RandomDouble\<close> and that of \<open>rand\<close>; how often they were used is the state \<open>rng\<close>.
  A failed assertion is \<open>None\<close>, as is a uniform distribution whose bounds are in the wrong order.
\<close>

section \<open>Arithmetic and random numbers\<close>

record 'd dbl_ops =
  d_less :: "'d \<Rightarrow> 'd \<Rightarrow> bool"
  d_add :: "'d \<Rightarrow> 'd \<Rightarrow> 'd"
  d_sub :: "'d \<Rightarrow> 'd \<Rightarrow> 'd"
  d_mul :: "'d \<Rightarrow> 'd \<Rightarrow> 'd"
  d_div :: "'d \<Rightarrow> 'd \<Rightarrow> 'd"
  d_pow :: "'d \<Rightarrow> 'd \<Rightarrow> 'd"
  d_frac :: "int \<Rightarrow> int \<Rightarrow> 'd"      \<comment> \<open>a literal, as a fraction\<close>
  d_of_nat :: "nat \<Rightarrow> 'd"            \<comment> \<open>conversion from \<open>uint64_t\<close>\<close>
  d_to_u64 :: "'d \<Rightarrow> 64 word"        \<comment> \<open>conversion to \<open>uint64_t\<close>\<close>
  d_of_int :: "int \<Rightarrow> 'd"
  d_to_int :: "'d \<Rightarrow> int"
  d_stod :: "bytes \<Rightarrow> 'd run"
  rl_double :: "nat \<Rightarrow> 'd"           \<comment> \<open>the draws of \<open>utils::RandomDouble\<close>\<close>
  rl_rand :: "nat \<Rightarrow> int"            \<comment> \<open>the draws of \<open>rand\<close>\<close>
  rl_uniform :: "64 word \<Rightarrow> 64 word \<Rightarrow> nat \<Rightarrow> 64 word" \<comment> \<open>those of a uniform distribution\<close>

text \<open>What the standard promises of the draws.\<close>

definition draws_ok :: "'d dbl_ops \<Rightarrow> bool" where
  "draws_ok ops \<longleftrightarrow> (\<forall>a b k. a \<le> b \<longrightarrow> a \<le> rl_uniform ops a b k \<and> rl_uniform ops a b k \<le> b) \<and> (\<forall>k. 0 \<le> rl_rand ops k)"

record rng =
  n_double :: nat
  n_rand :: nat

definition RandomDouble :: "'d dbl_ops \<Rightarrow> rng \<Rightarrow> 'd \<times> rng" where
  "RandomDouble ops g = (rl_double ops (n_double g), g\<lparr>n_double := Suc (n_double g)\<rparr>)"

definition next_char :: "'d dbl_ops \<Rightarrow> rng \<Rightarrow> char \<times> rng" where
  "next_char ops g = (RandomPrintChar (rl_rand ops (n_rand g)), g\<lparr>n_rand := Suc (n_rand g)\<rparr>)"

section \<open>Counter and uniform generators\<close>

definition counter_next :: "64 word \<Rightarrow> 64 word \<times> 64 word" where
  "counter_next counter = (counter, counter + 1)"

definition counter_last :: "64 word \<Rightarrow> 64 word" where
  "counter_last counter = counter - 1"

record uniform_generator =
  u_min :: "64 word"
  u_max :: "64 word"
  u_count :: nat
  u_last :: "64 word"

definition uniform_next :: "'d dbl_ops \<Rightarrow> uniform_generator \<Rightarrow> 64 word \<times> uniform_generator" where
  "uniform_next ops u = (let v = rl_uniform ops (u_min u) (u_max u) (u_count u) in
     (v, u\<lparr>u_count := Suc (u_count u), u_last := v\<rparr>))"

definition UniformGenerator :: "'d dbl_ops \<Rightarrow> 64 word \<Rightarrow> 64 word \<Rightarrow> uniform_generator option" where
  "UniformGenerator ops lo hi = (if lo \<le> hi
     then Some (snd (uniform_next ops \<lparr>u_min = lo, u_max = hi, u_count = 0, u_last = 0\<rparr>)) else None)"

section \<open>Zipfian generators\<close>

definition kMaxNumItems :: "64 word" where "kMaxNumItems = drop_bit 24 (- 1)"

record 'd zipfian_generator =
  num_items :: "64 word"
  z_base :: "64 word"
  theta :: 'd
  zeta_n :: 'd
  eta :: 'd
  alpha :: 'd
  zeta_2 :: 'd
  n_for_zeta :: "64 word"
  last_value :: "64 word"

definition Zeta :: "'d dbl_ops \<Rightarrow> 64 word \<Rightarrow> 64 word \<Rightarrow> 'd \<Rightarrow> 'd \<Rightarrow> 'd" where
  "Zeta ops last_num cur_num th last_zeta = foldl (\<lambda>z i. d_add ops z (d_div ops (d_frac ops 1 1) (d_pow ops (d_of_nat ops i) th)))
     last_zeta [unat last_num + 1..<unat cur_num + 1]"

definition Eta :: "'d dbl_ops \<Rightarrow> 'd zipfian_generator \<Rightarrow> 'd" where
  "Eta ops z = d_div ops
     (d_sub ops (d_frac ops 1 1) (d_pow ops (d_div ops (d_frac ops 2 1) (d_of_nat ops (unat (num_items z)))) (d_sub ops (d_frac ops 1 1) (theta z))))
     (d_sub ops (d_frac ops 1 1) (d_div ops (zeta_2 z) (zeta_n z)))"

definition RaiseZeta :: "'d dbl_ops \<Rightarrow> 64 word \<Rightarrow> 'd zipfian_generator \<Rightarrow> 'd zipfian_generator option" where
  "RaiseZeta ops num z = (if n_for_zeta z \<le> num
     then Some (z\<lparr>zeta_n := Zeta ops (n_for_zeta z) num (theta z) (zeta_n z), n_for_zeta := num\<rparr>) else None)"

definition zipfian_next :: "'d dbl_ops \<Rightarrow> 64 word \<Rightarrow> 'd zipfian_generator \<Rightarrow> rng \<Rightarrow> (64 word \<times> 'd zipfian_generator \<times> rng) option" where
  "zipfian_next ops num z g = do {
     c_assert (2 \<le> num \<and> num < kMaxNumItems);
     z1 \<leftarrow> (if n_for_zeta z < num
       then do { z' \<leftarrow> RaiseZeta ops num z; Some (z'\<lparr>eta := Eta ops z'\<rparr>) } else Some z);
     let (u, g1) = RandomDouble ops g;
     let uz = d_mul ops u (zeta_n z1);
     let v = (if d_less ops uz (d_frac ops 1 1) then 0
       else if d_less ops uz (d_add ops (d_frac ops 1 1) (d_pow ops (d_frac ops 1 2) (theta z1))) then 1
       else d_to_u64 ops (d_add ops (d_of_nat ops (unat (z_base z1))) (d_mul ops (d_of_nat ops (unat num))
         (d_pow ops (d_add ops (d_sub ops (d_mul ops (eta z1) u) (eta z1)) (d_frac ops 1 1)) (alpha z1)))));
     Some (v, z1\<lparr>last_value := v\<rparr>, g1)
   }"

text \<open>The members that the constructor has not set yet are 0.\<close>

definition ZipfianGenerator :: "'d dbl_ops \<Rightarrow> 64 word \<Rightarrow> 64 word \<Rightarrow> rng \<Rightarrow> ('d zipfian_generator \<times> rng) option" where
  "ZipfianGenerator ops lo hi g = do {
     let zero = d_frac ops 0 1;
     let z = \<lparr>num_items = hi - lo + 1, z_base = lo, theta = d_frac ops 99 100, zeta_n = zero, eta = zero, alpha = zero,
       zeta_2 = zero, n_for_zeta = 0, last_value = 0\<rparr>;
     c_assert (2 \<le> num_items z \<and> num_items z < kMaxNumItems);
     let z1 = z\<lparr>zeta_2 := Zeta ops 0 2 (theta z) zero,
       alpha := d_div ops (d_frac ops 1 1) (d_sub ops (d_frac ops 1 1) (theta z))\<rparr>;
     z2 \<leftarrow> RaiseZeta ops (num_items z1) z1;
     let z3 = z2\<lparr>eta := Eta ops z2\<rparr>;
     (v, z4, g1) \<leftarrow> zipfian_next ops (num_items z3) z3 g;
     Some (z4, g1)
   }"

section \<open>Any generator\<close>

text \<open>
  The objects behind a pointer to \<open>Generator<uint64_t>\<close>. The generator of recent keys refers to the counter
  of the workload, which is passed to every draw.
\<close>

datatype 'd generator =
    Const_gen "64 word"
  | Uniform_gen uniform_generator
  | Zipfian_gen "'d zipfian_generator"
  | Scrambled_gen "64 word" "64 word" "'d zipfian_generator"
  | Latest_gen "'d zipfian_generator" "64 word"

definition Scramble :: "64 word \<Rightarrow> 64 word \<Rightarrow> 64 word \<Rightarrow> 64 word" where
  "Scramble b n v = b + FNVHash64 v mod n"

fun gen_next :: "'d dbl_ops \<Rightarrow> 64 word \<Rightarrow> 'd generator \<Rightarrow> rng \<Rightarrow> (64 word \<times> 'd generator \<times> rng) option" where
  "gen_next ops basis (Const_gen c) g = Some (c, Const_gen c, g)"
| "gen_next ops basis (Uniform_gen u) g = (case uniform_next ops u of (v, u') \<Rightarrow> Some (v, Uniform_gen u', g))"
| "gen_next ops basis (Zipfian_gen z) g = do {
     (v, z', g') \<leftarrow> zipfian_next ops (num_items z) z g;
     Some (v, Zipfian_gen z', g')
   }"
| "gen_next ops basis (Scrambled_gen b n z) g = do {
     (v, z', g') \<leftarrow> zipfian_next ops (num_items z) z g;
     Some (Scramble b n v, Scrambled_gen b n z', g')
   }"
| "gen_next ops basis (Latest_gen z l) g = do {
     let mx = counter_last basis;
     (v, z', g') \<leftarrow> zipfian_next ops mx z g;
     Some (mx - v, Latest_gen z' (mx - v), g')
   }"

definition new_uniform :: "'d dbl_ops \<Rightarrow> 64 word \<Rightarrow> 64 word \<Rightarrow> 'd generator option" where
  "new_uniform ops lo hi = map_option Uniform_gen (UniformGenerator ops lo hi)"

definition new_zipfian :: "'d dbl_ops \<Rightarrow> 64 word \<Rightarrow> 64 word \<Rightarrow> rng \<Rightarrow> ('d generator \<times> rng) option" where
  "new_zipfian ops lo hi g = map_option (\<lambda>(z, g'). (Zipfian_gen z, g')) (ZipfianGenerator ops lo hi g)"

definition new_scrambled :: "'d dbl_ops \<Rightarrow> 64 word \<Rightarrow> rng \<Rightarrow> ('d generator \<times> rng) option" where
  "new_scrambled ops n g = map_option (\<lambda>(z, g'). (Scrambled_gen 0 (n - 1 - 0 + 1) z, g')) (ZipfianGenerator ops 0 (n - 1) g)"

definition new_latest :: "'d dbl_ops \<Rightarrow> 64 word \<Rightarrow> rng \<Rightarrow> ('d generator \<times> rng) option" where
  "new_latest ops basis g = do {
     (z, g1) \<leftarrow> ZipfianGenerator ops 0 (counter_last basis - 1) g;
     (v, gen, g2) \<leftarrow> gen_next ops basis (Latest_gen z 0) g1;
     Some (gen, g2)
   }"

section \<open>Choice by weight\<close>

record ('v, 'd) discrete_generator =
  d_values :: "('v \<times> 'd) list"
  weight_sum :: 'd
  d_last :: "'v option"

definition DiscreteGenerator :: "'d dbl_ops \<Rightarrow> ('v, 'd) discrete_generator" where
  "DiscreteGenerator ops = \<lparr>d_values = [], weight_sum = d_frac ops 0 1, d_last = None\<rparr>"

definition AddValue :: "'d dbl_ops \<Rightarrow> 'v \<Rightarrow> 'd \<Rightarrow> ('v, 'd) discrete_generator \<Rightarrow> ('v, 'd) discrete_generator" where
  "AddValue ops v weight d = (let d1 = (if d_values d = [] then d\<lparr>d_last := Some v\<rparr> else d) in
     d1\<lparr>d_values := d_values d1 @ [(v, weight)], weight_sum := d_add ops (weight_sum d1) weight\<rparr>)"

fun choose_loop :: "'d dbl_ops \<Rightarrow> 'd \<Rightarrow> ('v \<times> 'd) list \<Rightarrow> 'd \<Rightarrow> 'v option" where
  "choose_loop ops s [] chooser = None"
| "choose_loop ops s ((v, w) # ps) chooser =
    (if d_less ops chooser (d_div ops w s) then Some v
     else choose_loop ops s ps (d_sub ops chooser (d_div ops w s)))"

definition discrete_next :: "'d dbl_ops \<Rightarrow> ('v, 'd) discrete_generator \<Rightarrow> rng \<Rightarrow> ('v \<times> ('v, 'd) discrete_generator \<times> rng) option" where
  "discrete_next ops d g = (case RandomDouble ops g of (chooser, g1) \<Rightarrow> do {
     v \<leftarrow> choose_loop ops (weight_sum d) (d_values d) chooser;
     Some (v, d\<lparr>d_last := Some v\<rparr>, g1)
   })"


section \<open>Facts\<close>

text \<open>Arithmetic without rounding.\<close>

definition exact_ops :: "('d :: linordered_field) dbl_ops \<Rightarrow> bool" where
  "exact_ops ops \<longleftrightarrow> d_less ops = (<) \<and> d_add ops = (+) \<and> d_sub ops = (-) \<and> d_div ops = (/) \<and> d_frac ops 0 1 = 0"

definition add_all :: "'d dbl_ops \<Rightarrow> ('v \<times> 'd) list \<Rightarrow> ('v, 'd) discrete_generator" where
  "add_all ops ps = foldl (\<lambda>d (v, w). AddValue ops v w d) (DiscreteGenerator ops) ps"

abbreviation weight_upto :: "('v \<times> 'd :: comm_monoid_add) list \<Rightarrow> nat \<Rightarrow> 'd" where
  "weight_upto ps i \<equiv> sum_list (map snd (take i ps))"

lemma add_all_snoc: "add_all ops (ps @ [(v, w)]) = AddValue ops v w (add_all ops ps)"
  by (simp add: add_all_def)

lemma add_all_state:
  assumes "exact_ops ops"
  shows "d_values (add_all ops ps) = ps \<and> weight_sum (add_all ops ps) = sum_list (map snd ps)"
proof (induction ps rule: rev_induct)
  case Nil
  then show ?case using assms by (simp add: add_all_def DiscreteGenerator_def exact_ops_def)
next
  case (snoc p ps)
  obtain v w where p: "p = (v, w)" by fastforce
  show ?case unfolding p add_all_snoc using assms snoc by (auto simp: AddValue_def exact_ops_def Let_def)
qed

lemma choose_loop_interval:
  assumes "exact_ops ops" "0 < s" "0 \<le> c" "c < sum_list (map snd ps) / s"
  shows "\<exists>i < length ps. choose_loop ops s ps c = Some (fst (ps ! i)) \<and>
    weight_upto ps i / s \<le> c \<and> c < weight_upto ps (Suc i) / s"
  using assms(3,4)
proof (induction ps arbitrary: c)
  case (Cons p ps)
  obtain v w where p: "p = (v, w)" by fastforce
  show ?case
  proof (cases "c < w / s")
    case True
    then show ?thesis using assms(1) Cons.prems by (intro exI [of _ 0]) (simp add: p exact_ops_def)
  next
    case False
    then obtain i where i: "i < length ps" "choose_loop ops s ps (c - w / s) = Some (fst (ps ! i))"
      "weight_upto ps i / s \<le> c - w / s" "c - w / s < weight_upto ps (Suc i) / s"
      using Cons.IH [of "c - w / s"] Cons.prems by (auto simp: p add_divide_distrib)
    then show ?thesis using assms(1) False
      by (intro exI [of _ "Suc i"]) (simp add: p exact_ops_def add_divide_distrib)
  qed
qed simp

lemma weights_nonneg: "list_all (\<lambda>(v, w). 0 < w) ps \<Longrightarrow> 0 \<le> sum_list (map snd (ps :: ('v \<times> 'd :: linordered_field) list))"
  by (induction ps) auto

lemma discrete_choice:
  assumes "exact_ops ops" "d_values d = ps" "weight_sum d = sum_list (map snd ps)" "ps \<noteq> []" "list_all (\<lambda>(v, w). 0 < w) ps"
    "0 \<le> rl_double ops (n_double g)" "rl_double ops (n_double g) < 1"
  shows "\<exists>i < length ps. discrete_next ops d g = Some (fst (ps ! i), d\<lparr>d_last := Some (fst (ps ! i))\<rparr>, g\<lparr>n_double := Suc (n_double g)\<rparr>) \<and>
    weight_upto ps i \<le> rl_double ops (n_double g) * sum_list (map snd ps) \<and>
    rl_double ops (n_double g) * sum_list (map snd ps) < weight_upto ps (Suc i)"
proof -
  let ?s = "sum_list (map snd ps)" and ?c = "rl_double ops (n_double g)"
  have s: "0 < ?s" using assms(4,5) by (cases ps) (auto intro: add_pos_nonneg weights_nonneg)
  obtain i where "i < length ps" "choose_loop ops ?s ps ?c = Some (fst (ps ! i))" "weight_upto ps i / ?s \<le> ?c" "?c < weight_upto ps (Suc i) / ?s"
    using choose_loop_interval [OF assms(1) s assms(6), of ps] assms(7) s by auto
  then show ?thesis using assms(2,3) s
    by (intro exI [of _ i]) (auto simp: discrete_next_def RandomDouble_def pos_divide_le_eq pos_less_divide_eq)
qed


definition rat_ops :: "(nat \<Rightarrow> rat) \<Rightarrow> rat dbl_ops" where
  "rat_ops r = \<lparr>d_less = (<), d_add = (+), d_sub = (-), d_mul = (*), d_div = (/), d_pow = (\<lambda>x y. x), d_frac = (\<lambda>p q. of_int p / of_int q),
     d_of_nat = of_nat, d_to_u64 = (\<lambda>x. word_of_int \<lfloor>x\<rfloor>), d_of_int = of_int, d_to_int = floor, d_stod = (\<lambda>s. throw Invalid_argument),
     rl_double = r, rl_rand = int, rl_uniform = (\<lambda>a b k. a)\<rparr>"


text \<open>The two most frequent values of a zipfian generator do not depend on its lower bound.\<close>

lemma zipfian_next_head:
  assumes "2 \<le> num" "num < kMaxNumItems" "num \<le> n_for_zeta z"
    "d_less ops (d_mul ops (rl_double ops (n_double g)) (zeta_n z)) (d_frac ops 1 1)"
  shows "zipfian_next ops num z g = Some (0, z\<lparr>last_value := 0\<rparr>, g\<lparr>n_double := Suc (n_double g)\<rparr>)"
  using assms leD [OF assms(3)] by (simp add: zipfian_next_def RandomDouble_def)

lemma uniform_next_range:
  assumes "draws_ok ops" "u_min u \<le> u_max u"
  shows "u_min u \<le> fst (uniform_next ops u) \<and> fst (uniform_next ops u) \<le> u_max u \<and>
    u_min (snd (uniform_next ops u)) = u_min u \<and> u_max (snd (uniform_next ops u)) = u_max u"
  using assms by (simp add: draws_ok_def uniform_next_def Let_def)

lemma new_uniform_range:
  "UniformGenerator ops lo hi = Some u \<Longrightarrow> u_min u = lo \<and> u_max u = hi \<and> lo \<le> hi"
  by (auto simp: UniformGenerator_def uniform_next_def Let_def split: if_splits)

text \<open>Two values that differ in their lowest byte only have different hashes.\<close>

lemma fnv_prime_odd: "(x :: 64 word) * kFNVPrime64 = y * kFNVPrime64 \<Longrightarrow> x = y"
proof -
  assume "x * kFNVPrime64 = y * kFNVPrime64"
  then have "x * kFNVPrime64 * 0xce965057aff6957b = y * kFNVPrime64 * 0xce965057aff6957b" by simp
  moreover have "kFNVPrime64 * 0xce965057aff6957b = 1" by (simp add: kFNVPrime64_def)
  ultimately show "x = y" by (simp add: mult.assoc)
qed

end
