(* ===== verification/Ycsb_Workload.thy ===== *)
theory Ycsb_Workload
  imports Ycsb_Generators
begin

text \<open>
  The workload, \<open>core/core_workload.h\<close> and \<open>core/core_workload.cc\<close>: which records, fields and operations the
  benchmark touches. The state is the object after \<open>Init\<close>; the destructor only releases memory.
\<close>

datatype operation = INSERT | READ | UPDATE | SCAN | READMODIFYWRITE

record 'd workload =
  table_name :: bytes
  field_count :: int
  read_all_fields :: bool
  write_all_fields :: bool
  field_len_generator :: "'d generator"
  key_generator :: "64 word"
  op_chooser :: "(operation, 'd) discrete_generator"
  key_chooser :: "'d generator"
  field_chooser :: "'d generator"
  scan_len_chooser :: "'d generator"
  insert_key_sequence :: "64 word"
  ordered_inserts :: bool
  record_count :: "64 word"
  zero_padding :: int

section \<open>Initialisation\<close>

definition u64 :: "int \<Rightarrow> 64 word" where
  "u64 i = word_of_int i"

definition GetFieldLenGenerator :: "'d dbl_ops \<Rightarrow> properties \<Rightarrow> rng \<Rightarrow> ('d generator \<times> rng) run" where
  "GetFieldLenGenerator ops p g = (let field_len_dist = GetProperty p ''field_len_dist'' ''constant'' in
     rbind (stoi (GetProperty p ''fieldlength'' ''100'')) (\<lambda>field_len.
       if field_len_dist = ''constant'' then ret (Const_gen (u64 field_len), g)
       else if field_len_dist = ''uniform'' then lift_opt (map_option (\<lambda>u. (u, g)) (new_uniform ops 1 (u64 field_len)))
       else if field_len_dist = ''zipfian'' then lift_opt (new_zipfian ops 1 (u64 field_len) g)
       else throw (Exception (''Unknown field length distribution: '' @ field_len_dist))))"

definition add_positive :: "'d dbl_ops \<Rightarrow> operation \<Rightarrow> 'd \<Rightarrow> (operation, 'd) discrete_generator \<Rightarrow> (operation, 'd) discrete_generator" where
  "add_positive ops v w d = (if d_less ops (d_frac ops 0 1) w then AddValue ops v w d else d)"

definition new_key_chooser :: "'d dbl_ops \<Rightarrow> properties \<Rightarrow> bytes \<Rightarrow> 64 word \<Rightarrow> 'd \<Rightarrow> rng \<Rightarrow> ('d generator \<times> rng) run" where
  "new_key_chooser ops p request_dist records insert_proportion g =
    (if request_dist = ''uniform'' then lift_opt (map_option (\<lambda>u. (u, g)) (new_uniform ops 0 (records - 1)))
     else if request_dist = ''zipfian''
     then rbind (stoi (GetProperty p ''operationcount'' [])) (\<lambda>op_count.
       let new_keys = d_to_int ops (d_mul ops (d_mul ops (d_of_int ops op_count) insert_proportion) (d_frac ops 2 1))
       in lift_opt (new_scrambled ops (records + u64 new_keys) g))
     else if request_dist = ''latest'' then lift_opt (new_latest ops records g)
     else throw (Exception (''Unknown request distribution: '' @ request_dist)))"

definition new_scan_len_chooser :: "'d dbl_ops \<Rightarrow> bytes \<Rightarrow> int \<Rightarrow> rng \<Rightarrow> ('d generator \<times> rng) run" where
  "new_scan_len_chooser ops scan_len_dist max_scan_len g =
    (if scan_len_dist = ''uniform'' then lift_opt (map_option (\<lambda>u. (u, g)) (new_uniform ops 1 (u64 max_scan_len)))
     else if scan_len_dist = ''zipfian'' then lift_opt (new_zipfian ops 1 (u64 max_scan_len) g)
     else throw (Exception (''Distribution not allowed for scan length: '' @ scan_len_dist)))"

definition CoreWorkload_Init :: "'d dbl_ops \<Rightarrow> properties \<Rightarrow> rng \<Rightarrow> ('d workload \<times> rng) run" where
  "CoreWorkload_Init ops p g =
    (let dbl = (\<lambda>key def. d_stod ops (GetProperty p key def)); num = (\<lambda>key def. stoi (GetProperty p key def)) in
     rbind (num ''fieldcount'' ''10'') (\<lambda>fields.
     rbind (GetFieldLenGenerator ops p g) (\<lambda>(len_gen, g1).
     rbind (dbl ''readproportion'' ''0.95'') (\<lambda>read_p.
     rbind (dbl ''updateproportion'' ''0.05'') (\<lambda>update_p.
     rbind (dbl ''insertproportion'' ''0.0'') (\<lambda>insert_p.
     rbind (dbl ''scanproportion'' ''0.0'') (\<lambda>scan_p.
     rbind (dbl ''readmodifywriteproportion'' ''0.0'') (\<lambda>rmw_p.
     rbind (num ''recordcount'' []) (\<lambda>records.
     let request_dist = GetProperty p ''requestdistribution'' ''uniform'' in
     rbind (num ''zeropadding'' ''1'') (\<lambda>padding.
     rbind (num ''maxscanlength'' ''1000'') (\<lambda>max_scan_len.
     let scan_len_dist = GetProperty p ''scanlengthdistribution'' ''uniform'' in
     rbind (num ''insertstart'' ''0'') (\<lambda>insert_start.
     rbind (StrToBool (GetProperty p ''readallfields'' ''true'')) (\<lambda>read_all.
     rbind (StrToBool (GetProperty p ''writeallfields'' ''false'')) (\<lambda>write_all.
     rbind (new_key_chooser ops p request_dist (u64 records) insert_p g1) (\<lambda>(keys, g2).
     rbind (lift_opt (new_uniform ops 0 (u64 (to_int (fields - 1))))) (\<lambda>fields_gen.
     rbind (new_scan_len_chooser ops scan_len_dist max_scan_len g2) (\<lambda>(scan_gen, g3).
     ret (\<lparr>table_name = GetProperty p ''table'' ''usertable'', field_count = fields,
         read_all_fields = read_all, write_all_fields = write_all, field_len_generator = len_gen,
         key_generator = u64 insert_start,
         op_chooser = add_positive ops READMODIFYWRITE rmw_p (add_positive ops SCAN scan_p (add_positive ops INSERT insert_p
           (add_positive ops UPDATE update_p (add_positive ops READ read_p (DiscreteGenerator ops))))),
         key_chooser = keys, field_chooser = fields_gen, scan_len_chooser = scan_gen,
         insert_key_sequence = u64 records,
         ordered_inserts = (GetProperty p ''insertorder'' ''hashed'' \<noteq> ''hashed''),
         record_count = u64 records, zero_padding = padding\<rparr>, g3))))))))))))))))))"

section \<open>Keys\<close>

definition Hash :: "64 word \<Rightarrow> 64 word" where
  "Hash val = FNVHash64 val"

definition BuildKeyName :: "'d workload \<Rightarrow> 64 word \<Rightarrow> bytes" where
  "BuildKeyName wl key_num =
    (let k = (if ordered_inserts wl then key_num else Hash key_num);
         key_num_str = dec_string (unat k);
         zeros = max 0 (to_int (zero_padding wl - int (length key_num_str)))
     in ''user'' @ replicate (nat zeros) (CHR ''0'') @ key_num_str)"

definition NextSequenceKey :: "'d workload \<Rightarrow> bytes \<times> 'd workload" where
  "NextSequenceKey wl = (case counter_next (key_generator wl) of (key_num, c) \<Rightarrow>
     (BuildKeyName wl key_num, wl\<lparr>key_generator := c\<rparr>))"

text \<open>Keys that do not exist yet are drawn again, as often as it takes.\<close>

partial_function (option) key_loop :: "'d dbl_ops \<Rightarrow> 64 word \<Rightarrow> 'd generator \<Rightarrow> rng \<Rightarrow> (64 word \<times> 'd generator \<times> rng) option" where
  "key_loop ops seq ch g = (case gen_next ops seq ch g of
      None \<Rightarrow> None
    | Some (key_num, ch', g') \<Rightarrow> if counter_last seq < key_num then key_loop ops seq ch' g' else Some (key_num, ch', g'))"

declare key_loop.simps [code]

definition NextTransactionKey :: "'d dbl_ops \<Rightarrow> 'd workload \<Rightarrow> rng \<Rightarrow> (bytes \<times> 'd workload \<times> rng) option" where
  "NextTransactionKey ops wl g = do {
     (key_num, ch, g') \<leftarrow> key_loop ops (insert_key_sequence wl) (key_chooser wl) g;
     Some (BuildKeyName wl key_num, wl\<lparr>key_chooser := ch\<rparr>, g')
   }"

section \<open>Operations, fields and values\<close>

definition NextOperation :: "'d dbl_ops \<Rightarrow> 'd workload \<Rightarrow> rng \<Rightarrow> (operation \<times> 'd workload \<times> rng) option" where
  "NextOperation ops wl g = do {
     (v, d, g') \<leftarrow> discrete_next ops (op_chooser wl) g;
     Some (v, wl\<lparr>op_chooser := d\<rparr>, g')
   }"

definition NextFieldName :: "'d dbl_ops \<Rightarrow> 'd workload \<Rightarrow> rng \<Rightarrow> (bytes \<times> 'd workload \<times> rng) option" where
  "NextFieldName ops wl g = do {
     (v, gen, g') \<leftarrow> gen_next ops (insert_key_sequence wl) (field_chooser wl) g;
     Some (''field'' @ dec_string (unat v), wl\<lparr>field_chooser := gen\<rparr>, g')
   }"

definition NextScanLength :: "'d dbl_ops \<Rightarrow> 'd workload \<Rightarrow> rng \<Rightarrow> (64 word \<times> 'd workload \<times> rng) option" where
  "NextScanLength ops wl g = do {
     (v, gen, g') \<leftarrow> gen_next ops (insert_key_sequence wl) (scan_len_chooser wl) g;
     Some (v, wl\<lparr>scan_len_chooser := gen\<rparr>, g')
   }"

text \<open>A value of a drawn length, made of one drawn character; a string cannot be longer than \<open>max_size\<close>.\<close>

definition next_value :: "'d dbl_ops \<Rightarrow> 'd workload \<Rightarrow> rng \<Rightarrow> (bytes \<times> 'd workload \<times> rng) run" where
  "next_value ops wl g = rbind (lift_opt (gen_next ops (insert_key_sequence wl) (field_len_generator wl) g)) (\<lambda>(n, gen, g1).
     case next_char ops g1 of (c, g2) \<Rightarrow>
       if 0x7fffffffffffffff < n then throw Length_error
       else ret (replicate (unat n) c, wl\<lparr>field_len_generator := gen\<rparr>, g2))"

definition field_name :: "nat \<Rightarrow> bytes" where
  "field_name i = ''field'' @ dec_string i"

primrec build_values :: "'d dbl_ops \<Rightarrow> nat \<Rightarrow> nat \<Rightarrow> 'd workload \<Rightarrow> rng \<Rightarrow> ((bytes \<times> bytes) list \<times> 'd workload \<times> rng) run" where
  "build_values ops i 0 wl g = ret ([], wl, g)"
| "build_values ops i (Suc n) wl g = rbind (next_value ops wl g) (\<lambda>(v, wl1, g1).
     rbind (build_values ops (Suc i) n wl1 g1) (\<lambda>(vs, wl2, g2). ret ((field_name i, v) # vs, wl2, g2)))"

definition BuildValues :: "'d dbl_ops \<Rightarrow> 'd workload \<Rightarrow> rng \<Rightarrow> ((bytes \<times> bytes) list \<times> 'd workload \<times> rng) run" where
  "BuildValues ops wl g = build_values ops 0 (nat (field_count wl)) wl g"

definition BuildUpdate :: "'d dbl_ops \<Rightarrow> 'd workload \<Rightarrow> rng \<Rightarrow> ((bytes \<times> bytes) list \<times> 'd workload \<times> rng) run" where
  "BuildUpdate ops wl g = rbind (lift_opt (NextFieldName ops wl g)) (\<lambda>(f, wl1, g1).
     rbind (next_value ops wl1 g1) (\<lambda>(v, wl2, g2). ret ([(f, v)], wl2, g2)))"


section \<open>Names of records\<close>

lemma digits_val_zeros: "digits_val (replicate n (CHR ''0'') @ ds) = digits_val ds"
  by (induction n) (simp_all add: digits_val_def)

lemma key_name_parts:
  "take 4 (BuildKeyName wl k) = ''user'' \<and>
   digits_val (drop 4 (BuildKeyName wl k)) = int (unat (if ordered_inserts wl then k else Hash k))"
  by (simp add: BuildKeyName_def Let_def digits_val_zeros)


section \<open>Generators that cannot fail\<close>

fun bounded_gen :: "64 word \<Rightarrow> 'd generator \<Rightarrow> bool" where
  "bounded_gen hi (Const_gen c) \<longleftrightarrow> c \<le> hi"
| "bounded_gen hi (Uniform_gen u) \<longleftrightarrow> u_min u \<le> u_max u \<and> u_max u \<le> hi"
| "bounded_gen hi _ \<longleftrightarrow> False"

lemma bounded_gen_next:
  assumes "draws_ok ops" "bounded_gen hi gen"
  shows "\<exists>v gen'. gen_next ops seq gen g = Some (v, gen', g) \<and> v \<le> hi \<and> bounded_gen hi gen'"
proof (cases gen)
  case (Uniform_gen u)
  with assms uniform_next_range [of ops u] show ?thesis by (auto simp: case_prod_beta)
qed (use assms in auto)

lemma new_uniform_bounded:
  assumes "lo \<le> hi"
  shows "\<exists>gen. new_uniform ops lo hi = Some gen \<and> bounded_gen hi gen"
proof -
  obtain u where u: "UniformGenerator ops lo hi = Some u" using assms by (simp add: UniformGenerator_def)
  then show ?thesis using new_uniform_range [OF u] by (simp add: new_uniform_def)
qed

section \<open>Values\<close>

definition printable :: "bytes \<Rightarrow> bool" where
  "printable s \<longleftrightarrow> (\<forall>c \<in> set s. 33 \<le> (of_char c :: nat) \<and> (of_char c :: nat) \<le> 126)"

lemma next_char_printable:
  assumes "draws_ok ops"
  shows "printable [fst (next_char ops g)]"
proof -
  let ?m = "rl_rand ops (n_rand g) mod 94"
  have m: "0 \<le> ?m" "?m < 94" by simp_all
  then have "of_char (RandomPrintChar (rl_rand ops (n_rand g))) = nat (?m + 33)"
    by (simp add: RandomPrintChar_def)
  moreover have "33 \<le> nat (?m + 33) \<and> nat (?m + 33) \<le> 126" using m by linarith
  ultimately show ?thesis by (simp add: printable_def next_char_def)
qed

text \<open>What the operations on the workload leave alone.\<close>

definition same_scope :: "'d workload \<Rightarrow> 'd workload \<Rightarrow> bool" where
  "same_scope wl wl' \<longleftrightarrow> table_name wl' = table_name wl \<and> field_count wl' = field_count wl \<and>
     read_all_fields wl' = read_all_fields wl \<and> write_all_fields wl' = write_all_fields wl \<and>
     insert_key_sequence wl' = insert_key_sequence wl \<and> ordered_inserts wl' = ordered_inserts wl \<and>
     record_count wl' = record_count wl \<and> zero_padding wl' = zero_padding wl"

lemma same_scope_refl [simp]: "same_scope wl wl"
  by (simp add: same_scope_def)

lemma same_scope_trans: "same_scope a b \<Longrightarrow> same_scope b c \<Longrightarrow> same_scope a c"
  by (simp add: same_scope_def)

lemma same_scope_name: "same_scope wl wl' \<Longrightarrow> BuildKeyName wl' k = BuildKeyName wl k"
  by (simp add: same_scope_def BuildKeyName_def)

abbreviation max_len :: "64 word" where "max_len \<equiv> 0x7fffffffffffffff"

lemma next_value_ok:
  assumes "draws_ok ops" "bounded_gen max_len (field_len_generator wl)"
  shows "\<exists>v gen g'. next_value ops wl g = ret (v, wl\<lparr>field_len_generator := gen\<rparr>, g') \<and> printable v \<and> bounded_gen max_len gen"
proof -
  obtain n gen where n: "gen_next ops (insert_key_sequence wl) (field_len_generator wl) g = Some (n, gen, g)" "n \<le> max_len" "bounded_gen max_len gen"
    using bounded_gen_next [OF assms] by blast
  have "printable (replicate m (fst (next_char ops g)))" for m
    using next_char_printable [OF assms(1), of g] by (auto simp: printable_def)
  then show ?thesis using n by (auto simp: next_value_def case_prod_beta not_less [symmetric])
qed

lemma build_values_ok:
  assumes "draws_ok ops" "bounded_gen max_len (field_len_generator wl)"
  shows "\<exists>vs gen g'. build_values ops i n wl g = ret (vs, wl\<lparr>field_len_generator := gen\<rparr>, g') \<and>
    map fst vs = map field_name [i..<i + n] \<and> list_all (\<lambda>(f, v). printable v) vs \<and> bounded_gen max_len gen"
  using assms(2)
proof (induction n arbitrary: i wl g)
  case 0
  then show ?case by (intro exI [of _ "[]"] exI [of _ "field_len_generator wl"]) simp
next
  case (Suc n)
  obtain v gen g1 where v: "next_value ops wl g = ret (v, wl\<lparr>field_len_generator := gen\<rparr>, g1)" "printable v" "bounded_gen max_len gen"
    using next_value_ok [OF assms(1) Suc.prems] by blast
  have "bounded_gen max_len (field_len_generator (wl\<lparr>field_len_generator := gen\<rparr>))" using v(3) by simp
  from Suc.IH [OF this, of "Suc i" g1] obtain vs gen2 g2 where
    "build_values ops (Suc i) n (wl\<lparr>field_len_generator := gen\<rparr>) g1 = ret (vs, wl\<lparr>field_len_generator := gen2\<rparr>, g2)"
    "map fst vs = map field_name [Suc i..<Suc i + n]" "list_all (\<lambda>(f, v). printable v) vs" "bounded_gen max_len gen2" by (auto simp del: upt_Suc)
  then show ?case using v by (intro exI [of _ "(field_name i, v) # vs"] exI [of _ gen2] exI [of _ g2]) (simp add: upt_conv_Cons del: upt_Suc)
qed

lemma field_name_inj: "field_name i = field_name j \<Longrightarrow> i = j"
proof -
  assume "field_name i = field_name j"
  then have "dec_string i = dec_string j" by (simp add: field_name_def)
  then have "int i = int j" by (metis digits_val_dec)
  then show "i = j" by simp
qed

lemma distinct_field_names: "distinct (map field_name [i..<j])"
  using field_name_inj by (simp add: distinct_map inj_on_def)



definition demo_workload :: "rat workload" where
  "demo_workload = \<lparr>table_name = ''usertable'', field_count = 2, read_all_fields = False, write_all_fields = False,
     field_len_generator = Const_gen 3, key_generator = 0, op_chooser = add_all (rat_ops (\<lambda>k. 0)) [(READ, 1)],
     key_chooser = Uniform_gen \<lparr>u_min = 0, u_max = 4, u_count = 1, u_last = 0\<rparr>,
     field_chooser = Uniform_gen \<lparr>u_min = 0, u_max = 1, u_count = 1, u_last = 0\<rparr>,
     scan_len_chooser = Uniform_gen \<lparr>u_min = 1, u_max = 10, u_count = 1, u_last = 1\<rparr>,
     insert_key_sequence = 5, ordered_inserts = True, record_count = 5, zero_padding = 3\<rparr>"

lemma demo_draws: "draws_ok (rat_ops r)"
  by (simp add: draws_ok_def rat_ops_def)



section \<open>Keys of transactions\<close>

text \<open>The successive draws of a generator.\<close>

primrec nth_draw :: "'d dbl_ops \<Rightarrow> 64 word \<Rightarrow> nat \<Rightarrow> 'd generator \<Rightarrow> rng \<Rightarrow> (64 word \<times> 'd generator \<times> rng) option" where
  "nth_draw ops seq 0 ch g = gen_next ops seq ch g"
| "nth_draw ops seq (Suc n) ch g = do { (k, ch', g') \<leftarrow> gen_next ops seq ch g; nth_draw ops seq n ch' g' }"

definition first_hit :: "'d dbl_ops \<Rightarrow> 64 word \<Rightarrow> 'd generator \<Rightarrow> rng \<Rightarrow> nat \<Rightarrow> 64 word \<times> 'd generator \<times> rng \<Rightarrow> bool" where
  "first_hit ops seq ch g n r \<longleftrightarrow> nth_draw ops seq n ch g = Some r \<and> fst r \<le> counter_last seq \<and>
     (\<forall>m < n. \<exists>k ch' g'. nth_draw ops seq m ch g = Some (k, ch', g') \<and> counter_last seq < k)"

lemma key_loop_unfold:
  "key_loop ops seq ch g = (case gen_next ops seq ch g of None \<Rightarrow> None
    | Some (k, ch', g') \<Rightarrow> if counter_last seq < k then key_loop ops seq ch' g' else Some (k, ch', g'))"
  by (rule key_loop.simps)

lemma key_loop_hits: "key_loop ops seq ch g = Some r \<Longrightarrow> \<exists>n. first_hit ops seq ch g n r"
proof (erule key_loop.raw_induct [where P = "\<lambda>ops seq ch g r. \<exists>n. first_hit ops seq ch g n r", rotated])
  fix loop ops seq ch g and r :: "64 word \<times> 'a generator \<times> rng"
  assume ih: "\<And>(ops :: 'a dbl_ops) seq ch g r. loop ops seq ch g = Some r \<Longrightarrow> \<exists>n. first_hit ops seq ch g n r"
    and e: "(case gen_next ops seq ch g of None \<Rightarrow> None
      | Some (k, ch', g') \<Rightarrow> if counter_last seq < k then loop ops seq ch' g' else Some (k, ch', g')) = Some r"
  obtain k ch' g' where d: "gen_next ops seq ch g = Some (k, ch', g')"
    and r: "(if counter_last seq < k then loop ops seq ch' g' else Some (k, ch', g')) = Some r"
    using e by (auto split: option.split_asm)
  show "\<exists>n. first_hit ops seq ch g n r"
  proof (cases "counter_last seq < k")
    case True
    then have "loop ops seq ch' g' = Some r" using r by simp
    from ih [OF this] obtain n where n: "first_hit ops seq ch' g' n r" by blast
    have "\<exists>k ch'' g''. nth_draw ops seq m ch g = Some (k, ch'', g'') \<and> counter_last seq < k" if "m < Suc n" for m
      using that True d n by (cases m) (auto simp: first_hit_def)
    then have "first_hit ops seq ch g (Suc n) r" using n d by (auto simp: first_hit_def)
    then show ?thesis by blast
  next
    case False
    with r have "first_hit ops seq ch g 0 r" using d by (auto simp: first_hit_def)
    then show ?thesis by blast
  qed
qed

lemma hits_key_loop: "first_hit ops seq ch g n r \<Longrightarrow> key_loop ops seq ch g = Some r"
proof (induction n arbitrary: ch g)
  case 0
  then show ?case by (subst key_loop_unfold) (cases r, auto simp: first_hit_def)
next
  case (Suc n)
  obtain k ch' g' where d: "gen_next ops seq ch g = Some (k, ch', g')" "counter_last seq < k"
    using Suc.prems by (auto simp: first_hit_def dest!: spec [of _ 0])
  have "first_hit ops seq ch' g' n r"
    using Suc.prems d by (auto simp: first_hit_def dest: spec [of _ "Suc _"])
  from Suc.IH [OF this] d show ?case by (subst key_loop_unfold) simp
qed

text \<open>
  The key of a transaction is the first draw that names an existing record: the loop returns exactly when one of the draws is
  at most the last number of the sequence and all draws before it succeed, and it returns the first such draw.
\<close>

theorem NextTransactionKey_first_hit:
  "NextTransactionKey ops wl g = Some (key, wl', g') \<longleftrightarrow>
    (\<exists>n k ch. first_hit ops (insert_key_sequence wl) (key_chooser wl) g n (k, ch, g') \<and>
      key = BuildKeyName wl k \<and> wl' = wl\<lparr>key_chooser := ch\<rparr>)"
  (is "?l \<longleftrightarrow> ?r")
proof
  assume ?l
  then show ?r by (auto simp: NextTransactionKey_def bind_eq_Some_conv dest!: key_loop_hits)
next
  assume ?r
  then show ?l by (auto simp: NextTransactionKey_def dest!: hits_key_loop)
qed


section \<open>Any sequence of operations\<close>

inductive wl_step :: "'d dbl_ops \<Rightarrow> 'd workload \<times> rng \<Rightarrow> 'd workload \<times> rng \<Rightarrow> bool" for ops where
  seq_key: "NextSequenceKey wl = (key, wl') \<Longrightarrow> wl_step ops (wl, g) (wl', g)"
| trans_key: "NextTransactionKey ops wl g = Some (key, wl', g') \<Longrightarrow> wl_step ops (wl, g) (wl', g')"
| next_op: "NextOperation ops wl g = Some (v, wl', g') \<Longrightarrow> wl_step ops (wl, g) (wl', g')"
| next_field: "NextFieldName ops wl g = Some (f, wl', g') \<Longrightarrow> wl_step ops (wl, g) (wl', g')"
| next_scan: "NextScanLength ops wl g = Some (n, wl', g') \<Longrightarrow> wl_step ops (wl, g) (wl', g')"
| all_values: "BuildValues ops wl g = ret (vs, wl', g') \<Longrightarrow> wl_step ops (wl, g) (wl', g')"
| an_update: "BuildUpdate ops wl g = ret (vs, wl', g') \<Longrightarrow> wl_step ops (wl, g) (wl', g')"

lemma same_scope_upd [simp]:
  "same_scope wl (wl\<lparr>key_generator := a\<rparr>)" "same_scope wl (wl\<lparr>key_chooser := b\<rparr>)" "same_scope wl (wl\<lparr>op_chooser := c\<rparr>)"
  "same_scope wl (wl\<lparr>field_chooser := d\<rparr>)" "same_scope wl (wl\<lparr>scan_len_chooser := e\<rparr>)" "same_scope wl (wl\<lparr>field_len_generator := f\<rparr>)"
  by (simp_all add: same_scope_def)

lemma next_value_scope: "next_value ops wl g = ret (v, wl', g') \<Longrightarrow> same_scope wl wl'"
  by (auto simp: next_value_def rbind_ret lift_opt_ret case_prod_beta split: if_split_asm)

lemma build_values_scope: "build_values ops i n wl g = ret (vs, wl', g') \<Longrightarrow> same_scope wl wl'"
proof (induction n arbitrary: i wl g vs)
  case (Suc n)
  then obtain v wl1 g1 vs1 where "next_value ops wl g = ret (v, wl1, g1)" "build_values ops (Suc i) n wl1 g1 = ret (vs1, wl', g')"
    by (auto simp: rbind_ret)
  with Suc.IH [of "Suc i" wl1 g1 vs1] next_value_scope [of ops wl g v wl1 g1] show ?case by (blast intro: same_scope_trans)
qed simp

lemma NextFieldName_scope: "NextFieldName ops wl g = Some (f, wl', g') \<Longrightarrow> same_scope wl wl'"
  by (auto simp: NextFieldName_def bind_eq_Some_conv)

lemma BuildUpdate_scope: "BuildUpdate ops wl g = ret (vs, wl', g') \<Longrightarrow> same_scope wl wl'"
proof -
  assume "BuildUpdate ops wl g = ret (vs, wl', g')"
  then obtain f wl1 g1 v where "NextFieldName ops wl g = Some (f, wl1, g1)" "next_value ops wl1 g1 = ret (v, wl', g')"
    by (auto simp: BuildUpdate_def rbind_ret lift_opt_ret)
  with NextFieldName_scope [of ops wl g] next_value_scope [of ops wl1 g1] show ?thesis by (blast intro: same_scope_trans)
qed

lemma wl_step_scope: "wl_step ops s s' \<Longrightarrow> same_scope (fst s) (fst s')"
proof (induction rule: wl_step.induct)
  case (all_values wl g vs wl' g')
  then show ?case by (simp add: BuildValues_def build_values_scope)
qed (auto simp: NextSequenceKey_def counter_next_def NextTransactionKey_def NextOperation_def NextScanLength_def bind_eq_Some_conv
    intro: NextFieldName_scope BuildUpdate_scope)

lemma wl_steps_scope: "(wl_step ops)\<^sup>*\<^sup>* s s' \<Longrightarrow> same_scope (fst s) (fst s')"
  by (induction rule: rtranclp_induct) (auto dest: wl_step_scope intro: same_scope_trans)

lemma Init_records:
  assumes "CoreWorkload_Init ops p g = ret (wl, g')"
  shows "\<exists>n. stoi (GetProperty p ''recordcount'' []) = ret n \<and> insert_key_sequence wl = u64 n \<and> record_count wl = u64 n"
  using assms unfolding CoreWorkload_Init_def Let_def
  by (auto simp: rbind_ret split: prod.split_asm)

lemma below_last: "(k :: 64 word) \<le> n - 1 \<Longrightarrow> n \<noteq> 0 \<Longrightarrow> k < n"
  by (meson order.strict_trans1 measure_unat unat_mono word_less_nat_alt)

text \<open>
  C7. Transactions only ever use the records of the start: after any sequence of operations on the workload, insertions
  included, the key of a transaction belongs to a number below \<open>recordcount\<close>, since nothing advances the sequence
  that bounds the choice. With ordered inserts no record that a transaction inserts is ever read, updated or scanned.
\<close>

theorem transaction_keys_fixed:
  assumes "CoreWorkload_Init ops p g0 = ret (wl0, g1)" "(wl_step ops)\<^sup>*\<^sup>* (wl0, g1) (wl, g)"
    "NextTransactionKey ops wl g = Some (key, wl', g')"
  shows "\<exists>n k. stoi (GetProperty p ''recordcount'' []) = ret n \<and> key = BuildKeyName wl0 k \<and> k \<le> u64 n - 1 \<and>
    (ordered_inserts wl0 \<and> u64 n \<noteq> 0 \<longrightarrow> (\<forall>j \<ge> u64 n. BuildKeyName wl0 j \<noteq> key))"
proof -
  obtain n where n: "stoi (GetProperty p ''recordcount'' []) = ret n" "insert_key_sequence wl0 = u64 n"
    using Init_records [OF assms(1)] by blast
  have sc: "same_scope wl0 wl" using wl_steps_scope [OF assms(2)] by simp
  then have seq: "insert_key_sequence wl = u64 n" using n(2) by (simp add: same_scope_def)
  obtain i k ch where k: "first_hit ops (u64 n) (key_chooser wl) g i (k, ch, g')" "key = BuildKeyName wl k"
    using assms(3) seq by (auto simp: NextTransactionKey_def bind_eq_Some_conv dest!: key_loop_hits)
  have key: "key = BuildKeyName wl0 k" "k \<le> u64 n - 1"
    using k same_scope_name [OF sc] by (auto simp: first_hit_def counter_last_def)
  have "BuildKeyName wl0 j \<noteq> key" if "ordered_inserts wl0" "u64 n \<noteq> 0" "u64 n \<le> j" for j
  proof
    assume "BuildKeyName wl0 j = key"
    then have "int (unat j) = int (unat k)" using key_name_parts [of wl0 j] key_name_parts [of wl0 k] that(1) key(1) by metis
    then have "j = k" by (simp only: of_nat_eq_iff) (rule unsigned_word_eqI)
    with below_last [OF key(2) that(2)] that(3) show False by simp
  qed
  with n(1) key show ?thesis by blast
qed


definition init_ops :: "rat dbl_ops" where
  "init_ops = (rat_ops (\<lambda>k. 0))\<lparr>d_stod := (\<lambda>s. ret (if s = ''0.95'' then 19 / 20 else if s = ''0.05'' then 1 / 20 else 0))\<rparr>"

definition demo_props :: properties where
  "demo_props = [''recordcount'' \<mapsto> ''5'', ''insertorder'' \<mapsto> ''ordered'']"

lemma stoi_demo: "stoi ''5'' = ret 5" "stoi ''10'' = ret 10" "stoi ''100'' = ret 100" "stoi ''1000'' = ret 1000"
    "stoi ''1'' = ret 1" "stoi ''0'' = ret 0" "StrToBool ''true'' = ret True" "StrToBool ''false'' = ret False"
  by code_simp+

lemma u64_demo: "u64 5 = 5" "u64 1000 = 1000" "u64 9 = 9" "u64 100 = 100" "u64 0 = 0"
  by (simp_all add: u64_def)

lemma demo_init:
  "\<exists>wl. CoreWorkload_Init init_ops demo_props \<lparr>n_double = 0, n_rand = 0\<rparr> = ret (wl, \<lparr>n_double = 0, n_rand = 0\<rparr>) \<and>
    ordered_inserts wl \<and> insert_key_sequence wl = 5 \<and> key_generator wl = 0 \<and> table_name wl = ''usertable'' \<and> field_count wl = 10 \<and>
    field_len_generator wl = Const_gen 100 \<and> read_all_fields wl \<and> \<not> write_all_fields wl \<and>
    key_chooser wl = Uniform_gen \<lparr>u_min = 0, u_max = 4, u_count = 1, u_last = 0\<rparr> \<and> zero_padding wl = 1 \<and>
    field_chooser wl = Uniform_gen \<lparr>u_min = 0, u_max = 9, u_count = 1, u_last = 0\<rparr>"
proof -
  have p: "GetProperty demo_props k d = (if k = ''recordcount'' then ''5'' else if k = ''insertorder'' then ''ordered'' else d)" for k d
    by (simp add: demo_props_def GetProperty_def)
  have d: "\<exists>x. d_stod init_ops s = ret x" for s by (simp add: init_ops_def)
  have u: "new_uniform init_ops lo hi = (if lo \<le> hi then Some (Uniform_gen \<lparr>u_min = lo, u_max = hi, u_count = 1, u_last = lo\<rparr>) else None)" for lo hi
    by (simp add: new_uniform_def UniformGenerator_def uniform_next_def init_ops_def rat_ops_def)
  obtain a b c e f where st: "d_stod init_ops ''0.95'' = ret a" "d_stod init_ops ''0.05'' = ret b" "d_stod init_ops ''0.0'' = ret c"
    using d by metis
  have "GetFieldLenGenerator init_ops demo_props g = ret (Const_gen 100, g)" for g
    by (simp add: GetFieldLenGenerator_def p stoi_demo u64_demo)
  moreover have "new_key_chooser init_ops demo_props ''uniform'' 5 x g = ret (Uniform_gen \<lparr>u_min = 0, u_max = 4, u_count = 1, u_last = 0\<rparr>, g)" for x g
    by (simp add: new_key_chooser_def u)
  moreover have "new_scan_len_chooser init_ops ''uniform'' 1000 g = ret (Uniform_gen \<lparr>u_min = 1, u_max = 1000, u_count = 1, u_last = 1\<rparr>, g)" for g
    by (simp add: new_scan_len_chooser_def u u64_demo)
  ultimately show ?thesis
    by (simp add: CoreWorkload_Init_def p stoi_demo u64_demo st u)
qed

lemma transaction_keys_fixed_witness:
  "\<exists>wl0 wl g wl' g' key k. CoreWorkload_Init init_ops demo_props \<lparr>n_double = 0, n_rand = 0\<rparr> = ret (wl0, g) \<and>
    NextTransactionKey init_ops wl g = Some (key, wl', g') \<and> wl = snd (NextSequenceKey wl0) \<and> key = BuildKeyName wl0 k \<and> k \<le> 4 \<and> BuildKeyName wl0 5 \<noteq> key"
proof -
  let ?g = "\<lparr>n_double = 0, n_rand = 0\<rparr>"
  obtain wl0 where wl0: "CoreWorkload_Init init_ops demo_props ?g = ret (wl0, ?g)" "ordered_inserts wl0" "insert_key_sequence wl0 = 5"
      "key_chooser wl0 = Uniform_gen \<lparr>u_min = 0, u_max = 4, u_count = 1, u_last = 0\<rparr>"
    using demo_init by blast
  define wl where "wl = snd (NextSequenceKey wl0)"
  have st: "(wl_step init_ops)\<^sup>*\<^sup>* (wl0, ?g) (wl, ?g)"
    unfolding wl_def by (intro r_into_rtranclp wl_step.seq_key [where key = "fst (NextSequenceKey wl0)"]) simp
  have "key_chooser wl = key_chooser wl0" "insert_key_sequence wl = 5"
    using wl0(3) by (simp_all add: wl_def NextSequenceKey_def counter_next_def)
  then have "first_hit init_ops (insert_key_sequence wl) (key_chooser wl) ?g 0
      (0, Uniform_gen \<lparr>u_min = 0, u_max = 4, u_count = 2, u_last = 0\<rparr>, ?g)"
    using wl0(4) by (simp add: first_hit_def uniform_next_def init_ops_def rat_ops_def counter_last_def)
  from hits_key_loop [OF this] obtain key wl' g' where k: "NextTransactionKey init_ops wl ?g = Some (key, wl', g')"
    by (auto simp: NextTransactionKey_def)
  have "stoi (GetProperty demo_props ''recordcount'' []) = ret 5" by (simp add: demo_props_def GetProperty_def stoi_demo)
  then obtain j where "key = BuildKeyName wl0 j" "j \<le> 4" "\<forall>i \<ge> 5. BuildKeyName wl0 i \<noteq> key"
    using transaction_keys_fixed [OF wl0(1) st k] wl0(2) by (auto simp: u64_demo)
  with wl0(1) k wl_def show ?thesis by blast
qed

end
