(* ===== verification/Ycsb_Table.thy ===== *)
theory Ycsb_Table
  imports Ycsb_Utils "HOL-Library.Multiset"
begin

text \<open>
  The database in memory: the hashed strings (\<open>lib/string.h\<close>), the hash table over the containers of the standard library
  (\<open>lib/stl_hashtable.h\<close>, with a lock in \<open>lib/lock_stl_hashtable.h\<close>), and the database of tables of fields
  (\<open>db/hashtable_db.cc\<close> as \<open>db/lock_stl_db.h\<close> instantiates it).

  A C string handed over by \<open>c_str\<close> ends at the first null byte. The order in which the container iterates is not specified; it
  is a parameter that arranges the keys after each insertion. The locks make each operation one step.
\<close>

section \<open>Hashed strings\<close>

record vstring =
  hash_val :: "64 word"
  str_val :: bytes
  len_val :: nat

definition c_str :: "bytes \<Rightarrow> bytes" where
  "c_str s = takeWhile (\<lambda>c. c \<noteq> NUL) s"

text \<open>A \<open>char\<close> is signed; its conversion to \<open>uint64_t\<close> extends the sign.\<close>

definition char_u64 :: "char \<Rightarrow> 64 word" where
  "char_u64 c = word_of_int (signed_take_bit 7 (of_char c))"

definition SDBMHash :: "bytes \<Rightarrow> 64 word" where
  "SDBMHash s = foldl (\<lambda>hash c. char_u64 c + push_bit 6 hash + push_bit 16 hash - hash) 0 s"

definition Wrap :: "bytes \<Rightarrow> vstring" where
  "Wrap s = \<lparr>hash_val = SDBMHash s, str_val = s, len_val = length s\<rparr>"

definition same_string :: "vstring \<Rightarrow> vstring \<Rightarrow> bool" where
  "same_string a b \<longleftrightarrow> (if hash_val a \<noteq> hash_val b then False else str_val a = str_val b)"

lemma same_string_Wrap [simp]: "same_string (Wrap a) (Wrap b) \<longleftrightarrow> a = b"
  by (auto simp: same_string_def Wrap_def)

section \<open>The hash table\<close>

type_synonym 'v stl_table = "(vstring \<times> 'v) list"

type_synonym arrangement = "vstring list \<Rightarrow> vstring list"

primrec tbl_find :: "'v stl_table \<Rightarrow> vstring \<Rightarrow> 'v option" where
  "tbl_find [] k = None"
| "tbl_find (e # es) k = (if same_string (fst e) k then Some (snd e) else tbl_find es k)"

definition tbl_Get :: "'v stl_table \<Rightarrow> bytes \<Rightarrow> 'v option" where
  "tbl_Get t key = tbl_find t (Wrap key)"

text \<open>The container takes the pair unless the key is there; then its elements may be arranged anew.\<close>

definition tbl_arrange :: "arrangement \<Rightarrow> 'v stl_table \<Rightarrow> 'v stl_table" where
  "tbl_arrange arr t = map (\<lambda>k. (k, the (map_of t k))) (arr (map fst t))"

definition tbl_Insert :: "arrangement \<Rightarrow> 'v stl_table \<Rightarrow> bytes \<Rightarrow> 'v \<Rightarrow> bool \<times> 'v stl_table" where
  "tbl_Insert arr t key v = (case tbl_find t (Wrap key) of
      Some _ \<Rightarrow> (False, t)
    | None \<Rightarrow> (True, tbl_arrange arr ((Wrap key, v) # t)))"

definition tbl_set :: "'v stl_table \<Rightarrow> bytes \<Rightarrow> 'v \<Rightarrow> 'v stl_table" where
  "tbl_set t key v = map (\<lambda>e. if same_string (fst e) (Wrap key) then (fst e, v) else e) t"

definition tbl_Update :: "'v stl_table \<Rightarrow> bytes \<Rightarrow> 'v \<Rightarrow> 'v option \<times> 'v stl_table" where
  "tbl_Update t key v = (case tbl_find t (Wrap key) of None \<Rightarrow> (None, t) | Some old \<Rightarrow> (Some old, tbl_set t key v))"

definition tbl_Remove :: "'v stl_table \<Rightarrow> bytes \<Rightarrow> 'v option \<times> 'v stl_table" where
  "tbl_Remove t key = (case tbl_find t (Wrap key) of
      None \<Rightarrow> (None, t)
    | Some old \<Rightarrow> (Some old, filter (\<lambda>e. \<not> same_string (fst e) (Wrap key)) t))"

text \<open>At most \<open>n\<close> entries from the given key on, in the order of the container.\<close>

definition tbl_Entries :: "'v stl_table \<Rightarrow> bytes option \<Rightarrow> nat \<Rightarrow> (bytes \<times> 'v) list" where
  "tbl_Entries t key n = map (\<lambda>e. (str_val (fst e), snd e))
     (take n (case key of None \<Rightarrow> t | Some k \<Rightarrow> dropWhile (\<lambda>e. \<not> same_string (fst e) (Wrap k)) t))"

text \<open>The default argument \<open>-1\<close> for the number of entries is the largest \<open>size_t\<close>.\<close>

definition all_entries :: "'v stl_table \<Rightarrow> (bytes \<times> 'v) list" where
  "all_entries t = tbl_Entries t None (2 ^ 64 - 1)"

section \<open>The database\<close>

definition kOK :: int where "kOK = 0"
definition kErrorNoData :: int where "kErrorNoData = 1"
definition kErrorConflict :: int where "kErrorConflict = 2"

type_synonym kv = "bytes \<times> bytes"
type_synonym field_table = "bytes stl_table"
type_synonym key_table = "field_table stl_table"

text \<open>The fields that exist, or all fields.\<close>

definition field_values :: "field_table \<Rightarrow> bytes list option \<Rightarrow> kv list" where
  "field_values ft wanted = (case wanted of
      None \<Rightarrow> all_entries ft
    | Some fs \<Rightarrow> concat (map (\<lambda>f. case tbl_Get ft (c_str f) of None \<Rightarrow> [] | Some v \<Rightarrow> [(f, v)]) fs))"

definition hdb_Read :: "key_table \<Rightarrow> bytes \<Rightarrow> bytes \<Rightarrow> bytes list option \<Rightarrow> kv list \<Rightarrow> int \<times> kv list" where
  "hdb_Read db table key wanted result = (case tbl_Get db (c_str (table @ key)) of
      None \<Rightarrow> (kErrorNoData, result)
    | Some ft \<Rightarrow> (kOK, field_values ft wanted))"

text \<open>The length is an \<open>int\<close> that is converted to \<open>size_t\<close>.\<close>

definition hdb_Scan :: "key_table \<Rightarrow> bytes \<Rightarrow> bytes \<Rightarrow> int \<Rightarrow> bytes list option \<Rightarrow> int \<times> kv list list" where
  "hdb_Scan db table key len wanted =
     (kOK, map (\<lambda>(k, ft). field_values ft wanted) (tbl_Entries db (Some (c_str (table @ key))) (nat (to_size len))))"

text \<open>Fields of a record that was not there are inserted, whatever the insertion says.\<close>

definition insert_all :: "arrangement \<Rightarrow> field_table \<Rightarrow> kv list \<Rightarrow> field_table" where
  "insert_all arr ft kvs = foldl (\<lambda>t (f, v). snd (tbl_Insert arr t (c_str f) (c_str v))) ft kvs"

definition update_field :: "arrangement \<Rightarrow> field_table \<Rightarrow> kv \<Rightarrow> field_table" where
  "update_field arr ft p = (case tbl_Update ft (c_str (fst p)) (c_str (snd p)) of
      (None, ft1) \<Rightarrow> snd (tbl_Insert arr ft1 (c_str (fst p)) (c_str (snd p)))
    | (Some old, ft1) \<Rightarrow> ft1)"

definition hdb_Update :: "arrangement \<Rightarrow> key_table \<Rightarrow> bytes \<Rightarrow> bytes \<Rightarrow> kv list \<Rightarrow> int \<times> key_table" where
  "hdb_Update arr db table key kvs = (let key_index = c_str (table @ key) in
     case tbl_Get db key_index of
       None \<Rightarrow> (kOK, snd (tbl_Insert arr db key_index (insert_all arr [] kvs)))
     | Some ft \<Rightarrow> (kOK, tbl_set db key_index (foldl (update_field arr) ft kvs)))"

fun insert_fields :: "arrangement \<Rightarrow> field_table \<Rightarrow> kv list \<Rightarrow> int \<times> field_table" where
  "insert_fields arr ft [] = (kOK, ft)"
| "insert_fields arr ft ((f, v) # kvs) = (case tbl_Insert arr ft (c_str f) (c_str v) of
      (True, ft1) \<Rightarrow> insert_fields arr ft1 kvs
    | (False, ft1) \<Rightarrow> (kErrorConflict, ft1))"

definition hdb_Insert :: "arrangement \<Rightarrow> key_table \<Rightarrow> bytes \<Rightarrow> bytes \<Rightarrow> kv list \<Rightarrow> int \<times> key_table" where
  "hdb_Insert arr db table key kvs = (let key_index = c_str (table @ key);
       (ft, db1) = (case tbl_Get db key_index of
           None \<Rightarrow> ([], snd (tbl_Insert arr db key_index []))
         | Some ft \<Rightarrow> (ft, db));
       (rc, ft1) = insert_fields arr ft kvs
     in (rc, tbl_set db1 key_index ft1))"

definition hdb_Delete :: "key_table \<Rightarrow> bytes \<Rightarrow> bytes \<Rightarrow> int \<times> key_table" where
  "hdb_Delete db table key = (case tbl_Remove db (c_str (table @ key)) of
      (None, db1) \<Rightarrow> (kErrorNoData, db1)
    | (Some ft, db1) \<Rightarrow> (kOK, db1))"


section \<open>The table as a map\<close>

definition fair :: "arrangement \<Rightarrow> bool" where
  "fair arr \<longleftrightarrow> (\<forall>ks. mset (arr ks) = mset ks)"

definition table_ok :: "'v stl_table \<Rightarrow> bool" where
  "table_ok t \<longleftrightarrow> distinct (map fst t) \<and> (\<forall>k \<in> fst ` set t. k = Wrap (str_val k))"

lemma str_val_Wrap [simp]: "str_val (Wrap s) = s"
  by (simp add: Wrap_def)

lemma Wrap_inj [simp]: "Wrap a = Wrap b \<longleftrightarrow> a = b"
  by (metis str_val_Wrap)

lemma table_ok_Nil [simp]: "table_ok []"
  by (simp add: table_ok_def)

lemma table_ok_same: "table_ok t \<Longrightarrow> e \<in> set t \<Longrightarrow> same_string (fst e) (Wrap k) \<longleftrightarrow> fst e = Wrap k"
  by (metis table_ok_def image_eqI same_string_Wrap Wrap_inj)

lemma tbl_find_map_of: "table_ok t \<Longrightarrow> tbl_find t (Wrap k) = map_of t (Wrap k)"
proof (induction t)
  case (Cons e t)
  then have "table_ok t" by (simp add: table_ok_def)
  with Cons table_ok_same [of "e # t" e k] show ?case by (cases e) auto
qed simp

lemma tbl_Get_map_of: "table_ok t \<Longrightarrow> tbl_Get t k = map_of t (Wrap k)"
  by (simp add: tbl_Get_def tbl_find_map_of)

lemma tbl_Get_Nil [simp]: "tbl_Get [] = Map.empty"
  by (simp add: tbl_Get_def fun_eq_iff)

lemma tbl_arrange_ok:
  assumes "fair arr" "table_ok t"
  shows "table_ok (tbl_arrange arr t) \<and> map_of (tbl_arrange arr t) = map_of t"
proof -
  have ms: "mset (arr (map fst t)) = mset (map fst t)" using assms(1) by (simp add: fair_def)
  then have d: "distinct (arr (map fst t))" and st: "set (arr (map fst t)) = fst ` set t"
    using assms(2) mset_eq_imp_distinct_iff [OF ms] mset_eq_setD [OF ms] by (simp_all add: table_ok_def)
  have keys: "map fst (tbl_arrange arr t) = arr (map fst t)" by (simp add: tbl_arrange_def comp_def)
  have "table_ok (tbl_arrange arr t)"
    using assms(2) d st keys unfolding table_ok_def by (metis list.set_map)
  moreover have "map_of (tbl_arrange arr t) k = map_of t k" for k
  proof -
    have "map_of (map (\<lambda>k. (k, the (map_of t k))) ks) k = (if k \<in> set ks then Some (the (map_of t k)) else None)" for ks
      by (induction ks) auto
    then have "map_of (tbl_arrange arr t) k = (if k \<in> fst ` set t then Some (the (map_of t k)) else None)"
      by (simp add: tbl_arrange_def st)
    moreover have "k \<in> fst ` set t \<longleftrightarrow> map_of t k \<noteq> None" by (simp add: map_of_eq_None_iff)
    ultimately show ?thesis by (cases "map_of t k") simp_all
  qed
  ultimately show ?thesis by (simp add: fun_eq_iff)
qed

lemma tbl_Insert_new:
  assumes "fair arr" "table_ok t" "tbl_Get t k = None"
  shows "\<exists>t'. tbl_Insert arr t k v = (True, t') \<and> table_ok t' \<and> tbl_Get t' = (tbl_Get t)(k := Some v)"
proof -
  have n: "map_of t (Wrap k) = None" using assms(2,3) by (simp add: tbl_Get_map_of)
  then have ok: "table_ok ((Wrap k, v) # t)" using assms(2) by (auto simp: table_ok_def map_of_eq_None_iff)
  note ar = tbl_arrange_ok [OF assms(1) ok]
  have "tbl_Get (tbl_arrange arr ((Wrap k, v) # t)) = (tbl_Get t)(k := Some v)"
    using ar assms(2) by (simp add: tbl_Get_map_of fun_eq_iff)
  with ar n assms(2) show ?thesis by (simp add: tbl_Insert_def tbl_find_map_of)
qed

lemma tbl_Insert_old: "tbl_Get t k = Some w \<Longrightarrow> tbl_Insert arr t k v = (False, t)"
  by (simp add: tbl_Insert_def tbl_Get_def)

lemma tbl_set_ok:
  assumes "table_ok t" "tbl_Get t k \<noteq> None"
  shows "table_ok (tbl_set t k v) \<and> tbl_Get (tbl_set t k v) = (tbl_Get t)(k := Some v) \<and> map fst (tbl_set t k v) = map fst t"
proof -
  have keys: "map fst (tbl_set t k v) = map fst t" by (simp add: tbl_set_def comp_def if_distrib)
  then have ok: "table_ok (tbl_set t k v)" using assms(1) unfolding table_ok_def by (metis list.set_map)
  have "tbl_set t k v = map (\<lambda>e. if fst e = Wrap k then (fst e, v) else e) t"
    using table_ok_same [OF assms(1)] by (simp add: tbl_set_def)
  moreover have "map_of (map (\<lambda>e. if fst e = x then (fst e, v) else e) t) y = (if y = x \<and> map_of t y \<noteq> None then Some v else map_of t y)" for x y
    by (induction t) auto
  ultimately have "map_of (tbl_set t k v) (Wrap j) = ((tbl_Get t)(k := Some v)) j" for j
    using assms by (simp add: tbl_Get_map_of)
  with ok keys show ?thesis by (simp add: tbl_Get_map_of fun_eq_iff)
qed

lemma tbl_Remove_ok:
  assumes "table_ok t"
  shows "\<exists>t'. tbl_Remove t k = (tbl_Get t k, t') \<and> table_ok t' \<and> tbl_Get t' = (tbl_Get t)(k := None)"
proof -
  let ?f = "filter (\<lambda>e. \<not> same_string (fst e) (Wrap k)) t"
  have f: "?f = filter (\<lambda>e. fst e \<noteq> Wrap k) t" using table_ok_same [OF assms] by (auto intro: filter_cong)
  have ok: "table_ok ?f" using assms by (auto simp: f table_ok_def distinct_map_filter)
  have "map_of (filter (\<lambda>e. fst e \<noteq> x) t) y = (if y = x then None else map_of t y)" for x y
    by (induction t) auto
  then have "tbl_Get ?f = (tbl_Get t)(k := None)" using ok assms by (simp add: tbl_Get_map_of f [symmetric] fun_eq_iff) (simp add: f tbl_Get_map_of)
  moreover have "(tbl_Get t)(k := None) = tbl_Get t" if "tbl_Get t k = None" using that by auto
  ultimately show ?thesis using ok assms by (cases "tbl_Get t k") (auto simp: tbl_Remove_def tbl_Get_def)
qed


section \<open>The database as a map of records\<close>

definition db_ok :: "key_table \<Rightarrow> bool" where
  "db_ok db \<longleftrightarrow> table_ok db \<and> (\<forall>k ft. tbl_Get db k = Some ft \<longrightarrow> table_ok ft)"

definition db_abs :: "key_table \<Rightarrow> bytes \<Rightarrow> (bytes \<Rightarrow> bytes option) option" where
  "db_abs db k = map_option tbl_Get (tbl_Get db k)"

definition plain_pairs :: "kv list \<Rightarrow> bool" where
  "plain_pairs kvs \<longleftrightarrow> list_all (\<lambda>(f, v). NUL \<notin> set f \<and> NUL \<notin> set v) kvs"

lemma c_str_plain [simp]: "NUL \<notin> set s \<Longrightarrow> c_str s = s"
  by (simp add: c_str_def)

lemma insert_fields_ok:
  assumes "fair arr" "table_ok ft" "plain_pairs kvs" "distinct (map fst kvs)" "\<forall>f \<in> fst ` set kvs. tbl_Get ft f = None"
  shows "\<exists>ft'. insert_fields arr ft kvs = (kOK, ft') \<and> table_ok ft' \<and> tbl_Get ft' = tbl_Get ft ++ map_of kvs"
  using assms(2-5)
proof (induction kvs arbitrary: ft)
  case (Cons p kvs)
  obtain f v where p: "p = (f, v)" by fastforce
  have plain: "c_str f = f" "c_str v = v" "plain_pairs kvs" using Cons.prems(2) by (simp_all add: p plain_pairs_def)
  obtain ft1 where ft1: "tbl_Insert arr ft f v = (True, ft1)" "table_ok ft1" "tbl_Get ft1 = (tbl_Get ft)(f := Some v)"
    using tbl_Insert_new [OF assms(1) Cons.prems(1), of f v] Cons.prems(4) p by auto
  have "f \<notin> fst ` set kvs" using Cons.prems(3) p by simp
  have fr: "\<forall>g \<in> fst ` set kvs. tbl_Get ft1 g = None" using \<open>f \<notin> fst ` set kvs\<close> Cons.prems(4) p ft1(3) by auto
  obtain ft' where "insert_fields arr ft1 kvs = (kOK, ft')" "table_ok ft'" "tbl_Get ft' = tbl_Get ft1 ++ map_of kvs"
    using Cons.IH [OF ft1(2) plain(3) _ fr] Cons.prems(3) p by auto
  moreover have "(tbl_Get ft)(f := Some v) ++ map_of kvs = tbl_Get ft ++ map_of ((f, v) # kvs)"
  proof
    fix g
    have "map_of kvs f = None" using \<open>f \<notin> fst ` set kvs\<close> by (simp add: map_of_eq_None_iff)
    then show "((tbl_Get ft)(f := Some v) ++ map_of kvs) g = (tbl_Get ft ++ map_of ((f, v) # kvs)) g"
      by (cases "map_of kvs g") (auto simp: map_add_def)
  qed
  ultimately show ?case using ft1 plain by (auto simp: p simp del: fun_upd_apply map_of.simps)
qed simp

lemma insert_all_ok:
  assumes "fair arr" "table_ok ft" "plain_pairs kvs" "distinct (map fst kvs)" "\<forall>f \<in> fst ` set kvs. tbl_Get ft f = None"
  shows "insert_all arr ft kvs = snd (insert_fields arr ft kvs)"
  using assms(2-5)
proof (induction kvs arbitrary: ft)
  case (Cons p kvs)
  obtain f v where p: "p = (f, v)" by fastforce
  have plain: "c_str f = f" "c_str v = v" "plain_pairs kvs" using Cons.prems(2) by (simp_all add: p plain_pairs_def)
  obtain ft1 where ft1: "tbl_Insert arr ft f v = (True, ft1)" "table_ok ft1" "tbl_Get ft1 = (tbl_Get ft)(f := Some v)"
    using tbl_Insert_new [OF assms(1) Cons.prems(1), of f v] Cons.prems(4) p by auto
  have "f \<notin> fst ` set kvs" using Cons.prems(3) p by simp
  then have "\<forall>g \<in> fst ` set kvs. tbl_Get ft1 g = None" using Cons.prems(4) p ft1(3) by auto
  from Cons.IH [OF ft1(2) plain(3) _ this] have "insert_all arr ft1 kvs = snd (insert_fields arr ft1 kvs)"
    using Cons.prems(3) p by simp
  then show ?case using ft1(1) plain by (simp add: p insert_all_def)
qed (simp add: insert_all_def)

lemma update_field_ok:
  assumes "fair arr" "table_ok ft" "NUL \<notin> set f" "NUL \<notin> set v"
  shows "table_ok (update_field arr ft (f, v)) \<and> tbl_Get (update_field arr ft (f, v)) = (tbl_Get ft)(f := Some v)"
proof (cases "tbl_Get ft f")
  case None
  with tbl_Insert_new [OF assms(1,2) None, of v] assms(3,4) show ?thesis
    by (auto simp: update_field_def tbl_Update_def tbl_Get_def)
next
  case (Some old)
  with tbl_set_ok [OF assms(2), of f v] assms(3,4) show ?thesis
    by (auto simp: update_field_def tbl_Update_def tbl_Get_def)
qed

lemma update_fields_ok:
  assumes "fair arr" "table_ok ft" "plain_pairs kvs"
  shows "table_ok (foldl (update_field arr) ft kvs) \<and> tbl_Get (foldl (update_field arr) ft kvs) = tbl_Get ft ++ map_of (rev kvs)"
  using assms(2,3)
proof (induction kvs arbitrary: ft)
  case (Cons p kvs)
  obtain f v where p: "p = (f, v)" by fastforce
  have plain: "NUL \<notin> set f" "NUL \<notin> set v" "plain_pairs kvs" using Cons.prems(2) by (simp_all add: p plain_pairs_def)
  note u = update_field_ok [OF assms(1) Cons.prems(1) plain(1,2)]
  have "(tbl_Get ft)(f := Some v) ++ map_of (rev kvs) = tbl_Get ft ++ map_of (rev ((f, v) # kvs))"
    by (simp add: map_add_upd)
  then show ?case using Cons.IH [OF _ plain(3), of "update_field arr ft (f, v)"] u by (simp add: p del: fun_upd_apply)
qed simp

lemma map_of_rev_distinct: "distinct (map fst kvs) \<Longrightarrow> map_of (rev kvs) = map_of kvs"
  by (rule map_of_inject_set [THEN iffD2]) (simp_all flip: rev_map)

lemma db_abs_None: "db_abs db k = None \<longleftrightarrow> tbl_Get db k = None"
  by (simp add: db_abs_def)

text \<open>Replacing or adding one field table.\<close>

lemma db_set:
  assumes "db_ok db" "tbl_Get db k \<noteq> None" "table_ok ft"
  shows "db_ok (tbl_set db k ft) \<and> db_abs (tbl_set db k ft) = (db_abs db)(k := Some (tbl_Get ft))"
  using tbl_set_ok [of db k ft] assms by (auto simp: db_ok_def db_abs_def fun_eq_iff split: if_splits)

lemma db_add:
  assumes "fair arr" "db_ok db" "tbl_Get db k = None" "table_ok ft"
  shows "\<exists>db'. tbl_Insert arr db k ft = (True, db') \<and> db_ok db' \<and> tbl_Get db' k = Some ft \<and> db_abs db' = (db_abs db)(k := Some (tbl_Get ft))"
proof -
  obtain db' where d: "tbl_Insert arr db k ft = (True, db')" "table_ok db'" "tbl_Get db' = (tbl_Get db)(k := Some ft)"
    using tbl_Insert_new [of arr db k ft] assms by (auto simp: db_ok_def)
  then have "db_ok db'" using assms(2,4) by (auto simp: db_ok_def)
  with d show ?thesis by (auto simp: db_abs_def fun_eq_iff)
qed

lemma hdb_Insert_new:
  assumes "fair arr" "db_ok db" "NUL \<notin> set (table @ key)" "plain_pairs kvs" "distinct (map fst kvs)" "db_abs db (table @ key) = None"
  shows "\<exists>db'. hdb_Insert arr db table key kvs = (kOK, db') \<and> db_ok db' \<and> db_abs db' = (db_abs db)(table @ key := Some (map_of kvs))"
proof -
  let ?k = "table @ key"
  obtain db1 where d1: "tbl_Insert arr db ?k [] = (True, db1)" "db_ok db1" "tbl_Get db1 ?k = Some []" "db_abs db1 = (db_abs db)(?k := Some Map.empty)"
    using db_add [OF assms(1,2), of ?k "[]"] assms(6) by (auto simp: db_abs_None)
  obtain ft where ft: "insert_fields arr [] kvs = (kOK, ft)" "table_ok ft" "tbl_Get ft = map_of kvs"
    using insert_fields_ok [OF assms(1) table_ok_Nil assms(4,5)] by auto
  have "c_str ?k = ?k" "tbl_Get db ?k = None" using assms(3,6) c_str_plain [of ?k] by (simp_all add: db_abs_None)
  then have "hdb_Insert arr db table key kvs = (kOK, tbl_set db1 ?k ft)"
    using d1(1) ft(1) by (simp add: hdb_Insert_def)
  with db_set [OF d1(2), of ?k ft] d1(3,4) ft(2,3) show ?thesis by auto
qed

lemma hdb_Update_ok:
  assumes "fair arr" "db_ok db" "NUL \<notin> set (table @ key)" "plain_pairs kvs" "distinct (map fst kvs)"
  shows "\<exists>db'. hdb_Update arr db table key kvs = (kOK, db') \<and> db_ok db' \<and>
    db_abs db' = (db_abs db)(table @ key := Some ((case db_abs db (table @ key) of None \<Rightarrow> Map.empty | Some r \<Rightarrow> r) ++ map_of kvs))"
proof -
  let ?k = "table @ key"
  have k: "c_str ?k = ?k" using assms(3) by (rule c_str_plain)
  show ?thesis
  proof (cases "tbl_Get db ?k")
    case None
    obtain ft where ft: "insert_fields arr [] kvs = (kOK, ft)" "table_ok ft" "tbl_Get ft = map_of kvs"
      using insert_fields_ok [OF assms(1) table_ok_Nil assms(4,5)] by auto
    moreover have "insert_all arr [] kvs = ft" using insert_all_ok [OF assms(1) table_ok_Nil assms(4,5)] ft(1) by simp
    ultimately show ?thesis using db_add [OF assms(1,2) None, of ft] None k by (auto simp: hdb_Update_def db_abs_def)
  next
    case (Some ft)
    then have "table_ok ft" using assms(2) by (auto simp: db_ok_def)
    from update_fields_ok [OF assms(1) this assms(4)] db_set [OF assms(2), of ?k "foldl (update_field arr) ft kvs"] Some k
    show ?thesis by (auto simp: hdb_Update_def db_abs_def map_of_rev_distinct [OF assms(5)])
  qed
qed


lemma bspec_subset: "A \<subseteq> B \<Longrightarrow> \<forall>x \<in> B. P x \<Longrightarrow> \<forall>x \<in> A. P x"
  by blast

lemma insert_fields_append:
  "insert_fields arr ft (xs @ ys) = (case insert_fields arr ft xs of (rc, ft1) \<Rightarrow>
     if rc = kOK then insert_fields arr ft1 ys else (rc, ft1))"
  by (induction xs arbitrary: ft) (auto simp: kOK_def kErrorConflict_def split: prod.split bool.split)

text \<open>An insertion stops at the first field that is there; the fields before it are in.\<close>

lemma insert_fields_stops:
  assumes "fair arr" "table_ok ft" "plain_pairs kvs" "distinct (map fst kvs)"
  shows "\<exists>ft'. insert_fields arr ft kvs = (if \<forall>f \<in> fst ` set kvs. tbl_Get ft f = None then kOK else kErrorConflict, ft') \<and> table_ok ft' \<and>
    tbl_Get ft' = tbl_Get ft ++ map_of (takeWhile (\<lambda>(f, v). tbl_Get ft f = None) kvs)"
proof -
  let ?P = "\<lambda>(f, v). tbl_Get ft f = None"
  let ?xs = "takeWhile ?P kvs"
  have kvs: "kvs = ?xs @ dropWhile ?P kvs" by simp
  have "map fst kvs = map fst ?xs @ map fst (dropWhile ?P kvs)" unfolding map_append [symmetric] by simp
  then have d: "distinct (map fst ?xs)" using assms(4) by (metis distinct_append)
  have sub: "set ?xs \<subseteq> set kvs" by (rule subsetI, drule set_takeWhileD, erule conjunct1)
  have tw: "\<forall>p \<in> set ?xs. ?P p" by (rule ballI, drule set_takeWhileD, erule conjunct2)
  have none: "\<forall>f \<in> fst ` set ?xs. tbl_Get ft f = None" using tw by (auto simp only: case_prod_beta)
  have "plain_pairs ?xs"
    unfolding plain_pairs_def list_all_iff by (rule bspec_subset [OF sub]) (rule assms(3) [unfolded plain_pairs_def list_all_iff])
  note xs = this d none
  obtain ft' where ft': "insert_fields arr ft ?xs = (kOK, ft')" "table_ok ft'" "tbl_Get ft' = tbl_Get ft ++ map_of ?xs"
    using insert_fields_ok [OF assms(1,2) xs] by blast
  show ?thesis
  proof (cases "dropWhile ?P kvs")
    case Nil
    then have e: "?xs = kvs" using kvs by (metis append_Nil2)
    show ?thesis using ft' unfolding e if_P [OF none [unfolded e]] by blast
  next
    case (Cons p ys)
    obtain f v where p: "p = (f, v)" by fastforce
    have "\<not> ?P p" using Cons hd_dropWhile [of ?P kvs] by simp
    then obtain w where w: "tbl_Get ft f = Some w" by (auto simp: p)
    have mem: "p \<in> set kvs" using set_dropWhileD [of p ?P kvs] Cons by simp
    then have c: "\<not> (\<forall>f \<in> fst ` set kvs. tbl_Get ft f = None)" using w by (force simp: p)
    have pl: "c_str f = f" "c_str v = v" using assms(3) mem by (auto simp: plain_pairs_def list_all_iff p)
    have "f \<notin> fst ` set ?xs" using w none by (metis option.distinct(1))
    then have "map_of ?xs f = None" by (simp only: map_of_eq_None_iff not_False_eq_True)
    then have "tbl_Get ft' f = Some w" using w ft'(3) by (simp add: map_add_def)
    then have "insert_fields arr ft' (p # ys) = (kErrorConflict, ft')" using pl by (simp add: p tbl_Insert_old)
    then have "insert_fields arr ft (?xs @ p # ys) = (kErrorConflict, ft')" using ft'(1) by (simp add: insert_fields_append)
    then have "insert_fields arr ft kvs = (kErrorConflict, ft')" using kvs Cons by metis
    then show ?thesis unfolding if_not_P [OF c] using ft'(2,3) by blast
  qed
qed

lemma hdb_Insert_old:
  assumes "fair arr" "db_ok db" "NUL \<notin> set (table @ key)" "plain_pairs kvs" "distinct (map fst kvs)" "db_abs db (table @ key) = Some r"
  shows "\<exists>db'. hdb_Insert arr db table key kvs = (if \<forall>f \<in> fst ` set kvs. r f = None then kOK else kErrorConflict, db') \<and> db_ok db' \<and>
    db_abs db' = (db_abs db)(table @ key := Some (r ++ map_of (takeWhile (\<lambda>(f, v). r f = None) kvs)))"
proof -
  obtain ft where ft: "tbl_Get db (table @ key) = Some ft" "table_ok ft" "r = tbl_Get ft"
    using assms(2,6) by (auto simp: db_abs_def db_ok_def)
  obtain ft' where "insert_fields arr ft kvs = (if \<forall>f \<in> fst ` set kvs. r f = None then kOK else kErrorConflict, ft')" "table_ok ft'"
      "tbl_Get ft' = r ++ map_of (takeWhile (\<lambda>(f, v). r f = None) kvs)"
    using insert_fields_stops [OF assms(1) ft(2) assms(4,5)] ft(3) by auto
  then show ?thesis using db_set [OF assms(2), of "table @ key" ft'] ft(1) c_str_plain [OF assms(3)]
    by (auto simp: hdb_Insert_def simp del: fun_upd_apply)
qed

lemma hdb_Delete_ok:
  assumes "db_ok db" "NUL \<notin> set (table @ key)"
  shows "\<exists>db'. hdb_Delete db table key = (if db_abs db (table @ key) = None then kErrorNoData else kOK, db') \<and> db_ok db' \<and>
    db_abs db' = (db_abs db)(table @ key := None)"
proof -
  obtain db' where d: "tbl_Remove db (table @ key) = (tbl_Get db (table @ key), db')" "table_ok db'" "tbl_Get db' = (tbl_Get db)(table @ key := None)"
    using tbl_Remove_ok [of db "table @ key"] assms(1) by (auto simp: db_ok_def)
  then have "db_ok db'" "db_abs db' = (db_abs db)(table @ key := None)" using assms(1) by (auto simp: db_ok_def db_abs_def fun_eq_iff split: if_splits)
  then show ?thesis using d(1) c_str_plain [OF assms(2)] by (cases "tbl_Get db (table @ key)") (auto simp: hdb_Delete_def db_abs_None)
qed

lemma hdb_Read_ok:
  assumes "db_ok db" "NUL \<notin> set (table @ key)" "\<forall>f \<in> set fs. NUL \<notin> set f"
  shows "hdb_Read db table key (Some fs) result = (case db_abs db (table @ key) of
      None \<Rightarrow> (kErrorNoData, result)
    | Some r \<Rightarrow> (kOK, concat (map (\<lambda>f. case r f of None \<Rightarrow> [] | Some v \<Rightarrow> [(f, v)]) fs)))"
  using assms(3) c_str_plain [OF assms(2)]
  by (auto simp: hdb_Read_def db_abs_def field_values_def split: option.split intro!: arg_cong [where f = concat] map_cong)

text \<open>
  C6. The database in memory is a map from records to maps from fields to values, whatever the order in which the containers keep their elements:
  an update writes the given fields and creates the record if need be; an insertion creates the record or adds to
  it up to the first field that exists, which it reports as a conflict; a read returns the wanted fields that exist and a
  deletion removes the record, both reporting a missing one. Only the record of the key changes.
\<close>

theorem hashtable_db_refines:
  assumes "fair arr" "db_ok db" "NUL \<notin> set (table @ key)" "plain_pairs kvs" "distinct (map fst kvs)" "\<forall>f \<in> set fs. NUL \<notin> set f"
  shows "let k = table @ key; m = db_abs db in
    (\<exists>db'. hdb_Update arr db table key kvs = (kOK, db') \<and> db_ok db' \<and>
      db_abs db' = m(k := Some ((case m k of None \<Rightarrow> Map.empty | Some r \<Rightarrow> r) ++ map_of kvs))) \<and>
    (\<exists>db'. hdb_Insert arr db table key kvs =
        (case m k of None \<Rightarrow> kOK | Some r \<Rightarrow> if \<forall>f \<in> fst ` set kvs. r f = None then kOK else kErrorConflict, db') \<and> db_ok db' \<and>
      db_abs db' = m(k := Some (case m k of None \<Rightarrow> map_of kvs | Some r \<Rightarrow> r ++ map_of (takeWhile (\<lambda>(f, v). r f = None) kvs)))) \<and>
    (\<exists>db'. hdb_Delete db table key = (if m k = None then kErrorNoData else kOK, db') \<and> db_ok db' \<and> db_abs db' = m(k := None)) \<and>
    hdb_Read db table key (Some fs) result = (case m k of None \<Rightarrow> (kErrorNoData, result)
      | Some r \<Rightarrow> (kOK, concat (map (\<lambda>f. case r f of None \<Rightarrow> [] | Some v \<Rightarrow> [(f, v)]) fs)))"
proof -
  have "\<exists>db'. hdb_Insert arr db table key kvs =
      (case db_abs db (table @ key) of None \<Rightarrow> kOK | Some r \<Rightarrow> if \<forall>f \<in> fst ` set kvs. r f = None then kOK else kErrorConflict, db') \<and> db_ok db' \<and>
    db_abs db' = (db_abs db)(table @ key := Some (case db_abs db (table @ key) of None \<Rightarrow> map_of kvs
      | Some r \<Rightarrow> r ++ map_of (takeWhile (\<lambda>(f, v). r f = None) kvs)))"
    using hdb_Insert_new [OF assms(1-5)] hdb_Insert_old [OF assms(1-5)] by (cases "db_abs db (table @ key)") simp_all
  then show ?thesis
    unfolding Let_def using hdb_Update_ok [OF assms(1-5)] hdb_Delete_ok [OF assms(2,3)] hdb_Read_ok [OF assms(2,3,6)] by blast
qed

lemma hashtable_db_refines_witness:
  "\<exists>db'. hdb_Insert rev [] ''t'' ''user1'' [(''field0'', ''x''), (''field1'', ''y'')] = (kOK, db') \<and>
    db_abs db' = [''tuser1'' \<mapsto> [''field0'' \<mapsto> ''x'', ''field1'' \<mapsto> ''y'']]"
proof -
  have "db_abs [] = Map.empty" by (simp add: db_abs_def fun_eq_iff)
  moreover have "fair rev" "db_ok []" by (simp_all add: fair_def db_ok_def)
  moreover have "plain_pairs [(''field0'', ''x''), (''field1'', ''y'')]" by (simp add: plain_pairs_def)
  ultimately show ?thesis
    using hashtable_db_refines [of rev "[]" "''t''" "''user1''" "[(''field0'', ''x''), (''field1'', ''y'')]" "[]" "[]"]
    by (auto simp: Let_def fun_upd_twist)
qed

end
