(* ===== verification/Ycsb_Client.thy ===== *)
theory Ycsb_Client
  imports Ycsb_Workload Ycsb_Table
begin

text \<open>
  The client of the benchmark and its main program: \<open>core/client.h\<close>, \<open>core/db.h\<close>, \<open>db/basic_db.h\<close>,
  \<open>db/db_factory.cc\<close> and \<open>ycsbc.cc\<close>. A database is the record of its virtual functions.
\<close>

section \<open>Databases\<close>

record 's database =
  db_Init :: "'s \<Rightarrow> 's"
  db_Close :: "'s \<Rightarrow> 's"
  db_Read :: "bytes \<Rightarrow> bytes \<Rightarrow> bytes list option \<Rightarrow> kv list \<Rightarrow> 's \<Rightarrow> (int \<times> kv list \<times> 's) run"
  db_Scan :: "bytes \<Rightarrow> bytes \<Rightarrow> int \<Rightarrow> bytes list option \<Rightarrow> 's \<Rightarrow> (int \<times> kv list list \<times> 's) run"
  db_Update :: "bytes \<Rightarrow> bytes \<Rightarrow> kv list \<Rightarrow> 's \<Rightarrow> (int \<times> 's) run"
  db_Insert :: "bytes \<Rightarrow> bytes \<Rightarrow> kv list \<Rightarrow> 's \<Rightarrow> (int \<times> 's) run"
  db_Delete :: "bytes \<Rightarrow> bytes \<Rightarrow> 's \<Rightarrow> (int \<times> 's) run"

definition lock_stl_db :: "arrangement \<Rightarrow> key_table database" where
  "lock_stl_db arr = \<lparr>db_Init = id, db_Close = id,
     db_Read = (\<lambda>table key wanted result s. case hdb_Read s table key wanted result of (rc, r) \<Rightarrow> ret (rc, r, s)),
     db_Scan = (\<lambda>table key len wanted s. case hdb_Scan s table key len wanted of (rc, r) \<Rightarrow> ret (rc, r, s)),
     db_Update = (\<lambda>table key kvs s. ret (hdb_Update arr s table key kvs)),
     db_Insert = (\<lambda>table key kvs s. ret (hdb_Insert arr s table key kvs)),
     db_Delete = (\<lambda>table key s. ret (hdb_Delete s table key))\<rparr>"

text \<open>The database that only prints what it is asked for; its state is the output.\<close>

definition show_fields :: "bytes list option \<Rightarrow> bytes" where
  "show_fields wanted = (case wanted of
      None \<Rightarrow> '' < all fields >'' @ [LF]
    | Some fs \<Rightarrow> '' [ '' @ concat (map (\<lambda>f. f @ '' '') fs) @ '']'' @ [LF])"

definition show_pairs :: "kv list \<Rightarrow> bytes" where
  "show_pairs kvs = '' [ '' @ concat (map (\<lambda>(f, v). f @ ''='' @ v @ '' '') kvs) @ '']'' @ [LF]"

definition basic_db :: "bytes database" where
  "basic_db = \<lparr>db_Init = (\<lambda>out. out @ ''A new thread begins working.'' @ [LF]), db_Close = id,
     db_Read = (\<lambda>table key wanted result out. ret (0, result, out @ ''READ '' @ table @ '' '' @ key @ show_fields wanted)),
     db_Scan = (\<lambda>table key len wanted out. ret (0, [], out @ ''SCAN '' @ table @ '' '' @ key @ '' '' @ dec_int len @ show_fields wanted)),
     db_Update = (\<lambda>table key kvs out. ret (0, out @ ''UPDATE '' @ table @ '' '' @ key @ show_pairs kvs)),
     db_Insert = (\<lambda>table key kvs out. ret (0, out @ ''INSERT '' @ table @ '' '' @ key @ show_pairs kvs)),
     db_Delete = (\<lambda>table key out. ret (0, out @ ''DELETE '' @ table @ '' '' @ key @ [LF]))\<rparr>"

section \<open>The client\<close>

type_synonym ('d, 's) bench = "'d workload \<times> rng \<times> 's"

definition DoInsert :: "'d dbl_ops \<Rightarrow> 's database \<Rightarrow> ('d, 's) bench \<Rightarrow> (bool \<times> ('d, 's) bench) run" where
  "DoInsert ops db st = (case st of (wl, g, s) \<Rightarrow>
     case NextSequenceKey wl of (key, wl1) \<Rightarrow>
       rbind (BuildValues ops wl1 g) (\<lambda>(pairs, wl2, g2).
       rbind (db_Insert db (table_name wl2) key pairs s) (\<lambda>(rc, s').
       ret (rc = kOK, (wl2, g2, s')))))"

text \<open>The fields to read: a list of one, or all.\<close>

definition wanted_fields :: "'d dbl_ops \<Rightarrow> 'd workload \<Rightarrow> rng \<Rightarrow> (bytes list option \<times> 'd workload \<times> rng) option" where
  "wanted_fields ops wl g = (if \<not> read_all_fields wl
     then do { (f, wl', g') \<leftarrow> NextFieldName ops wl g; Some (Some [''field'' @ f], wl', g') }
     else Some (None, wl, g))"

definition new_values :: "'d dbl_ops \<Rightarrow> 'd workload \<Rightarrow> rng \<Rightarrow> (kv list \<times> 'd workload \<times> rng) run" where
  "new_values ops wl g = (if write_all_fields wl then BuildValues ops wl g else BuildUpdate ops wl g)"

definition TransactionRead :: "'d dbl_ops \<Rightarrow> 's database \<Rightarrow> ('d, 's) bench \<Rightarrow> (int \<times> ('d, 's) bench) run" where
  "TransactionRead ops db st = (case st of (wl, g, s) \<Rightarrow>
     rbind (lift_opt (NextTransactionKey ops wl g)) (\<lambda>(key, wl1, g1).
     rbind (lift_opt (wanted_fields ops wl1 g1)) (\<lambda>(wanted, wl2, g2).
     rbind (db_Read db (table_name wl) key wanted [] s) (\<lambda>(rc, result, s').
     ret (rc, (wl2, g2, s'))))))"

definition TransactionReadModifyWrite :: "'d dbl_ops \<Rightarrow> 's database \<Rightarrow> ('d, 's) bench \<Rightarrow> (int \<times> ('d, 's) bench) run" where
  "TransactionReadModifyWrite ops db st = (case st of (wl, g, s) \<Rightarrow>
     rbind (lift_opt (NextTransactionKey ops wl g)) (\<lambda>(key, wl1, g1).
     rbind (lift_opt (wanted_fields ops wl1 g1)) (\<lambda>(wanted, wl2, g2).
     rbind (db_Read db (table_name wl) key wanted [] s) (\<lambda>(rc, result, s1).
     rbind (new_values ops wl2 g2) (\<lambda>(kvs, wl3, g3).
     rbind (db_Update db (table_name wl) key kvs s1) (\<lambda>(rc2, s2).
     ret (rc2, (wl3, g3, s2))))))))"

definition TransactionScan :: "'d dbl_ops \<Rightarrow> 's database \<Rightarrow> ('d, 's) bench \<Rightarrow> (int \<times> ('d, 's) bench) run" where
  "TransactionScan ops db st = (case st of (wl, g, s) \<Rightarrow>
     rbind (lift_opt (NextTransactionKey ops wl g)) (\<lambda>(key, wl1, g1).
     rbind (lift_opt (NextScanLength ops wl1 g1)) (\<lambda>(n, wl2, g2).
     let len = to_int (uint n) in
     rbind (lift_opt (wanted_fields ops wl2 g2)) (\<lambda>(wanted, wl3, g3).
     rbind (db_Scan db (table_name wl) key len wanted s) (\<lambda>(rc, result, s').
     ret (rc, (wl3, g3, s')))))))"

definition TransactionUpdate :: "'d dbl_ops \<Rightarrow> 's database \<Rightarrow> ('d, 's) bench \<Rightarrow> (int \<times> ('d, 's) bench) run" where
  "TransactionUpdate ops db st = (case st of (wl, g, s) \<Rightarrow>
     rbind (lift_opt (NextTransactionKey ops wl g)) (\<lambda>(key, wl1, g1).
     rbind (new_values ops wl1 g1) (\<lambda>(kvs, wl2, g2).
     rbind (db_Update db (table_name wl) key kvs s) (\<lambda>(rc, s').
     ret (rc, (wl2, g2, s'))))))"

definition TransactionInsert :: "'d dbl_ops \<Rightarrow> 's database \<Rightarrow> ('d, 's) bench \<Rightarrow> (int \<times> ('d, 's) bench) run" where
  "TransactionInsert ops db st = (case st of (wl, g, s) \<Rightarrow>
     case NextSequenceKey wl of (key, wl1) \<Rightarrow>
       rbind (BuildValues ops wl1 g) (\<lambda>(kvs, wl2, g2).
       rbind (db_Insert db (table_name wl) key kvs s) (\<lambda>(rc, s').
       ret (rc, (wl2, g2, s')))))"

definition DoTransaction :: "'d dbl_ops \<Rightarrow> 's database \<Rightarrow> ('d, 's) bench \<Rightarrow> (bool \<times> ('d, 's) bench) run" where
  "DoTransaction ops db st = (case st of (wl, g, s) \<Rightarrow>
     rbind (lift_opt (NextOperation ops wl g)) (\<lambda>(op, wl1, g1).
       let st1 = (wl1, g1, s) in
       rbind (case op of
           READ \<Rightarrow> TransactionRead ops db st1
         | UPDATE \<Rightarrow> TransactionUpdate ops db st1
         | INSERT \<Rightarrow> TransactionInsert ops db st1
         | SCAN \<Rightarrow> TransactionScan ops db st1
         | READMODIFYWRITE \<Rightarrow> TransactionReadModifyWrite ops db st1) (\<lambda>(status, st2).
       rbind (lift_opt (c_assert (status \<ge> 0))) (\<lambda>u. ret (status = kOK, st2)))))"

section \<open>The main program\<close>

primrec client_loop :: "('a \<Rightarrow> (bool \<times> 'a) run) \<Rightarrow> nat \<Rightarrow> int \<Rightarrow> 'a \<Rightarrow> (int \<times> 'a) run" where
  "client_loop f 0 oks st = ret (oks, st)"
| "client_loop f (Suc n) oks st = rbind (f st) (\<lambda>(ok, st'). client_loop f n (to_int (oks + of_bool ok)) st')"

definition DelegateClient :: "'d dbl_ops \<Rightarrow> 's database \<Rightarrow> int \<Rightarrow> bool \<Rightarrow> ('d, 's) bench \<Rightarrow> (int \<times> ('d, 's) bench) run" where
  "DelegateClient ops db num_ops is_loading st = (case st of (wl, g, s) \<Rightarrow>
     rbind (client_loop (if is_loading then DoInsert ops db else DoTransaction ops db) (nat num_ops) 0 (wl, g, db_Init db s))
       (\<lambda>(oks, (wl', g', s')). ret (oks, (wl', g', db_Close db s'))))"

datatype db_choice = Basic | Lock_stl | Redis bytes int int

definition CreateDB :: "properties \<Rightarrow> db_choice option run" where
  "CreateDB props = (let dbname = GetProperty props ''dbname'' [] in
     if dbname = ''basic'' then ret (Some Basic)
     else if dbname = ''lock_stl'' then ret (Some Lock_stl)
     else if dbname = ''redis''
     then rbind (stoi (GetProperty props ''port'' ''6379'')) (\<lambda>port.
       rbind (stoi (GetProperty props ''slaves'' ''0'')) (\<lambda>slaves.
       ret (Some (Redis (GetProperty props ''host'' ''127.0.0.1'') port slaves))))
     else ret None)"

text \<open>The options of the command line; a property file is read when its option is met.\<close>

definition option_property :: "bytes \<Rightarrow> bytes option" where
  "option_property a = map_of [(''-threads'', ''threadcount''), (''-db'', ''dbname''), (''-host'', ''host''),
     (''-port'', ''port''), (''-slaves'', ''slaves'')] a"

fun parse_loop :: "(bytes \<Rightarrow> bytes option) \<Rightarrow> bytes list \<Rightarrow> bytes \<Rightarrow> properties \<Rightarrow> (bytes list \<times> bytes \<times> properties) run" where
  "parse_loop files [] filename props = ret ([], filename, props)"
| "parse_loop files (a # args) filename props =
    (if take 1 a \<noteq> ''-'' then ret (a # args, filename, props)
     else case option_property a of
         Some name \<Rightarrow> (case args of [] \<Rightarrow> throw (Exited 0) | v # args' \<Rightarrow> parse_loop files args' filename (SetProperty name v props))
       | None \<Rightarrow> if a = ''-P''
           then (case args of [] \<Rightarrow> throw (Exited 0)
             | v # args' \<Rightarrow> rbind (Load (files v) props) (\<lambda>props'. parse_loop files args' v props'))
           else throw (Exited 0))"

definition ParseCommandLine :: "(bytes \<Rightarrow> bytes option) \<Rightarrow> bytes list \<Rightarrow> properties \<Rightarrow> (bytes \<times> properties) run" where
  "ParseCommandLine files args props = rbind (parse_loop files args [] props) (\<lambda>(rest, filename, props').
     if rest = args \<or> rest \<noteq> [] then throw (Exited 0) else ret (filename, props'))"

text \<open>The threads of a phase, each with its share of the operations (division in C rounds towards zero); the schedule that runs one after the other.\<close>

definition thread_share :: "int \<Rightarrow> int \<Rightarrow> int" where
  "thread_share total_ops num_threads = sgn total_ops * sgn num_threads * (\<bar>total_ops\<bar> div \<bar>num_threads\<bar>)"

lemma thread_share_pos: "0 \<le> a \<Longrightarrow> 0 < n \<Longrightarrow> thread_share a n = a div n"
  by (auto simp: thread_share_def sgn_if)

primrec run_threads :: "'d dbl_ops \<Rightarrow> 's database \<Rightarrow> int \<Rightarrow> bool \<Rightarrow> nat \<Rightarrow> int \<Rightarrow> ('d, 's) bench \<Rightarrow> (int \<times> ('d, 's) bench) run" where
  "run_threads ops db share is_loading 0 acc st = ret (acc, st)"
| "run_threads ops db share is_loading (Suc n) acc st = rbind (DelegateClient ops db share is_loading st) (\<lambda>(oks, st').
     run_threads ops db share is_loading n (to_int (acc + oks)) st')"

text \<open>The sums of the two phases. The database that the choice stands for is an argument.\<close>

definition ycsbc_main :: "'d dbl_ops \<Rightarrow> (bytes \<Rightarrow> bytes option) \<Rightarrow> (db_choice \<Rightarrow> 's database \<times> 's) \<Rightarrow> bytes list \<Rightarrow> (int \<times> int) run" where
  "ycsbc_main ops files mk args =
     rbind (ParseCommandLine files args Map.empty) (\<lambda>(file_name, props).
     rbind (CreateDB props) (\<lambda>choice. case choice of None \<Rightarrow> throw (Exited 0) | Some ch \<Rightarrow>
     case mk ch of (db, s) \<Rightarrow>
     rbind (CoreWorkload_Init ops props \<lparr>n_double = 0, n_rand = 0\<rparr>) (\<lambda>(wl, g).
     rbind (stoi (GetProperty props ''threadcount'' ''1'')) (\<lambda>num_threads.
     rbind (property_at props ''recordcount'') (\<lambda>rc. rbind (stoi rc) (\<lambda>total_ops.
     rbind (run_threads ops db (thread_share total_ops num_threads) True (nat num_threads) 0 (wl, g, s)) (\<lambda>(loaded, st1).
     rbind (property_at props ''operationcount'') (\<lambda>oc. rbind (stoi oc) (\<lambda>total_ops2.
     rbind (run_threads ops db (thread_share total_ops2 num_threads) False (nat num_threads) 0 st1) (\<lambda>(done_ops, st2).
     ret (loaded, done_ops)))))))))))"

end
