(* ===== verification/Ycsb_Run.thy ===== *)
theory Ycsb_Run
  imports Ycsb_Client
begin

text \<open>
  The two phases of the benchmark against any database that keeps its records: the interface \<open>key_store\<close>, the
  client over it, and the interpretation on the database in memory.
\<close>

section \<open>The interface\<close>

locale key_store =
  fixes db :: "'s database" and inv :: "'s \<Rightarrow> bool" and keys :: "'s \<Rightarrow> bytes set"
  assumes when_opened: "inv s \<Longrightarrow> inv (db_Init db s) \<and> keys (db_Init db s) = keys s"
    and when_closed: "inv s \<Longrightarrow> inv (db_Close db s) \<and> keys (db_Close db s) = keys s"
    and inserting: "inv s \<Longrightarrow> NUL \<notin> set (t @ k) \<Longrightarrow> plain_pairs kvs \<Longrightarrow> distinct (map fst kvs) \<Longrightarrow>
      \<exists>rc s'. db_Insert db t k kvs s = ret (rc, s') \<and> inv s' \<and> keys s' = insert (t @ k) (keys s) \<and> (t @ k \<notin> keys s \<longrightarrow> rc = kOK)"
    and updating: "inv s \<Longrightarrow> NUL \<notin> set (t @ k) \<Longrightarrow> plain_pairs kvs \<Longrightarrow> distinct (map fst kvs) \<Longrightarrow>
      \<exists>s'. db_Update db t k kvs s = ret (kOK, s') \<and> inv s' \<and> keys s' = insert (t @ k) (keys s)"
    and reading: "inv s \<Longrightarrow> NUL \<notin> set (t @ k) \<Longrightarrow> t @ k \<in> keys s \<Longrightarrow> \<exists>r s'. db_Read db t k wanted res s = ret (kOK, r, s') \<and> inv s' \<and> keys s' = keys s"
    and scanning: "inv s \<Longrightarrow> NUL \<notin> set (t @ k) \<Longrightarrow> \<exists>r s'. db_Scan db t k len wanted s = ret (kOK, r, s') \<and> inv s' \<and> keys s' = keys s"

section \<open>A workload that cannot fail\<close>

text \<open>
  Bounded lengths and choices, keys from the existing ones, positive weights, arithmetic without rounding.
\<close>

definition ready :: "('d :: linordered_field) dbl_ops \<Rightarrow> 'd workload \<Rightarrow> bool" where
  "ready ops wl \<longleftrightarrow> draws_ok ops \<and> exact_ops ops \<and> (\<forall>k. 0 \<le> rl_double ops k \<and> rl_double ops k < 1) \<and>
     bounded_gen max_len (field_len_generator wl) \<and> bounded_gen (- 1) (field_chooser wl) \<and> bounded_gen (- 1) (scan_len_chooser wl) \<and>
     bounded_gen (counter_last (insert_key_sequence wl)) (key_chooser wl) \<and> NUL \<notin> set (table_name wl) \<and>
     d_values (op_chooser wl) \<noteq> [] \<and> list_all (\<lambda>(v, w). 0 < w) (d_values (op_chooser wl)) \<and>
     weight_sum (op_chooser wl) = sum_list (map snd (d_values (op_chooser wl)))"

text \<open>What a step of the client leaves as it is.\<close>

definition next_state :: "('d :: linordered_field) dbl_ops \<Rightarrow> 'd workload \<Rightarrow> 'd workload \<Rightarrow> bool" where
  "next_state ops wl wl' \<longleftrightarrow> ready ops wl' \<and> same_scope wl wl' \<and> d_values (op_chooser wl') = d_values (op_chooser wl)"

lemma next_state_trans: "next_state ops a b \<Longrightarrow> next_state ops b c \<Longrightarrow> next_state ops a c"
  by (auto simp: next_state_def intro: same_scope_trans)

lemma next_state_refl: "ready ops wl \<Longrightarrow> next_state ops wl wl"
  by (simp add: next_state_def)

lemma next_state_upd:
  "ready ops wl \<Longrightarrow> next_state ops wl (wl\<lparr>key_generator := c\<rparr>)"
  "ready ops wl \<Longrightarrow> bounded_gen max_len gen \<Longrightarrow> next_state ops wl (wl\<lparr>field_len_generator := gen\<rparr>)"
  "ready ops wl \<Longrightarrow> bounded_gen (- 1) gen \<Longrightarrow> next_state ops wl (wl\<lparr>field_chooser := gen\<rparr>)"
  "ready ops wl \<Longrightarrow> bounded_gen (- 1) gen \<Longrightarrow> next_state ops wl (wl\<lparr>scan_len_chooser := gen\<rparr>)"
  "ready ops wl \<Longrightarrow> bounded_gen (counter_last (insert_key_sequence wl)) gen \<Longrightarrow> next_state ops wl (wl\<lparr>key_chooser := gen\<rparr>)"
  "ready ops wl \<Longrightarrow> next_state ops wl (wl\<lparr>op_chooser := (op_chooser wl)\<lparr>d_last := v\<rparr>\<rparr>)"
  by (simp_all add: next_state_def ready_def)

lemma next_key_ready:
  assumes "ready ops wl"
  shows "\<exists>k wl'. NextTransactionKey ops wl g = Some (BuildKeyName wl k, wl', g) \<and> k \<le> counter_last (insert_key_sequence wl) \<and> next_state ops wl wl'"
proof -
  obtain k gen where k: "gen_next ops (insert_key_sequence wl) (key_chooser wl) g = Some (k, gen, g)" "k \<le> counter_last (insert_key_sequence wl)"
      "bounded_gen (counter_last (insert_key_sequence wl)) gen"
    using bounded_gen_next [of ops "counter_last (insert_key_sequence wl)" "key_chooser wl" "insert_key_sequence wl" g] assms by (auto simp: ready_def)
  have "key_loop ops (insert_key_sequence wl) (key_chooser wl) g = Some (k, gen, g)"
    using k(1,2) leD [OF k(2)] by (subst key_loop_unfold) simp
  then show ?thesis using k(2) next_state_upd(5) [OF assms k(3)] by (auto simp: NextTransactionKey_def)
qed

lemma next_field_ready:
  assumes "ready ops wl"
  shows "\<exists>i wl'. NextFieldName ops wl g = Some (field_name i, wl', g) \<and> next_state ops wl wl'"
  using bounded_gen_next [of ops "- 1" "field_chooser wl" "insert_key_sequence wl" g] assms next_state_upd(3) [OF assms]
  by (fastforce simp: ready_def NextFieldName_def field_name_def)

lemma next_scan_ready:
  assumes "ready ops wl"
  shows "\<exists>n wl'. NextScanLength ops wl g = Some (n, wl', g) \<and> next_state ops wl wl'"
  using bounded_gen_next [of ops "- 1" "scan_len_chooser wl" "insert_key_sequence wl" g] assms next_state_upd(4) [OF assms]
  by (fastforce simp: ready_def NextScanLength_def)

lemma printable_plain: "printable s \<Longrightarrow> NUL \<notin> set s"
  by (force simp: printable_def)

lemma name_plain: "NUL \<notin> set (dec_string n)" "NUL \<notin> set (field_name n)" "NUL \<notin> set (BuildKeyName wl k)"
proof -
  show d: "NUL \<notin> set (dec_string n)" for n using dec_string_isdigit [of NUL n] by (auto simp: c_isdigit_def)
  show "NUL \<notin> set (field_name n)" "NUL \<notin> set (BuildKeyName wl k)" using d by (auto simp: field_name_def BuildKeyName_def Let_def)
qed

lemma values_ready:
  assumes "ready ops wl"
  shows "\<exists>vs wl' g'. BuildValues ops wl g = ret (vs, wl', g') \<and> next_state ops wl wl' \<and> plain_pairs vs \<and> distinct (map fst vs) \<and>
    key_generator wl' = key_generator wl"
proof -
  obtain vs gen g' where v: "BuildValues ops wl g = ret (vs, wl\<lparr>field_len_generator := gen\<rparr>, g')"
      "map fst vs = map field_name [0..<nat (field_count wl)]" "list_all (\<lambda>(f, v). printable v) vs" "bounded_gen max_len gen"
    using build_values_ok [of ops wl 0 "nat (field_count wl)" g] assms by (auto simp: ready_def BuildValues_def)
  have "f \<in> fst ` set vs \<Longrightarrow> NUL \<notin> set f" for f
    using v(2) name_plain(2) by (metis (no_types, lifting) image_iff list.set_map)
  then have "plain_pairs vs" using v(3) printable_plain by (force simp: plain_pairs_def list_all_iff)
  then show ?thesis using v(1,2,4) next_state_upd(2) [OF assms v(4)] distinct_field_names by auto
qed

lemma new_values_ready:
  assumes "ready ops wl"
  shows "\<exists>vs wl' g'. new_values ops wl g = ret (vs, wl', g') \<and> next_state ops wl wl' \<and> plain_pairs vs \<and> distinct (map fst vs)"
proof (cases "write_all_fields wl")
  case True
  then show ?thesis using values_ready [OF assms, of g] by (auto simp: new_values_def)
next
  case False
  obtain i wl1 where f: "NextFieldName ops wl g = Some (field_name i, wl1, g)" "next_state ops wl wl1" using next_field_ready [OF assms] by blast
  then have r: "ready ops wl1" by (simp add: next_state_def)
  obtain v gen g2 where v: "next_value ops wl1 g = ret (v, wl1\<lparr>field_len_generator := gen\<rparr>, g2)" "printable v" "bounded_gen max_len gen"
    using next_value_ok [of ops wl1 g] r by (auto simp: ready_def)
  have "BuildUpdate ops wl g = ret ([(field_name i, v)], wl1\<lparr>field_len_generator := gen\<rparr>, g2)"
    using f(1) v(1) by (simp add: BuildUpdate_def)
  moreover have "plain_pairs [(field_name i, v)]" using v(2) printable_plain name_plain(2) by (simp add: plain_pairs_def)
  ultimately show ?thesis using False f(2) next_state_upd(2) [OF r v(3)] by (auto simp: new_values_def intro: next_state_trans)
qed

lemma wanted_ready:
  assumes "ready ops wl"
  shows "\<exists>w wl'. wanted_fields ops wl g = Some (w, wl', g) \<and> next_state ops wl wl'"
  using next_field_ready [OF assms, of g] next_state_refl [OF assms] by (auto simp: wanted_fields_def)

lemma next_operation_ready:
  assumes "ready ops wl"
  shows "\<exists>v wl' g'. NextOperation ops wl g = Some (v, wl', g') \<and> v \<in> fst ` set (d_values (op_chooser wl)) \<and> next_state ops wl wl'"
proof -
  obtain i where i: "i < length (d_values (op_chooser wl))"
      "discrete_next ops (op_chooser wl) g = Some (fst (d_values (op_chooser wl) ! i),
        (op_chooser wl)\<lparr>d_last := Some (fst (d_values (op_chooser wl) ! i))\<rparr>, g\<lparr>n_double := Suc (n_double g)\<rparr>)"
    using discrete_choice [of ops "op_chooser wl" "d_values (op_chooser wl)" g] assms by (auto simp: ready_def)
  then show ?thesis using next_state_upd(6) [OF assms] by (auto simp: NextOperation_def)
qed


section \<open>The client over the interface\<close>

definition record_key :: "'d workload \<Rightarrow> 64 word \<Rightarrow> bytes" where
  "record_key wl k = table_name wl @ BuildKeyName wl k"

definition records_loaded :: "'d workload \<Rightarrow> bytes set \<Rightarrow> bool" where
  "records_loaded wl ks \<longleftrightarrow> (\<forall>k \<le> counter_last (insert_key_sequence wl). record_key wl k \<in> ks)"

lemma record_key_scope: "same_scope wl wl' \<Longrightarrow> record_key wl' k = record_key wl k"
  by (simp add: record_key_def same_scope_name) (simp add: same_scope_def)

lemma records_loaded_mono: "records_loaded wl ks \<Longrightarrow> ks \<subseteq> ks' \<Longrightarrow> same_scope wl wl' \<Longrightarrow> records_loaded wl' ks'"
  by (auto simp: records_loaded_def record_key_scope) (auto simp: same_scope_def)

lemma record_key_plain: "ready ops wl \<Longrightarrow> NUL \<notin> set (table_name wl @ BuildKeyName wl k)"
  using name_plain(3) by (simp add: ready_def)

context key_store begin

lemma DoInsert_succeeds:
  assumes "ready ops wl" "inv s"
  shows "\<exists>ok wl' g' s'. DoInsert ops db (wl, g, s) = ret (ok, (wl', g', s')) \<and> next_state ops wl wl' \<and>
    key_generator wl' = key_generator wl + 1 \<and> inv s' \<and> keys s' = insert (record_key wl (key_generator wl)) (keys s) \<and>
    (record_key wl (key_generator wl) \<notin> keys s \<longrightarrow> ok)"
proof -
  let ?wl = "wl\<lparr>key_generator := key_generator wl + 1\<rparr>" and ?k = "BuildKeyName wl (key_generator wl)"
  have n: "next_state ops wl ?wl" using assms(1) by (rule next_state_upd)
  then have r: "ready ops ?wl" by (simp add: next_state_def)
  obtain vs wl2 g2 where v: "BuildValues ops ?wl g = ret (vs, wl2, g2)" "next_state ops ?wl wl2" "plain_pairs vs" "distinct (map fst vs)"
      "key_generator wl2 = key_generator ?wl"
    using values_ready [OF r, of g] by blast
  have t: "table_name wl2 = table_name wl" using v(2) by (simp add: next_state_def same_scope_def)
  obtain rc s' where i: "db_Insert db (table_name wl) ?k vs s = ret (rc, s')" "inv s'" "keys s' = insert (table_name wl @ ?k) (keys s)"
      "table_name wl @ ?k \<notin> keys s \<longrightarrow> rc = kOK"
    using inserting [OF assms(2) record_key_plain [OF assms(1)] v(3,4)] by blast
  then show ?thesis using v(1,5) t next_state_trans [OF n v(2)]
    by (auto simp: DoInsert_def NextSequenceKey_def counter_next_def record_key_def)
qed

text \<open>A transaction that is not an insertion succeeds once the records are there.\<close>

definition hits :: "('d :: linordered_field) dbl_ops \<Rightarrow> 'd workload \<Rightarrow> 's \<Rightarrow> ('r \<times> ('d, 's) bench) run \<Rightarrow> 'r \<Rightarrow> bool" where
  "hits ops wl s m r \<longleftrightarrow> (\<exists>wl' g' s'. m = ret (r, (wl', g', s')) \<and> next_state ops wl wl' \<and> inv s' \<and> keys s \<subseteq> keys s')"

lemma hitsI: "m = ret (r, (wl', g', s')) \<Longrightarrow> next_state ops wl wl' \<Longrightarrow> inv s' \<Longrightarrow> keys s \<subseteq> keys s' \<Longrightarrow> hits ops wl s m r"
  unfolding hits_def by blast

lemma next_key_there:
  assumes "ready ops wl" "records_loaded wl (keys s)"
  shows "\<exists>key wl'. NextTransactionKey ops wl g = Some (key, wl', g) \<and> next_state ops wl wl' \<and>
    table_name wl @ key \<in> keys s \<and> NUL \<notin> set (table_name wl @ key)"
  using next_key_ready [OF assms(1), of g] assms(2) record_key_plain [OF assms(1)] by (auto simp: records_loaded_def record_key_def)

lemma TransactionRead_hits:
  assumes "ready ops wl" "records_loaded wl (keys s)" "inv s"
  shows "hits ops wl s (TransactionRead ops db (wl, g, s)) kOK"
proof -
  obtain key wl1 where k: "NextTransactionKey ops wl g = Some (key, wl1, g)" "next_state ops wl wl1" "table_name wl @ key \<in> keys s"
      "NUL \<notin> set (table_name wl @ key)" using next_key_there [OF assms(1,2)] by blast
  have "ready ops wl1" using k(2) by (simp add: next_state_def)
  then obtain w wl2 where w: "wanted_fields ops wl1 g = Some (w, wl2, g)" "next_state ops wl1 wl2" using wanted_ready by blast
  obtain r s' where "db_Read db (table_name wl) key w [] s = ret (kOK, r, s')" "inv s'" "keys s' = keys s"
    using reading [OF assms(3) k(4,3)] by blast
  then show ?thesis using k(1) w(1) next_state_trans [OF k(2) w(2)] by (intro hitsI [of _ _ wl2 g s']) (simp_all add: TransactionRead_def)
qed

lemma TransactionUpdate_hits:
  assumes "ready ops wl" "records_loaded wl (keys s)" "inv s"
  shows "hits ops wl s (TransactionUpdate ops db (wl, g, s)) kOK"
proof -
  obtain key wl1 where k: "NextTransactionKey ops wl g = Some (key, wl1, g)" "next_state ops wl wl1" "NUL \<notin> set (table_name wl @ key)"
    using next_key_there [OF assms(1,2)] by blast
  have "ready ops wl1" using k(2) by (simp add: next_state_def)
  then obtain vs wl2 g2 where v: "new_values ops wl1 g = ret (vs, wl2, g2)" "next_state ops wl1 wl2" "plain_pairs vs" "distinct (map fst vs)"
    using new_values_ready by blast
  obtain s' where "db_Update db (table_name wl) key vs s = ret (kOK, s')" "inv s'" "keys s' = insert (table_name wl @ key) (keys s)"
    using updating [OF assms(3) k(3) v(3,4)] by blast
  then show ?thesis using k(1) v(1) next_state_trans [OF k(2) v(2)] by (intro hitsI [of _ _ wl2 g2 s']) (auto simp: TransactionUpdate_def)
qed

lemma TransactionScan_hits:
  assumes "ready ops wl" "records_loaded wl (keys s)" "inv s"
  shows "hits ops wl s (TransactionScan ops db (wl, g, s)) kOK"
proof -
  obtain key wl1 where k: "NextTransactionKey ops wl g = Some (key, wl1, g)" "next_state ops wl wl1" "NUL \<notin> set (table_name wl @ key)"
    using next_key_there [OF assms(1,2)] by blast
  have r1: "ready ops wl1" using k(2) by (simp add: next_state_def)
  obtain n wl2 where n: "NextScanLength ops wl1 g = Some (n, wl2, g)" "next_state ops wl1 wl2" using next_scan_ready [OF r1] by blast
  have "ready ops wl2" using n(2) by (simp add: next_state_def)
  then obtain w wl3 where w: "wanted_fields ops wl2 g = Some (w, wl3, g)" "next_state ops wl2 wl3" using wanted_ready by blast
  obtain r s' where "db_Scan db (table_name wl) key (to_int (uint n)) w s = ret (kOK, r, s')" "inv s'" "keys s' = keys s"
    using scanning [OF assms(3) k(3)] by blast
  then show ?thesis using k(1) n(1) w(1) next_state_trans [OF next_state_trans [OF k(2) n(2)] w(2)]
    by (intro hitsI [of _ _ wl3 g s']) (simp_all add: TransactionScan_def Let_def)
qed

lemma TransactionReadModifyWrite_hits:
  assumes "ready ops wl" "records_loaded wl (keys s)" "inv s"
  shows "hits ops wl s (TransactionReadModifyWrite ops db (wl, g, s)) kOK"
proof -
  obtain key wl1 where k: "NextTransactionKey ops wl g = Some (key, wl1, g)" "next_state ops wl wl1" "table_name wl @ key \<in> keys s"
      "NUL \<notin> set (table_name wl @ key)" using next_key_there [OF assms(1,2)] by blast
  have "ready ops wl1" using k(2) by (simp add: next_state_def)
  then obtain w wl2 where w: "wanted_fields ops wl1 g = Some (w, wl2, g)" "next_state ops wl1 wl2" using wanted_ready by blast
  obtain r s1 where s1: "db_Read db (table_name wl) key w [] s = ret (kOK, r, s1)" "inv s1" "keys s1 = keys s"
    using reading [OF assms(3) k(4,3)] by blast
  have "ready ops wl2" using w(2) by (simp add: next_state_def)
  then obtain vs wl3 g3 where v: "new_values ops wl2 g = ret (vs, wl3, g3)" "next_state ops wl2 wl3" "plain_pairs vs" "distinct (map fst vs)"
    using new_values_ready by blast
  obtain s2 where "db_Update db (table_name wl) key vs s1 = ret (kOK, s2)" "inv s2" "keys s2 = insert (table_name wl @ key) (keys s1)"
    using updating [OF s1(2) k(4) v(3,4)] by blast
  then show ?thesis using k(1) w(1) s1(1,3) v(1) next_state_trans [OF next_state_trans [OF k(2) w(2)] v(2)]
    by (intro hitsI [of _ _ wl3 g3 s2]) (auto simp: TransactionReadModifyWrite_def)
qed

lemma DoTransaction_hits:
  assumes "ready ops wl" "records_loaded wl (keys s)" "inv s" "INSERT \<notin> fst ` set (d_values (op_chooser wl))"
  shows "hits ops wl s (DoTransaction ops db (wl, g, s)) True"
proof -
  obtain v wl1 g1 where v: "NextOperation ops wl g = Some (v, wl1, g1)" "v \<in> fst ` set (d_values (op_chooser wl))" "next_state ops wl wl1"
    using next_operation_ready [OF assms(1)] by blast
  have r: "ready ops wl1" "records_loaded wl1 (keys s)"
    using v(3) records_loaded_mono [OF assms(2)] by (auto simp: next_state_def)
  note T = TransactionRead_hits [OF r assms(3), of g1] TransactionUpdate_hits [OF r assms(3), of g1]
    TransactionScan_hits [OF r assms(3), of g1] TransactionReadModifyWrite_hits [OF r assms(3), of g1]
  have "hits ops wl1 s (case v of READ \<Rightarrow> TransactionRead ops db (wl1, g1, s) | UPDATE \<Rightarrow> TransactionUpdate ops db (wl1, g1, s)
      | INSERT \<Rightarrow> TransactionInsert ops db (wl1, g1, s) | SCAN \<Rightarrow> TransactionScan ops db (wl1, g1, s)
      | READMODIFYWRITE \<Rightarrow> TransactionReadModifyWrite ops db (wl1, g1, s)) kOK"
    using T v(2) assms(4) by (cases v) auto
  then obtain wl2 g2 s2 where e: "(case v of READ \<Rightarrow> TransactionRead ops db (wl1, g1, s) | UPDATE \<Rightarrow> TransactionUpdate ops db (wl1, g1, s)
      | INSERT \<Rightarrow> TransactionInsert ops db (wl1, g1, s) | SCAN \<Rightarrow> TransactionScan ops db (wl1, g1, s)
      | READMODIFYWRITE \<Rightarrow> TransactionReadModifyWrite ops db (wl1, g1, s)) = ret (kOK, (wl2, g2, s2))"
      "next_state ops wl1 wl2" "inv s2" "keys s \<subseteq> keys s2" by (auto simp: hits_def)
  show ?thesis
    using v(1) e(3,4) next_state_trans [OF v(3) e(2)]
    by (intro hitsI [of _ _ wl2 g2 s2]) (simp_all add: DoTransaction_def Let_def e(1), simp_all add: kOK_def)
qed

lemma transactions_hit:
  assumes "0 \<le> oks" "oks + int n \<le> INT_MAX" "ready ops wl" "records_loaded wl (keys s)" "inv s" "INSERT \<notin> fst ` set (d_values (op_chooser wl))"
  shows "hits ops wl s (client_loop (DoTransaction ops db) n oks (wl, g, s)) (oks + int n)"
  using assms
proof (induction n arbitrary: oks wl g s)
  case 0
  then show ?case by (intro hitsI [of _ _ wl g s]) (simp_all add: next_state_refl)
next
  case (Suc n)
  obtain wl1 g1 s1 where t: "DoTransaction ops db (wl, g, s) = ret (True, (wl1, g1, s1))" "next_state ops wl wl1" "inv s1" "keys s \<subseteq> keys s1"
    using DoTransaction_hits [OF Suc.prems(3-6), of g] by (auto simp: hits_def)
  have oks: "to_int (oks + 1) = oks + 1" using Suc.prems(1,2) by (intro to_int_id) auto
  have r: "ready ops wl1" "records_loaded wl1 (keys s1)" "INSERT \<notin> fst ` set (d_values (op_chooser wl1))"
    using t(2) Suc.prems(6) records_loaded_mono [OF Suc.prems(4) t(4)] by (auto simp: next_state_def)
  obtain wl2 g2 s2 where "client_loop (DoTransaction ops db) n (oks + 1) (wl1, g1, s1) = ret (oks + 1 + int n, (wl2, g2, s2))"
      "next_state ops wl1 wl2" "inv s2" "keys s1 \<subseteq> keys s2"
    using Suc.IH [of "oks + 1" wl1 s1 g1] Suc.prems(1,2) r t(3) by (auto simp: hits_def)
  then show ?case using t(1,4) oks next_state_trans [OF t(2)] by (intro hitsI [of _ _ wl2 g2 s2]) auto
qed

text \<open>Loading: the records of consecutive numbers.\<close>

lemma inserts_load:
  assumes "0 \<le> oks" "oks + int n \<le> INT_MAX" "ready ops wl" "inv s"
    "ordered_inserts wl \<longrightarrow> (\<forall>i < n. record_key wl (key_generator wl + word_of_nat i) \<notin> keys s)"
  shows "\<exists>m wl' g' s'. client_loop (DoInsert ops db) n oks (wl, g, s) = ret (m, (wl', g', s')) \<and> next_state ops wl wl' \<and> inv s' \<and>
    keys s' = keys s \<union> (\<lambda>i. record_key wl (key_generator wl + word_of_nat i)) ` {..<n} \<and> (ordered_inserts wl \<longrightarrow> m = oks + int n)"
  using assms
proof (induction n arbitrary: oks wl g s)
  case 0
  then show ?case by (auto intro: next_state_refl)
next
  case (Suc n)
  let ?key = "\<lambda>i. record_key wl (key_generator wl + word_of_nat i)"
  obtain ok wl1 g1 s1 where t: "DoInsert ops db (wl, g, s) = ret (ok, (wl1, g1, s1))" "next_state ops wl wl1"
      "key_generator wl1 = key_generator wl + 1" "inv s1" "keys s1 = insert (?key 0) (keys s)" "?key 0 \<notin> keys s \<longrightarrow> ok"
    using DoInsert_succeeds [OF Suc.prems(3,4), of g] by auto
  have sc: "same_scope wl wl1" "ready ops wl1" using t(2) by (simp_all add: next_state_def)
  have key: "record_key wl1 (key_generator wl1 + word_of_nat i) = ?key (Suc i)" for i
    using record_key_scope [OF sc(1)] t(3) by (simp add: algebra_simps)
  have b: "0 \<le> oks + of_bool ok" "oks + of_bool ok + int n \<le> INT_MAX" using Suc.prems(1,2) by (cases ok; simp)+
  then have oks: "to_int (oks + of_bool ok) = oks + of_bool ok" by (intro to_int_id) auto
  have nodup: "ordered_inserts wl \<longrightarrow> (\<forall>i < n. ?key (Suc i) \<noteq> ?key 0)"
  proof (intro impI allI notI)
    fix i assume o: "ordered_inserts wl" "i < n" "?key (Suc i) = ?key 0"
    then have "int (unat (key_generator wl + word_of_nat (Suc i))) = int (unat (key_generator wl + word_of_nat 0))"
      using key_name_parts [of wl "key_generator wl + word_of_nat (Suc i)"] key_name_parts [of wl "key_generator wl + word_of_nat 0"]
      by (metis record_key_def same_append_eq)
    then have "key_generator wl + word_of_nat (Suc i) = key_generator wl + word_of_nat 0"
      by (simp only: of_nat_eq_iff) (rule unsigned_word_eqI)
    then have "word_of_nat (Suc i) = (0 :: 64 word)" by simp
    then have "2 ^ 64 dvd Suc i" by (simp only: word_of_nat_eq_0_iff) simp
    then have "2 ^ 64 \<le> Suc i" by (intro dvd_imp_le) auto
    then show False using o(2) Suc.prems(1,2) by simp
  qed
  have "ordered_inserts wl1 \<longrightarrow> (\<forall>i < n. record_key wl1 (key_generator wl1 + word_of_nat i) \<notin> keys s1)"
    using Suc.prems(5) nodup sc(1) unfolding key t(5) by (auto simp: same_scope_def)
  then obtain m wl2 g2 s2 where "client_loop (DoInsert ops db) n (oks + of_bool ok) (wl1, g1, s1) = ret (m, (wl2, g2, s2))" "next_state ops wl1 wl2" "inv s2"
      "keys s2 = keys s1 \<union> (\<lambda>i. ?key (Suc i)) ` {..<n}" "ordered_inserts wl1 \<longrightarrow> m = oks + of_bool ok + int n"
    using Suc.IH [OF b sc(2) t(4), of g1] unfolding key by blast
  moreover have "?key ` {..<Suc n} = insert (?key 0) ((\<lambda>i. ?key (Suc i)) ` {..<n})"
    unfolding lessThan_Suc_eq_insert_0 image_insert image_image by simp
  ultimately show ?case using t(1,5,6) oks next_state_trans [OF t(2)] Suc.prems(5) sc(1) by (auto simp: same_scope_def)
qed

end

section \<open>The database in memory\<close>

text \<open>Every fair arrangement is one of these.\<close>

definition permuting :: "arrangement \<Rightarrow> arrangement" where
  "permuting arr ks = (if mset (arr ks) = mset ks then arr ks else ks)"

lemma fair_permuting: "fair (permuting arr)"
  by (simp add: fair_def permuting_def)

lemma permuting_fair: "fair arr \<Longrightarrow> permuting arr = arr"
  by (simp add: fair_def permuting_def fun_eq_iff)

definition db_keys :: "key_table \<Rightarrow> bytes set" where
  "db_keys db = dom (db_abs db)"

interpretation lock_stl: key_store "lock_stl_db (permuting arr)" db_ok db_keys for arr
proof unfold_locales
  fix s :: key_table and t k kvs
  assume ok: "db_ok s" "NUL \<notin> set (t @ k)"
  show "\<exists>r s'. db_Scan (lock_stl_db (permuting arr)) t k len wanted s = ret (kOK, r, s') \<and> db_ok s' \<and> db_keys s' = db_keys s" for len wanted
    using ok(1) by (simp add: lock_stl_db_def hdb_Scan_def)
  show "\<exists>r s'. db_Read (lock_stl_db (permuting arr)) t k wanted res s = ret (kOK, r, s') \<and> db_ok s' \<and> db_keys s' = db_keys s"
    if "t @ k \<in> db_keys s" for wanted res
    using that ok c_str_plain [OF ok(2)] by (auto simp: lock_stl_db_def hdb_Read_def db_keys_def db_abs_def split: option.split)
  assume kvs: "plain_pairs kvs" "distinct (map fst kvs)"
  show "\<exists>s'. db_Update (lock_stl_db (permuting arr)) t k kvs s = ret (kOK, s') \<and> db_ok s' \<and> db_keys s' = insert (t @ k) (db_keys s)"
    using hdb_Update_ok [OF fair_permuting ok kvs, of arr] by (auto simp: lock_stl_db_def db_keys_def)
  show "\<exists>rc s'. db_Insert (lock_stl_db (permuting arr)) t k kvs s = ret (rc, s') \<and> db_ok s' \<and> db_keys s' = insert (t @ k) (db_keys s) \<and>
      (t @ k \<notin> db_keys s \<longrightarrow> rc = kOK)"
  proof (cases "db_abs s (t @ k)")
    case None
    then show ?thesis using hdb_Insert_new [OF fair_permuting ok kvs None, of arr] by (auto simp: lock_stl_db_def db_keys_def)
  next
    case (Some r)
    then show ?thesis using hdb_Insert_old [OF fair_permuting ok kvs Some, of arr] by (auto simp: lock_stl_db_def db_keys_def)
  qed
qed (simp_all add: lock_stl_db_def)

lemma all_below:
  "{k. k \<le> w - 1} \<subseteq> word_of_nat ` {..<n}" if "w = word_of_nat n" "0 < n" "n < 2 ^ 64" for w :: "64 word"
proof
  fix k :: "64 word" assume "k \<in> {k. k \<le> w - 1}"
  moreover have "unat w = n" using that(1,3) by (simp add: unat_of_nat take_bit_nat_eq_self)
  moreover from this that(2) have "w \<noteq> 0" by auto
  ultimately have "unat k < n" using below_last [of k w] by (simp add: word_less_nat_alt)
  then show "k \<in> word_of_nat ` {..<n}" by (intro image_eqI [of _ _ "unat k"]) simp_all
qed


lemma demo_ready: "ready (rat_ops (\<lambda>k. 0)) demo_workload"
proof -
  have e: "exact_ops (rat_ops (\<lambda>k. 0))" by (simp add: exact_ops_def rat_ops_def)
  show ?thesis using demo_draws [of "\<lambda>k. 0"] e add_all_state [OF e, of "[(READ, 1)]"]
    by (simp add: ready_def demo_workload_def counter_last_def) (simp add: rat_ops_def)
qed


section \<open>Reading single fields\<close>

lemma field_twice: "''field'' @ field_name i \<noteq> field_name j"
proof
  assume "''field'' @ field_name i = field_name j"
  then have "dec_string j = ''field'' @ dec_string i" by (simp add: field_name_def)
  then have "c_isdigit (CHR ''f'')" using dec_string_isdigit [of "CHR ''f''" j] by simp
  then show False by (simp add: c_isdigit_def)
qed

text \<open>
  With \<open>readallfields=false\<close> the benchmark reads nothing: the client puts \<open>field\<close> in front of a name that already starts with it, so
  the wanted field is none of those that records have, and a read of an existing record succeeds with an empty result.
\<close>

theorem single_field_reads_nothing:
  assumes "wanted_fields ops wl g = Some (Some wanted, wl', g')"
    "db_ok db" "NUL \<notin> set (table @ key)" "db_abs db (table @ key) = Some r" "dom r \<subseteq> range field_name"
  shows "hdb_Read db table key (Some wanted) result = (kOK, [])"
proof -
  obtain i where w: "wanted = [''field'' @ field_name i]"
    using assms(1) by (auto simp: wanted_fields_def NextFieldName_def bind_eq_Some_conv field_name_def split: if_split_asm)
  have "r (''field'' @ field_name i) = None" using field_twice assms(5) by (metis domIff rangeE subsetD)
  moreover have "\<forall>f \<in> set wanted. NUL \<notin> set f" using name_plain(2) by (simp add: w)
  ultimately show ?thesis using hdb_Read_ok [OF assms(2,3), of wanted result] assms(4) by (simp add: w)
qed

lemma single_field_reads_nothing_witness:
  "\<exists>wanted wl' db. wanted_fields (rat_ops (\<lambda>k. 0)) demo_workload \<lparr>n_double = 0, n_rand = 0\<rparr> = Some (Some wanted, wl', \<lparr>n_double = 0, n_rand = 0\<rparr>) \<and>
    db_abs db ''tuser1'' = Some [field_name 0 \<mapsto> ''x''] \<and> hdb_Read db ''t'' ''user1'' (Some wanted) [] = (kOK, [])"
proof -
  have "\<not> read_all_fields demo_workload" by (simp add: demo_workload_def)
  then obtain wanted wl' where w: "wanted_fields (rat_ops (\<lambda>k. 0)) demo_workload \<lparr>n_double = 0, n_rand = 0\<rparr> =
      Some (Some wanted, wl', \<lparr>n_double = 0, n_rand = 0\<rparr>)"
    using next_field_ready [OF demo_ready, of "\<lparr>n_double = 0, n_rand = 0\<rparr>"] by (auto simp: wanted_fields_def)
  have k: "NUL \<notin> set (''t'' @ ''user1'')" "plain_pairs [(field_name 0, ''x'')]" using name_plain(2) [of 0] by (simp_all add: plain_pairs_def)
  have none: "db_abs [] (''t'' @ ''user1'') = None" by (simp add: db_abs_def)
  obtain db where db: "db_ok db" "db_abs db = (db_abs [])(''t'' @ ''user1'' := Some (map_of [(field_name 0, ''x'')]))"
    using hdb_Insert_new [of rev "[]" "''t''" "''user1''" "[(field_name 0, ''x'')]"] k none by (auto simp: fair_def db_ok_def)
  then have r: "db_abs db (''t'' @ ''user1'') = Some [field_name 0 \<mapsto> ''x'']" by simp
  have "hdb_Read db ''t'' ''user1'' (Some wanted) [] = (kOK, [])"
    by (rule single_field_reads_nothing [OF w db(1) k(1) r]) auto
  with w r show ?thesis by auto
qed

end
