(* ===== verification/Ycsb_Threads.thy ===== *)
theory Ycsb_Threads
  imports Ycsb_Run
begin

text \<open>
  The load by several threads, \<open>DelegateClient\<close> in \<open>ycsbc.cc\<close> started once per thread over one workload and one
  database, in every interleaving. What is atomic in the code is one step here: taking the next number from the
  counter, building one value (under the lock of the generator), one insertion (under the lock of the table).
\<close>

section \<open>The step relation\<close>

datatype phase = Idle | Building bytes "kv list"

record ('d, 's) load_state =
  ls_threads :: "(nat \<times> phase) list"   \<comment> \<open>operations left, the current one included, and its phase\<close>
  ls_wl :: "'d workload"
  ls_rng :: rng
  ls_db :: 's
  ls_log :: "bytes list"                 \<comment> \<open>the names inserted so far\<close>

inductive load_step :: "'d dbl_ops \<Rightarrow> 's database \<Rightarrow> ('d, 's) load_state \<Rightarrow> ('d, 's) load_state \<Rightarrow> bool" for ops db where
  take_key: "ls_threads st = xs @ (Suc n, Idle) # ys \<Longrightarrow> NextSequenceKey (ls_wl st) = (key, wl') \<Longrightarrow>
    load_step ops db st (st\<lparr>ls_threads := xs @ (Suc n, Building key []) # ys, ls_wl := wl'\<rparr>)"
| build_field: "ls_threads st = xs @ (Suc n, Building key vs) # ys \<Longrightarrow> length vs < nat (field_count (ls_wl st)) \<Longrightarrow>
    next_value ops (ls_wl st) (ls_rng st) = ret (v, wl', g') \<Longrightarrow>
    load_step ops db st (st\<lparr>ls_threads := xs @ (Suc n, Building key (vs @ [(field_name (length vs), v)])) # ys, ls_wl := wl', ls_rng := g'\<rparr>)"
| put_record: "ls_threads st = xs @ (Suc n, Building key vs) # ys \<Longrightarrow> length vs = nat (field_count (ls_wl st)) \<Longrightarrow>
    db_Insert db (table_name (ls_wl st)) key vs (ls_db st) = ret (rc, s') \<Longrightarrow>
    load_step ops db st (st\<lparr>ls_threads := xs @ (n, Idle) # ys, ls_db := s', ls_log := ls_log st @ [key]\<rparr>)"

definition start_load :: "nat \<Rightarrow> nat \<Rightarrow> 'd workload \<Rightarrow> rng \<Rightarrow> 's \<Rightarrow> ('d, 's) load_state" where
  "start_load num_threads share wl g s = \<lparr>ls_threads = replicate num_threads (share, Idle), ls_wl = wl, ls_rng = g, ls_db = s, ls_log = []\<rparr>"

section \<open>The invariant\<close>

fun held :: "nat \<times> phase \<Rightarrow> bytes list" where
  "held (n, Idle) = []"
| "held (n, Building key vs) = [key]"

fun steps_left :: "nat \<Rightarrow> nat \<times> phase \<Rightarrow> nat" where
  "steps_left fc (n, Idle) = n * (fc + 2)"
| "steps_left fc (n, Building key vs) = n * (fc + 2) - 1 - length vs"

fun thread_ok :: "nat \<Rightarrow> nat \<times> phase \<Rightarrow> bool" where
  "thread_ok fc (n, Idle) \<longleftrightarrow> True"
| "thread_ok fc (n, Building key vs) \<longleftrightarrow> 0 < n \<and> NUL \<notin> set key \<and> length vs \<le> fc \<and> map fst vs = map field_name [0..<length vs] \<and> plain_pairs vs"

text \<open>The names of the numbers that were taken.\<close>

definition load_names :: "'d workload \<Rightarrow> nat \<Rightarrow> bytes list" where
  "load_names wl c = map (\<lambda>i. BuildKeyName wl (key_generator wl + word_of_nat i)) [0..<c]"

lemma load_names_simps:
  "load_names wl 0 = []" "load_names wl (Suc c) = load_names wl c @ [BuildKeyName wl (key_generator wl + word_of_nat c)]"
  "length (load_names wl c) = c"
  by (simp_all add: load_names_def)

definition taken :: "('d, 's) load_state \<Rightarrow> bytes list" where
  "taken st = ls_log st @ concat (map held (ls_threads st))"

definition load_inv :: "('d :: linordered_field) dbl_ops \<Rightarrow> 'd workload \<Rightarrow> ('s \<Rightarrow> bytes set) \<Rightarrow> nat \<Rightarrow> nat \<Rightarrow> ('d, 's) load_state \<Rightarrow> bool" where
  "load_inv ops wl0 keys nrec k st \<longleftrightarrow> (let fc = nat (field_count wl0) in
     next_state ops wl0 (ls_wl st) \<and> list_all (thread_ok fc) (ls_threads st) \<and>
     key_generator (ls_wl st) = key_generator wl0 + word_of_nat (length (taken st)) \<and>
     mset (taken st) = mset (load_names wl0 (length (taken st))) \<and>
     sum_list (map fst (ls_threads st)) + length (ls_log st) = nrec \<and>
     sum_list (map (steps_left fc) (ls_threads st)) + k = nrec * (fc + 2) \<and>
     keys (ls_db st) = (\<lambda>key. table_name wl0 @ key) ` set (ls_log st))"

lemma steps_left_pos:
  "thread_ok fc t \<Longrightarrow> steps_left fc t = 0 \<Longrightarrow> t = (0, Idle)"
proof (cases "(fc, t)" rule: thread_ok.cases)
  case (2 fc' n key vs)
  assume "thread_ok fc t" "steps_left fc t = 0"
  with 2 obtain m where m: "n = Suc m" "length vs \<le> fc" by (cases n) auto
  with 2 \<open>steps_left fc t = 0\<close> show ?thesis by simp
qed auto

lemma load_invD:
  assumes "load_inv ops wl0 keys nrec k st"
  shows "next_state ops wl0 (ls_wl st)" "list_all (thread_ok (nat (field_count wl0))) (ls_threads st)"
    "mset (taken st) = mset (load_names wl0 (length (taken st)))"
    "sum_list (map fst (ls_threads st)) + length (ls_log st) = nrec"
    "sum_list (map (steps_left (nat (field_count wl0))) (ls_threads st)) + k = nrec * (nat (field_count wl0) + 2)"
    "keys (ls_db st) = (\<lambda>key. table_name wl0 @ key) ` set (ls_log st)"
  using assms unfolding load_inv_def Let_def by blast+

lemma steps_left_field:
  "length vs < fc \<Longrightarrow> steps_left fc (Suc n, Building key vs) = Suc (steps_left fc (Suc n, Building key (vs @ [p])))"
  by simp

context key_store begin

lemma load_inv_start:
  assumes "ready ops wl" "keys s = {}"
  shows "load_inv ops wl keys (num_threads * share) 0 (start_load num_threads share wl g s)"
proof -
  have "concat (map held (replicate n (share, Idle))) = []" for n by (induction n) auto
  then have "taken (start_load num_threads share wl g s) = []" by (simp add: taken_def start_load_def)
  then show ?thesis using assms
    by (simp add: load_inv_def Let_def load_names_simps) (simp add: start_load_def next_state_refl list_all_iff sum_list_replicate algebra_simps)
qed

lemma load_inv_step:
  assumes "load_step ops db st st'" "load_inv ops wl0 keys nrec k st" "inv (ls_db st)"
  shows "load_inv ops wl0 keys nrec (Suc k) st' \<and> inv (ls_db st')"
  using assms
proof (induction rule: load_step.induct)
  case (take_key st xs n ys key wl')
  let ?fc = "nat (field_count wl0)"
  have r: "ready ops (ls_wl st)" "same_scope wl0 (ls_wl st)" using take_key.prems(1) by (auto simp: load_inv_def Let_def next_state_def)
  have wl': "wl' = (ls_wl st)\<lparr>key_generator := key_generator (ls_wl st) + 1\<rparr>" "key = BuildKeyName wl0 (key_generator (ls_wl st))"
    using take_key.hyps(2) same_scope_name [OF r(2)] by (auto simp: NextSequenceKey_def counter_next_def)
  have ns: "next_state ops wl0 wl'" using take_key.prems(1) next_state_upd(1) [OF r(1)] next_state_trans
    unfolding wl'(1) load_inv_def Let_def by blast
  let ?st' = "st\<lparr>ls_threads := xs @ (Suc n, Building key []) # ys, ls_wl := wl'\<rparr>"
  have t: "length (taken ?st') = Suc (length (taken st))" "mset (taken ?st') = add_mset key (mset (taken st))"
    using take_key.hyps(1) by (simp_all add: taken_def)
  have kg: "key_generator (ls_wl st) = key_generator wl0 + word_of_nat (length (taken st))"
    using take_key.prems(1) by (simp add: load_inv_def Let_def)
  have "key_generator wl' = key_generator (ls_wl st) + 1" by (simp add: wl'(1))
  then have "key_generator wl' = key_generator wl0 + word_of_nat (length (taken ?st'))"
    unfolding t kg by (simp add: algebra_simps)
  moreover have "mset (taken ?st') = mset (load_names wl0 (length (taken ?st')))"
    using take_key.prems(1) wl'(2) unfolding t load_names_simps kg by (simp add: load_inv_def Let_def)
  moreover have "NUL \<notin> set key" using name_plain(3) wl'(2) by simp
  ultimately show ?case
    using take_key.prems take_key.hyps(1) ns
    unfolding load_inv_def Let_def by (simp add: plain_pairs_def algebra_simps)
next
  case (build_field st xs n key vs ys v wl' g')
  let ?fc = "nat (field_count wl0)"
  have ns0: "next_state ops wl0 (ls_wl st)" using build_field.prems(1) by (simp add: load_inv_def Let_def)
  then have r: "ready ops (ls_wl st)" "field_count (ls_wl st) = field_count wl0" by (simp_all add: next_state_def same_scope_def)
  obtain gen where v: "wl' = (ls_wl st)\<lparr>field_len_generator := gen\<rparr>" "printable v" "bounded_gen max_len gen"
    using next_value_ok [of ops "ls_wl st" "ls_rng st"] r(1) build_field.hyps(3) by (auto simp: ready_def)
  have ns: "next_state ops wl0 wl'" using next_state_trans [OF ns0 next_state_upd(2) [OF r(1) v(3)]] by (simp add: v(1))
  have "thread_ok ?fc (Suc n, Building key vs)" using build_field.prems(1) build_field.hyps(1) by (simp add: load_inv_def Let_def)
  then have "thread_ok ?fc (Suc n, Building key (vs @ [(field_name (length vs), v)]))"
    using build_field.hyps(2) r(2) printable_plain [OF v(2)] name_plain(2) by (auto simp: plain_pairs_def)
  moreover have "key_generator wl' = key_generator (ls_wl st)" by (simp add: v(1))
  ultimately show ?case
    using build_field.prems build_field.hyps(1,2) ns r(2)
      steps_left_field [of vs ?fc n key "(field_name (length vs), v)"]
    by (auto simp: load_inv_def Let_def taken_def simp del: steps_left.simps)
next
  case (put_record st xs n key vs ys rc s')
  let ?fc = "nat (field_count wl0)"
  have ns: "next_state ops wl0 (ls_wl st)" using put_record.prems(1) by (simp add: load_inv_def Let_def)
  then have r: "ready ops (ls_wl st)" "field_count (ls_wl st) = field_count wl0" "table_name (ls_wl st) = table_name wl0"
    by (simp_all add: next_state_def same_scope_def)
  have ok: "thread_ok ?fc (Suc n, Building key vs)" using put_record.prems(1) put_record.hyps(1) by (simp add: load_inv_def Let_def)
  have "NUL \<notin> set (table_name wl0 @ key)" "plain_pairs vs" using ok r(1,3) by (auto simp: ready_def)
  moreover have "distinct (map fst vs)" using ok distinct_field_names [of 0 "length vs"] by simp
  ultimately obtain rc' s2 where i: "db_Insert db (table_name wl0) key vs (ls_db st) = ret (rc', s2)" "inv s2"
      "keys s2 = insert (table_name wl0 @ key) (keys (ls_db st))"
    using inserting [OF put_record.prems(2), of "table_name wl0" key vs] by blast
  then have "s2 = s'" using put_record.hyps(3) r(3) by simp
  moreover have "mset (taken (st\<lparr>ls_threads := xs @ (n, Idle) # ys, ls_db := s2, ls_log := ls_log st @ [key]\<rparr>)) = mset (taken st)"
    "length (taken (st\<lparr>ls_threads := xs @ (n, Idle) # ys, ls_db := s2, ls_log := ls_log st @ [key]\<rparr>)) = length (taken st)"
    using put_record.hyps(1) by (simp_all add: taken_def)
  ultimately show ?case using i put_record.prems put_record.hyps(1,2) ns r(2) by (simp add: load_inv_def Let_def algebra_simps)
qed

lemma load_progress:
  assumes "load_inv ops wl0 keys nrec k st" "inv (ls_db st)" "k < nrec * (nat (field_count wl0) + 2)"
  shows "\<exists>st'. load_step ops db st st'"
proof -
  let ?fc = "nat (field_count wl0)"
  note ns = load_invD(1,2) [OF assms(1)]
  have "sum_list (map (steps_left ?fc) (ls_threads st)) \<noteq> 0" using load_invD(5) [OF assms(1)] assms(3) by linarith
  have r: "ready ops (ls_wl st)" "field_count (ls_wl st) = field_count wl0" "table_name (ls_wl st) = table_name wl0"
    using ns(1) by (simp_all add: next_state_def same_scope_def)
  have "sum_list (map (steps_left ?fc) (ls_threads st)) \<noteq> 0" using load_invD(5) [OF assms(1)] assms(3) by linarith
  then obtain t where t: "t \<in> set (ls_threads st)" "steps_left ?fc t \<noteq> 0" by (auto simp: sum_list_eq_0_iff)
  then obtain xs ys where xs: "ls_threads st = xs @ t # ys" by (meson split_list)
  have ok: "thread_ok ?fc t" using ns(2) xs by simp
  obtain n p where np: "t = (n, p)" by fastforce
  have "0 < n" using t(2) ok by (cases p) (auto simp: np)
  then obtain m where m: "n = Suc m" by (cases n) auto
  show ?thesis
  proof (cases p)
    case Idle
    then show ?thesis using xs load_step.take_key [of st xs m ys "fst (NextSequenceKey (ls_wl st))" "snd (NextSequenceKey (ls_wl st))" ops db]
      by (auto simp: np m)
  next
    case (Building key vs)
    note th = xs [unfolded np m Building]
    show ?thesis
    proof (cases "length vs = ?fc")
      case True
      have "NUL \<notin> set (table_name wl0 @ key)" "plain_pairs vs" "distinct (map fst vs)"
        using ok r(1,3) distinct_field_names [of 0 "length vs"] by (auto simp: np Building ready_def)
      then obtain rc s' where "db_Insert db (table_name (ls_wl st)) key vs (ls_db st) = ret (rc, s')"
        using inserting [OF assms(2), of "table_name wl0" key vs] r(3) by auto
      moreover have "length vs = nat (field_count (ls_wl st))" using True r(2) by simp
      ultimately show ?thesis using load_step.put_record [OF th] by blast
    next
      case False
      then have "length vs < nat (field_count (ls_wl st))" using ok r(2) by (simp add: np Building)
      moreover obtain v gen g' where "next_value ops (ls_wl st) (ls_rng st) = ret (v, (ls_wl st)\<lparr>field_len_generator := gen\<rparr>, g')"
        using next_value_ok [of ops "ls_wl st" "ls_rng st"] r(1) by (auto simp: ready_def)
      ultimately show ?thesis using load_step.build_field [OF th] by blast
    qed
  qed
qed

lemma load_inv_runs:
  assumes "(load_step ops db ^^ k) (start_load num_threads share wl g s) st" "ready ops wl" "inv s" "keys s = {}"
  shows "load_inv ops wl keys (num_threads * share) k st \<and> inv (ls_db st)"
  using assms(1)
proof (induction k arbitrary: st)
  case 0
  then show ?case using load_inv_start [OF assms(2,4)] assms(3) by (auto simp: start_load_def)
next
  case (Suc k)
  then obtain st1 where "(load_step ops db ^^ k) (start_load num_threads share wl g s) st1" "load_step ops db st1 st" by auto
  with Suc.IH load_inv_step show ?case by blast
qed

end

lemma no_step_at_end:
  assumes "load_step ops db st st'" "load_inv ops wl0 keys nrec k st"
  shows "k < nrec * (nat (field_count wl0) + 2)"
proof -
  let ?fc = "nat (field_count wl0)"
  note i = load_invD(2,5) [OF assms(2)]
  have "\<exists>t \<in> set (ls_threads st). fst t \<noteq> 0" using assms(1) by (induction rule: load_step.induct) auto
  then obtain t where t: "t \<in> set (ls_threads st)" "fst t \<noteq> 0" by blast
  then have "thread_ok ?fc t" using i(1) by (simp add: list_all_iff)
  then have "steps_left ?fc t \<noteq> 0" using steps_left_pos [of ?fc t] t(2) by (metis fst_conv)
  then have "sum_list (map (steps_left ?fc) (ls_threads st)) \<noteq> 0" using t(1) by (auto simp: sum_list_eq_0_iff)
  then show ?thesis using i(2) by linarith
qed

lemma load_finished:
  assumes "load_inv ops wl0 keys nrec (nrec * (nat (field_count wl0) + 2)) st"
  shows "mset (ls_log st) = mset (load_names wl0 nrec) \<and> length (ls_log st) = nrec"
proof -
  let ?fc = "nat (field_count wl0)"
  have "sum_list (map (steps_left ?fc) (ls_threads st)) = 0" "list_all (thread_ok ?fc) (ls_threads st)"
    using load_invD(2,5) [OF assms] by simp_all
  then have idle: "t = (0, Idle)" if "t \<in> set (ls_threads st)" for t
    using that steps_left_pos [of ?fc t] by (auto simp: sum_list_eq_0_iff list_all_iff)
  then have "\<forall>t \<in> set (ls_threads st). held t = [] \<and> fst t = 0" by fastforce
  then have z: "concat (map held (ls_threads st)) = []" "sum_list (map fst (ls_threads st)) = 0" by (simp_all add: sum_list_eq_0_iff)
  then have "taken st = ls_log st" by (simp only: taken_def append_Nil2)
  then show ?thesis using load_invD(3,4) [OF assms] by (simp only: z(2) add_0)
qed



end
