(* ===== verification/Ycsb_Redis.thy ===== *)
theory Ycsb_Redis
  imports Ycsb_Client Format_String Context_Correct
begin

text \<open>
  The database over a server, \<open>redis/redis_client.h\<close> and \<open>db/redis_db.cc\<close>, on top of the model of the client library.

  The state is the context, the heap of replies and the operating system. The variable for the reply in
  \<open>RedisClient::Command\<close> is not initialised: its first content is an argument. Output to the error stream is not
  modelled.
\<close>

section \<open>The client\<close>

type_synonym 'o redis_state = "redisContext \<times> reply_heap \<times> 'o"

definition RedisClient :: "('o, 'm) os_scheme \<Rightarrow> reply_heap \<Rightarrow> 'o \<Rightarrow> bytes \<Rightarrow> int \<Rightarrow> 'o redis_state run" where
  "RedisClient sys h s host port =
     rbind (lift_opt (redisConnect sys h s (cstr host) port)) (\<lambda>(p, h1, s1).
       case p of
         NULL \<Rightarrow> throw (Exited 1)
       | Ptr c \<Rightarrow> if c_err c \<noteq> 0
           then rbind (lift_opt (redisFree sys c h1 s1)) (\<lambda>u. throw (Exited 1))
           else ret (c, h1, s1))"

definition HandleError :: "('o, 'm) os_scheme \<Rightarrow> redisContext \<Rightarrow> reply_heap \<Rightarrow> 'o \<Rightarrow> int \<Rightarrow> 'a run" where
  "HandleError sys c h s reply =
     rbind (lift_opt (if reply \<noteq> 0 then freeReplyObject h reply else Some h)) (\<lambda>h1.
     rbind (lift_opt (redisFree sys c h1 s)) (\<lambda>u. throw (Exited 2)))"

text \<open>One reply into the variable \<open>reply\<close>, which keeps its content when there is an error.\<close>

definition take_reply :: "('o, 'm) os_scheme \<Rightarrow> int \<Rightarrow> 'o redis_state \<Rightarrow> (int \<times> 'o redis_state) run" where
  "take_reply sys reply st = (case st of (c, h, s) \<Rightarrow>
     rbind (lift_opt (redisGetReply sys c h s)) (\<lambda>(rc, r, c1, h1, s1).
       if rc = REDIS_ERR then HandleError sys c1 h1 s1 reply
       else rbind (lift_opt (freeReplyObject h1 r)) (\<lambda>h2. ret (r, (c1, h2, s1)))))"

definition RedisClient_Command :: "('o, 'm) os_scheme \<Rightarrow> printf_text \<Rightarrow> int \<Rightarrow> int \<Rightarrow> bytes \<Rightarrow> 'o redis_state \<Rightarrow> (int \<times> 'o redis_state) run" where
  "RedisClient_Command sys pf slaves uninit cmd st = (case st of (c, h, s) \<Rightarrow>
     rbind (lift_opt (redisAppendCommand (h_env h) pf sys c s (cstr cmd) [])) (\<lambda>(rc1, c1).
     rbind (lift_opt (if slaves \<noteq> 0 then redisAppendCommand (h_env h) pf sys c1 s (cstr ''WAIT %d %d'') [CInt slaves, CInt 0]
         else Some (0, c1))) (\<lambda>(rc2, c2).
     rbind (take_reply sys uninit (c2, h, s)) (\<lambda>(reply, st1).
     if slaves \<noteq> 0 then rbind (take_reply sys reply st1) (\<lambda>(reply2, st2). ret (0, st2)) else ret (0, st1)))))"

section \<open>The database\<close>

text \<open>The text of an element, when it has one: up to its first null byte.\<close>

definition reply_str :: "reply_heap \<Rightarrow> int \<Rightarrow> bytes ptr option" where
  "reply_str h a = map_option ry_str (h_objs h a)"

definition str_text :: "bytes \<Rightarrow> bytes option" where
  "str_text b = (if NUL \<in> set b then Some (c_str b) else None)"

definition value_or_empty :: "reply_heap \<Rightarrow> int \<Rightarrow> bytes option" where
  "value_or_empty h a = do { p \<leftarrow> reply_str h a; case p of NULL \<Rightarrow> Some [] | Ptr b \<Rightarrow> str_text b }"

definition value_of :: "reply_heap \<Rightarrow> int \<Rightarrow> bytes option" where
  "value_of h a = do { p \<leftarrow> reply_str h a; case p of NULL \<Rightarrow> None | Ptr b \<Rightarrow> str_text b }"

definition reply_element :: "redisReply \<Rightarrow> nat \<Rightarrow> int option" where
  "reply_element ob i = (case ry_element ob of NULL \<Rightarrow> None | Ptr es \<Rightarrow> if i < length es then Some (es ! i) else None)"

primrec hmget_loop :: "reply_heap \<Rightarrow> redisReply \<Rightarrow> nat \<Rightarrow> bytes list \<Rightarrow> kv list \<Rightarrow> kv list option" where
  "hmget_loop h ob i [] result = Some result"
| "hmget_loop h ob i (f # fs) result = do {
     e \<leftarrow> reply_element ob i;
     v \<leftarrow> value_or_empty h e;
     hmget_loop h ob (Suc i) fs (result @ [(f, v)])
   }"

primrec hgetall_loop :: "reply_heap \<Rightarrow> redisReply \<Rightarrow> nat \<Rightarrow> nat \<Rightarrow> kv list \<Rightarrow> kv list option" where
  "hgetall_loop h ob i 0 result = Some result"
| "hgetall_loop h ob i (Suc n) result = do {
     e1 \<leftarrow> reply_element ob (2 * i); k \<leftarrow> value_of h e1;
     e2 \<leftarrow> reply_element ob (2 * i + 1); v \<leftarrow> value_of h e2;
     hgetall_loop h ob (Suc i) n (result @ [(k, v)])
   }"

definition RedisDB_Read :: "('o, 'm) os_scheme \<Rightarrow> printf_text \<Rightarrow> bytes \<Rightarrow> bytes \<Rightarrow> bytes list option \<Rightarrow> kv list \<Rightarrow> 'o redis_state
    \<Rightarrow> (int \<times> kv list \<times> 'o redis_state) run" where
  "RedisDB_Read sys pf table key wanted result st = (case st of (c, h, s) \<Rightarrow> lift_opt (case wanted of
      Some fs \<Rightarrow> do {
        let args = ''HMGET'' # key # fs;
        (reply, c1, h1, s1) \<leftarrow> redisCommandArgv sys c h s (int (length args)) args (Ptr (map (\<lambda>a. int (length a)) args));
        if reply = 0 then Some (kOK, result, (c1, h1, s1))
        else do {
          ob \<leftarrow> h_objs h1 reply;
          c_assert (ry_type ob = REDIS_REPLY_ARRAY);
          c_assert (int (length fs) = ry_elements ob);
          r \<leftarrow> hmget_loop h1 ob 0 fs result;
          h2 \<leftarrow> freeReplyObject h1 reply;
          Some (kOK, r, (c1, h2, s1)) } }
    | None \<Rightarrow> do {
        (reply, c1, h1, s1) \<leftarrow> redisCommand pf sys c h s (cstr ''HGETALL %s'') [CStr (cstr key)];
        if reply = 0 then Some (kOK, result, (c1, h1, s1))
        else do {
          ob \<leftarrow> h_objs h1 reply;
          c_assert (ry_type ob = REDIS_REPLY_ARRAY);
          r \<leftarrow> hgetall_loop h1 ob 0 (nat (ry_elements ob) div 2) result;
          h2 \<leftarrow> freeReplyObject h1 reply;
          Some (kOK, r, (c1, h2, s1)) } }))"

text \<open>The command is built as text; field names and values must not contain blanks.\<close>

definition update_text :: "bytes \<Rightarrow> kv list \<Rightarrow> bytes" where
  "update_text key kvs = ''HMSET'' @ '' '' @ key @ concat (map (\<lambda>(f, v). '' '' @ f @ '' '' @ v) kvs)"

definition RedisDB_Update :: "('o, 'm) os_scheme \<Rightarrow> printf_text \<Rightarrow> int \<Rightarrow> int \<Rightarrow> bytes \<Rightarrow> bytes \<Rightarrow> kv list \<Rightarrow> 'o redis_state
    \<Rightarrow> (int \<times> 'o redis_state) run" where
  "RedisDB_Update sys pf slaves uninit table key kvs st =
     rbind (lift_opt (c_assert (list_all (\<lambda>(f, v). CHR '' '' \<notin> set f \<and> CHR '' '' \<notin> set v) kvs))) (\<lambda>u.
     rbind (RedisClient_Command sys pf slaves uninit (update_text key kvs) st) (\<lambda>(rc, st1). ret (kOK, st1)))"

definition RedisDB_Delete :: "('o, 'm) os_scheme \<Rightarrow> printf_text \<Rightarrow> int \<Rightarrow> int \<Rightarrow> bytes \<Rightarrow> bytes \<Rightarrow> 'o redis_state \<Rightarrow> (int \<times> 'o redis_state) run" where
  "RedisDB_Delete sys pf slaves uninit table key st =
     rbind (RedisClient_Command sys pf slaves uninit (''DEL '' @ key) st) (\<lambda>(rc, st1). ret (kOK, st1))"

definition redis_db :: "('o, 'm) os_scheme \<Rightarrow> printf_text \<Rightarrow> int \<Rightarrow> int \<Rightarrow> 'o redis_state database" where
  "redis_db sys pf slaves uninit = \<lparr>db_Init = id, db_Close = id,
     db_Read = RedisDB_Read sys pf,
     db_Scan = (\<lambda>table key len wanted st. throw (Thrown ''Scan: function not implemented!'')),
     db_Update = RedisDB_Update sys pf slaves uninit,
     db_Insert = RedisDB_Update sys pf slaves uninit,
     db_Delete = RedisDB_Delete sys pf slaves uninit\<rparr>"

section \<open>What an update sends\<close>

text \<open>The words of the command, and what the formatter makes of a word in which percent signs come in pairs.\<close>

definition update_words :: "bytes \<Rightarrow> kv list \<Rightarrow> bytes list" where
  "update_words key kvs = ''HMSET'' # key # concat (map (\<lambda>(f, v). [f, v]) kvs)"

fun paired :: "bytes \<Rightarrow> bool" where
  "paired (c # d # w) = (if c = CHR ''%'' then d = CHR ''%'' \<and> paired w else paired (d # w))"
| "paired [c] \<longleftrightarrow> c \<noteq> CHR ''%''"
| "paired [] \<longleftrightarrow> True"

fun halved :: "bytes \<Rightarrow> bytes" where
  "halved (c # d # w) = (if c = CHR ''%'' then CHR ''%'' # halved w else c # halved (d # w))"
| "halved [c] = [c]"
| "halved [] = []"

fun word_pieces :: "bytes \<Rightarrow> piece list" where
  "word_pieces (c # d # w) = (if c = CHR ''%'' then Percent # word_pieces w else Lit c # word_pieces (d # w))"
| "word_pieces [c] = [Lit c]"
| "word_pieces [] = []"

definition word_ok :: "bytes \<Rightarrow> bool" where
  "word_ok w \<longleftrightarrow> w \<noteq> [] \<and> CHR '' '' \<notin> set w \<and> NUL \<notin> set w \<and> paired w"

lemma halved_id: "CHR ''%'' \<notin> set w \<Longrightarrow> halved w = w \<and> paired w"
  by (induction w rule: halved.induct) auto

lemma halved_percent: "paired (replicate (2 * n) (CHR ''%'')) \<and> halved (replicate (2 * n) (CHR ''%'')) = replicate n (CHR ''%'')"
  by (induction n) auto

lemma word_pieces_format: "paired w \<Longrightarrow> format_of (word_pieces w) = w"
  by (induction w rule: word_pieces.induct) (auto simp: format_of_def split: if_splits)

lemma word_pieces_ok: "paired w \<Longrightarrow> CHR '' '' \<notin> set w \<Longrightarrow> NUL \<notin> set w \<Longrightarrow> list_all (piece_ok pf) (word_pieces w)"
  by (induction w rule: word_pieces.induct) (auto split: if_splits)

lemma word_pieces_args: "args_of (word_pieces w) = []"
  by (induction w rule: word_pieces.induct) (auto simp: args_of_def)

lemma word_pieces_words: "words_of pf (word_pieces w @ ps) cur t = words_of pf ps (cur @ halved w) (t \<or> w \<noteq> [])"
  by (induction w arbitrary: cur t rule: word_pieces.induct) auto

text \<open>Words with a blank before each.\<close>

definition blank_words :: "bytes list \<Rightarrow> piece list" where
  "blank_words ws = concat (map (\<lambda>w. Blank # word_pieces w) ws)"

lemma blank_words_format: "list_all word_ok ws \<Longrightarrow> format_of (blank_words ws) = concat (map (\<lambda>w. CHR '' '' # w) ws)"
  by (induction ws) (auto simp: blank_words_def format_of_def word_ok_def word_pieces_format [unfolded format_of_def])

lemma blank_words_ok: "list_all word_ok ws \<Longrightarrow> list_all (piece_ok pf) (blank_words ws) \<and> args_of (blank_words ws) = []"
  by (induction ws) (auto simp: blank_words_def args_of_def word_ok_def word_pieces_ok word_pieces_args [unfolded args_of_def])

lemma blank_words_words:
  "list_all word_ok ws \<Longrightarrow> t \<Longrightarrow> words_of pf (blank_words ws) cur t = cur # map halved ws"
proof (induction ws arbitrary: cur t)
  case Nil
  then show ?case by (simp add: blank_words_def)
next
  case (Cons w ws)
  then show ?case using word_pieces_words [of pf w "blank_words ws" "[]" False] by (simp add: blank_words_def word_ok_def)
qed

lemma command_words:
  assumes "list_all word_ok (w # ws)"
  shows "words_of pf (word_pieces w @ blank_words ws) [] False = map halved (w # ws)"
    "format_of (word_pieces w @ blank_words ws) = w @ concat (map (\<lambda>w. CHR '' '' # w) ws)"
    "list_all (piece_ok pf) (word_pieces w @ blank_words ws)" "args_of (word_pieces w @ blank_words ws) = []"
proof -
  show "words_of pf (word_pieces w @ blank_words ws) [] False = map halved (w # ws)"
    using assms blank_words_words [of ws True pf "halved w"] by (simp add: word_pieces_words word_ok_def)
  show "format_of (word_pieces w @ blank_words ws) = w @ concat (map (\<lambda>w. CHR '' '' # w) ws)"
    using assms blank_words_format [of ws] word_pieces_format [of w] by (simp add: format_of_def word_ok_def)
  show "list_all (piece_ok pf) (word_pieces w @ blank_words ws)" "args_of (word_pieces w @ blank_words ws) = []"
    using assms blank_words_ok [of ws pf] word_pieces_ok [of w pf] word_pieces_args [of w] by (simp_all add: args_of_def word_ok_def)
qed

lemma update_text_words: "update_text key kvs = ''HMSET'' @ concat (map (\<lambda>w. CHR '' '' # w) (key # concat (map (\<lambda>(f, v). [f, v]) kvs)))"
proof -
  have "concat (map (\<lambda>(f, v). '' '' @ f @ '' '' @ v) kvs) = concat (map (\<lambda>w. CHR '' '' # w) (concat (map (\<lambda>(f, v). [f, v]) kvs)))"
    by (induction kvs) auto
  then show ?thesis by (simp add: update_text_def)
qed

lemma update_format:
  assumes "plenty e" "list_all word_ok (update_words key kvs)" "int (length (encode_command (map halved (update_words key kvs)))) < SDS_LIMIT"
  shows "redisvFormatCommand e pf (cstr (update_text key kvs)) [] =
    Some (int (length (encode_command (map halved (update_words key kvs)))), Ptr (cstr (encode_command (map halved (update_words key kvs)))))"
proof -
  let ?ws = "key # concat (map (\<lambda>(f, v). [f, v]) kvs)"
  have ws: "list_all word_ok (''HMSET'' # ?ws)" using assms(2) by (simp add: update_words_def)
  note c = command_words [OF ws]
  show ?thesis
    using format_words [OF assms(1) c(3), of pf] assms(3) c(1,2,4) by (simp add: update_text_words update_words_def)
qed

end
