(* ===== verification/Ycsb_Redis_Correct.thy ===== *)
theory Ycsb_Redis_Correct
  imports Ycsb_Redis
begin

text \<open>
  The database over a server, correct: updates, reads of single fields, and what happens when the connection is lost. The theorems
  compose the model of the database with the formatter, the connection and the reader of the client library. The server is described by
  what it reads and answers: \<open>accepting\<close>, \<open>answers\<close> and \<open>hangs_up\<close>.
\<close>

section \<open>An update and its reply\<close>

lemma redisAppendCommand_appends:
  assumes "plenty e" "c_obuf c = Ptr b" "sds_ok b" "redisvFormatCommand e pf (cstr fmt) ap = Some (int (length x), Ptr (cstr x))"
    "int (length (sds_str b)) + int (length x) < SDS_LIMIT"
  shows "\<exists>b'. redisAppendCommand e pf sys c s (cstr fmt) ap = Some (REDIS_OK, c\<lparr>c_obuf := Ptr b'\<rparr>) \<and> sds_ok b' \<and> sds_str b' = sds_str b @ x"
proof -
  have "sh_len b + int (length x) \<le> SDS_LIMIT" using assms(5) length_sds_str [OF assms(3)] by linarith
  then obtain b' where b': "sdscatlen e b (x @ [NUL]) (int (length x)) = Some (Ptr b')" "sds_ok b'" "sds_str b' = sds_str b @ x"
    using sdscatlen_makes [OF assms(1,3), of x "[NUL]"] by (auto simp: makes_def)
  moreover have "int (length x) \<noteq> - 1" "int (length x) \<noteq> - 2" by simp_all
  ultimately show ?thesis using assms(2,4)
    by (intro exI [of _ b']) (simp add: redisAppendCommand_def redisvAppendCommand_def redisAppendCommand0_def cstr_def)
qed

text \<open>A connection between two commands.\<close>

definition redis_ready :: "redisContext \<Rightarrow> reply_heap \<Rightarrow> bool" where
  "redis_ready c h \<longleftrightarrow> writable c \<and> pending c = [] \<and> has_flag c REDIS_BLOCK \<and> plenty (h_env h) \<and>
     (\<exists>r. c_reader c = Ptr r \<and> idle r h \<and> unread r = [])"

definition reader_room :: "redisContext \<Rightarrow> bool" where
  "reader_room c \<longleftrightarrow> (case c_reader c of NULL \<Rightarrow> False | Ptr r \<Rightarrow> r_len r + 16384 \<le> SDS_LIMIT)"

text \<open>A reply that was taken is released; the reader is ready for the next one.\<close>

lemma redis_ready_free:
  assumes "idle r' h'" "represents v h' (h_next h)" "\<forall>b < h_next h. h_objs h' b = h_objs h b" "heap_ok h"
  shows "\<exists>h2. freeReplyObject h' (h_next h) = Some h2 \<and> idle r' h2 \<and> h_env h2 = h_env h' \<and> (\<forall>b < h_next h. h_objs h2 b = h_objs h b)"
proof -
  have ok: "heap_ok h'" by (rule idle_heap_ok [OF assms(1)])
  have a: "h_objs h' (h_next h) \<noteq> None" by (rule represents_allocated [OF assms(2)])
  have root: "\<not> kid_of h' b (h_next h)" for b
  proof
    assume k: "kid_of h' b (h_next h)"
    then have "b < h_next h" using kid_greater [OF ok k] by simp
    with k assms(3) have "kid_of h b (h_next h)" by (simp add: kid_of_def)
    then show False using kid_greater [OF assms(4)] heap_ok_bound [OF assms(4)] by (metis less_irrefl option.exhaust)
  qed
  let ?h = "without h' (tree_of h' (h_next h))"
  have "open_arrays r' = []" using assms(1) by (auto simp: idle_def open_arrays_def)
  moreover have "heap_ok ?h" by (rule heap_ok_without [OF ok root])
  ultimately have "idle r' ?h" using assms(1) by (auto simp: idle_def rd.live_def replies_inv_def)
  moreover have "b \<notin> tree_of h' (h_next h)" if "b < h_next h" for b
    using that tree_ge [OF ok, of b "h_next h"] by auto
  ultimately show ?thesis using freeReplyObject_eq [OF ok a] assms(3) by auto
qed

lemma update_words_plain: "list_all word_ok (update_words key kvs) \<Longrightarrow> list_all (\<lambda>(f, v). CHR '' '' \<notin> set f \<and> CHR '' '' \<notin> set v) kvs"
  by (induction kvs) (auto simp: update_words_def word_ok_def)

lemma halved_words: "list_all (\<lambda>w. CHR ''%'' \<notin> set w) ws \<Longrightarrow> map halved ws = ws"
  using halved_id by (induction ws) auto

text \<open>The command in the output buffer.\<close>

lemma update_appended:
  assumes "writable c" "pending c = []" "plenty (h_env h)" "list_all word_ok (update_words key kvs)"
    "int (length (encode_command (map halved (update_words key kvs)))) < SDS_LIMIT"
  shows "\<exists>b. redisAppendCommand (h_env h) pf sys c s (cstr (update_text key kvs)) [] = Some (REDIS_OK, c\<lparr>c_obuf := Ptr b\<rparr>) \<and>
    sds_ok b \<and> sds_str b = encode_command (map halved (update_words key kvs))"
proof -
  obtain b where b: "c_obuf c = Ptr b" "sds_ok b" "sds_str b = []" using assms(1,2) by (auto simp: writable_def pending_def)
  have size: "int (length (sds_str b)) + int (length (encode_command (map halved (update_words key kvs)))) < SDS_LIMIT" using b(3) assms(5) by simp
  show ?thesis using redisAppendCommand_appends [OF assms(3) b(1,2) update_format [OF assms(3-5), of pf] size, of sys s] b(3) by auto
qed

text \<open>One update: the words go out, whatever comes back is released.\<close>

lemma redis_update_exchange:
  assumes "redis_ready c h" "reader_room c" "accepting sys sent" "list_all word_ok (update_words key kvs)"
    "answers sys sent (c_fd c) (sent s @ encode_command (map halved (update_words key kvs))) v"
    "rval_ok v" "depth v \<le> 8" "length (encode v) \<le> 16384" "int (length (encode_command (map halved (update_words key kvs)))) < SDS_LIMIT"
  shows "\<exists>c' h' s'. RedisDB_Update sys pf 0 uninit table key kvs (c, h, s) = ret (kOK, (c', h', s')) \<and> redis_ready c' h' \<and>
    (\<forall>b < h_next h. h_objs h' b = h_objs h b)"
proof -
  let ?x = "encode_command (map halved (update_words key kvs))"
  obtain r where r: "c_reader c = Ptr r" "idle r h" "unread r = []" and c: "writable c" "pending c = []" "has_flag c REDIS_BLOCK" "plenty (h_env h)"
    using assms(1) by (auto simp: redis_ready_def)
  obtain b' where b': "redisAppendCommand (h_env h) pf sys c s (cstr (update_text key kvs)) [] = Some (REDIS_OK, c\<lparr>c_obuf := Ptr b'\<rparr>)"
      "sds_ok b'" "sds_str b' = ?x"
    using update_appended [OF c(1,2,4) assms(4,9), of pf sys s] by blast
  let ?c = "c\<lparr>c_obuf := Ptr b'\<rparr>"
  have c': "writable ?c" "has_flag ?c REDIS_BLOCK" "c_reader ?c = Ptr r" "pending ?c = ?x" "c_fd ?c = c_fd c"
    using c(1,3) r(1) b'(2,3) by (simp_all add: writable_def has_flag_def pending_def)
  have room: "r_len r + 16384 \<le> SDS_LIMIT" using assms(2) r(1) by (simp add: reader_room_def)
  have ans: "answers sys sent (c_fd ?c) (sent s @ pending ?c) v" using assms(5) c'(4,5) by simp
  obtain c2 r2 h2 s2 where x: "redisGetReply sys ?c h s = Some (REDIS_OK, h_next h, c2, h2, s2)" "represents v h2 (h_next h)"
      "writable c2" "pending c2 = []" "c_reader c2 = Ptr r2" "idle r2 h2" "unread r2 = []" "c_flags c2 = c_flags ?c" "h_env h2 = h_env h"
      "\<forall>b < h_next h. h_objs h2 b = h_objs h b"
    using redisGetReply_exchange [OF c'(1-3) r(2,3) c(4) assms(3) ans assms(6-8) room] by blast
  obtain h3 where h3: "freeReplyObject h2 (h_next h) = Some h3" "idle r2 h3" "h_env h3 = h_env h2" "\<forall>b < h_next h. h_objs h3 b = h_objs h b"
    using redis_ready_free [OF x(6,2,10) idle_heap_ok [OF r(2)]] by blast
  have "redis_ready c2 h3" using x(3-5,7,8,9) h3(2,3) c(3,4) by (simp add: redis_ready_def has_flag_def)
  moreover have "RedisDB_Update sys pf 0 uninit table key kvs (c, h, s) = ret (kOK, (c2, h3, s2))"
    using b'(1) x(1) h3(1) update_words_plain [OF assms(4)]
    by (simp add: RedisDB_Update_def RedisClient_Command_def take_reply_def)
  ultimately show ?thesis using h3(4) by blast
qed


lemma demo_redis_ready: "redis_ready demo_client demo_heap" "reader_room demo_client" "c_fd demo_client = 0"
  using created_idle [OF demo_reader_created demo_heap_ok]
  by (simp_all add: redis_ready_def reader_room_def demo_client_def demo_context_def writable_def pending_def has_flag_def demo_heap_def)


section \<open>A read and its reply\<close>

text \<open>What the database makes of one element: the text up to the first null byte, and no text for a field that is missing.\<close>

fun is_value :: "rval \<Rightarrow> bool" where
  "is_value (VStr b) \<longleftrightarrow> True"
| "is_value VNil \<longleftrightarrow> True"
| "is_value _ \<longleftrightarrow> False"

fun value_text :: "rval \<Rightarrow> bytes" where
  "value_text (VStr b) = c_str b"
| "value_text _ = []"

lemma depth_values: "list_all is_value vs \<Longrightarrow> depth (VArr vs) \<le> 1 \<and> list_all rval_ok vs"
proof (induction vs)
  case (Cons v vs)
  then show ?case by (cases v) auto
qed simp

lemma str_text_cstr [simp]: "str_text (cstr b) = Some (c_str b)"
proof -
  have "c_str (b @ [NUL]) = c_str b" unfolding c_str_def by (induction b) auto
  then show ?thesis by (simp add: str_text_def cstr_def)
qed

lemma value_represented: "is_value v \<Longrightarrow> represents v h a \<Longrightarrow> value_or_empty h a = Some (value_text v)"
  by (cases v) (auto simp: value_or_empty_def reply_str_def)

lemma hmget_loop_values:
  assumes "ry_element ob = Ptr es \<or> fs = []" "i + length fs = length es" "list_all2 (\<lambda>k v. is_value v \<and> represents v h k) (drop i es) vs"
  shows "hmget_loop h ob i fs result = Some (result @ zip fs (map value_text vs))"
  using assms
proof (induction fs arbitrary: i vs result)
  case (Cons f fs)
  then have "i < length es" by simp
  then have "drop i es = es ! i # drop (Suc i) es" by (rule Cons_nth_drop_Suc [symmetric])
  with Cons.prems(3) obtain v vs' where vs: "vs = v # vs'" "is_value v" "represents v h (es ! i)"
      "list_all2 (\<lambda>k v. is_value v \<and> represents v h k) (drop (Suc i) es) vs'"
    by (auto simp: list_all2_Cons1)
  have "reply_element ob i = Some (es ! i)" using Cons.prems(1) \<open>i < length es\<close> by (simp add: reply_element_def)
  then show ?case using Cons.IH [of "Suc i" vs'] Cons.prems(1,2) vs value_represented by simp
qed simp

lemma hmget_reply:
  assumes "represents (VArr vs) h a" "list_all is_value vs" "length vs = length fs"
  shows "\<exists>ob. h_objs h a = Some ob \<and> ry_type ob = REDIS_REPLY_ARRAY \<and> int (length fs) = ry_elements ob \<and>
    hmget_loop h ob 0 fs result = Some (result @ zip fs (map value_text vs))"
proof -
  obtain ob where ob: "h_objs h a = Some ob" "ry_type ob = REDIS_REPLY_ARRAY" "ry_elements ob = int (length vs)"
    "if vs = [] then ry_element ob = NULL else \<exists>es. ry_element ob = Ptr es \<and> list_all2 (\<lambda>k P. a < k \<and> P h k) es (map represents vs)"
    using assms(1) by auto
  have "hmget_loop h ob 0 fs result = Some (result @ zip fs (map value_text vs))"
  proof (cases "vs = []")
    case False
    then obtain es where es: "ry_element ob = Ptr es" "list_all2 (\<lambda>k P. a < k \<and> P h k) es (map represents vs)" using ob(4) by auto
    then have "length es = length fs" "list_all2 (\<lambda>k v. is_value v \<and> represents v h k) (drop 0 es) vs"
      using assms(2,3) by (auto simp: list_all2_conv_all_nth list_all_length)
    then show ?thesis using hmget_loop_values [of ob es fs 0] es(1) by simp
  qed (use assms(3) in simp)
  then show ?thesis using ob assms(3) by auto
qed



section \<open>A lost connection\<close>

text \<open>
  C14. A lost connection: when the server has closed the connection, an update ends the program with status 2 only if the variable for the
  reply, which is not initialised, happens to be 0. With the address of nothing that is allocated in it, the error path frees that address.
\<close>

theorem redis_lost_connection:
  assumes "redis_ready c h" "accepting sys sent" "list_all word_ok (update_words key kvs)" "hangs_up sys (c_fd c)"
    "int (length (encode_command (map halved (update_words key kvs)))) < SDS_LIMIT" "h_objs h uninit = None"
  shows "RedisDB_Update sys pf 0 uninit table key kvs (c, h, s) = (if uninit = 0 then throw (Exited 2) else None)"
proof -
  obtain r where r: "c_reader c = Ptr r" "idle r h" "unread r = []" and c: "writable c" "pending c = []" "has_flag c REDIS_BLOCK" "plenty (h_env h)"
    using assms(1) by (auto simp: redis_ready_def)
  obtain b' where b': "redisAppendCommand (h_env h) pf sys c s (cstr (update_text key kvs)) [] = Some (REDIS_OK, c\<lparr>c_obuf := Ptr b'\<rparr>)" "sds_ok b'"
    using update_appended [OF c(1,2,4) assms(3,5), of pf sys s] by blast
  let ?c = "c\<lparr>c_obuf := Ptr b'\<rparr>"
  have c': "writable ?c" "has_flag ?c REDIS_BLOCK" "c_reader ?c = Ptr r" "hangs_up sys (c_fd ?c)"
    using c(1,3) r(1) b'(2) assms(4) by (simp_all add: writable_def has_flag_def)
  obtain c2 r2 s2 where x: "redisGetReply sys ?c h s = Some (REDIS_ERR, 0, c2, h, s2)" "c_reader c2 = Ptr r2" "idle r2 h"
    using redisGetReply_eof [OF c'(1-3) r(2,3) c(4) assms(2) c'(4)] by blast
  obtain h' where "redisReaderFree r2 h = Some h'" using rd.redisReaderFree_ok [of r2 h] idle_inv [OF x(3)] by blast
  then have "redisFree sys c2 h s2 \<noteq> None" using x(2) by (simp add: redisFree_def)
  moreover have "freeReplyObject h uninit = None" if "uninit \<noteq> 0"
    using that assms(6) by (simp add: freeReplyObject_def free_loop.simps)
  ultimately show ?thesis
    using b'(1) x(1) update_words_plain [OF assms(3)]
    by (auto simp: RedisDB_Update_def RedisClient_Command_def take_reply_def HandleError_def)
qed

lemma redis_lost_connection_witness:
  "RedisDB_Update ((demo_os 0)\<lparr>os_read := (\<lambda>fd n s. (0, [], s))\<rparr>) (\<lambda>f a. []) 0 77 ''usertable'' ''user1'' [(''field0'', ''x'')] (demo_client, demo_heap, demo_net) = None"
proof -
  let ?sys = "(demo_os 0)\<lparr>os_read := (\<lambda>fd n s. (0, [], s))\<rparr>"
  have w: "list_all word_ok (update_words ''user1'' [(''field0'', ''x'')])" by (simp add: update_words_def word_ok_def)
  have h: "map halved (update_words ''user1'' [(''field0'', ''x'')]) = [''HMSET'', ''user1'', ''field0'', ''x'']" by (simp add: update_words_def)
  have len: "length (encode_command [''HMSET'', ''user1'', ''field0'', ''x'']) = 45" by code_simp
  have "accepting ?sys n_sent" using demo_writes(2) [of 0] by (simp add: accepting_def)
  moreover have "hangs_up ?sys fd" for fd by (simp add: hangs_up_def)
  ultimately show ?thesis
    using redis_lost_connection [OF demo_redis_ready(1) _ w, of ?sys n_sent 77 "\<lambda>f a. []" "''usertable''" demo_net] by (simp add: h len demo_heap_def)
qed

end
