(* ===== verification/Spec2Isabelle.thy ===== *)
theory Spec2Isabelle
  imports Stress Smoketest Sds_Correct Dict Reader_Stream Format_String Async_Messages Matmul Ycsb_Threads Ycsb_Redis_Correct
begin

text \<open>
  Verification of the LtRAM policy bench.

  The program studies a policy for a long-term memory zone (LtRAM) that is cheap to read and expensive to write. \<open>src/ltram_module\<close> is
  the kernel side: the write-fault handler that moves a page out of the zone when a process writes to it (\<open>ltram.c\<close>) and a smoke
  test of the zone (\<open>ltram_smoketest.c\<close>). \<open>src/workloads\<close> holds the loads that exercise the policy: a stress test
  of the write fault (\<open>rwstress\<close>), a matrix multiplication (\<open>matmul\<close>) and the key-value benchmark YCSB-C, which runs
  on a table in memory or on a server, through the client library under \<open>YCSB-C/redis/hiredis\<close>.

  \<^bold>\<open>Conventions.\<close> \<open>C_Base\<close> has the machine integers (\<open>to_int\<close>, \<open>to_size\<close> and the like narrow as C does, signed overflow
  wraps), pointers that are \<open>NULL\<close> or point to a value, byte memory with bounds, and the allocator: a parameter \<open>cenv\<close> that
  may refuse any request. A result \<open>None\<close> is behaviour the language does not define (an access out of bounds, the use of a freed
  object, a failed assertion) or a loop that does not end, so that a statement with \<open>Some\<close> also says that neither happens.
  C++ functions that throw or exit give a value of the sum type \<open>run\<close> of \<open>Ycsb_Utils\<close>. Loops that may run forever are
  \<open>partial_function (option)\<close>; there is no fuel.

  \<^bold>\<open>Kernel and loads.\<close>
  \<^item> \<open>Ltram\<close>: \<open>ltram_page_mkwrite\<close> and its counters. The kernel is a parameter (\<open>kernel_ops\<close>); \<open>migrate_moves\<close> states
    what the comments say of \<open>ltram_migrate_from\<close>. Writes never go through to the zone.
  \<^item> \<open>Smoketest\<close>: the six tests and the init function over the page allocator as a parameter.
  \<^item> \<open>Stress\<close>: the whole of \<open>ltram_rw_stress.c\<close> on a kernel with the handler. The results of its system calls are a parameter.
  \<^item> \<open>Matmul\<close>: the whole of \<open>matrix_multiply.c\<close>; \<open>float\<close> arithmetic has no laws, so that the results hold with rounding.

  \<^bold>\<open>The benchmark YCSB-C.\<close>
  \<^item> \<open>Ycsb_Utils\<close>: \<open>core/utils.h\<close>, \<open>core/properties.h\<close>. \<open>Ycsb_Generators\<close>: the headers \<open>core/*_generator.h\<close>; the draws of
    the random engines and the arithmetic on \<open>double\<close> are a parameter (\<open>dbl_ops\<close>), with laws only where a theorem names them
    (\<open>exact_ops\<close>, \<open>draws_ok\<close>).
  \<^item> \<open>Ycsb_Workload\<close>: \<open>core/core_workload.h\<close> and \<open>.cc\<close>: the record of the workload, its initialisation from the properties,
    keys, operations, fields, values.
  \<^item> \<open>Ycsb_Table\<close>: the hashed strings and tables of \<open>lib\<close> and the database of \<open>db/hashtable_db.cc\<close>, refined to a map of maps.
    The order in which the container iterates is a parameter.
  \<^item> \<open>Ycsb_Client\<close>: \<open>core/client.h\<close>, \<open>db/basic_db.h\<close>, \<open>db/db_factory.cc\<close>, \<open>ycsbc.cc\<close>; a database is the record of its
    virtual functions. \<open>Ycsb_Run\<close> has the interface \<open>key_store\<close> between client and database, its interpretation on the
    database in memory, and the run of load and transactions. \<open>Ycsb_Threads\<close> is the load by several threads, a step relation over
    all interleavings of the critical sections.
  \<^item> \<open>Ycsb_Redis\<close>, \<open>Ycsb_Redis_Correct\<close>: \<open>redis/redis_client.h\<close> and \<open>db/redis_db.cc\<close> on top of the model of the client library: what
    an update sends, what a read returns, what a lost connection does.

  \<^bold>\<open>The client library hiredis.\<close>
  \<^item> \<open>Sds\<close>, \<open>Sds_Edit\<close>, \<open>Sds_Number\<close>, \<open>Sds_Text\<close>: the string library \<open>sds.c\<close>; \<open>Sds_Correct\<close> its functional behaviour. The locale
    \<open>byte_buffer\<close> is the interface for its users.
  \<^item> \<open>Dict\<close>: the hash table \<open>dict.c\<close>, refined to a map; the locale \<open>callback_table\<close> is the interface for the asynchronous client.
  \<^item> \<open>Reader\<close>: the protocol reader \<open>read.c\<close>, over any set of object functions; \<open>Reader_Safe\<close> proves it safe against every set that
    obeys the locale \<open>reply_objects\<close>. \<open>Reply\<close>: the default object functions of \<open>hiredis.c\<close> over a heap of reply structures.
    \<open>Reader_Correct\<close>: safety over whole sessions. \<open>Resp\<close>: the protocol's values and their encoding. \<open>Reader_Round\<close>,
    \<open>Reader_Stream\<close>: what is encoded is read back, in pieces of any size.
  \<^item> \<open>Format\<close>: the formatters of \<open>hiredis.c\<close>; \<open>Format_Correct\<close>, \<open>Format_String\<close>: they write exactly the encoded command.
  \<^item> \<open>Socket\<close>, \<open>Net\<close>: \<open>net.c\<close> over the operating system as a parameter (\<open>os\<close>); \<open>Net_Correct\<close>: the outcome of connecting.
  \<^item> \<open>Context\<close>: the synchronous client of \<open>hiredis.c\<close>; \<open>Context_Correct\<close>: pipelines, exchanges with a server, reconnecting.
  \<^item> \<open>Async\<close>: the asynchronous client \<open>async.c\<close>; callbacks are a parameter. \<open>Async_Queue\<close>: the callback lists as queues (locale
    \<open>callback_queues\<close>). \<open>Async_Correct\<close>, \<open>Async_Close\<close>, \<open>Async_Commands\<close>, \<open>Async_Messages\<close>: delivery of replies, freeing and
    disconnecting, issuing of commands and subscriptions, pushed messages.

  \<^bold>\<open>Bounds.\<close> Strings stay below \<open>SDS_LIMIT\<close>, where \<open>size_t\<close> does not wrap; a reply that the exchange theorems read at once has at most
  16384 bytes, the size of the buffer of \<open>redisBufferRead\<close>; the reader accepts eight levels of arrays. The streams of
  \<open>Reader_Stream\<close> have no such bound on the whole.

  \<^bold>\<open>Not modelled.\<close> The adapters to event libraries under \<open>hiredis/adapters\<close>, which only forward events to the two handlers that are
  modelled; the databases on TBB, which are not built by default and rest on a library outside the repository; \<open>timer.h\<close>; tests, examples
  and samples; \<open>win32.h\<close> and \<open>fmacros.h\<close>; \<open>basic_tests/cow_to_dram.c\<close>, which is one comment; ownership of the strings of \<open>sds\<close>
  and of the database in memory, which are values here; messages to the standard streams; scripts, configuration and the kernel itself,
  a submodule.
\<close>

end
